(* ===== verification/Prelude.thy ===== *)
theory Prelude
  imports Main "HOL-Library.AList" "HOL-Library.Multiset" "HOL-Library.Char_ord"
    "HOL-Library.List_Lexorder"
begin

text \<open>
  Shared vocabulary of the development: the machine types of the Go sources
  (unsigned and signed 64-bit integers with their wrap-around written out, instants and
  durations of package \<^verbatim>\<open>time\<close>), references to store entries, the lemma collections that
  the component theories fill, and the generic facts on lists, options and association
  lists they share.
\<close>

named_theorems dll_simps \<open>effect of the linked-list operations on the represented list\<close>
named_theorems heap_simps \<open>effect of the heap operations on the stored deadlines\<close>
named_theorems frame_simps \<open>fields an operation leaves unchanged\<close>

section \<open>Machine integers\<close>

text \<open>Go's \<^verbatim>\<open>uint64\<close>: natural numbers with the wrap-around of \<open>+\<close> and \<open>-\<close> written out.\<close>

type_synonym u64 = nat

definition add64 :: "u64 \<Rightarrow> u64 \<Rightarrow> u64" where
  "add64 a b = (a + b) mod 2 ^ 64"

definition sub64 :: "u64 \<Rightarrow> u64 \<Rightarrow> u64" where
  "sub64 a b = (if b \<le> a then a - b else (a + 2 ^ 64 - b) mod 2 ^ 64)"

lemma add64_small [simp]: "a + b < 2 ^ 64 \<Longrightarrow> add64 a b = a + b"
  by (simp add: add64_def)

lemma sub64_small [simp]: "b \<le> a \<Longrightarrow> sub64 a b = a - b"
  by (simp add: sub64_def)

text \<open>Go's \<^verbatim>\<open>int64\<close>: integers reduced to the two's complement range.\<close>

definition wrap64 :: "int \<Rightarrow> int" where
  "wrap64 n = (n + 2 ^ 63) mod 2 ^ 64 - 2 ^ 63"

definition is_int64 :: "int \<Rightarrow> bool" where
  "is_int64 n \<longleftrightarrow> - (2 ^ 63) \<le> n \<and> n < 2 ^ 63"

lemma wrap64_range: "is_int64 (wrap64 n)"
  by (simp add: is_int64_def wrap64_def)

lemma wrap64_id [simp]: "is_int64 n \<Longrightarrow> wrap64 n = n"
  by (simp add: is_int64_def wrap64_def)

lemma wrap64_over: "2 ^ 63 \<le> n \<Longrightarrow> n < 2 ^ 64 \<Longrightarrow> wrap64 n = n - 2 ^ 64"
proof -
  assume n: "2 ^ 63 \<le> n" "n < 2 ^ 64"
  have "(n + 2 ^ 63) mod 2 ^ 64 = (n + 2 ^ 63 - 2 ^ 64) mod 2 ^ 64" by (rule minus_mod_self2 [symmetric])
  also have "\<dots> = n + 2 ^ 63 - 2 ^ 64" using n by (intro mod_pos_pos_trivial) simp_all
  finally show ?thesis by (simp add: wrap64_def)
qed

section \<open>Time\<close>

text \<open>
  An instant of package \<^verbatim>\<open>time\<close> is its number of nanoseconds since January 1 of year 1,
  which is the origin Go uses: the zero value of \<^verbatim>\<open>time.Time\<close>, the one for which
  \<^verbatim>\<open>IsZero\<close> holds, is \<open>0\<close>. A \<^verbatim>\<open>time.Duration\<close> is a signed 64-bit nanosecond count.
  The clock is an argument of every operation that reads it.
\<close>

type_synonym gotime = int
type_synonym duration = int

abbreviation IsZero :: "gotime \<Rightarrow> bool" where
  "IsZero t \<equiv> t = 0"

definition maxDuration :: duration where
  "maxDuration = 2 ^ 63 - 1"

definition minDuration :: duration where
  "minDuration = - (2 ^ 63)"

text \<open>\<^verbatim>\<open>Time.Sub\<close> saturates.\<close>

definition timeSub :: "gotime \<Rightarrow> gotime \<Rightarrow> duration" where
  "timeSub t u = max minDuration (min maxDuration (t - u))"

definition second :: duration where "second = 1000000000"
definition millisecond :: duration where "millisecond = 1000000"

section \<open>References\<close>

text \<open>
  A store entry (an object of type \<^verbatim>\<open>entry\<close>, always reached through a pointer) is referred
  to by its key. Within one DB there is at most one live entry per key, and an entry that
  is removed is unlinked from every structure; the store invariant proves both. Pointer
  fields of entries are maps from references, one map per field.
\<close>

type_synonym eref = string

section \<open>Lists and options\<close>

definition hd_or :: "'a list \<Rightarrow> 'a option \<Rightarrow> 'a option" where
  "hd_or xs d = (case xs of [] \<Rightarrow> d | x # _ \<Rightarrow> Some x)"

definition last_or :: "'a list \<Rightarrow> 'a option \<Rightarrow> 'a option" where
  "last_or xs d = (if xs = [] then d else Some (last xs))"

lemma hd_or_simps [simp]: "hd_or [] d = d" "hd_or (x # xs) d = Some x"
  by (simp_all add: hd_or_def)

lemma last_or_simps [simp]: "last_or [] d = d" "last_or (xs @ [x]) d = Some x"
  by (simp_all add: last_or_def)

lemma last_or_Cons: "last_or (x # xs) d = last_or xs (Some x)"
  by (simp add: last_or_def)

lemma last_or_append: "last_or (xs @ ys) d = last_or ys (last_or xs d)"
  by (simp add: last_or_def)

lemma hd_or_append: "hd_or (xs @ ys) d = hd_or xs (hd_or ys d)"
  by (cases xs) simp_all

lemma last_or_None_iff [simp]: "last_or xs None = None \<longleftrightarrow> xs = []"
  by (simp add: last_or_def)

lemma hd_or_None_iff [simp]: "hd_or xs None = None \<longleftrightarrow> xs = []"
  by (cases xs) simp_all

lemma option_eqI: "(\<And>t. x = Some t \<longleftrightarrow> y = Some t) \<Longrightarrow> x = y"
  by (metis option.exhaust)

lemma find_Some_D: "find P xs = Some x \<Longrightarrow> P x \<and> x \<in> set xs"
  by (auto simp: find_Some_iff)

lemma find_spec:
  "case find P xs of Some x \<Rightarrow> x \<in> set xs \<and> P x | None \<Rightarrow> (\<forall>x \<in> set xs. \<not> P x)"
  by (induction xs) (auto split: option.splits)

lemma find_exists: "x \<in> set xs \<Longrightarrow> P x \<Longrightarrow> \<exists>y. find P xs = Some y"
  by (metis find_None_iff option.exhaust)

lemma bex_set_nth: "(\<exists>x \<in> set xs. P x) \<longleftrightarrow> (\<exists>i < length xs. P (xs ! i))"
  by (metis in_set_conv_nth)

lemma sum_list_concat: "sum_list (concat xss) = sum_list (map sum_list xss)"
  by (induction xss) simp_all

lemma distinct_concat_disjoint:
  assumes "\<And>xs. xs \<in> set xss \<Longrightarrow> distinct xs"
    and "\<And>i j. i < j \<Longrightarrow> j < length xss \<Longrightarrow> set (xss ! i) \<inter> set (xss ! j) = {}"
  shows "distinct (concat xss)"
  using assms
proof (induction xss)
  case (Cons xs xss)
  have "set xs \<inter> set ys = {}" if "ys \<in> set xss" for ys
  proof -
    from that obtain j where "j < length xss" "ys = xss ! j" by (auto simp: in_set_conv_nth)
    then show ?thesis using Cons.prems(2) [of 0 "Suc j"] by simp
  qed
  moreover have "distinct (concat xss)"
  proof (rule Cons.IH)
    fix i j assume "i < j" "j < length xss"
    then show "set (xss ! i) \<inter> set (xss ! j) = {}" using Cons.prems(2) [of "Suc i" "Suc j"] by simp
  qed (use Cons.prems(1) in simp)
  ultimately show ?case using Cons.prems(1) by auto
qed simp

text \<open>The first match of a list sorted by \<open>f\<close> minimises \<open>f\<close> among the matches.\<close>

lemma find_sorted_min:
  assumes "sorted (map f xs)" "find P xs = Some x" "y \<in> set xs" "P y"
  shows "f x \<le> (f y :: 'b :: linorder)"
  using assms by (induction xs) (auto split: if_splits)

section \<open>Association lists\<close>

lemma map_of_keys: "k \<in> set (map fst al) \<longleftrightarrow> map_of al k \<noteq> None"
  by (simp add: map_of_eq_None_iff)

lemma map_of_update_conv: "map_of (AList.update k v al) k' = (if k' = k then Some v else map_of al k')"
  by (simp add: update_conv)

lemma map_of_delete_conv: "map_of (AList.delete k al) k' = (if k' = k then None else map_of al k')"
  by (simp add: delete_conv)

lemma map_fst_delete: "map fst (AList.delete k al) = filter (\<lambda>x. x \<noteq> k) (map fst al)"
  by (induction al) auto

lemma keys_delete [simp]: "fst ` set (AList.delete k al) = fst ` set al - {k}"
  using arg_cong [OF map_fst_delete [of k al], of set] by auto

lemma keys_update [simp]: "fst ` set (AList.update k v al) = insert k (fst ` set al)"
  by (simp add: dom_update)

lemma sum_delete:
  fixes f :: "'k \<times> 'v \<Rightarrow> nat"
  assumes "distinct (map fst al)" "map_of al k = Some v"
  shows "sum_list (map f al) = f (k, v) + sum_list (map f (AList.delete k al))"
  using assms
proof (induction al)
  case (Cons p al)
  show ?case
  proof (cases "fst p = k")
    case True
    with Cons.prems have "k \<notin> fst ` set al" "p = (k, v)" by (cases p; simp)+
    then show ?thesis by (simp add: delete_notin_dom)
  next
    case False
    with Cons show ?thesis by (cases p) auto
  qed
qed simp

lemma sum_update_new:
  fixes f :: "'k \<times> 'v \<Rightarrow> nat"
  assumes "map_of al k = None"
  shows "sum_list (map f (AList.update k v al)) = sum_list (map f al) + f (k, v)"
  using assms by (induction al) auto

lemma sum_update_old:
  fixes f :: "'k \<times> 'v \<Rightarrow> nat"
  assumes "distinct (map fst al)" "map_of al k = Some v"
  shows "sum_list (map f (AList.update k w al)) + f (k, v) = sum_list (map f al) + f (k, w)"
  using assms
proof (induction al)
  case (Cons p al)
  then show ?case by (cases p) auto
qed simp

end
