(* ===== verification/Interfaces.thy ===== *)
theory Interfaces
  imports Prelude
begin

text \<open>
  The contracts between the store and its indexes. Every always-on index of a shard (the
  recency list, the insertion list, the dense array of the random policy, the frequency
  buckets) holds a set of entries and supports adding an entry that is not in it and
  removing one that is: \<open>entry_index\<close>. The two lists also promise an order:
  \<open>order_index\<close>. The deadline heaps promise a map from keys to instants and access to a
  least one: \<open>deadline_queue\<close>. Each locale is interpreted on the definitions that model
  the code, in the theory of the component.
\<close>

locale entry_index =
  fixes inv :: "'i \<Rightarrow> bool"
    and members :: "'i \<Rightarrow> eref set"
    and add :: "eref \<Rightarrow> 'i \<Rightarrow> 'i"
    and del :: "eref \<Rightarrow> 'i \<Rightarrow> 'i"
  assumes inv_add: "inv i \<Longrightarrow> e \<notin> members i \<Longrightarrow> inv (add e i)"
    and members_add: "inv i \<Longrightarrow> e \<notin> members i \<Longrightarrow> members (add e i) = insert e (members i)"
    and inv_del: "inv i \<Longrightarrow> e \<in> members i \<Longrightarrow> inv (del e i)"
    and members_del: "inv i \<Longrightarrow> e \<in> members i \<Longrightarrow> members (del e i) = members i - {e}"
begin

lemma members_del_add: "inv i \<Longrightarrow> e \<in> members i \<Longrightarrow> members (add e (del e i)) = members i"
  by (auto simp: members_add members_del inv_del)

lemma inv_del_add: "inv i \<Longrightarrow> e \<in> members i \<Longrightarrow> inv (add e (del e i))"
  by (simp add: inv_add members_del inv_del)

lemma inv_members_fold_add:
  "inv i \<Longrightarrow> distinct es \<Longrightarrow> set es \<inter> members i = {} \<Longrightarrow>
     inv (fold add es i) \<and> members (fold add es i) = set es \<union> members i"
  by (induction es arbitrary: i) (auto simp: inv_add members_add)

lemma inv_members_fold_del:
  "inv i \<Longrightarrow> distinct es \<Longrightarrow> set es \<subseteq> members i \<Longrightarrow>
     inv (fold del es i) \<and> members (fold del es i) = members i - set es"
proof (induction es arbitrary: i)
  case (Cons e es)
  then have "inv (del e i)" "set es \<subseteq> members (del e i)"
    by (auto simp: inv_del members_del)
  with Cons show ?case by (auto simp: members_del)
qed simp

end

locale order_index = entry_index inv members add del
  for inv :: "'i \<Rightarrow> bool" and members add del +
  fixes order :: "'i \<Rightarrow> eref list"
  assumes members_order: "inv i \<Longrightarrow> members i = set (order i)"
    and distinct_order: "inv i \<Longrightarrow> distinct (order i)"
    and order_add: "inv i \<Longrightarrow> e \<notin> members i \<Longrightarrow> order (add e i) = order i @ [e]"
    and order_del: "inv i \<Longrightarrow> e \<in> members i \<Longrightarrow> order (del e i) = remove1 e (order i)"
begin

lemma order_touch:
  "inv i \<Longrightarrow> e \<in> members i \<Longrightarrow> order (add e (del e i)) = remove1 e (order i) @ [e]"
  by (simp add: order_add order_del inv_del members_del)

lemma order_fold_add:
  "inv i \<Longrightarrow> distinct es \<Longrightarrow> set es \<inter> members i = {} \<Longrightarrow> order (fold add es i) = order i @ es"
  by (induction es arbitrary: i) (auto simp: inv_add members_add order_add)

end

locale deadline_queue =
  fixes inv :: "'q \<Rightarrow> bool"
    and deadlines :: "'q \<Rightarrow> eref \<Rightarrow> gotime option"
    and push :: "eref \<Rightarrow> gotime \<Rightarrow> 'q \<Rightarrow> 'q"
    and drop_key :: "eref \<Rightarrow> 'q \<Rightarrow> 'q"
    and peek :: "'q \<Rightarrow> (eref \<times> gotime) option"
  assumes inv_push: "inv q \<Longrightarrow> deadlines q k = None \<Longrightarrow> inv (push k t q)"
    and deadlines_push: "inv q \<Longrightarrow> deadlines q k = None \<Longrightarrow>
      deadlines (push k t q) = (deadlines q)(k \<mapsto> t)"
    and inv_drop: "inv q \<Longrightarrow> inv (drop_key k q)"
    and deadlines_drop: "inv q \<Longrightarrow> deadlines (drop_key k q) = (deadlines q)(k := None)"
    and peek_None: "inv q \<Longrightarrow> peek q = None \<longleftrightarrow> deadlines q = Map.empty"
    and peek_Some: "inv q \<Longrightarrow> peek q = Some (k, t) \<Longrightarrow> deadlines q k = Some t"
    and peek_least: "inv q \<Longrightarrow> peek q = Some (k, t) \<Longrightarrow> deadlines q k' = Some t' \<Longrightarrow> t \<le> t'"
begin

text \<open>Replacing the deadline of a key: drop what is there, then push.\<close>

lemma inv_replace: "inv q \<Longrightarrow> inv (push k t (drop_key k q))"
  by (simp add: inv_push inv_drop deadlines_drop)

lemma deadlines_replace: "inv q \<Longrightarrow> deadlines (push k t (drop_key k q)) = (deadlines q)(k \<mapsto> t)"
  by (simp add: deadlines_push inv_drop deadlines_drop)

lemma peek_after_due:
  "inv q \<Longrightarrow> peek q = Some (k, t) \<Longrightarrow> now < t \<Longrightarrow> deadlines q k' = Some t' \<Longrightarrow> now < t'"
  using peek_least by fastforce

end

end
