(* ===== verification/Dll.thy ===== *)
theory Dll
  imports Interfaces
begin

text \<open>
  The intrusive doubly-linked lists of \<^verbatim>\<open>internal/store/lru.go\<close>. A list of one kind is the
  pair of link fields of its entries (\<^verbatim>\<open>lPrev/lNext\<close>, \<^verbatim>\<open>iPrev/iNext\<close>, \<^verbatim>\<open>gPrev/gNext\<close>,
  \<^verbatim>\<open>giPrev/giNext\<close>, selected in the source by \<^verbatim>\<open>listKind\<close>), as maps from references, with
  its head and tail pointers. The operations change the pointers one by one as the source
  does; the lemmas show that they act on the represented list as append, removal and
  move-to-back.
\<close>

record dll =
  dprev :: "eref \<Rightarrow> eref option"
  dnext :: "eref \<Rightarrow> eref option"
  dhead :: "eref option"
  dtail :: "eref option"

definition dllEmpty :: dll where
  "dllEmpty = \<lparr>dprev = (\<lambda>_. None), dnext = (\<lambda>_. None), dhead = None, dtail = None\<rparr>"

definition dllRemove :: "eref \<Rightarrow> dll \<Rightarrow> dll" where
  "dllRemove e d =
     (let prev = dprev d e; nxt = dnext d e;
          d1 = (case prev of
                  Some p \<Rightarrow> d\<lparr>dnext := (dnext d)(p := nxt)\<rparr>
                | None \<Rightarrow> d\<lparr>dhead := nxt\<rparr>);
          d2 = (case nxt of
                  Some n \<Rightarrow> d1\<lparr>dprev := (dprev d1)(n := prev)\<rparr>
                | None \<Rightarrow> d1\<lparr>dtail := prev\<rparr>)
      in d2\<lparr>dprev := (dprev d2)(e := None), dnext := (dnext d2)(e := None)\<rparr>)"

definition dllPushTail :: "eref \<Rightarrow> dll \<Rightarrow> dll" where
  "dllPushTail e d =
     (let d1 = d\<lparr>dprev := (dprev d)(e := dtail d), dnext := (dnext d)(e := None)\<rparr>;
          d2 = (case dtail d1 of
                  Some t \<Rightarrow> d1\<lparr>dnext := (dnext d1)(t := Some e)\<rparr>
                | None \<Rightarrow> d1\<lparr>dhead := Some e\<rparr>)
      in d2\<lparr>dtail := Some e\<rparr>)"

definition dllTouch :: "eref \<Rightarrow> dll \<Rightarrow> dll" where
  "dllTouch e d = dllPushTail e (dllRemove e d)"

text \<open>
  Following the next pointers from a node, as the loops
  \<^verbatim>\<open>for e := head; e != nil; e = e.next\<close> do. The first argument bounds the number of nodes
  visited; \<open>dll_walk_enough\<close> shows that the number of linked nodes is enough.
\<close>

fun dll_walk :: "nat \<Rightarrow> (eref \<Rightarrow> eref option) \<Rightarrow> eref option \<Rightarrow> eref list" where
  "dll_walk 0 nx p = []"
| "dll_walk (Suc n) nx None = []"
| "dll_walk (Suc n) nx (Some e) = e # dll_walk n nx (nx e)"

section \<open>Segments\<close>

text \<open>
  \<open>seg p n a xs b\<close>: the nodes \<open>xs\<close> are chained by \<open>p\<close> and \<open>n\<close>, the first one's previous
  node is \<open>a\<close> and the last one's next node is \<open>b\<close>.
\<close>

fun seg :: "('a \<Rightarrow> 'a option) \<Rightarrow> ('a \<Rightarrow> 'a option) \<Rightarrow> 'a option \<Rightarrow> 'a list \<Rightarrow> 'a option \<Rightarrow> bool" where
  "seg p n a [] b \<longleftrightarrow> True"
| "seg p n a (x # xs) b \<longleftrightarrow> p x = a \<and> n x = hd_or xs b \<and> seg p n (Some x) xs b"

lemma seg_append:
  "seg p n a (xs @ ys) b \<longleftrightarrow> seg p n a xs (hd_or ys b) \<and> seg p n (last_or xs a) ys b"
  by (induction xs arbitrary: a) (auto simp: hd_or_append last_or_Cons)

lemma seg_cong:
  "(\<And>x. x \<in> set xs \<Longrightarrow> p x = p' x \<and> n x = n' x) \<Longrightarrow> seg p n a xs b = seg p' n' a xs b"
  by (induction xs arbitrary: a) auto

lemma seg_frame [simp]:
  "x \<notin> set xs \<Longrightarrow> seg (p(x := v)) n a xs b = seg p n a xs b"
  "x \<notin> set xs \<Longrightarrow> seg p (n(x := v)) a xs b = seg p n a xs b"
  by (rule seg_cong; auto)+

text \<open>Redirecting the outer pointers of a segment.\<close>

lemma seg_set_next:
  "seg p n a (xs @ [y]) b \<Longrightarrow> y \<notin> set xs \<Longrightarrow> seg p (n(y := b')) a (xs @ [y]) b'"
  by (simp add: seg_append)

lemma seg_set_prev:
  "seg p n a (y # ys) b \<Longrightarrow> y \<notin> set ys \<Longrightarrow> seg (p(y := a')) n a' (y # ys) b"
  by simp

lemma seg_nextD: "seg p n a (xs @ x # ys) b \<Longrightarrow> n x = hd_or ys b \<and> p x = last_or xs a"
  by (simp add: seg_append)

text \<open>Splicing a node into a segment and out of it.\<close>

lemma seg_insert:
  assumes "seg p n a (xs @ ys) b" "distinct (xs @ x # ys)"
  shows "seg ((if ys = [] then p else p(hd ys := Some x))(x := last_or xs a))
             ((if xs = [] then n else n(last xs := Some x))(x := hd_or ys b)) a (xs @ x # ys) b"
proof -
  from assms have s: "seg p n a xs (hd_or ys b)" "seg p n (last_or xs a) ys b"
    by (simp_all add: seg_append)
  have l: "seg p (if xs = [] then n else n(last xs := Some x)) a xs (Some x)"
    using s(1) assms(2) by (cases xs rule: rev_cases) (simp_all add: seg_append)
  have r: "seg (if ys = [] then p else p(hd ys := Some x)) n (Some x) ys b"
    using s(2) assms(2) by (cases ys) simp_all
  have "last xs \<notin> set ys" if "xs \<noteq> []"
    using assms(2) that by (meson disjoint_iff distinct_append last_in_set list.set_intros(2))
  moreover have "hd ys \<notin> set xs" if "ys \<noteq> []"
    using assms(2) that by (cases ys) auto
  moreover have "x \<notin> set xs" "x \<notin> set ys" using assms(2) by auto
  ultimately show ?thesis using l r
    by (auto simp: seg_append)
qed

lemma seg_remove:
  assumes "seg p n a (xs @ x # ys) b" "distinct (xs @ x # ys)"
  shows "seg (if ys = [] then p else p(hd ys := last_or xs a))
             (if xs = [] then n else n(last xs := hd_or ys b)) a (xs @ ys) b"
proof -
  from assms have s: "seg p n a xs (Some x)" "seg p n (Some x) ys b"
    by (simp_all add: seg_append)
  have l: "seg p (if xs = [] then n else n(last xs := hd_or ys b)) a xs (hd_or ys b)"
    using s(1) assms(2) by (cases xs rule: rev_cases) (simp_all add: seg_append)
  have r: "seg (if ys = [] then p else p(hd ys := last_or xs a)) n (last_or xs a) ys b"
    using s(2) assms(2) by (cases ys) simp_all
  have "last xs \<notin> set ys" if "xs \<noteq> []"
    using assms(2) that by (meson disjoint_iff distinct_append last_in_set list.set_intros(2))
  moreover have "hd ys \<notin> set xs" if "ys \<noteq> []"
    using assms(2) that by (cases ys) auto
  ultimately show ?thesis using l r by (auto simp: seg_append)
qed

lemma dll_walk_seg: "seg p n a xs None \<Longrightarrow> dll_walk k n (hd_or xs None) = take k xs"
proof (induction xs arbitrary: a k)
  case Nil
  then show ?case by (cases k) simp_all
next
  case (Cons x xs)
  then have "seg p n (Some x) xs None" by simp
  with Cons show ?case by (cases k) auto
qed

section \<open>The represented list\<close>

text \<open>
  \<open>dll_core d xs\<close>: head, tail and links of \<open>d\<close> describe the list \<open>xs\<close>. \<open>dll_rep\<close> adds that
  nodes outside the list have nil links. The buckets of the frequency index share one pair
  of link fields, so for them only the first holds.
\<close>

definition dll_core :: "dll \<Rightarrow> eref list \<Rightarrow> bool" where
  "dll_core d xs \<longleftrightarrow> distinct xs \<and> dhead d = hd_or xs None \<and> dtail d = last_or xs None \<and>
     seg (dprev d) (dnext d) None xs None"

definition dll_rep :: "dll \<Rightarrow> eref list \<Rightarrow> bool" where
  "dll_rep d xs \<longleftrightarrow> dll_core d xs \<and> (\<forall>e. e \<notin> set xs \<longrightarrow> dprev d e = None \<and> dnext d e = None)"

definition dll_inv :: "dll \<Rightarrow> bool" where
  "dll_inv d \<longleftrightarrow> (\<exists>xs. dll_rep d xs)"

definition dll_list :: "dll \<Rightarrow> eref list" where
  "dll_list d = (THE xs. dll_rep d xs)"

definition dll_set :: "dll \<Rightarrow> eref set" where
  "dll_set d = set (dll_list d)"

lemma dll_walk_rep: "dll_rep d xs \<Longrightarrow> dll_walk k (dnext d) (dhead d) = take k xs"
  by (auto simp: dll_rep_def dll_core_def dll_walk_seg)

lemma dll_rep_unique:
  assumes "dll_rep d xs" "dll_rep d ys"
  shows "xs = ys"
proof -
  let ?k = "length xs + length ys"
  have "take ?k xs = take ?k ys"
    using assms [THEN dll_walk_rep, of ?k] by simp
  then show ?thesis by simp
qed

lemma dll_list_eq: "dll_rep d xs \<Longrightarrow> dll_list d = xs"
  unfolding dll_list_def using dll_rep_unique by blast

lemma dll_inv_rep: "dll_inv d \<Longrightarrow> dll_rep d (dll_list d)"
  using dll_list_eq by (auto simp: dll_inv_def)

lemma dll_walk_enough:
  "dll_inv d \<Longrightarrow> length (dll_list d) \<le> k \<Longrightarrow> dll_walk k (dnext d) (dhead d) = dll_list d"
  using dll_walk_rep [OF dll_inv_rep] by simp

lemma dll_rep_empty: "dll_rep dllEmpty []"
  by (simp add: dll_rep_def dll_core_def dllEmpty_def)

lemma dll_inv_empty [simp]: "dll_inv dllEmpty"
  using dll_rep_empty by (auto simp: dll_inv_def)

lemma dll_list_empty [simp]: "dll_list dllEmpty = []"
  by (rule dll_list_eq) (rule dll_rep_empty)

section \<open>The operations on the represented list\<close>

lemma dllPushTail_pointers:
  assumes "dll_core d xs" "e \<notin> set xs"
  shows "dllPushTail e d =
     \<lparr>dprev = (dprev d)(e := last_or xs None),
      dnext = (if xs = [] then dnext d else (dnext d)(last xs := Some e))(e := None),
      dhead = hd_or xs (Some e), dtail = Some e\<rparr>"
proof (cases xs rule: rev_cases)
  case Nil
  with assms show ?thesis by (simp add: dll_core_def dllPushTail_def)
next
  case (snoc ys t)
  with assms have "t \<noteq> e" "dtail d = Some t" "dhead d = hd_or xs None" by (auto simp: dll_core_def)
  then show ?thesis by (simp add: dllPushTail_def snoc fun_upd_twist [of e t] hd_or_append)
qed

lemma dll_core_push:
  assumes "dll_core d xs" "e \<notin> set xs"
  shows "dll_core (dllPushTail e d) (xs @ [e])"
proof -
  have "seg (dprev d) (dnext d) None (xs @ []) None" "distinct (xs @ [e])"
    using assms by (auto simp: dll_core_def)
  from seg_insert [OF this] assms show ?thesis
    unfolding dllPushTail_pointers [OF assms] by (simp add: dll_core_def hd_or_append last_or_def)
qed

lemma dllRemove_pointers:
  assumes "dll_core d (xs @ e # ys)"
  shows "dllRemove e d =
     \<lparr>dprev = (if ys = [] then dprev d else (dprev d)(hd ys := last_or xs None))(e := None),
      dnext = (if xs = [] then dnext d else (dnext d)(last xs := hd_or ys None))(e := None),
      dhead = (if xs = [] then hd_or ys None else dhead d),
      dtail = (if ys = [] then last_or xs None else dtail d)\<rparr>"
proof -
  from assms have "dnext d e = hd_or ys None" "dprev d e = last_or xs None"
    by (auto simp: dll_core_def dest: seg_nextD)
  then show ?thesis
    by (cases xs rule: rev_cases; cases ys) (simp_all add: dllRemove_def)
qed

lemma dll_core_remove:
  assumes r: "dll_core d (xs @ e # ys)"
  shows "dll_core (dllRemove e d) (xs @ ys)"
proof -
  from r have d: "distinct (xs @ e # ys)" and s: "seg (dprev d) (dnext d) None (xs @ e # ys) None"
    by (auto simp: dll_core_def)
  have "seg ((if ys = [] then dprev d else (dprev d)(hd ys := last_or xs None))(e := None))
       ((if xs = [] then dnext d else (dnext d)(last xs := hd_or ys None))(e := None))
       None (xs @ ys) None"
    using seg_remove [OF s d] d by simp
  with r d show ?thesis
    by (cases xs rule: rev_cases; cases ys)
      (auto simp: dll_core_def dllRemove_pointers [OF r] last_or_def hd_or_append)
qed

text \<open>Links of other nodes are untouched.\<close>

lemma dllPushTail_frame:
  assumes "dll_core d xs" "e \<notin> set xs" "z \<noteq> e" "z \<notin> set xs"
  shows "dprev (dllPushTail e d) z = dprev d z \<and> dnext (dllPushTail e d) z = dnext d z"
proof (cases "xs = []")
  case False
  then have "last xs \<in> set xs" by simp
  with assms False show ?thesis by (auto simp: dllPushTail_pointers)
qed (use assms in \<open>simp add: dllPushTail_pointers\<close>)

lemma dllRemove_frame:
  assumes "dll_core d (xs @ e # ys)" "z \<noteq> e" "z \<notin> set xs" "z \<notin> set ys"
  shows "dprev (dllRemove e d) z = dprev d z \<and> dnext (dllRemove e d) z = dnext d z"
proof -
  have "xs \<noteq> [] \<Longrightarrow> z \<noteq> last xs" "ys \<noteq> [] \<Longrightarrow> z \<noteq> hd ys" using assms by auto
  with assms(2) show ?thesis by (simp add: dllRemove_pointers [OF assms(1)])
qed

lemma dllRemove_self: "dprev (dllRemove e d) e = None \<and> dnext (dllRemove e d) e = None"
  by (simp add: dllRemove_def Let_def)

lemma dll_rep_push:
  assumes "dll_rep d xs" "e \<notin> set xs"
  shows "dll_rep (dllPushTail e d) (xs @ [e])"
proof -
  from assms have c: "dll_core d xs" by (simp add: dll_rep_def)
  show ?thesis
  proof (cases "xs = []")
    case True
    with assms dll_core_push [OF c assms(2)] show ?thesis
      by (simp add: dll_rep_def dllPushTail_pointers [OF c assms(2)])
  next
    case False
    then have "last xs \<in> set xs" by simp
    with False assms dll_core_push [OF c assms(2)] show ?thesis
      unfolding dll_rep_def dllPushTail_pointers [OF c assms(2)] by auto
  qed
qed

lemma dll_rep_remove_split:
  assumes "dll_rep d (xs @ e # ys)"
  shows "dll_rep (dllRemove e d) (xs @ ys)"
proof -
  from assms have c: "dll_core d (xs @ e # ys)" by (simp add: dll_rep_def)
  have "last xs \<in> set xs" if "xs \<noteq> []" using that by simp
  moreover have "hd ys \<in> set ys" if "ys \<noteq> []" using that by simp
  ultimately show ?thesis
    using assms dll_core_remove [OF c] unfolding dll_rep_def
    by (auto simp: dllRemove_pointers [OF c])
qed

lemma dll_rep_remove:
  assumes "dll_rep d xs" "e \<in> set xs"
  shows "dll_rep (dllRemove e d) (remove1 e xs)"
proof -
  from assms(2) obtain ys zs where "xs = ys @ e # zs" "e \<notin> set ys"
    by (meson split_list_first)
  with assms(1) show ?thesis
    using dll_rep_remove_split by (simp add: remove1_append)
qed

interpretation ol: order_index dll_inv dll_set dllPushTail dllRemove dll_list
proof unfold_locales
  fix d :: dll and e :: eref
  assume i: "dll_inv d"
  note r = dll_inv_rep [OF i]
  show "dll_set d = set (dll_list d)"
    by (simp add: dll_set_def)
  show "distinct (dll_list d)"
    using r by (simp add: dll_rep_def dll_core_def)
  {
    assume "e \<notin> dll_set d"
    then have p: "dll_rep (dllPushTail e d) (dll_list d @ [e])"
      using dll_rep_push [OF r] by (simp add: dll_set_def)
    then show "dll_inv (dllPushTail e d)" "dll_list (dllPushTail e d) = dll_list d @ [e]"
      by (auto simp: dll_inv_def dll_list_eq)
    then show "dll_set (dllPushTail e d) = insert e (dll_set d)"
      by (simp add: dll_set_def)
  }
  {
    assume "e \<in> dll_set d"
    then have p: "dll_rep (dllRemove e d) (remove1 e (dll_list d))"
      using dll_rep_remove [OF r] by (simp add: dll_set_def)
    then show "dll_inv (dllRemove e d)" "dll_list (dllRemove e d) = remove1 e (dll_list d)"
      by (auto simp: dll_inv_def dll_list_eq)
    then show "dll_set (dllRemove e d) = dll_set d - {e}"
      using r by (simp add: dll_set_def dll_rep_def dll_core_def set_remove1_eq)
  }
qed

lemma dll_set_empty [simp]: "dll_set dllEmpty = {}"
  by (simp add: dll_set_def)

lemma dllTouch_inv: "dll_inv d \<Longrightarrow> e \<in> dll_set d \<Longrightarrow> dll_inv (dllTouch e d)"
  unfolding dllTouch_def by (rule ol.inv_del_add)

lemma dllTouch_set: "dll_inv d \<Longrightarrow> e \<in> dll_set d \<Longrightarrow> dll_set (dllTouch e d) = dll_set d"
  unfolding dllTouch_def by (rule ol.members_del_add)

lemma dllTouch_list: "dll_inv d \<Longrightarrow> e \<in> dll_set d \<Longrightarrow> dll_list (dllTouch e d) = remove1 e (dll_list d) @ [e]"
  unfolding dllTouch_def by (rule ol.order_touch)

text \<open>
  The test by which the store decides whether an entry is linked: it is the head or has a
  neighbour (\<^verbatim>\<open>stillInGlobal\<close>, and the inline test of \<^verbatim>\<open>removeFromShard\<close> for the FIFO list).
\<close>

definition dll_linked :: "eref \<Rightarrow> dll \<Rightarrow> bool" where
  "dll_linked e d \<longleftrightarrow> (if dhead d = Some e then True else dprev d e \<noteq> None \<or> dnext d e \<noteq> None)"

lemma dll_linked_iff:
  assumes "dll_inv d"
  shows "dll_linked e d \<longleftrightarrow> e \<in> dll_set d"
proof -
  note r = dll_inv_rep [OF assms]
  show ?thesis
  proof (cases "e \<in> dll_set d")
    case True
    then obtain xs ys where x: "dll_list d = xs @ e # ys"
      by (auto simp: dll_set_def dest: split_list)
    with r have "dprev d e = last_or xs None" "dhead d = hd_or (xs @ e # ys) None"
      by (auto simp: dll_rep_def dll_core_def dest: seg_nextD)
    with True show ?thesis by (cases xs) (auto simp: dll_linked_def)
  next
    case False
    with r have "dprev d e = None" "dnext d e = None" "dhead d \<noteq> Some e"
      by (cases "dll_list d"; auto simp: dll_rep_def dll_core_def dll_set_def)+
    with False show ?thesis by (simp add: dll_linked_def)
  qed
qed

lemmas dll_rules = ol.inv_add ol.inv_del ol.members_add ol.members_del
  dllTouch_inv dllTouch_set dll_linked_iff

end
