(* ===== verification/ExpHeap.thy ===== *)
theory ExpHeap
  imports Interfaces
begin

text \<open>
  The indexed binary min-heap of deadlines of \<^verbatim>\<open>internal/store/expiry.go\<close>: a slice of items
  (\<^verbatim>\<open>expH\<close> of a DB, \<^verbatim>\<open>ttlH\<close> of a shard) and a map from keys to positions (\<^verbatim>\<open>expIdx\<close>,
  \<^verbatim>\<open>ttlIdx\<close>). The source has the same code twice, once per receiver; the model has it once,
  on the pair of fields, and the store theory wraps it for each receiver. A slice access out
  of range would panic in Go; \<open>heap_inv\<close> implies that every position the code reads through
  the index map is in range.
\<close>

record expItem =
  ikey :: eref
  iat :: gotime

record expheap =
  hitems :: "expItem list"
  hidx :: "eref \<Rightarrow> nat option"

definition heapEmpty :: expheap where
  "heapEmpty = \<lparr>hitems = [], hidx = (\<lambda>_. None)\<rparr>"

definition swapExp :: "nat \<Rightarrow> nat \<Rightarrow> expheap \<Rightarrow> expheap" where
  "swapExp i j h =
     (let ys = (hitems h)[i := hitems h ! j, j := hitems h ! i]
      in h\<lparr>hitems := ys, hidx := (hidx h)(ikey (ys ! i) \<mapsto> i, ikey (ys ! j) \<mapsto> j)\<rparr>)"

lemma length_swapExp [simp]: "length (hitems (swapExp i j h)) = length (hitems h)"
  by (simp add: swapExp_def Let_def)

text \<open>The parent position \<^verbatim>\<open>(i - 1) / 2\<close>.\<close>

definition par :: "nat \<Rightarrow> nat" where
  "par i = (i - 1) div 2"

lemma par_less: "0 < i \<Longrightarrow> par i < i"
  by (simp add: par_def)

lemma par_less_length: "0 < i \<Longrightarrow> i < n \<Longrightarrow> par i < n"
  using par_less [of i] by simp

lemma par_eq: "0 < m \<Longrightarrow> par m = i \<longleftrightarrow> m = 2 * i + 1 \<or> m = 2 * i + 2"
  by (auto simp: par_def)

function siftUp :: "nat \<Rightarrow> expheap \<Rightarrow> expheap" where
  "siftUp i h =
     (if 0 < i then
        let p = par i in
        if \<not> iat (hitems h ! i) < iat (hitems h ! p) then h
        else siftUp p (swapExp i p h)
      else h)"
  by pat_completeness auto
termination
  by (relation "measure (\<lambda>(i, h). i)") (auto simp: par_less)

definition smallest :: "nat \<Rightarrow> expItem list \<Rightarrow> nat" where
  "smallest i xs =
     (let n = length xs; l = 2 * i + 1; r = 2 * i + 2;
          s1 = (if l < n \<and> iat (xs ! l) < iat (xs ! i) then l else i);
          s2 = (if r < n \<and> iat (xs ! r) < iat (xs ! s1) then r else s1)
      in s2)"

lemma smallest_cases:
  "smallest i xs = i \<or> (smallest i xs = 2 * i + 1 \<or> smallest i xs = 2 * i + 2) \<and>
     smallest i xs < length xs \<and> iat (xs ! smallest i xs) < iat (xs ! i)"
  by (auto simp: smallest_def Let_def)

lemma smallest_least:
  "c < length xs \<Longrightarrow> c = 2 * i + 1 \<or> c = 2 * i + 2 \<Longrightarrow> iat (xs ! smallest i xs) \<le> iat (xs ! c)"
  by (auto simp: smallest_def Let_def)

function siftDown :: "nat \<Rightarrow> expheap \<Rightarrow> expheap" where
  "siftDown i h =
     (let s = smallest i (hitems h) in
      if s = i then h else siftDown s (swapExp i s h))"
  by pat_completeness auto
termination
proof (relation "measure (\<lambda>(i, h). length (hitems h) - i)")
  fix i s and h :: expheap
  assume "s = smallest i (hitems h)" "s \<noteq> i"
  then show "((s, swapExp i s h), i, h) \<in> measure (\<lambda>(i, h). length (hitems h) - i)"
    using smallest_cases [of i "hitems h"] by auto
qed simp

declare siftUp.simps [simp del] siftDown.simps [simp del]

definition heapPush :: "expItem \<Rightarrow> expheap \<Rightarrow> expheap" where
  "heapPush it h =
     (let h1 = h\<lparr>hitems := hitems h @ [it]\<rparr>;
          h2 = h1\<lparr>hidx := (hidx h1)(ikey it \<mapsto> length (hitems h1) - 1)\<rparr>
      in siftUp (length (hitems h2) - 1) h2)"

definition heapRemoveAt :: "nat \<Rightarrow> expheap \<Rightarrow> expheap" where
  "heapRemoveAt i h =
     (let n = length (hitems h) - 1;
          key = ikey (hitems h ! i);
          h1 = swapExp i n h;
          h2 = h1\<lparr>hitems := take n (hitems h1), hidx := (hidx h1)(key := None)\<rparr>
      in if i < n then siftUp i (siftDown i h2) else h2)"

definition clearExpiry :: "eref \<Rightarrow> expheap \<Rightarrow> expheap" where
  "clearExpiry key h = (case hidx h key of Some idx \<Rightarrow> heapRemoveAt idx h | None \<Rightarrow> h)"

definition noteExpiry :: "eref \<Rightarrow> gotime \<Rightarrow> expheap \<Rightarrow> expheap" where
  "noteExpiry key at h =
     (let h1 = (case hidx h key of Some idx \<Rightarrow> heapRemoveAt idx h | None \<Rightarrow> h)
      in if IsZero at then h1 else heapPush \<lparr>ikey = key, iat = at\<rparr> h1)"

definition peek :: "expheap \<Rightarrow> (eref \<times> gotime) option" where
  "peek h = (case hitems h of [] \<Rightarrow> None | it # _ \<Rightarrow> Some (ikey it, iat it))"

section \<open>Invariants\<close>

definition idx_ok :: "expheap \<Rightarrow> bool" where
  "idx_ok h \<longleftrightarrow> distinct (map ikey (hitems h)) \<and>
     (\<forall>i < length (hitems h). hidx h (ikey (hitems h ! i)) = Some i) \<and>
     (\<forall>k i. hidx h k = Some i \<longrightarrow> i < length (hitems h) \<and> ikey (hitems h ! i) = k)"

definition rel_ok :: "expItem list \<Rightarrow> nat \<Rightarrow> bool" where
  "rel_ok xs i \<longleftrightarrow> iat (xs ! (par i)) \<le> iat (xs ! i)"

definition heap_order :: "expItem list \<Rightarrow> bool" where
  "heap_order xs \<longleftrightarrow> (\<forall>i. 0 < i \<and> i < length xs \<longrightarrow> rel_ok xs i)"

definition heap_inv :: "expheap \<Rightarrow> bool" where
  "heap_inv h \<longleftrightarrow> idx_ok h \<and> heap_order (hitems h)"

text \<open>The children of \<open>k\<close> are not below the parent of \<open>k\<close>.\<close>

definition grand_ok :: "expItem list \<Rightarrow> nat \<Rightarrow> bool" where
  "grand_ok xs k \<longleftrightarrow> (\<forall>i. 0 < i \<and> i < length xs \<and> par i = k \<and> 0 < k \<longrightarrow>
     iat (xs ! (par k)) \<le> iat (xs ! i))"

text \<open>A heap but for the edge above \<open>k\<close>, for the edges below \<open>k\<close>, for both.\<close>

definition up_ok :: "expItem list \<Rightarrow> nat \<Rightarrow> bool" where
  "up_ok xs k \<longleftrightarrow> grand_ok xs k \<and> (\<forall>i. 0 < i \<and> i < length xs \<and> i \<noteq> k \<longrightarrow> rel_ok xs i)"

definition down_ok :: "expItem list \<Rightarrow> nat \<Rightarrow> bool" where
  "down_ok xs k \<longleftrightarrow> grand_ok xs k \<and>
     (\<forall>i. 0 < i \<and> i < length xs \<and> par i \<noteq> k \<longrightarrow> rel_ok xs i)"

definition hole_ok :: "expItem list \<Rightarrow> nat \<Rightarrow> bool" where
  "hole_ok xs k \<longleftrightarrow> grand_ok xs k \<and>
     (\<forall>i. 0 < i \<and> i < length xs \<and> i \<noteq> k \<and> par i \<noteq> k \<longrightarrow> rel_ok xs i)"

section \<open>Swapping\<close>

lemma nth_swapExp:
  "i < length (hitems h) \<Longrightarrow> j < length (hitems h) \<Longrightarrow> m < length (hitems h) \<Longrightarrow>
   hitems (swapExp i j h) ! m =
     (if m = i then hitems h ! j else if m = j then hitems h ! i else hitems h ! m)"
  by (simp add: swapExp_def Let_def nth_list_update)

lemma mset_swapExp:
  "i < length (hitems h) \<Longrightarrow> j < length (hitems h) \<Longrightarrow> mset (hitems (swapExp i j h)) = mset (hitems h)"
  by (simp add: swapExp_def Let_def mset_swap)

lemma distinct_keys_mset: "mset xs = mset ys \<Longrightarrow> distinct (map ikey xs) = distinct (map ikey ys)"
  by (metis mset_eq_imp_distinct_iff mset_map)

lemma idx_ok_swapExp:
  assumes ok: "idx_ok h" and i: "i < length (hitems h)" and j: "j < length (hitems h)"
  shows "idx_ok (swapExp i j h)"
proof -
  let ?x = "hitems h" and ?h = "swapExp i j h"
  have inj: "ikey (?x ! a) = ikey (?x ! b) \<longleftrightarrow> a = b" if "a < length ?x" "b < length ?x" for a b
    using ok that by (metis idx_ok_def option.inject)
  have idx: "hidx ?h = (hidx h)(ikey (?x ! j) \<mapsto> i, ikey (?x ! i) \<mapsto> j)"
    using i j by (simp add: swapExp_def Let_def nth_list_update)
  have "distinct (map ikey (hitems ?h))"
    using ok distinct_keys_mset [OF mset_swapExp [OF i j]] by (simp add: idx_ok_def)
  moreover have "hidx ?h (ikey (hitems ?h ! m)) = Some m" if m: "m < length ?x" for m
    using ok i j m inj by (auto simp: idx nth_swapExp idx_ok_def)
  moreover have "m < length ?x \<and> ikey (hitems ?h ! m) = k" if "hidx ?h k = Some m" for k m
    using ok i j that by (auto simp: idx nth_swapExp idx_ok_def split: if_splits)
  ultimately show ?thesis by (simp add: idx_ok_def)
qed

section \<open>Sifting\<close>

lemma siftUp_keeps:
  "i < length (hitems h) \<Longrightarrow>
     length (hitems (siftUp i h)) = length (hitems h) \<and>
     mset (hitems (siftUp i h)) = mset (hitems h) \<and> (idx_ok h \<longrightarrow> idx_ok (siftUp i h))"
proof (induction i h rule: siftUp.induct)
  case (1 i h)
  let ?p = "par i"
  show ?case
  proof (cases "0 < i \<and> iat (hitems h ! i) < iat (hitems h ! ?p)")
    case True
    with 1 have p: "?p < length (hitems h)" by (auto intro: par_less_length)
    with True 1 have "length (hitems (siftUp ?p (swapExp i ?p h))) = length (hitems h) \<and>
        mset (hitems (siftUp ?p (swapExp i ?p h))) = mset (hitems (swapExp i ?p h)) \<and>
        (idx_ok (swapExp i ?p h) \<longrightarrow> idx_ok (siftUp ?p (swapExp i ?p h)))"
      by simp
    with True p "1.prems" show ?thesis
      by (simp add: siftUp.simps [of i h] Let_def mset_swapExp idx_ok_swapExp)
  next
    case False
    then show ?thesis by (auto simp: siftUp.simps [of i h] Let_def)
  qed
qed

lemma siftDown_keeps:
  "i < length (hitems h) \<Longrightarrow>
     length (hitems (siftDown i h)) = length (hitems h) \<and>
     mset (hitems (siftDown i h)) = mset (hitems h) \<and> (idx_ok h \<longrightarrow> idx_ok (siftDown i h))"
proof (induction i h rule: siftDown.induct)
  case (1 i h)
  let ?s = "smallest i (hitems h)"
  show ?case
  proof (cases "?s = i")
    case True
    then show ?thesis by (simp add: siftDown.simps [of i h])
  next
    case False
    with smallest_cases have s: "?s < length (hitems h)" by blast
    with False 1 have "length (hitems (siftDown ?s (swapExp i ?s h))) = length (hitems h) \<and>
        mset (hitems (siftDown ?s (swapExp i ?s h))) = mset (hitems (swapExp i ?s h)) \<and>
        (idx_ok (swapExp i ?s h) \<longrightarrow> idx_ok (siftDown ?s (swapExp i ?s h)))"
      by simp
    with False s "1.prems" show ?thesis
      by (simp add: siftDown.simps [of i h] Let_def mset_swapExp idx_ok_swapExp)
  qed
qed

lemma siftUp_step:
  assumes "0 < i" "i < length (hitems h)" "up_ok (hitems h) i"
    and "iat (hitems h ! i) < iat (hitems h ! (par i))"
  shows "up_ok (hitems (swapExp i (par i) h)) (par i)"
proof -
  let ?p = "par i" and ?x = "hitems h"
  let ?y = "hitems (swapExp i ?p h)"
  have p: "?p < length ?x" "?p < i" using assms par_less [of i] by auto
  have y: "?y ! m = (if m = i then ?x ! ?p else if m = ?p then ?x ! i else ?x ! m)"
    if "m < length ?x" for m
    using that assms p by (simp add: nth_swapExp)
  have r: "iat (?x ! (par m)) \<le> iat (?x ! m)" if "0 < m" "m < length ?x" "m \<noteq> i" for m
    using assms(3) that by (simp add: up_ok_def rel_ok_def)
  have g: "iat (?x ! ?p) \<le> iat (?x ! m)" if "0 < m" "m < length ?x" "par m = i" for m
    using assms that by (auto simp: up_ok_def grand_ok_def)
  have "rel_ok ?y m" if m: "0 < m" "m < length ?x" "m \<noteq> ?p" for m
  proof (cases "par m = i")
    case True
    with m g [of m] p par_less [of m] show ?thesis by (simp add: rel_ok_def y assms(2))
  next
    case False
    show ?thesis
    proof (cases "m = i")
      case True
      with assms p show ?thesis by (simp add: rel_ok_def y)
    next
      case mi: False
      have l: "par m < length ?x" using m by (simp add: par_less_length)
      from r [OF m(1,2) mi] assms(4) False mi m(3) show ?thesis
        by (auto simp: rel_ok_def y l m(2))
    qed
  qed
  moreover have "iat (?y ! (par ?p)) \<le> iat (?y ! m)"
    if m: "0 < m" "m < length ?x" "par m = ?p" "0 < ?p" for m
  proof -
    have "iat (?x ! (par ?p)) \<le> iat (?x ! ?p)" using r [of ?p] m p by auto
    moreover have "iat (?x ! ?p) \<le> iat (?x ! m)" if "m \<noteq> i" using r [of m] m that by simp
    moreover have "par ?p < ?p" using m by (simp add: par_less)
    ultimately show ?thesis using m p assms(2) by (auto simp: y)
  qed
  ultimately show ?thesis by (auto simp: up_ok_def grand_ok_def)
qed

lemma siftUp_heap: "i < length (hitems h) \<Longrightarrow> up_ok (hitems h) i \<Longrightarrow> heap_order (hitems (siftUp i h))"
proof (induction i h rule: siftUp.induct)
  case (1 i h)
  let ?p = "par i"
  show ?case
  proof (cases "0 < i \<and> iat (hitems h ! i) < iat (hitems h ! ?p)")
    case True
    with "1.prems" have "up_ok (hitems (swapExp i ?p h)) ?p" "?p < length (hitems h)"
      by (auto intro: siftUp_step par_less_length)
    with True 1 show ?thesis by (simp add: siftUp.simps [of i h] Let_def)
  next
    case False
    then have "siftUp i h = h" by (auto simp: siftUp.simps [of i h] Let_def)
    with False "1.prems" show ?thesis
      by (auto simp: heap_order_def up_ok_def rel_ok_def)
  qed
qed

lemma siftDown_step:
  assumes h: "hole_ok (hitems h) i" and i: "i < length (hitems h)"
    and s: "smallest i (hitems h) = s" "s \<noteq> i"
  shows "down_ok (hitems (swapExp i s h)) s"
proof -
  let ?x = "hitems h" and ?y = "hitems (swapExp i s h)"
  from s smallest_cases [of i ?x] have sc: "s = 2 * i + 1 \<or> s = 2 * i + 2" "s < length ?x"
    "iat (?x ! s) < iat (?x ! i)" by auto
  have y: "?y ! m = (if m = i then ?x ! s else if m = s then ?x ! i else ?x ! m)"
    if "m < length ?x" for m
    using that i sc by (simp add: nth_swapExp)
  have r: "iat (?x ! (par m)) \<le> iat (?x ! m)"
    if "0 < m" "m < length ?x" "m \<noteq> i" "par m \<noteq> i" for m
    using h that by (simp add: hole_ok_def rel_ok_def)
  have g: "iat (?x ! (par i)) \<le> iat (?x ! m)"
    if "0 < m" "m < length ?x" "par m = i" "0 < i" for m
    using h that by (auto simp: hole_ok_def grand_ok_def)
  have ps: "par s = i" "i < s" using sc by (auto simp: par_eq)
  have "rel_ok ?y m" if m: "0 < m" "m < length ?x" "par m \<noteq> s" for m
  proof (cases "m = i")
    case True
    then have "par i < i" "par i \<noteq> s" using m ps par_less [of i] by auto
    with True i show ?thesis using g [of s] m sc(2) ps by (simp add: rel_ok_def y)
  next
    case mi: False
    have l: "par m < length ?x" using m by (simp add: par_less_length)
    show ?thesis
    proof (cases "par m = i")
      case True
      then have "m = 2 * i + 1 \<or> m = 2 * i + 2" using m by (simp add: par_eq)
      then have "iat (?x ! s) \<le> iat (?x ! m)" using smallest_least [of m ?x i] m s by simp
      with sc(3) True mi i show ?thesis by (simp add: rel_ok_def y m)
    next
      case False
      with r [OF m(1,2) mi] mi m ps show ?thesis by (auto simp: rel_ok_def y l)
    qed
  qed
  moreover have "iat (?y ! (par s)) \<le> iat (?y ! m)"
    if m: "0 < m" "m < length ?x" "par m = s" for m
  proof -
    have "m \<noteq> s" "m \<noteq> i" using m ps par_less [of m] by auto
    moreover have "iat (?x ! s) \<le> iat (?x ! m)" using r [of m] m ps calculation by auto
    ultimately show ?thesis using i m ps by (simp add: y)
  qed
  ultimately show ?thesis by (auto simp: down_ok_def grand_ok_def)
qed

lemma down_hole: "down_ok xs k \<Longrightarrow> hole_ok xs k"
  by (auto simp: down_ok_def hole_ok_def)

lemma smallest_stop:
  assumes "smallest i xs = i" "0 < m" "m < length xs" "par m = i"
  shows "rel_ok xs m"
proof -
  from assms(2,4) have "m = 2 * i + 1 \<or> m = 2 * i + 2" by (simp add: par_eq)
  with smallest_least [of m xs i] assms show ?thesis by (simp add: rel_ok_def)
qed

lemma siftDown_heap: "i < length (hitems h) \<Longrightarrow> down_ok (hitems h) i \<Longrightarrow> heap_order (hitems (siftDown i h))"
proof (induction i h rule: siftDown.induct)
  case (1 i h)
  let ?s = "smallest i (hitems h)"
  show ?case
  proof (cases "?s = i")
    case True
    then have "siftDown i h = h" by (simp add: siftDown.simps [of i h])
    moreover have "rel_ok (hitems h) m" if "0 < m" "m < length (hitems h)" for m
      using that "1.prems"(2) smallest_stop [OF True, of m]
      by (cases "par m = i") (auto simp: down_ok_def)
    ultimately show ?thesis by (simp add: heap_order_def)
  next
    case False
    with "1.prems" have "down_ok (hitems (swapExp i ?s h)) ?s"
      by (intro siftDown_step) (auto intro: down_hole)
    moreover have "?s < length (hitems h)" using False smallest_cases by blast
    ultimately show ?thesis using False 1 by (simp add: siftDown.simps [of i h] Let_def)
  qed
qed

lemma siftDown_hole:
  assumes "i < length (hitems h)" "hole_ok (hitems h) i"
  shows "up_ok (hitems (siftDown i h)) i"
proof (cases "smallest i (hitems h) = i")
  case True
  then have "siftDown i h = h" by (simp add: siftDown.simps [of i h])
  moreover have "rel_ok (hitems h) m" if "0 < m" "m < length (hitems h)" "m \<noteq> i" for m
    using that assms(2) smallest_stop [OF True, of m] by (cases "par m = i") (auto simp: hole_ok_def)
  ultimately show ?thesis using assms(2) by (simp add: up_ok_def hole_ok_def)
next
  case False
  let ?s = "smallest i (hitems h)"
  from False have s: "?s < length (hitems h)" using smallest_cases by blast
  have "heap_order (hitems (siftDown ?s (swapExp i ?s h)))"
    using siftDown_heap [of ?s "swapExp i ?s h"] siftDown_step [of h i ?s] assms s False by simp
  then have ho: "heap_order (hitems (siftDown i h))"
    using False by (simp add: siftDown.simps [of i h] Let_def)
  have "iat (ys ! (par i)) \<le> iat (ys ! m)"
    if "heap_order ys" "0 < m" "m < length ys" "par m = i" "0 < i" for ys m
  proof -
    from that have "i < length ys" using par_less_length by blast
    with that have "rel_ok ys m" "rel_ok ys i" by (auto simp: heap_order_def)
    with that show ?thesis by (simp add: rel_ok_def)
  qed
  with ho show ?thesis
    by (auto simp: up_ok_def grand_ok_def heap_order_def)
qed


section \<open>Stored deadlines\<close>

definition deadlines :: "expheap \<Rightarrow> eref \<Rightarrow> gotime option" where
  "deadlines h = map_of (map (\<lambda>it. (ikey it, iat it)) (hitems h))"

lemma item_conv: "(k, t) = (ikey it, iat it) \<longleftrightarrow> it = \<lparr>ikey = k, iat = t\<rparr>"
  by (cases it) auto

lemma deadlines_Some:
  assumes "distinct (map ikey (hitems h))"
  shows "deadlines h k = Some t \<longleftrightarrow> \<lparr>ikey = k, iat = t\<rparr> \<in> set (hitems h)"
proof -
  have "distinct (map fst (map (\<lambda>it. (ikey it, iat it)) (hitems h)))"
    using assms by (simp add: comp_def)
  then have "deadlines h k = Some t \<longleftrightarrow> (k, t) \<in> (\<lambda>it. (ikey it, iat it)) ` set (hitems h)"
    unfolding deadlines_def by (subst map_of_eq_Some_iff) simp_all
  also have "\<dots> \<longleftrightarrow> \<lparr>ikey = k, iat = t\<rparr> \<in> set (hitems h)"
    unfolding image_iff item_conv by simp
  finally show ?thesis .
qed

lemma deadlines_None: "deadlines h k = None \<longleftrightarrow> k \<notin> ikey ` set (hitems h)"
  by (simp add: deadlines_def map_of_eq_None_iff image_image)

lemma deadlines_cong:
  assumes "set (hitems h) = set (hitems h')" "distinct (map ikey (hitems h))"
    "distinct (map ikey (hitems h'))"
  shows "deadlines h = deadlines h'"
proof
  fix k
  show "deadlines h k = deadlines h' k"
    by (rule option_eqI) (simp add: deadlines_Some assms)
qed

lemma heap_inv_distinct: "heap_inv h \<Longrightarrow> distinct (map ikey (hitems h))"
  by (simp add: heap_inv_def idx_ok_def)

lemma hidx_None: "heap_inv h \<Longrightarrow> hidx h k = None \<longleftrightarrow> deadlines h k = None"
proof -
  assume "heap_inv h"
  then have "(\<exists>i. hidx h k = Some i) \<longleftrightarrow> (\<exists>i < length (hitems h). ikey (hitems h ! i) = k)"
    unfolding heap_inv_def idx_ok_def by blast
  moreover have "deadlines h k \<noteq> None \<longleftrightarrow> (\<exists>i < length (hitems h). ikey (hitems h ! i) = k)"
    by (simp add: deadlines_None in_set_conv_nth image_iff Bex_def) metis
  ultimately show ?thesis by (metis option.distinct(1) option.exhaust)
qed

lemma heap_root_least: "heap_order xs \<Longrightarrow> i < length xs \<Longrightarrow> iat (xs ! 0) \<le> iat (xs ! i)"
proof (induction i rule: less_induct)
  case (less i)
  show ?case
  proof (cases "i = 0")
    case False
    with less.prems have "iat (xs ! par i) \<le> iat (xs ! i)" "par i < i" "par i < length xs"
      by (auto simp: heap_order_def rel_ok_def par_less par_less_length)
    with less.IH [of "par i"] less.prems show ?thesis by simp
  qed simp
qed

lemma heapPush_spec:
  assumes "heap_inv h" "deadlines h k = None"
  shows "heap_inv (heapPush \<lparr>ikey = k, iat = t\<rparr> h) \<and>
     mset (hitems (heapPush \<lparr>ikey = k, iat = t\<rparr> h)) = add_mset \<lparr>ikey = k, iat = t\<rparr> (mset (hitems h))"
proof -
  let ?it = "\<lparr>ikey = k, iat = t\<rparr>" and ?n = "length (hitems h)"
  let ?h = "h\<lparr>hitems := hitems h @ [?it], hidx := (hidx h)(k \<mapsto> ?n)\<rparr>"
  have fresh: "k \<notin> ikey ` set (hitems h)" using assms by (simp add: deadlines_None)
  then have nk: "ikey (hitems h ! i) \<noteq> k" if "i < ?n" for i
    using that nth_mem by blast
  have ok: "idx_ok ?h"
    using assms(1) fresh nk
    by (auto simp: heap_inv_def idx_ok_def nth_append less_Suc_eq split: if_splits)
  have "up_ok (hitems ?h) ?n"
  proof -
    have "rel_ok (hitems ?h) i" if "0 < i" "i < Suc ?n" "i \<noteq> ?n" for i
      using that assms(1) par_less_length [of i ?n]
      by (auto simp: heap_inv_def heap_order_def rel_ok_def nth_append)
    moreover have "par i \<noteq> ?n" if "0 < i" "i < Suc ?n" for i
      using that par_less [of i] by simp
    ultimately show ?thesis by (auto simp: up_ok_def grand_ok_def)
  qed
  moreover have "heapPush ?it h = siftUp ?n ?h"
    by (simp add: heapPush_def)
  ultimately show ?thesis
    using siftUp_heap [of ?n ?h] siftUp_keeps [of ?n ?h] ok by (simp add: heap_inv_def)
qed

text \<open>Dropping the last position after the swap leaves a heap with one hole.\<close>

lemma removed_hole_ok:
  assumes ho: "heap_order xs" and i: "i < length xs - 1"
    and ys: "\<And>m. m < length xs - 1 \<Longrightarrow> ys ! m = (if m = i then xs ! (length xs - 1) else xs ! m)"
    and len: "length ys = length xs - 1"
  shows "hole_ok ys i"
proof -
  have r: "iat (xs ! par m) \<le> iat (xs ! m)" if "0 < m" "m < length xs" for m
    using ho that by (simp add: heap_order_def rel_ok_def)
  have "rel_ok ys m" if m: "0 < m" "m < length ys" "m \<noteq> i" "par m \<noteq> i" for m
    using r [of m] m len ys par_less_length [of m "length ys"] by (simp add: rel_ok_def)
  moreover have "iat (ys ! par i) \<le> iat (ys ! m)" if m: "0 < m" "m < length ys" "par m = i" "0 < i" for m
  proof -
    have "par i < i" "i < m" using m par_less by auto
    moreover have "iat (xs ! i) \<le> iat (xs ! m)" "iat (xs ! par i) \<le> iat (xs ! i)"
      using r [of m] r [of i] m len i by simp_all
    ultimately show ?thesis using m len ys by simp
  qed
  ultimately show ?thesis by (auto simp: hole_ok_def grand_ok_def)
qed

lemma idx_ok_drop_last:
  assumes "idx_ok h" "hitems h = xs @ [it]"
  shows "idx_ok (h\<lparr>hitems := xs, hidx := (hidx h)(ikey it := None)\<rparr>)"
proof -
  from assms have d: "distinct (map ikey xs)" "ikey it \<notin> ikey ` set xs"
    and p: "\<And>i. i < Suc (length xs) \<Longrightarrow> hidx h (ikey ((xs @ [it]) ! i)) = Some i"
    and q: "\<And>k i. hidx h k = Some i \<Longrightarrow> i < Suc (length xs) \<and> ikey ((xs @ [it]) ! i) = k"
    by (auto simp: idx_ok_def)
  have "hidx h (ikey (xs ! i)) = Some i" "ikey (xs ! i) \<noteq> ikey it" if "i < length xs" for i
  proof -
    have "ikey (xs ! i) \<in> ikey ` set xs" using that by simp
    with p [of i] that d(2) show "hidx h (ikey (xs ! i)) = Some i" "ikey (xs ! i) \<noteq> ikey it"
      by (auto simp only: nth_append less_Suc_eq if_True)
  qed
  moreover have "i < length xs \<and> ikey (xs ! i) = k" if "hidx h k = Some i" "k \<noteq> ikey it" for k i
    using q [OF that(1)] that(2) by (auto simp: nth_append less_Suc_eq)
  ultimately show ?thesis using d(1) by (simp add: idx_ok_def)
qed

lemma heapRemoveAt_spec:
  assumes inv: "heap_inv h" and i: "i < length (hitems h)"
  shows "heap_inv (heapRemoveAt i h) \<and>
     mset (hitems h) = add_mset (hitems h ! i) (mset (hitems (heapRemoveAt i h)))"
proof -
  let ?x = "hitems h" and ?n = "length (hitems h) - 1"
  let ?h1 = "swapExp i ?n h"
  let ?h2 = "?h1\<lparr>hitems := take ?n (hitems ?h1), hidx := (hidx ?h1)(ikey (?x ! i) := None)\<rparr>"
  have n: "?n < length ?x" using i by simp
  have last: "hitems ?h1 ! ?n = ?x ! i" using n i by (auto simp: nth_swapExp)
  then have split: "hitems ?h1 = take ?n (hitems ?h1) @ [?x ! i]"
    using n i by (metis Suc_pred' length_greater_0_conv length_swapExp less_nat_zero_code
        list.size(3) take_Suc_conv_app_nth take_all_iff order_refl)
  have ok2: "idx_ok ?h2"
    using idx_ok_drop_last [OF idx_ok_swapExp split] inv i n by (simp add: heap_inv_def)
  have ms: "mset ?x = add_mset (?x ! i) (mset (hitems ?h2))"
    using mset_swapExp [OF i n] split by (metis (no_types) add.commute add_mset_add_single
        expheap.select_convs(1) expheap.simps(5) expheap.surjective expheap.update_convs(1)
        expheap.update_convs(2) mset.simps(1) mset.simps(2) mset_append)
  have nth: "hitems ?h2 ! m = (if m = i then ?x ! ?n else ?x ! m)" if "m < ?n" for m
    using that i n by (auto simp: nth_swapExp)
  show ?thesis
  proof (cases "i < ?n")
    case True
    have "hole_ok (hitems ?h2) i"
      by (rule removed_hole_ok [of ?x]) (use inv True nth n in \<open>auto simp: heap_inv_def\<close>)
    with True n have "up_ok (hitems (siftDown i ?h2)) i"
      by (intro siftDown_hole) auto
    moreover have "heapRemoveAt i h = siftUp i (siftDown i ?h2)"
      using True by (simp add: heapRemoveAt_def Let_def)
    ultimately show ?thesis
      using siftDown_keeps [of i ?h2] siftUp_keeps [of i "siftDown i ?h2"] True n ok2 ms
        siftUp_heap [of i "siftDown i ?h2"] by (simp add: heap_inv_def)
  next
    case False
    then have "i = ?n" using i by simp
    then have "rel_ok (hitems ?h2) m" if "0 < m" "m < ?n" for m
      using that inv nth par_less_length [of m ?n]
      by (auto simp: heap_inv_def heap_order_def rel_ok_def)
    moreover have "heapRemoveAt i h = ?h2"
      using False by (simp add: heapRemoveAt_def Let_def)
    ultimately show ?thesis using ok2 ms n by (simp add: heap_inv_def heap_order_def)
  qed
qed

lemma clearExpiry_spec:
  assumes "heap_inv h"
  shows "heap_inv (clearExpiry k h) \<and> deadlines (clearExpiry k h) = (deadlines h)(k := None)"
proof (cases "hidx h k")
  case None
  with assms hidx_None [of h k] show ?thesis by (auto simp: clearExpiry_def fun_eq_iff)
next
  case (Some i)
  let ?h = "heapRemoveAt i h"
  from Some assms have i: "i < length (hitems h)" and ki: "ikey (hitems h ! i) = k"
    by (auto simp: heap_inv_def idx_ok_def)
  note sp = heapRemoveAt_spec [OF assms i]
  have sub: "set (hitems h) = insert (hitems h ! i) (set (hitems ?h))"
    using arg_cong [OF conjunct2 [OF sp], of set_mset] by simp
  have "mset (hitems h) = mset (hitems h ! i # hitems ?h)" using sp by simp
  then have "distinct (map ikey (hitems h ! i # hitems ?h))"
    using heap_inv_distinct [OF assms] distinct_keys_mset by blast
  then have fresh: "k \<notin> ikey ` set (hitems ?h)" using ki by simp
  have "deadlines ?h k' = ((deadlines h)(k := None)) k'" for k'
  proof (cases "k' = k")
    case True
    with fresh show ?thesis by (simp add: deadlines_None)
  next
    case False
    have "\<lparr>ikey = k', iat = t\<rparr> \<noteq> hitems h ! i" for t using ki False by (metis expItem.select_convs(1))
    then have "deadlines ?h k' = Some t \<longleftrightarrow> deadlines h k' = Some t" for t
      using sub sp assms by (simp add: deadlines_Some heap_inv_distinct)
    then have "deadlines ?h k' = deadlines h k'" by (rule option_eqI)
    with False show ?thesis by simp
  qed
  with Some sp show ?thesis by (auto simp: clearExpiry_def)
qed

lemma deadlines_heapPush:
  assumes "heap_inv h" "deadlines h k = None"
  shows "deadlines (heapPush \<lparr>ikey = k, iat = t\<rparr> h) = (deadlines h)(k \<mapsto> t)"
proof
  fix k'
  let ?h = "heapPush \<lparr>ikey = k, iat = t\<rparr> h"
  note sp = heapPush_spec [OF assms, of t]
  have set: "set (hitems ?h) = insert \<lparr>ikey = k, iat = t\<rparr> (set (hitems h))"
    using arg_cong [OF conjunct2 [OF sp], of set_mset] by simp
  have d: "distinct (map ikey (hitems ?h))" "distinct (map ikey (hitems h))"
    using sp assms heap_inv_distinct by auto
  show "deadlines ?h k' = ((deadlines h)(k \<mapsto> t)) k'"
  proof (cases "k' = k")
    case True
    with set show ?thesis by (simp add: deadlines_Some [OF d(1)])
  next
    case False
    then have "deadlines ?h k' = Some t' \<longleftrightarrow> deadlines h k' = Some t'" for t'
      using set by (simp add: deadlines_Some [OF d(1)] deadlines_Some [OF d(2)])
    then have "deadlines ?h k' = deadlines h k'" by (rule option_eqI)
    with False show ?thesis by simp
  qed
qed

interpretation dq: deadline_queue heap_inv deadlines
  "\<lambda>k t. heapPush \<lparr>ikey = k, iat = t\<rparr>" clearExpiry peek
proof unfold_locales
  fix h k and t :: gotime
  assume inv: "heap_inv h"
  show "heap_inv (clearExpiry k h)" "deadlines (clearExpiry k h) = (deadlines h)(k := None)"
    using clearExpiry_spec [OF inv] by auto
  show "peek h = None \<longleftrightarrow> deadlines h = Map.empty"
    by (cases "hitems h") (auto simp: peek_def deadlines_def)
  {
    assume "deadlines h k = None"
    then show "heap_inv (heapPush \<lparr>ikey = k, iat = t\<rparr> h)"
      "deadlines (heapPush \<lparr>ikey = k, iat = t\<rparr> h) = (deadlines h)(k \<mapsto> t)"
      using heapPush_spec deadlines_heapPush inv by auto
  }
  {
    assume p: "peek h = Some (k, t)"
    then obtain it rest where it: "hitems h = it # rest" "ikey it = k" "iat it = t"
      by (auto simp: peek_def split: list.splits)
    then show "deadlines h k = Some t" by (simp add: deadlines_def)
    fix k' t'
    assume "deadlines h k' = Some t'"
    then have "\<lparr>ikey = k', iat = t'\<rparr> \<in> set (hitems h)"
      by (simp add: deadlines_Some heap_inv_distinct inv)
    then obtain m where "m < length (hitems h)" "hitems h ! m = \<lparr>ikey = k', iat = t'\<rparr>"
      by (auto simp: in_set_conv_nth)
    with heap_root_least [of "hitems h" m] inv it show "t \<le> t'"
      by (simp add: heap_inv_def)
  }
qed

lemma noteExpiry_eq:
  "noteExpiry k t h = (if IsZero t then clearExpiry k h else heapPush \<lparr>ikey = k, iat = t\<rparr> (clearExpiry k h))"
  by (simp add: noteExpiry_def clearExpiry_def Let_def)

lemma noteExpiry_inv: "heap_inv h \<Longrightarrow> heap_inv (noteExpiry k t h)"
  by (simp add: noteExpiry_eq dq.inv_drop dq.inv_replace)

lemma deadlines_noteExpiry:
  "heap_inv h \<Longrightarrow> deadlines (noteExpiry k t h) = (deadlines h)(k := (if IsZero t then None else Some t))"
  by (simp add: noteExpiry_eq dq.deadlines_drop dq.deadlines_replace)

lemma heap_inv_empty [simp]: "heap_inv heapEmpty"
  by (simp add: heapEmpty_def heap_inv_def idx_ok_def heap_order_def)

lemma deadlines_empty [simp]: "deadlines heapEmpty = Map.empty"
  by (simp add: deadlines_def heapEmpty_def)

text \<open>Sizes, for the loops over a heap.\<close>

lemma length_siftUp [simp]: "length (hitems (siftUp i h)) = length (hitems h)"
  by (induction i h rule: siftUp.induct) (subst siftUp.simps, simp add: Let_def)

lemma length_siftDown [simp]: "length (hitems (siftDown i h)) = length (hitems h)"
  by (induction i h rule: siftDown.induct) (subst siftDown.simps, simp add: Let_def)

lemma length_heapRemoveAt [simp]: "length (hitems (heapRemoveAt i h)) = length (hitems h) - 1"
  by (simp add: heapRemoveAt_def Let_def)

lemma length_heapPush [simp]: "length (hitems (heapPush it h)) = Suc (length (hitems h))"
  by (simp add: heapPush_def Let_def)

lemma removeAt_root: "heap_inv h \<Longrightarrow> hitems h = it # rest \<Longrightarrow> heapRemoveAt 0 h = clearExpiry (ikey it) h"
  by (auto simp: clearExpiry_def heap_inv_def idx_ok_def)

section \<open>The contract of the heap\<close>

text \<open>C27: the array heap with its index map implements a map from keys to deadlines with access to a
  least one: recording a deadline replaces the key's old one (the zero instant removes it), clearing
  removes it, and the root is a soonest deadline, absent only when there is none. Both heaps of the
  store (tenant-wide and per shard) are instances.\<close>

theorem heap_refines_deadline_map:
  assumes "heap_inv h"
  shows "heap_inv (noteExpiry k t h) \<and>
    deadlines (noteExpiry k t h) = (deadlines h)(k := (if IsZero t then None else Some t)) \<and>
    heap_inv (clearExpiry k h) \<and> deadlines (clearExpiry k h) = (deadlines h)(k := None) \<and>
    (case peek h of
       None \<Rightarrow> deadlines h = Map.empty
     | Some (k0, t0) \<Rightarrow> deadlines h k0 = Some t0 \<and> (\<forall>k' t'. deadlines h k' = Some t' \<longrightarrow> t0 \<le> t'))"
  using assms dq.peek_None [OF assms] dq.peek_Some [OF assms] dq.peek_least [OF assms]
  by (auto simp: noteExpiry_inv deadlines_noteExpiry dq.inv_drop dq.deadlines_drop split: option.splits)

theorem heap_refines_deadline_map_witness:
  "peek (noteExpiry ''b'' 3 (noteExpiry ''a'' 5 heapEmpty)) = Some (''b'', 3)"
proof -
  let ?h = "noteExpiry ''b'' 3 (noteExpiry ''a'' 5 heapEmpty)"
  have i: "heap_inv ?h" by (simp add: noteExpiry_inv)
  have d: "deadlines ?h = [''a'' \<mapsto> 5, ''b'' \<mapsto> 3]" by (simp add: deadlines_noteExpiry noteExpiry_inv fun_upd_twist)
  from heap_refines_deadline_map [OF i]
  have p: "case peek ?h of None \<Rightarrow> deadlines ?h = Map.empty
     | Some (k0, t0) \<Rightarrow> deadlines ?h k0 = Some t0 \<and> (\<forall>k' t'. deadlines ?h k' = Some t' \<longrightarrow> t0 \<le> t')" by blast
  show ?thesis
  proof (cases "peek ?h")
    case None
    with p d have "[''a'' \<mapsto> 5, ''b'' \<mapsto> 3] = Map.empty" by simp
    from fun_cong [OF this, of "''b''"] show ?thesis by simp
  next
    case (Some x)
    obtain k0 t0 where x: "x = (k0, t0)" by fastforce
    with p Some have a: "deadlines ?h k0 = Some t0" and l: "\<And>k' t'. deadlines ?h k' = Some t' \<Longrightarrow> t0 \<le> t'" by auto
    have "t0 \<le> 3" by (rule l [of "''b''"]) (simp add: d)
    with a d have "k0 = ''b'' \<and> t0 = 3" by (auto split: if_splits)
    with Some x show ?thesis by simp
  qed
qed

end
