(* ===== verification/RandIdx.thy ===== *)
theory RandIdx
  imports Interfaces
begin

text \<open>
  The dense key array of \<^verbatim>\<open>internal/store/random.go\<close>: \<^verbatim>\<open>shard.rnd\<close> and the field \<^verbatim>\<open>rndIdx\<close> of
  the entries. The draws of \<^verbatim>\<open>math/rand\<close> come from an arbitrary source of numbers that is
  part of the state, read in order; every sequence of outcomes of \<^verbatim>\<open>rand.Intn\<close> is some
  source.
\<close>

record rng =
  rsrc :: "nat \<Rightarrow> nat"
  rpos :: nat

definition Intn :: "nat \<Rightarrow> rng \<Rightarrow> nat \<times> rng" where
  "Intn n g = (rsrc g (rpos g) mod n, g\<lparr>rpos := Suc (rpos g)\<rparr>)"

record rndarr =
  rnd :: "eref list"
  rndIdx :: "eref \<Rightarrow> int"

definition rndEmpty :: rndarr where
  "rndEmpty = \<lparr>rnd = [], rndIdx = (\<lambda>_. -1)\<rparr>"

definition rndAdd :: "eref \<Rightarrow> rndarr \<Rightarrow> rndarr" where
  "rndAdd e a = a\<lparr>rndIdx := (rndIdx a)(e := int (length (rnd a))), rnd := rnd a @ [e]\<rparr>"

definition rndRemove :: "eref \<Rightarrow> rndarr \<Rightarrow> rndarr" where
  "rndRemove e a =
     (let i = rndIdx a e; n = length (rnd a) in
      if i < 0 \<or> int n \<le> i \<or> rnd a ! nat i \<noteq> e then a
      else
        let la = rnd a ! (n - 1);
            a1 = a\<lparr>rnd := (rnd a)[nat i := la], rndIdx := (rndIdx a)(la := i)\<rparr>
        in a1\<lparr>rnd := take (n - 1) (rnd a1), rndIdx := (rndIdx a1)(e := -1)\<rparr>)"

text \<open>The test both picking loops apply: not the key being written, and volatile if asked.\<close>

definition pickable :: "string \<Rightarrow> bool \<Rightarrow> (eref \<Rightarrow> gotime) \<Rightarrow> eref \<Rightarrow> bool" where
  "pickable skipKey volatileOnly expOf e \<longleftrightarrow> e \<noteq> skipKey \<and> \<not> (volatileOnly \<and> IsZero (expOf e))"

text \<open>The bounded random attempts of \<^verbatim>\<open>rndPick\<close>.\<close>

fun rndTries :: "nat \<Rightarrow> (eref \<Rightarrow> bool) \<Rightarrow> eref list \<Rightarrow> rng \<Rightarrow> eref option \<times> rng" where
  "rndTries 0 ok xs g = (None, g)"
| "rndTries (Suc t) ok xs g =
     (let (i, g') = Intn (length xs) g; e = xs ! i
      in if ok e then (Some e, g') else rndTries t ok xs g')"

definition rndPick :: "string \<Rightarrow> bool \<Rightarrow> (eref \<Rightarrow> gotime) \<Rightarrow> rndarr \<Rightarrow> rng \<Rightarrow> eref option \<times> rng" where
  "rndPick skipKey volatileOnly expOf a g =
     (let n = length (rnd a); ok = pickable skipKey volatileOnly expOf in
      if n = 0 then (None, g)
      else case rndTries 8 ok (rnd a) g of
        (Some e, g1) \<Rightarrow> (Some e, g1)
      | (None, g1) \<Rightarrow>
          let (start, g2) = Intn n g1
          in (find ok (map (\<lambda>i. rnd a ! ((start + i) mod n)) [0..<n]), g2))"

definition rnd_inv :: "rndarr \<Rightarrow> bool" where
  "rnd_inv a \<longleftrightarrow> distinct (rnd a) \<and> (\<forall>i < length (rnd a). rndIdx a (rnd a ! i) = int i)"

definition rnd_set :: "rndarr \<Rightarrow> eref set" where
  "rnd_set a = set (rnd a)"

lemma rndRemove_mem:
  assumes inv: "rnd_inv a" and e: "e \<in> set (rnd a)"
  shows "rnd_inv (rndRemove e a) \<and> set (rnd (rndRemove e a)) = set (rnd a) - {e}"
proof -
  from e obtain i where i: "i < length (rnd a)" "rnd a ! i = e" by (auto simp: in_set_conv_nth)
  let ?x = "rnd a" and ?n = "length (rnd a) - 1"
  let ?y = "?x[i := ?x ! ?n]"
  have n: "?n < length ?x" "length ?x = Suc ?n" using i by auto
  have idx: "rndIdx a e = int i" using inv i by (auto simp: rnd_inv_def)
  have eq: "rndRemove e a =
      \<lparr>rnd = take ?n ?y, rndIdx = (rndIdx a)(?x ! ?n := int i, e := -1)\<rparr>"
    using i idx by (simp add: rndRemove_def Let_def)
  have inj: "?x ! j = ?x ! k \<longleftrightarrow> j = k" if "j < length ?x" "k < length ?x" for j k
    using inv that by (simp add: rnd_inv_def nth_eq_iff_index_eq)
  have y: "take ?n ?y ! j = (if j = i then ?x ! ?n else ?x ! j)" if "j < ?n" for j
    using that i by (simp add: nth_list_update)
  have "distinct (take ?n ?y)"
  proof (rule distinct_conv_nth [THEN iffD2], intro allI impI)
    fix j k
    assume "j < length (take ?n ?y)" "k < length (take ?n ?y)" "j \<noteq> k"
    then have jk: "j < ?n" "k < ?n" "j \<noteq> k" by auto
    show "take ?n ?y ! j \<noteq> take ?n ?y ! k"
      unfolding y [OF jk(1)] y [OF jk(2)] using n inj jk by auto
  qed
  moreover have "((rndIdx a)(?x ! ?n := int i, e := -1)) (take ?n ?y ! j) = int j" if j: "j < ?n" for j
  proof -
    have "?x ! j \<noteq> ?x ! ?n" "j \<noteq> i \<Longrightarrow> ?x ! j \<noteq> e" "j = i \<Longrightarrow> ?x ! ?n \<noteq> e"
      using j n inj i by auto
    with j inv show ?thesis unfolding y [OF j] by (auto simp: rnd_inv_def)
  qed
  moreover have "set (take ?n ?y) = set ?x - {e}"
  proof -
    have "set (take ?n ?y) = (\<lambda>j. if j = i then ?x ! ?n else ?x ! j) ` {..<?n}"
    proof -
      have "set (take ?n ?y) = (\<lambda>j. take ?n ?y ! j) ` {..<?n}"
        using n by (auto simp: set_conv_nth simp del: nth_take)
      also have "\<dots> = (\<lambda>j. if j = i then ?x ! ?n else ?x ! j) ` {..<?n}"
        by (rule image_cong [OF refl], rule y) simp
      finally show ?thesis .
    qed
    also have "\<dots> = set ?x - {e}"
    proof (intro set_eqI iffI)
      fix z
      assume "z \<in> (\<lambda>j. if j = i then ?x ! ?n else ?x ! j) ` {..<?n}"
      then obtain j where j: "j < ?n" "z = (if j = i then ?x ! ?n else ?x ! j)" by auto
      then show "z \<in> set ?x - {e}" using n i inj by (auto split: if_splits)
    next
      fix z
      assume "z \<in> set ?x - {e}"
      then obtain j where j: "j < length ?x" "z = ?x ! j" "j \<noteq> i" using i by (auto simp: in_set_conv_nth)
      show "z \<in> (\<lambda>j. if j = i then ?x ! ?n else ?x ! j) ` {..<?n}"
      proof (cases "j = ?n")
        case True
        with j i n show ?thesis by (intro image_eqI [of _ _ i]) auto
      next
        case False
        with j i n show ?thesis by (intro image_eqI [of _ _ j]) auto
      qed
    qed
    finally show ?thesis .
  qed
  ultimately show ?thesis using n by (simp add: eq rnd_inv_def)
qed

interpretation ra: entry_index rnd_inv rnd_set rndAdd rndRemove
proof unfold_locales
  fix a e
  assume inv: "rnd_inv a"
  {
    assume "e \<notin> rnd_set a"
    then have "e \<notin> set (rnd a)" by (simp add: rnd_set_def)
    moreover from this have "rnd a ! i \<noteq> e" if "i < length (rnd a)" for i
      using that nth_mem by blast
    ultimately show "rnd_inv (rndAdd e a)" "rnd_set (rndAdd e a) = insert e (rnd_set a)"
      using inv by (auto simp: rnd_inv_def rnd_set_def rndAdd_def nth_append)
  }
  assume "e \<in> rnd_set a"
  with rndRemove_mem [OF inv, of e]
  show "rnd_inv (rndRemove e a)" "rnd_set (rndRemove e a) = rnd_set a - {e}"
    by (auto simp: rnd_set_def)
qed

lemma rnd_empty [simp]: "rnd_inv rndEmpty" "rnd_set rndEmpty = {}"
  by (simp_all add: rnd_inv_def rnd_set_def rndEmpty_def)

section \<open>Picking\<close>

lemma rndTries_sound:
  "xs \<noteq> [] \<Longrightarrow> rndTries t ok xs g = (Some e, g') \<Longrightarrow> ok e \<and> e \<in> set xs"
  by (induction t arbitrary: g) (auto simp: Intn_def Let_def split: if_splits)

lemma scan_set:
  assumes "0 < n"
  shows "(\<lambda>i. (start + i) mod n) ` {0..<n} = {0..<n::nat}"
proof -
  have "j \<in> (\<lambda>i. (start + i) mod n) ` {0..<n}" if "j < n" for j
  proof (rule image_eqI [of _ _ "(j + (n - start mod n)) mod n"])
    have "(start + (j + (n - start mod n)) mod n) mod n = (start mod n + (j + (n - start mod n))) mod n"
      by (simp add: mod_simps)
    also have "\<dots> = (j + n) mod n"
      using mod_less_divisor [OF assms, of start] by (simp add: add.commute add.left_commute)
    finally show "j = (start + (j + (n - start mod n)) mod n) mod n" using that by simp
  qed (use assms in simp)
  with assms show ?thesis by auto
qed

lemma rndPick_spec:
  assumes "rndPick skipKey vol expOf a g = (r, g')"
  shows "case r of
     Some e \<Rightarrow> e \<in> rnd_set a \<and> pickable skipKey vol expOf e
   | None \<Rightarrow> (\<forall>e \<in> rnd_set a. \<not> pickable skipKey vol expOf e)"
proof (cases "rnd a = []")
  case True
  with assms show ?thesis by (auto simp: rndPick_def rnd_set_def)
next
  case ne: False
  let ?ok = "pickable skipKey vol expOf" and ?n = "length (rnd a)"
  obtain t g1 where t: "rndTries 8 ?ok (rnd a) g = (t, g1)" by fastforce
  show ?thesis
  proof (cases t)
    case (Some e)
    with t have "?ok e \<and> e \<in> set (rnd a)" using rndTries_sound [OF ne] by blast
    with Some t assms ne show ?thesis
      by (auto simp: rndPick_def Let_def rnd_set_def)
  next
    case None
    obtain start g2 where s: "Intn ?n g1 = (start, g2)" by fastforce
    let ?l = "map (\<lambda>i. rnd a ! ((start + i) mod ?n)) [0..<?n]"
    have "set ?l = (\<lambda>j. rnd a ! j) ` ((\<lambda>i. (start + i) mod ?n) ` {0..<?n})"
      by (simp add: image_image)
    also have "\<dots> = set (rnd a)"
      using scan_set [of ?n start] ne by (auto simp: set_conv_nth)
    finally have "set ?l = set (rnd a)" .
    moreover have "r = find ?ok ?l"
      using assms None t s ne by (simp add: rndPick_def Let_def)
    ultimately show ?thesis
      using find_spec [of ?l ?ok] unfolding rnd_set_def by (simp only:)
  qed
qed

end
