(* ===== verification/Lfu.thy ===== *)
theory Lfu
  imports Dll RandIdx
begin

text \<open>
  The frequency index of \<^verbatim>\<open>internal/store/lfu.go\<close>: buckets chained in increasing frequency,
  each with the list of its entries. A \<^verbatim>\<open>*freqBucket\<close> is referred to by its frequency, its
  key in \<^verbatim>\<open>freqMap\<close>: a bucket leaves that map only when it is empty, so no live pointer
  refers to a bucket outside it (\<open>lfu_rep\<close>). The entry fields \<^verbatim>\<open>freq\<close>, \<^verbatim>\<open>inLFU\<close>,
  \<^verbatim>\<open>bucket\<close>, \<^verbatim>\<open>fPrev\<close>, \<^verbatim>\<open>fNext\<close> are maps from references. The lemmas relate the pointer
  operations to reference operations on a sorted list of buckets.
\<close>

record freqBucket =
  bfreq :: int
  bhead :: "eref option"
  btail :: "eref option"
  bprev :: "int option"
  bnext :: "int option"

record lfu =
  freqMap :: "int \<Rightarrow> freqBucket option"
  lfuMin :: "int option"
  lfuSize :: int
  freqOf :: "eref \<Rightarrow> int"
  inLFU :: "eref \<Rightarrow> bool"
  bucketOf :: "eref \<Rightarrow> int option"
  fPrev :: "eref \<Rightarrow> eref option"
  fNext :: "eref \<Rightarrow> eref option"

definition lfuEmpty :: lfu where
  "lfuEmpty = \<lparr>freqMap = (\<lambda>_. None), lfuMin = None, lfuSize = 0, freqOf = (\<lambda>_. 0),
     inLFU = (\<lambda>_. False), bucketOf = (\<lambda>_. None), fPrev = (\<lambda>_. None), fNext = (\<lambda>_. None)\<rparr>"

text \<open>Reading and assigning a field of the bucket behind a pointer.\<close>

definition bfield :: "(freqBucket \<Rightarrow> 'a option) \<Rightarrow> lfu \<Rightarrow> int \<Rightarrow> 'a option" where
  "bfield g l f = (case freqMap l f of None \<Rightarrow> None | Some b \<Rightarrow> g b)"

definition bset :: "int \<Rightarrow> (freqBucket \<Rightarrow> freqBucket) \<Rightarrow> lfu \<Rightarrow> lfu" where
  "bset f g l = l\<lparr>freqMap := (freqMap l)(f := map_option g (freqMap l f))\<rparr>"

definition bucketEmpty :: "int \<Rightarrow> lfu \<Rightarrow> bool" where
  "bucketEmpty b l \<longleftrightarrow> bfield bhead l b = None"

definition pushTail :: "int \<Rightarrow> eref \<Rightarrow> lfu \<Rightarrow> lfu" where
  "pushTail b e l =
     (let t = bfield btail l b;
          l1 = l\<lparr>bucketOf := (bucketOf l)(e \<mapsto> b), fPrev := (fPrev l)(e := t), fNext := (fNext l)(e := None)\<rparr>;
          l2 = (case t of
                  Some x \<Rightarrow> l1\<lparr>fNext := (fNext l1)(x \<mapsto> e)\<rparr>
                | None \<Rightarrow> bset b (\<lambda>r. r\<lparr>bhead := Some e\<rparr>) l1)
      in bset b (\<lambda>r. r\<lparr>btail := Some e\<rparr>) l2)"

definition detach :: "int \<Rightarrow> eref \<Rightarrow> lfu \<Rightarrow> lfu" where
  "detach b e l =
     (let l1 = (case fPrev l e of
                  Some p \<Rightarrow> l\<lparr>fNext := (fNext l)(p := fNext l e)\<rparr>
                | None \<Rightarrow> if bfield bhead l b = Some e
                          then bset b (\<lambda>r. r\<lparr>bhead := fNext l e\<rparr>) l else l);
          l2 = (case fNext l1 e of
                  Some n \<Rightarrow> l1\<lparr>fPrev := (fPrev l1)(n := fPrev l1 e)\<rparr>
                | None \<Rightarrow> if bfield btail l1 b = Some e
                          then bset b (\<lambda>r. r\<lparr>btail := fPrev l1 e\<rparr>) l1 else l1)
      in l2\<lparr>fPrev := (fPrev l2)(e := None), fNext := (fNext l2)(e := None),
            bucketOf := (bucketOf l2)(e := None)\<rparr>)"

text \<open>
  Linking a new bucket \<open>b\<close> behind bucket \<open>c\<close>; the source has these lines in the branch for
  the hint \<^verbatim>\<open>after\<close> and again at the end, for \<^verbatim>\<open>cur\<close>.
\<close>

definition spliceAfter :: "int \<Rightarrow> int \<Rightarrow> lfu \<Rightarrow> lfu" where
  "spliceAfter c b l =
     (let nx = bfield bnext l c;
          l1 = bset b (\<lambda>r. r\<lparr>bprev := Some c, bnext := nx\<rparr>) l;
          l2 = (case nx of Some n \<Rightarrow> bset n (\<lambda>r. r\<lparr>bprev := Some b\<rparr>) l1 | None \<Rightarrow> l1)
      in bset c (\<lambda>r. r\<lparr>bnext := Some b\<rparr>) l2)"

text \<open>
  The walk to the insertion point. The bound is the number of entries; since every bucket
  but possibly one holds an entry, it is at least the number of steps.
\<close>

fun lfuWalk :: "nat \<Rightarrow> int \<Rightarrow> int \<Rightarrow> lfu \<Rightarrow> int" where
  "lfuWalk 0 freq cur l = cur"
| "lfuWalk (Suc n) freq cur l =
     (case bfield bnext l cur of
        Some nx \<Rightarrow> if the (bfield (Some \<circ> bfreq) l nx) < freq then lfuWalk n freq nx l else cur
      | None \<Rightarrow> cur)"

definition lfuGetOrCreateBucket :: "int \<Rightarrow> int option \<Rightarrow> lfu \<Rightarrow> lfu" where
  "lfuGetOrCreateBucket freq after l =
     (if freqMap l freq \<noteq> None then l
      else
        let l1 = l\<lparr>freqMap := (freqMap l)(freq \<mapsto>
               \<lparr>bfreq = freq, bhead = None, btail = None, bprev = None, bnext = None\<rparr>)\<rparr>
        in if after \<noteq> None \<and> the (bfield (Some \<circ> bfreq) l1 (the after)) + 1 = freq
           then spliceAfter (the after) freq l1
           else case lfuMin l1 of
             None \<Rightarrow> l1\<lparr>lfuMin := Some freq\<rparr>
           | Some m \<Rightarrow>
               if freq < the (bfield (Some \<circ> bfreq) l1 m)
               then (bset m (\<lambda>r. r\<lparr>bprev := Some freq\<rparr>)
                      (bset freq (\<lambda>r. r\<lparr>bnext := Some m\<rparr>) l1))\<lparr>lfuMin := Some freq\<rparr>
               else spliceAfter (lfuWalk (nat (lfuSize l1)) freq m l1) freq l1)"

definition lfuUnlinkBucket :: "int \<Rightarrow> lfu \<Rightarrow> lfu" where
  "lfuUnlinkBucket b l =
     (let pv = bfield bprev l b; nx = bfield bnext l b;
          l1 = l\<lparr>freqMap := (freqMap l)(b := None)\<rparr>;
          l2 = (case pv of
                  Some p \<Rightarrow> bset p (\<lambda>r. r\<lparr>bnext := nx\<rparr>) l1
                | None \<Rightarrow> l1\<lparr>lfuMin := nx\<rparr>)
      in case nx of Some n \<Rightarrow> bset n (\<lambda>r. r\<lparr>bprev := pv\<rparr>) l2 | None \<Rightarrow> l2)"

definition lfuAdd :: "eref \<Rightarrow> lfu \<Rightarrow> lfu" where
  "lfuAdd e l =
     (let l0 = (if freqOf l e \<le> 0 then l\<lparr>freqOf := (freqOf l)(e := 1)\<rparr> else l);
          b = freqOf l0 e;
          l1 = lfuGetOrCreateBucket b None l0;
          l2 = pushTail b e l1
      in l2\<lparr>inLFU := (inLFU l2)(e := True), lfuSize := lfuSize l2 + 1\<rparr>)"

definition lfuRemove :: "eref \<Rightarrow> lfu \<Rightarrow> lfu" where
  "lfuRemove e l =
     (case bucketOf l e of
        None \<Rightarrow> l\<lparr>inLFU := (inLFU l)(e := False)\<rparr>
      | Some b \<Rightarrow>
          if \<not> inLFU l e then l\<lparr>inLFU := (inLFU l)(e := False)\<rparr>
          else
            let l1 = detach b e l;
                l2 = l1\<lparr>lfuSize := lfuSize l1 - 1, inLFU := (inLFU l1)(e := False)\<rparr>
            in if bucketEmpty b l2 then lfuUnlinkBucket b l2 else l2)"

definition lfuRelocate :: "eref \<Rightarrow> lfu \<Rightarrow> lfu" where
  "lfuRelocate e l =
     (case bucketOf l e of
        None \<Rightarrow> l
      | Some oldB \<Rightarrow>
          if \<not> inLFU l e then l
          else if the (bfield (Some \<circ> bfreq) l oldB) = freqOf l e
          then pushTail oldB e (detach oldB e l)
          else
            let l1 = detach oldB e l;
                after = (if the (bfield (Some \<circ> bfreq) l1 oldB) + 1 = freqOf l1 e then Some oldB else None);
                newB = freqOf l1 e;
                l2 = pushTail newB e (lfuGetOrCreateBucket newB after l1)
            in if bucketEmpty oldB l2 then lfuUnlinkBucket oldB l2 else l2)"

text \<open>The bucket chain from a bucket on, as the outer loop of \<^verbatim>\<open>lfuPick\<close> visits it.\<close>

fun bucketWalk :: "nat \<Rightarrow> lfu \<Rightarrow> int option \<Rightarrow> int list" where
  "bucketWalk 0 l p = []"
| "bucketWalk (Suc n) l None = []"
| "bucketWalk (Suc n) l (Some b) = b # bucketWalk n l (bfield bnext l b)"

definition lfuPick :: "string \<Rightarrow> bool \<Rightarrow> (eref \<Rightarrow> gotime) \<Rightarrow> lfu \<Rightarrow> eref option" where
  "lfuPick skipKey volatileOnly expOf l =
     (if lfuSize l = 0 then None
      else
        let n = nat (lfuSize l) in
        find (pickable skipKey volatileOnly expOf)
          (concat (map (\<lambda>b. dll_walk n (fNext l) (bfield bhead l b)) (bucketWalk n l (lfuMin l)))))"

text \<open>The frequency part of \<^verbatim>\<open>touch\<close> (\<^verbatim>\<open>ops.go\<close>): bump the counter.\<close>

definition freqBump :: "eref \<Rightarrow> lfu \<Rightarrow> lfu" where
  "freqBump e l =
     (let l1 = (if freqOf l e \<le> 0 then l\<lparr>freqOf := (freqOf l)(e := 1)\<rparr> else l)
      in l1\<lparr>freqOf := (freqOf l1)(e := freqOf l1 e + 1)\<rparr>)"

section \<open>Reference operations on a sorted list of buckets\<close>

type_synonym buckets = "(int \<times> eref list) list"

fun bs_add :: "int \<Rightarrow> eref \<Rightarrow> buckets \<Rightarrow> buckets" where
  "bs_add f e [] = [(f, [e])]"
| "bs_add f e ((g, es) # bs) =
     (if f = g then (g, es @ [e]) # bs
      else if f < g then (f, [e]) # (g, es) # bs
      else (g, es) # bs_add f e bs)"

definition bs_del :: "eref \<Rightarrow> buckets \<Rightarrow> buckets" where
  "bs_del e bs = filter (\<lambda>(f, es). es \<noteq> []) (map (\<lambda>(f, es). (f, remove1 e es)) bs)"

definition bs_entries :: "buckets \<Rightarrow> eref list" where
  "bs_entries bs = concat (map snd bs)"

lemma bs_entries_simps [simp]:
  "bs_entries [] = []" "bs_entries ((f, es) # bs) = es @ bs_entries bs"
  "bs_entries (xs @ ys) = bs_entries xs @ bs_entries ys"
  by (simp_all add: bs_entries_def)

lemma bs_add_split:
  "\<forall>g \<in> fst ` set xs. g < f \<Longrightarrow> bs_add f e (xs @ (f, es) # ys) = xs @ (f, es @ [e]) # ys"
  "\<forall>g \<in> fst ` set xs. g < f \<Longrightarrow> \<forall>g \<in> fst ` set ys. f < g \<Longrightarrow> bs_add f e (xs @ ys) = xs @ (f, [e]) # ys"
  by (induction xs) (auto; cases ys; auto)+

lemma bs_del_id:
  "e \<notin> set (bs_entries xs) \<Longrightarrow> \<forall>(f, es) \<in> set xs. es \<noteq> [] \<Longrightarrow> bs_del e xs = xs"
  by (induction xs) (auto simp: bs_del_def remove1_idem)

lemma bs_del_append: "bs_del e (xs @ ys) = bs_del e xs @ bs_del e ys"
  by (simp add: bs_del_def)

lemma bs_del_split:
  assumes "distinct (bs_entries (xs @ (f, es) # ys))" "e \<in> set es"
    "\<forall>(f, es) \<in> set (xs @ ys). es \<noteq> []"
  shows "bs_del e (xs @ (f, es) # ys) = xs @ (if remove1 e es = [] then ys else (f, remove1 e es) # ys)"
proof -
  have "e \<notin> set (bs_entries xs)" "e \<notin> set (bs_entries ys)" using assms by auto
  moreover have "bs_del e ((f, es) # ys) = (if remove1 e es = [] then [] else [(f, remove1 e es)]) @ bs_del e ys"
    by (simp add: bs_del_def)
  ultimately show ?thesis using assms(3) by (simp add: bs_del_append bs_del_id)
qed

section \<open>Shape\<close>

definition bdll :: "lfu \<Rightarrow> freqBucket \<Rightarrow> dll" where
  "bdll l b = \<lparr>dprev = fPrev l, dnext = fNext l, dhead = bhead b, dtail = btail b\<rparr>"

lemma bdll_simps [simp]:
  "dprev (bdll l b) = fPrev l" "dnext (bdll l b) = fNext l" "dhead (bdll l b) = bhead b"
  "dtail (bdll l b) = btail b"
  by (simp_all add: bdll_def)

lemma bucket_update_same [simp]:
  "b\<lparr>bhead := bhead b\<rparr> = b" "b\<lparr>btail := btail b\<rparr> = b" "b\<lparr>bhead := x, btail := btail b\<rparr> = b\<lparr>bhead := x\<rparr>"
  by simp_all

definition bucket_ok :: "lfu \<Rightarrow> int \<Rightarrow> eref list \<Rightarrow> bool" where
  "bucket_ok l f es \<longleftrightarrow> (\<exists>b. freqMap l f = Some b \<and> bfreq b = f \<and> dll_core (bdll l b) es \<and>
     (\<forall>e \<in> set es. bucketOf l e = Some f))"

definition lfu_shape :: "lfu \<Rightarrow> buckets \<Rightarrow> bool" where
  "lfu_shape l bs \<longleftrightarrow> sorted_wrt (<) (map fst bs) \<and> dom (freqMap l) = fst ` set bs \<and>
     lfuMin l = hd_or (map fst bs) None \<and>
     seg (bfield bprev l) (bfield bnext l) None (map fst bs) None \<and>
     (\<forall>(f, es) \<in> set bs. bucket_ok l f es) \<and> distinct (bs_entries bs) \<and>
     (\<forall>e. e \<notin> set (bs_entries bs) \<longrightarrow> bucketOf l e = None \<and> fPrev l e = None \<and> fNext l e = None)"

definition lfu_rep :: "lfu \<Rightarrow> buckets \<Rightarrow> bool" where
  "lfu_rep l bs \<longleftrightarrow> lfu_shape l bs \<and>
     (\<forall>(f, es) \<in> set bs. 1 \<le> f \<and> es \<noteq> [] \<and> (\<forall>e \<in> set es. freqOf l e = f)) \<and>
     (\<forall>e. inLFU l e \<longleftrightarrow> e \<in> set (bs_entries bs)) \<and> lfuSize l = int (length (bs_entries bs))"


lemma dll_core_cong:
  assumes "\<And>z. z \<in> set xs \<Longrightarrow> dprev d z = dprev d' z \<and> dnext d z = dnext d' z"
    "dhead d = dhead d'" "dtail d = dtail d'"
  shows "dll_core d xs = dll_core d' xs"
  using seg_cong [of xs "dprev d" "dprev d'" "dnext d" "dnext d'" None None] assms
  by (simp add: dll_core_def)

lemma bset_simps [simp]:
  "lfuMin (bset f g l) = lfuMin l" "lfuSize (bset f g l) = lfuSize l" "freqOf (bset f g l) = freqOf l"
  "inLFU (bset f g l) = inLFU l" "bucketOf (bset f g l) = bucketOf l"
  "fPrev (bset f g l) = fPrev l" "fNext (bset f g l) = fNext l"
  "freqMap (bset f g l) = (freqMap l)(f := map_option g (freqMap l f))"
  by (simp_all add: bset_def)

lemma bfield_bset:
  "freqMap l f \<noteq> None \<Longrightarrow> (\<And>r. h (g r) = k) \<Longrightarrow> bfield h (bset f g l) = (bfield h l)(f := k)"
  "(\<And>r. h (g r) = h r) \<Longrightarrow> bfield h (bset f g l) = bfield h l"
  by (auto simp: bfield_def fun_eq_iff split: option.splits)

text \<open>Changing the entry list of one bucket keeps the shape of the rest.\<close>

lemma shape_change_bucket:
  assumes sh: "lfu_shape l (xs @ (f, es) # ys)" and b: "freqMap l f = Some b"
    and e: "e \<notin> set (bs_entries (xs @ ys))"
    and new: "set es' \<subseteq> insert e (set es)" "dll_core d es'" "\<And>z. z \<in> set es' \<Longrightarrow> bo z = Some f"
    and gone: "\<And>z. z \<in> insert e (set es) \<Longrightarrow> z \<notin> set es' \<Longrightarrow> bo z = None \<and> dprev d z = None \<and> dnext d z = None"
    and rest: "\<And>z. z \<notin> insert e (set es) \<Longrightarrow>
        bo z = bucketOf l z \<and> dprev d z = fPrev l z \<and> dnext d z = fNext l z"
  shows "lfu_shape (l\<lparr>bucketOf := bo, fPrev := dprev d, fNext := dnext d,
      freqMap := (freqMap l)(f \<mapsto> b\<lparr>bhead := dhead d, btail := dtail d\<rparr>)\<rparr>) (xs @ (f, es') # ys)"
    (is "lfu_shape ?l _")
proof -
  let ?bs = "xs @ (f, es) # ys"
  from sh have srt: "sorted_wrt (<) (map fst ?bs)" and dm: "dom (freqMap l) = fst ` set ?bs"
    and ok: "\<And>g gs. (g, gs) \<in> set ?bs \<Longrightarrow> bucket_ok l g gs" and ds: "distinct (bs_entries ?bs)"
    by (auto simp: lfu_shape_def)
  have links: "bfield bprev ?l = bfield bprev l" "bfield bnext ?l = bfield bnext l"
    using b by (auto simp: bfield_def fun_eq_iff)
  have other: "bucket_ok ?l g gs" if g: "(g, gs) \<in> set (xs @ ys)" for g gs
  proof -
    have gf: "g \<noteq> f" using srt g by (auto simp: sorted_wrt_append)
    have dj: "z \<notin> insert e (set es)" if "z \<in> set gs" for z
    proof -
      have "z \<in> set (bs_entries (xs @ ys))" using g that by (force simp: bs_entries_def)
      then show ?thesis using ds e by auto
    qed
    from ok [of g gs] g obtain c where c: "freqMap l g = Some c" "bfreq c = g" "dll_core (bdll l c) gs"
      "\<forall>z \<in> set gs. bucketOf l z = Some g" by (auto simp: bucket_ok_def)
    have "dll_core (bdll ?l c) gs = dll_core (bdll l c) gs"
      by (rule dll_core_cong) (use dj rest in \<open>auto simp: bdll_def\<close>)
    with c gf dj rest show ?thesis by (auto simp: bucket_ok_def)
  qed
  have "bucket_ok ?l f es'"
    using new(2,3) ok [of f es] b by (cases d) (auto simp: bucket_ok_def bdll_def)
  moreover have "distinct (bs_entries (xs @ (f, es') # ys))"
    using ds e new(1,2) by (auto simp: dll_core_def)
  moreover have "bo z = None \<and> dprev d z = None \<and> dnext d z = None"
    if "z \<notin> set (bs_entries (xs @ (f, es') # ys))" for z
    using that gone [of z] rest [of z] sh by (auto simp: lfu_shape_def)
  ultimately show ?thesis
    using sh other dm b links by (auto simp: lfu_shape_def)
qed

lemma pushTail_eq:
  "freqMap l f = Some b \<Longrightarrow> pushTail f e l =
     (let d = dllPushTail e (bdll l b)
      in l\<lparr>bucketOf := (bucketOf l)(e \<mapsto> f), fPrev := dprev d, fNext := dnext d,
           freqMap := (freqMap l)(f \<mapsto> b\<lparr>bhead := dhead d, btail := dtail d\<rparr>)\<rparr>)"
  by (cases "btail b") (auto simp: pushTail_def bset_def bfield_def dllPushTail_def bdll_def Let_def)

lemma detach_eq:
  assumes b: "freqMap l f = Some b" and c: "dll_core (bdll l b) es" and e: "e \<in> set es"
  shows "detach f e l =
     (let d = dllRemove e (bdll l b)
      in l\<lparr>bucketOf := (bucketOf l)(e := None), fPrev := dprev d, fNext := dnext d,
           freqMap := (freqMap l)(f \<mapsto> b\<lparr>bhead := dhead d, btail := dtail d\<rparr>)\<rparr>)"
proof -
  from e obtain as bs where es: "es = as @ e # bs" by (meson split_list)
  with c have p: "fPrev l e = last_or as None" "fNext l e = hd_or bs None"
    and h: "bhead b = hd_or (as @ e # bs) None" "btail b = last_or (as @ e # bs) None"
    and d: "distinct (as @ e # bs)"
    by (auto simp: dll_core_def bdll_def dest: seg_nextD)
  have "fPrev l e = None \<Longrightarrow> bhead b = Some e" "fNext l e = None \<Longrightarrow> btail b = Some e"
    using p h by (cases as; cases bs; simp add: last_or_def)+
  moreover have "fPrev l e \<noteq> Some e" "fNext l e \<noteq> Some e"
    using p d by (cases as rule: rev_cases; cases bs; auto)+
  ultimately show ?thesis
    using b by (cases "fPrev l e"; cases "fNext l e")
      (simp_all add: detach_def bset_def bfield_def dllRemove_def bdll_def Let_def map_upd_triv)
qed

lemma bucketD:
  assumes "lfu_shape l (xs @ (f, es) # ys)"
  obtains b where "freqMap l f = Some b" "dll_core (bdll l b) es" "bfreq b = f"
    "\<forall>z \<in> set es. bucketOf l z = Some f"
  using assms by (auto simp: lfu_shape_def bucket_ok_def)

lemma shape_pushTail:
  assumes sh: "lfu_shape l (xs @ (f, es) # ys)" and e: "e \<notin> set (bs_entries (xs @ (f, es) # ys))"
  shows "lfu_shape (pushTail f e l) (xs @ (f, es @ [e]) # ys)"
proof -
  from sh obtain b where b: "freqMap l f = Some b" "dll_core (bdll l b) es" "bfreq b = f"
    "\<forall>z \<in> set es. bucketOf l z = Some f" by (rule bucketD)
  have ne: "e \<notin> set es" using e by simp
  show ?thesis
    unfolding pushTail_eq [OF b(1)] Let_def
    by (rule shape_change_bucket [OF sh b(1), where e = e])
      (use e ne b(4) dll_core_push [OF b(2) ne] dllPushTail_frame [OF b(2) ne] in auto)
qed

lemma shape_detach:
  assumes sh: "lfu_shape l (xs @ (f, es) # ys)" and e: "e \<in> set es"
  shows "lfu_shape (detach f e l) (xs @ (f, remove1 e es) # ys)"
proof -
  from sh obtain b where b: "freqMap l f = Some b" "dll_core (bdll l b) es" "bfreq b = f"
    "\<forall>z \<in> set es. bucketOf l z = Some f" by (rule bucketD)
  from e obtain as bs where es: "es = as @ e # bs" "e \<notin> set as" by (meson split_list_first)
  then have r: "remove1 e es = as @ bs" by (simp add: remove1_append)
  have c: "dll_core (bdll l b) (as @ e # bs)" using b(2) es by simp
  have d: "distinct (bs_entries (xs @ (f, es) # ys))" using sh by (simp add: lfu_shape_def)
  show ?thesis
    unfolding detach_eq [OF b(1,2) e] Let_def r
    by (rule shape_change_bucket [OF sh b(1), where e = e])
      (use es d b(4) dll_core_remove [OF c] dllRemove_frame [OF c] dllRemove_self in auto)
qed


section \<open>The bucket chain\<close>

definition bdata :: "lfu \<Rightarrow> int \<Rightarrow> (int \<times> eref option \<times> eref option) option" where
  "bdata l f = map_option (\<lambda>b. (bfreq b, bhead b, btail b)) (freqMap l f)"

lemma bdata_bset [simp]:
  "(\<And>r. bfreq (g r) = bfreq r \<and> bhead (g r) = bhead r \<and> btail (g r) = btail r) \<Longrightarrow> bdata (bset f g l) = bdata l"
  by (auto simp: bdata_def fun_eq_iff option.map_comp comp_def)

lemma dom_bdata: "dom (bdata l) = dom (freqMap l)"
  by (auto simp: bdata_def)

lemma bucket_ok_bdata:
  "bucket_ok l f es \<longleftrightarrow> (\<exists>h t. bdata l f = Some (f, h, t) \<and>
     dll_core \<lparr>dprev = fPrev l, dnext = fNext l, dhead = h, dtail = t\<rparr> es \<and>
     (\<forall>e \<in> set es. bucketOf l e = Some f))"
  unfolding bucket_ok_def bdata_def bdll_def by force

lemma shape_relink:
  assumes sh: "lfu_shape l bs"
    and same: "bucketOf l' = bucketOf l" "fPrev l' = fPrev l" "fNext l' = fNext l"
    and bs': "sorted_wrt (<) (map fst bs')" "bs_entries bs' = bs_entries bs"
    and dm: "dom (bdata l') = fst ` set bs'"
    and data: "\<And>f es. (f, es) \<in> set bs' \<Longrightarrow>
        (f, es) \<in> set bs \<and> bdata l' f = bdata l f \<or> es = [] \<and> bdata l' f = Some (f, None, None)"
    and chain: "lfuMin l' = hd_or (map fst bs') None"
      "seg (bfield bprev l') (bfield bnext l') None (map fst bs') None"
  shows "lfu_shape l' bs'"
proof -
  have "bucket_ok l' f es" if "(f, es) \<in> set bs'" for f es
  proof -
    from data [OF that] show ?thesis
    proof
      assume "(f, es) \<in> set bs \<and> bdata l' f = bdata l f"
      moreover from this have "bucket_ok l f es" using sh by (auto simp: lfu_shape_def)
      ultimately show ?thesis using same by (simp add: bucket_ok_bdata)
    qed (auto simp: bucket_ok_bdata dll_core_def)
  qed
  with sh same bs' dm chain show ?thesis
    by (auto simp: lfu_shape_def dom_bdata)
qed

lemma sorted_wrt_insert_mid:
  "sorted_wrt (<) (xs @ ys) \<Longrightarrow> \<forall>g \<in> set xs. g < f \<Longrightarrow> \<forall>g \<in> set ys. (f::int) < g \<Longrightarrow>
     sorted_wrt (<) (xs @ f # ys)"
  by (auto simp: sorted_wrt_append)

definition rawBucket :: "int \<Rightarrow> freqBucket" where
  "rawBucket f = \<lparr>bfreq = f, bhead = None, btail = None, bprev = None, bnext = None\<rparr>"

text \<open>All the ways a new bucket gets linked: the resulting pointers decide.\<close>

lemma shape_new_bucket:
  assumes sh: "lfu_shape l (xs @ ys)"
    and f: "\<forall>g \<in> fst ` set xs. g < f" "\<forall>g \<in> fst ` set ys. f < g"
    and same: "bucketOf l' = bucketOf l" "fPrev l' = fPrev l" "fNext l' = fNext l"
    and data: "bdata l' = (bdata l)(f \<mapsto> (f, None, None))"
    and mn: "lfuMin l' = hd_or (map fst xs) (Some f)"
    and pv: "bfield bprev l' = (if ys = [] then bfield bprev l else (bfield bprev l)(fst (hd ys) := Some f))
        (f := last_or (map fst xs) None)"
    and nx: "bfield bnext l' = (if xs = [] then bfield bnext l else (bfield bnext l)(fst (last xs) := Some f))
        (f := hd_or (map fst ys) None)"
  shows "lfu_shape l' (xs @ (f, []) # ys)"
proof -
  let ?x = "map fst xs" and ?y = "map fst ys"
  have srt: "sorted_wrt (<) (?x @ ?y)" and sg: "seg (bfield bprev l) (bfield bnext l) None (?x @ ?y) None"
    and dm: "dom (bdata l) = fst ` set (xs @ ys)"
    using sh by (auto simp: lfu_shape_def dom_bdata)
  have srt': "sorted_wrt (<) (?x @ f # ?y)" using srt f by (intro sorted_wrt_insert_mid) auto
  then have d: "distinct (?x @ f # ?y)" by (simp only: strict_sorted_iff)
  have nf: "g \<noteq> f" if "(g, es) \<in> set (xs @ ys)" for g es
  proof -
    from that have "g \<in> fst ` set xs \<or> g \<in> fst ` set ys" by (simp, metis fst_conv image_eqI)
    with f show ?thesis by auto
  qed
  show ?thesis
  proof (rule shape_relink [OF sh same])
    show "seg (bfield bprev l') (bfield bnext l') None (map fst (xs @ (f, []) # ys)) None"
    proof -
      have "fst (hd ys) = hd ?y" if "ys \<noteq> []" using that by (simp add: hd_map)
      moreover have "fst (last xs) = last ?x" if "xs \<noteq> []" using that by (simp add: last_map)
      ultimately show ?thesis
        using seg_insert [OF sg d] unfolding pv nx by (simp cong: if_cong)
    qed
    show "dom (bdata l') = fst ` set (xs @ (f, []) # ys)"
      unfolding data using dm by simp
    show "lfuMin l' = hd_or (map fst (xs @ (f, []) # ys)) None"
      by (simp add: mn hd_or_append)
    fix g es
    assume "(g, es) \<in> set (xs @ (f, []) # ys)"
    then show "(g, es) \<in> set (xs @ ys) \<and> bdata l' g = bdata l g \<or> es = [] \<and> bdata l' g = Some (g, None, None)"
      using nf [of g es] by (auto simp: data)
  qed (use srt' in simp_all)
qed

lemma shape_spliceAfter:
  assumes sh: "lfu_shape l (xs @ (c, cs) # ys)"
    and f: "\<forall>g \<in> fst ` set xs. g < c" "c < f" "\<forall>g \<in> fst ` set ys. f < g"
  shows "lfu_shape (spliceAfter c f (l\<lparr>freqMap := (freqMap l)(f \<mapsto> rawBucket f)\<rparr>))
           (xs @ (c, cs) # (f, []) # ys)"
    (is "lfu_shape ?l' _")
proof -
  let ?l1 = "l\<lparr>freqMap := (freqMap l)(f \<mapsto> rawBucket f)\<rparr>"
  let ?xs = "xs @ [(c, cs)]"
  from sh have dm: "dom (freqMap l) = fst ` set (?xs @ ys)"
    and sg: "seg (bfield bprev l) (bfield bnext l) None (map fst xs @ c # map fst ys) None"
    by (auto simp: lfu_shape_def)
  have cf: "c \<noteq> f" "freqMap l c \<noteq> None" using f dm by auto
  have nx0: "bfield bnext l c = hd_or (map fst ys) None"
    using seg_nextD [OF sg] by simp
  then have nx: "bfield bnext ?l1 c = hd_or (map fst ys) None"
    using cf by (simp add: bfield_def)
  have raw: "bfield bprev ?l1 = (bfield bprev l)(f := None)" "bfield bnext ?l1 = (bfield bnext l)(f := None)"
    by (auto simp: bfield_def rawBucket_def)
  have data: "bdata ?l1 = (bdata l)(f \<mapsto> (f, None, None))"
    by (auto simp: bdata_def rawBucket_def)
  have yd: "freqMap l (fst y) \<noteq> None" "fst y \<noteq> f" "fst y \<noteq> c" if "y \<in> set ys" for y
  proof -
    have "fst y \<in> dom (freqMap l)" using dm that by auto
    then show "freqMap l (fst y) \<noteq> None" by auto
    have "f < fst y" using f(3) that by simp
    then show "fst y \<noteq> f" "fst y \<noteq> c" using f(2) by auto
  qed
  note upd = spliceAfter_def nx nx0 Let_def bfield_bset raw data
  have "lfu_shape ?l' (?xs @ (f, []) # ys)"
  proof (rule shape_new_bucket)
    show "lfu_shape l (?xs @ ys)" using sh by simp
    show "\<forall>g \<in> fst ` set ?xs. g < f" "\<forall>g \<in> fst ` set ys. f < g" using f by auto
    show "bucketOf ?l' = bucketOf l" "fPrev ?l' = fPrev l" "fNext ?l' = fNext l"
      by (cases ys; simp add: spliceAfter_def nx Let_def)+
    show "bdata ?l' = (bdata l)(f \<mapsto> (f, None, None))"
      using cf by (cases ys) (simp_all add: upd)
    show "lfuMin ?l' = hd_or (map fst ?xs) (Some f)"
      using sh by (cases ys) (simp_all add: spliceAfter_def nx Let_def lfu_shape_def hd_or_append)
    show "bfield bprev ?l' = (if ys = [] then bfield bprev l else (bfield bprev l)(fst (hd ys) := Some f))
        (f := last_or (map fst ?xs) None)"
      using cf yd by (cases ys) (auto simp: upd fun_eq_iff)
    show "bfield bnext ?l' = (if ?xs = [] then bfield bnext l else (bfield bnext l)(fst (last ?xs) := Some f))
        (f := hd_or (map fst ys) None)"
      using cf yd by (cases ys) (auto simp: upd fun_eq_iff)
  qed
  then show ?thesis by simp
qed


lemma bs_cases:
  assumes "sorted_wrt (<) (map fst (bs :: buckets))"
  obtains (old) xs es ys where "bs = xs @ (f, es) # ys" "\<forall>g \<in> fst ` set xs. g < f"
      "\<forall>g \<in> fst ` set ys. f < g"
  | (new) xs ys where "bs = xs @ ys" "\<forall>g \<in> fst ` set xs. g < f" "\<forall>g \<in> fst ` set ys. f < g"
proof -
  define xs where "xs = takeWhile (\<lambda>p. fst p < f) bs"
  define ys where "ys = dropWhile (\<lambda>p. fst p < f) bs"
  have bs: "bs = xs @ ys" by (simp add: xs_def ys_def)
  have x: "\<forall>g \<in> fst ` set xs. g < f" by (auto simp: xs_def dest: set_takeWhileD)
  have srt: "sorted_wrt (<) (map fst ys)" using assms by (simp add: bs sorted_wrt_append)
  show thesis
  proof (cases ys)
    case Nil
    with bs x show ?thesis by (intro new [of xs ys]) simp_all
  next
    case (Cons p ps)
    then have p: "\<not> fst p < f" using ys_def by (metis dropWhile_eq_Cons_conv)
    have ps: "\<forall>g \<in> fst ` set ps. fst p < g" using srt Cons by simp
    show ?thesis
    proof (cases "fst p = f")
      case True
      with bs x ps Cons show ?thesis by (intro old [of xs "snd p" ps]) (cases p; simp)+
    next
      case False
      with p have "f < fst p" by simp
      with bs x ps Cons show ?thesis by (intro new [of xs ys]) (simp_all, force)
    qed
  qed
qed

lemma bucket_freq: "lfu_shape l bs \<Longrightarrow> g \<in> fst ` set bs \<Longrightarrow> bfield (Some \<circ> bfreq) l g = Some g"
  by (auto simp: lfu_shape_def bucket_ok_def bfield_def)

lemma lfuWalk_spec:
  "seg p (bfield bnext l) a (c # us @ vs) None \<Longrightarrow>
   \<forall>z \<in> set (us @ vs). bfield (Some \<circ> bfreq) l z = Some z \<Longrightarrow>
   \<forall>u \<in> set us. u < f \<Longrightarrow> \<forall>v \<in> set vs. f < v \<Longrightarrow> length us \<le> n \<Longrightarrow> lfuWalk n f c l = last (c # us)"
proof (induction us arbitrary: a c n)
  case Nil
  show ?case
  proof (cases vs)
    case (Cons v vs')
    then have "bfield (Some \<circ> bfreq) l v = Some v" "f < v" "bfield bnext l c = Some v"
      using Nil.prems(1,2,4) by (simp_all del: o_apply)
    then show ?thesis by (cases n) simp_all
  qed (use Nil in \<open>cases n; simp\<close>)
next
  case (Cons u us)
  then obtain m where n: "n = Suc m" by (cases n) auto
  from Cons.prems have "bfield bnext l c = Some u" "u < f" "bfield (Some \<circ> bfreq) l u = Some u"
    "seg p (bfield bnext l) (Some c) (u # us @ vs) None" by (simp_all del: o_apply)
  with Cons.IH [of "Some c" u m] Cons.prems n show ?case by simp
qed

lemma shape_front:
  assumes sh: "lfu_shape l ((m, ms) # ys)" and f: "f < m"
  shows "lfu_shape ((bset m (\<lambda>r. r\<lparr>bprev := Some f\<rparr>) (bset f (\<lambda>r. r\<lparr>bnext := Some m\<rparr>)
           (l\<lparr>freqMap := (freqMap l)(f \<mapsto> rawBucket f)\<rparr>)))\<lparr>lfuMin := Some f\<rparr>) ((f, []) # (m, ms) # ys)"
    (is "lfu_shape ?l' _")
proof -
  let ?l1 = "l\<lparr>freqMap := (freqMap l)(f \<mapsto> rawBucket f)\<rparr>"
  have m: "freqMap l m \<noteq> None" using sh by (auto simp: lfu_shape_def bucket_ok_def)
  have raw: "bfield bprev ?l1 = (bfield bprev l)(f := None)" "bfield bnext ?l1 = (bfield bnext l)(f := None)"
    "bdata ?l1 = (bdata l)(f \<mapsto> (f, None, None))"
    by (auto simp: bfield_def bdata_def rawBucket_def)
  have lm: "bfield g (k\<lparr>lfuMin := x\<rparr>) = bfield g k" "bdata (k\<lparr>lfuMin := x\<rparr>) = bdata k"
    for g :: "freqBucket \<Rightarrow> int option" and k :: lfu and x
    by (auto simp: bfield_def bdata_def)
  have "lfu_shape ?l' ([] @ (f, []) # (m, ms) # ys)"
  proof (rule shape_new_bucket [of l])
    show "\<forall>g \<in> fst ` set ((m, ms) # ys). f < g"
      using sh f by (auto simp: lfu_shape_def)
    show "bfield bprev ?l' = (if (m, ms) # ys = [] then bfield bprev l
        else (bfield bprev l)(fst (hd ((m, ms) # ys)) := Some f))(f := last_or (map fst []) None)"
      using f m by (auto simp: lm bfield_bset raw fun_eq_iff)
    show "bfield bnext ?l' = (if [] = [] then bfield bnext l else (bfield bnext l)(fst (last []) := Some f))
        (f := hd_or (map fst ((m, ms) # ys)) None)"
      using f m by (auto simp: lm bfield_bset raw fun_eq_iff)
  qed (use sh in \<open>simp_all add: lm raw\<close>)
  then show ?thesis by simp
qed

lemma shape_only:
  assumes "lfu_shape l []"
  shows "lfu_shape (l\<lparr>freqMap := (freqMap l)(f \<mapsto> rawBucket f), lfuMin := Some f\<rparr>) [(f, [])]"
  using assms by (auto simp: lfu_shape_def bucket_ok_def bfield_def rawBucket_def dll_core_def)

lemma shape_getOrCreate_new:
  assumes sh: "lfu_shape l (xs @ ys)" and f: "\<forall>g \<in> fst ` set xs. g < f" "\<forall>g \<in> fst ` set ys. f < g"
    and fuel: "after = None \<Longrightarrow> length (xs @ ys) \<le> nat (lfuSize l)"
    and hint: "\<And>c. after = Some c \<Longrightarrow> c \<in> fst ` set (xs @ ys) \<and> c + 1 = f"
  shows "lfu_shape (lfuGetOrCreateBucket f after l) (xs @ (f, []) # ys)"
proof -
  let ?l1 = "l\<lparr>freqMap := (freqMap l)(f \<mapsto> rawBucket f)\<rparr>"
  have dm: "dom (freqMap l) = fst ` set (xs @ ys)" and mn: "lfuMin l = hd_or (map fst (xs @ ys)) None"
    and sg: "seg (bfield bprev l) (bfield bnext l) None (map fst (xs @ ys)) None"
    and srt: "sorted_wrt (<) (map fst (xs @ ys))"
    using sh by (auto simp: lfu_shape_def)
  have nf: "f \<notin> fst ` set (xs @ ys)" using f by auto
  then have fresh: "freqMap l f = None" using dm by auto
  have bf: "bfield (Some \<circ> bfreq) ?l1 g = Some g" if "g \<in> fst ` set (xs @ ys)" for g
    using bucket_freq [OF sh that] nf that by (auto simp: bfield_def)
  have nx1: "seg (bfield bprev l) (bfield bnext ?l1) None (map fst (xs @ ys)) None"
    using sg nf by (subst seg_cong [of _ _ "bfield bprev l" _ "bfield bnext l"]) (auto simp: bfield_def)
  note def = lfuGetOrCreateBucket_def rawBucket_def [symmetric] fresh Let_def
  show ?thesis
  proof (cases after)
    case (Some c)
    with hint have c: "c \<in> fst ` set (xs @ ys)" "c + 1 = f" by auto
    then have "c \<in> fst ` set xs" using f by auto
    then obtain cs where "(c, cs) \<in> set xs" by auto
    then obtain us vs where xs: "xs = us @ (c, cs) # vs" by (meson split_list)
    have "vs = []"
      using srt f c(2) xs by (cases vs) (auto simp: sorted_wrt_append)
    with xs sh srt f c show ?thesis
      using shape_spliceAfter [of l us c cs ys f] bf [OF c(1)] Some
      by (simp add: def sorted_wrt_append)
  next
    case None
    show ?thesis
    proof (cases xs)
      case Nil
      show ?thesis
      proof (cases ys)
        case (Cons y ys')
        with Nil sh f mn bf [of "fst y"] None show ?thesis
          using shape_front [of l "fst y" "snd y" ys' f] by (simp add: def)
      qed (use Nil sh mn None shape_only in \<open>simp add: def\<close>)
    next
      case (Cons x xs')
      obtain us c cs where xs: "xs = us @ [(c, cs)]" by (metis Cons list.distinct(1) rev_exhaust surj_pair)
      have "lfuWalk (nat (lfuSize l)) f (fst x) ?l1 = last (fst x # map fst xs')"
        by (rule lfuWalk_spec [of "bfield bprev l" _ None _ _ "map fst ys"])
          (use nx1 Cons f bf fuel None in auto)
      also have "\<dots> = c" using xs Cons by (metis fst_conv last_map last_snoc list.distinct(1) list.simps(9))
      finally have w: "lfuWalk (nat (lfuSize l)) f (fst x) ?l1 = c" .
      have "lfu_shape (spliceAfter c f ?l1) (us @ (c, cs) # (f, []) # ys)"
        by (rule shape_spliceAfter) (use sh srt f xs in \<open>auto simp: sorted_wrt_append\<close>)
      then have "lfu_shape (spliceAfter c f ?l1) (xs @ (f, []) # ys)" by (simp add: xs)
      moreover have "\<not> f < fst x" using f(1) Cons by auto
      ultimately show ?thesis
        using None mn bf [of "fst x"] w Cons by (simp add: def)
    qed
  qed
qed

lemma shape_add:
  assumes sh: "lfu_shape l bs" and e: "e \<notin> set (bs_entries bs)"
    and fuel: "after = None \<Longrightarrow> length bs \<le> nat (lfuSize l)"
    and hint: "\<And>c. after = Some c \<Longrightarrow> c \<in> fst ` set bs \<and> c + 1 = f"
  shows "lfu_shape (pushTail f e (lfuGetOrCreateBucket f after l)) (bs_add f e bs)"
proof -
  have "sorted_wrt (<) (map fst bs)" using sh by (simp add: lfu_shape_def)
  then show ?thesis
  proof (cases rule: bs_cases [of bs f])
    case (old xs es ys)
    then have "lfuGetOrCreateBucket f after l = l"
      using sh by (auto simp: lfuGetOrCreateBucket_def lfu_shape_def bucket_ok_def)
    with old sh e shape_pushTail [of l xs f es ys e] show ?thesis by (simp add: bs_add_split)
  next
    case (new xs ys)
    then have "lfu_shape (lfuGetOrCreateBucket f after l) (xs @ (f, []) # ys)"
      using shape_getOrCreate_new [of l xs ys f after] sh fuel hint by simp
    from shape_pushTail [OF this, of e] new e show ?thesis by (simp add: bs_add_split)
  qed
qed

lemma shape_unlink:
  assumes sh: "lfu_shape l (xs @ (f, []) # ys)"
  shows "lfu_shape (lfuUnlinkBucket f l) (xs @ ys)"
    (is "lfu_shape ?l' _")
proof -
  let ?x = "map fst xs" and ?y = "map fst ys"
  let ?l1 = "l\<lparr>freqMap := (freqMap l)(f := None)\<rparr>"
  have sg: "seg (bfield bprev l) (bfield bnext l) None (?x @ f # ?y) None"
    and srt: "sorted_wrt (<) (?x @ f # ?y)" and dm: "dom (freqMap l) = fst ` set (xs @ (f, []) # ys)"
    and mn: "lfuMin l = hd_or (?x @ f # ?y) None"
    using sh by (auto simp: lfu_shape_def)
  then have d: "distinct (?x @ f # ?y)" by (simp only: strict_sorted_iff)
  have pn: "bfield bprev l f = last_or ?x None" "bfield bnext l f = hd_or ?y None"
    using seg_nextD [OF sg] by auto
  have raw: "bfield g ?l1 = (bfield g l)(f := None)" for g :: "freqBucket \<Rightarrow> int option"
    by (auto simp: bfield_def)
  have lm: "bfield g (k\<lparr>lfuMin := x\<rparr>) = bfield g k" "bdata (k\<lparr>lfuMin := x\<rparr>) = bdata k"
    for g :: "freqBucket \<Rightarrow> int option" and k :: lfu and x
    by (auto simp: bfield_def bdata_def)
  have data1: "bdata ?l1 = (bdata l)(f := None)" by (auto simp: bdata_def)
  have inx: "xs = us @ [u] \<Longrightarrow> freqMap l (fst u) \<noteq> None \<and> fst u \<noteq> f" for us u
    using dm d by (auto simp: dom_def)
  have iny: "ys = v # vs \<Longrightarrow> freqMap l (fst v) \<noteq> None \<and> fst v \<noteq> f \<and> (\<forall>us u. xs = us @ [u] \<longrightarrow> fst u \<noteq> fst v)" for v vs
    using dm d by (auto simp: dom_def)
  note upd = lfuUnlinkBucket_def pn Let_def lm bfield_bset raw data1
  have pv: "bfield bprev ?l' = (if ys = [] then bfield bprev l else (bfield bprev l)(hd ?y := last_or ?x None))(f := None)"
    using inx iny by (cases xs rule: rev_cases; cases ys) (auto simp: upd fun_eq_iff)
  have nx: "bfield bnext ?l' = (if xs = [] then bfield bnext l else (bfield bnext l)(last ?x := hd_or ?y None))(f := None)"
    using inx iny by (cases xs rule: rev_cases; cases ys) (auto simp: upd fun_eq_iff)
  have bd: "bdata ?l' = (bdata l)(f := None)"
    by (cases xs rule: rev_cases; cases ys) (auto simp: upd)
  show ?thesis
  proof (rule shape_relink [OF sh])
    show "bucketOf ?l' = bucketOf l" "fPrev ?l' = fPrev l" "fNext ?l' = fNext l"
      by (cases xs rule: rev_cases; cases ys; simp add: lfuUnlinkBucket_def pn Let_def)+
    show "sorted_wrt (<) (map fst (xs @ ys))" using srt by (simp add: sorted_wrt_append)
    show "dom (bdata ?l') = fst ` set (xs @ ys)"
      unfolding bd using dm d by (auto simp: dom_bdata)
    show "lfuMin ?l' = hd_or (map fst (xs @ ys)) None"
      using mn by (cases xs rule: rev_cases; cases ys)
        (simp_all add: lfuUnlinkBucket_def pn Let_def hd_or_append)
    show "seg (bfield bprev ?l') (bfield bnext ?l') None (map fst (xs @ ys)) None"
      using seg_remove [OF sg d] d unfolding pv nx by simp
    fix g es
    assume "(g, es) \<in> set (xs @ ys)"
    moreover from this have "g \<noteq> f" using d by force
    ultimately show "(g, es) \<in> set (xs @ (f, []) # ys) \<and> bdata ?l' g = bdata l g \<or>
        es = [] \<and> bdata ?l' g = Some (g, None, None)"
      by (auto simp: bd)
  qed simp
qed


section \<open>The operations on a represented index\<close>

lemma lfu_frame [simp]:
  "lfuSize (pushTail f e l) = lfuSize l" "freqOf (pushTail f e l) = freqOf l" "inLFU (pushTail f e l) = inLFU l"
  "lfuSize (detach f e l) = lfuSize l" "freqOf (detach f e l) = freqOf l" "inLFU (detach f e l) = inLFU l"
  "lfuSize (spliceAfter f g l) = lfuSize l" "freqOf (spliceAfter f g l) = freqOf l" "inLFU (spliceAfter f g l) = inLFU l"
  "lfuSize (lfuUnlinkBucket f l) = lfuSize l" "freqOf (lfuUnlinkBucket f l) = freqOf l"
  "inLFU (lfuUnlinkBucket f l) = inLFU l"
  by (auto simp: pushTail_def detach_def spliceAfter_def lfuUnlinkBucket_def Let_def split: option.splits)

lemma lfu_frame_create [simp]:
  "lfuSize (lfuGetOrCreateBucket f a l) = lfuSize l" "freqOf (lfuGetOrCreateBucket f a l) = freqOf l"
  "inLFU (lfuGetOrCreateBucket f a l) = inLFU l"
  by (auto simp: lfuGetOrCreateBucket_def Let_def split: option.splits)

lemma shape_ghost:
  "lfu_shape (l\<lparr>freqOf := fo\<rparr>) bs = lfu_shape l bs" "lfu_shape (l\<lparr>inLFU := il\<rparr>) bs = lfu_shape l bs"
  "lfu_shape (l\<lparr>lfuSize := n\<rparr>) bs = lfu_shape l bs"
  by (simp_all add: lfu_shape_def bucket_ok_def bdll_def bfield_def [abs_def])

lemma buckets_le_entries: "\<forall>(f, es) \<in> set bs. es \<noteq> [] \<Longrightarrow> length bs \<le> length (bs_entries bs)"
proof (induction bs)
  case (Cons b bs)
  then have "1 \<le> length (snd b)" "length bs \<le> length (bs_entries bs)" by (cases b; simp add: Suc_le_eq)+
  then show ?case by (cases b) (simp del: One_nat_def add: algebra_simps)
qed simp

lemma bucket_count: "lfu_rep l bs \<Longrightarrow> length bs \<le> nat (lfuSize l)"
  using buckets_le_entries [of bs] by (auto simp: lfu_rep_def)

lemma bs_add_entries: "mset (bs_entries (bs_add f e bs)) = add_mset e (mset (bs_entries bs))"
  by (induction f e bs rule: bs_add.induct) auto

lemma set_bs_add [simp]: "set (bs_entries (bs_add f e bs)) = insert e (set (bs_entries bs))"
  by (metis bs_add_entries set_mset_add_mset_insert set_mset_mset)

lemma bs_add_mem: "(g, es) \<in> set (bs_add f e bs) \<Longrightarrow>
   (g, es) \<in> set bs \<or> g = f \<and> (es = [e] \<or> (\<exists>es'. es = es' @ [e] \<and> (f, es') \<in> set bs))"
  by (induction f e bs rule: bs_add.induct) (auto split: if_splits)

lemma lfu_rep_add:
  assumes r: "lfu_rep l bs" and e: "e \<notin> set (bs_entries bs)"
  shows "lfu_rep (lfuAdd e l) (bs_add (max 1 (freqOf l e)) e bs)"
proof -
  define l0 where "l0 = (if freqOf l e \<le> 0 then l\<lparr>freqOf := (freqOf l)(e := 1)\<rparr> else l)"
  let ?f = "max 1 (freqOf l e)"
  have fo: "freqOf l0 = (freqOf l)(e := ?f)" "lfuSize l0 = lfuSize l" "inLFU l0 = inLFU l"
    by (auto simp: l0_def fun_eq_iff)
  have "lfu_shape l0 bs" using r by (simp add: l0_def lfu_rep_def shape_ghost)
  then have sh: "lfu_shape (pushTail ?f e (lfuGetOrCreateBucket ?f None l0)) (bs_add ?f e bs)"
    using bucket_count [OF r] e fo by (intro shape_add) simp_all
  have in_es: "e \<notin> set es" if "(g, es) \<in> set bs" for g es
    using e that by (force simp: bs_entries_def)
  have "1 \<le> g \<and> es \<noteq> [] \<and> (\<forall>x \<in> set es. freqOf l0 x = g)" if "(g, es) \<in> set (bs_add ?f e bs)" for g es
    using bs_add_mem [OF that] r in_es by (fastforce simp: fo lfu_rep_def)
  then have "\<forall>(g, es) \<in> set (bs_add ?f e bs). 1 \<le> g \<and> es \<noteq> [] \<and> (\<forall>x \<in> set es. freqOf l0 x = g)" by blast
  moreover have "length (bs_entries (bs_add ?f e bs)) = Suc (length (bs_entries bs))"
    by (metis bs_add_entries size_add_mset size_mset)
  moreover have "lfuAdd e l = (let l2 = pushTail ?f e (lfuGetOrCreateBucket ?f None l0)
      in l2\<lparr>inLFU := (inLFU l2)(e := True), lfuSize := lfuSize l2 + 1\<rparr>)"
    unfolding lfuAdd_def Let_def l0_def [symmetric] by (simp add: fo)
  ultimately show ?thesis
    using r sh by (simp add: lfu_rep_def Let_def shape_ghost fo(2,3))
qed

lemma lfu_rep_split:
  assumes r: "lfu_rep l bs" and e: "e \<in> set (bs_entries bs)"
  obtains xs es ys where "bs = xs @ (freqOf l e, es) # ys" "e \<in> set es" "bucketOf l e = Some (freqOf l e)"
    "\<forall>(f, es) \<in> set (xs @ ys). es \<noteq> []" "inLFU l e"
proof -
  from e obtain f es where "(f, es) \<in> set bs" "e \<in> set es" by (auto simp: bs_entries_def)
  moreover from this obtain xs ys where "bs = xs @ (f, es) # ys" by (meson split_list)
  moreover from calculation r have "freqOf l e = f" "bucketOf l e = Some f"
    by (auto simp: lfu_rep_def lfu_shape_def bucket_ok_def)
  ultimately show thesis using r e by (intro that) (auto simp: lfu_rep_def)
qed

lemma bucketEmpty_iff:
  assumes "lfu_shape l (xs @ (f, es) # ys)"
  shows "bucketEmpty f l \<longleftrightarrow> es = []"
proof -
  from assms obtain b where "freqMap l f = Some b" "dll_core (bdll l b) es" by (rule bucketD)
  then show ?thesis by (simp add: bucketEmpty_def bfield_def dll_core_def)
qed

lemma shape_cleanup:
  assumes "lfu_shape l (xs @ (f, es) # ys)"
  shows "lfu_shape (if bucketEmpty f l then lfuUnlinkBucket f l else l)
    (xs @ (if es = [] then ys else (f, es) # ys))"
  using assms shape_unlink [of l xs f ys] by (auto simp: bucketEmpty_iff)

lemma bs_del_mset:
  "e \<in> set (bs_entries bs) \<Longrightarrow> distinct (bs_entries bs) \<Longrightarrow>
   mset (bs_entries (bs_del e bs)) = mset (bs_entries bs) - {#e#}"
proof (induction bs)
  case (Cons b bs)
  obtain f es where b: "b = (f, es)" by (cases b)
  have D: "bs_entries (bs_del e (b # bs)) = remove1 e es @ bs_entries (bs_del e bs)"
    by (simp add: bs_del_def b)
  have notin: "e \<notin> set (bs_entries xs) \<Longrightarrow> bs_entries (bs_del e xs) = bs_entries xs" for xs :: buckets
    by (induction xs) (auto simp: bs_del_def remove1_idem)
  show ?case
  proof (cases "e \<in> set es")
    case True
    with Cons.prems b have "e \<notin> set (bs_entries bs)" by auto
    with D b notin True show ?thesis by simp
  next
    case False
    with Cons D b show ?thesis by (simp add: remove1_idem)
  qed
qed simp

lemma set_bs_del:
  "e \<in> set (bs_entries bs) \<Longrightarrow> distinct (bs_entries bs) \<Longrightarrow>
     set (bs_entries (bs_del e bs)) = set (bs_entries bs) - {e}
     \<and> length (bs_entries (bs_del e bs)) = length (bs_entries bs) - 1"
  using bs_del_mset [of e bs] by (metis mset_remove1 set_remove1_eq set_mset_mset size_mset length_remove1)

lemma lfu_rep_remove:
  assumes r: "lfu_rep l bs" and e: "e \<in> set (bs_entries bs)"
  shows "lfu_rep (lfuRemove e l) (bs_del e bs)"
proof -
  from lfu_rep_split [OF r e] obtain xs es ys where bs: "bs = xs @ (freqOf l e, es) # ys" "e \<in> set es"
    and bk: "bucketOf l e = Some (freqOf l e)" and ne: "\<forall>(f, es) \<in> set (xs @ ys). es \<noteq> []"
    and il: "inLFU l e" by metis
  let ?f = "freqOf l e"
  define l1 where "l1 = detach ?f e l"
  define l2 where "l2 = l1\<lparr>lfuSize := lfuSize l1 - 1, inLFU := (inLFU l1)(e := False)\<rparr>"
  have sh: "lfu_shape l bs" and ds: "distinct (bs_entries bs)" using r by (auto simp: lfu_rep_def lfu_shape_def)
  have "lfu_shape l2 (xs @ (?f, remove1 e es) # ys)"
    using shape_detach [of l xs ?f es ys e] sh bs by (simp add: l1_def l2_def shape_ghost)
  note sh3 = shape_cleanup [OF this]
  have del: "bs_del e bs = xs @ (if remove1 e es = [] then ys else (?f, remove1 e es) # ys)"
    using bs_del_split [of xs ?f es ys e] bs ds ne by simp
  have l3: "lfuRemove e l = (if bucketEmpty ?f l2 then lfuUnlinkBucket ?f l2 else l2)"
    by (simp add: lfuRemove_def bk il Let_def l1_def l2_def)
  have data: "\<forall>(g, gs) \<in> set (bs_del e bs). 1 \<le> g \<and> gs \<noteq> [] \<and> (\<forall>x \<in> set gs. freqOf l x = g)"
    using r bs(1) del set_remove1_subset [of e es] by (auto simp: lfu_rep_def split: if_splits)
  from set_bs_del [OF e ds] have s: "set (bs_entries (bs_del e bs)) = set (bs_entries bs) - {e}"
    "length (bs_entries (bs_del e bs)) = length (bs_entries bs) - 1" by auto
  have "length (bs_entries bs) > 0" using e by (cases "bs_entries bs") simp_all
  moreover have "freqOf (lfuRemove e l) = freqOf l" "inLFU (lfuRemove e l) = (inLFU l)(e := False)"
    "lfuSize (lfuRemove e l) = lfuSize l - 1"
    by (simp_all add: l3 l2_def l1_def)
  moreover have "lfu_shape (lfuRemove e l) (bs_del e bs)" unfolding l3 del by (rule sh3)
  ultimately show ?thesis
    using s r data by (auto simp: lfu_rep_def of_nat_diff Suc_le_eq)
qed


text \<open>\<^verbatim>\<open>touch\<close>: the entry moves to the tail of the next frequency's bucket.\<close>

lemma bs_add_above:
  "\<forall>g \<in> fst ` set xs. g < f \<Longrightarrow> bs_add f e (xs @ ys) = xs @ bs_add f e ys"
  by (induction xs) auto

lemma lfuRelocate_shape:
  assumes sh: "lfu_shape l0 (xs @ (f, es) # ys)" and e: "e \<in> set es"
    and bk: "bucketOf l0 e = Some f" and il: "inLFU l0 e" and fo: "freqOf l0 e = f + 1"
  shows "lfu_shape (lfuRelocate e l0)
      (xs @ (if remove1 e es = [] then bs_add (f + 1) e ys else (f, remove1 e es) # bs_add (f + 1) e ys)) \<and>
    freqOf (lfuRelocate e l0) = freqOf l0 \<and> inLFU (lfuRelocate e l0) = inLFU l0 \<and>
    lfuSize (lfuRelocate e l0) = lfuSize l0"
proof -
  let ?es = "remove1 e es"
  define l1 where "l1 = detach f e l0"
  define l2 where "l2 = pushTail (f + 1) e (lfuGetOrCreateBucket (f + 1) (Some f) l1)"
  have srt: "sorted_wrt (<) (map fst xs @ f # map fst ys)" and ds: "distinct (bs_entries (xs @ (f, es) # ys))"
    using sh by (auto simp: lfu_shape_def)
  have sh1: "lfu_shape l1 (xs @ (f, ?es) # ys)"
    unfolding l1_def by (rule shape_detach [OF sh e])
  have "\<forall>g \<in> fst ` set (xs @ [(f, ?es)]). g < f + 1"
    using srt by (auto simp: sorted_wrt_append zless_add1_eq)
  then have ad: "bs_add (f + 1) e (xs @ (f, ?es) # ys) = xs @ (f, ?es) # bs_add (f + 1) e ys"
    using bs_add_above [of "xs @ [(f, ?es)]" "f + 1" e ys] by simp
  have "lfu_shape l2 (bs_add (f + 1) e (xs @ (f, ?es) # ys))"
    unfolding l2_def
  proof (rule shape_add [OF sh1])
    show "e \<notin> set (bs_entries (xs @ (f, remove1 e es) # ys))" using ds e by auto
  qed simp_all
  note sh2 = shape_cleanup [OF this [unfolded ad]]
  have bf: "bfield (Some \<circ> bfreq) l0 f = Some f" "bfield (Some \<circ> bfreq) l1 f = Some f"
    using bucket_freq [OF sh] bucket_freq [OF sh1] by simp_all
  have fo1: "freqOf l1 e = f + 1" using fo by (simp add: l1_def)
  have l3: "lfuRelocate e l0 = (if bucketEmpty f l2 then lfuUnlinkBucket f l2 else l2)"
    unfolding lfuRelocate_def Let_def bk option.case l1_def [symmetric] fo fo1 bf option.sel
    by (simp add: il l2_def)
  then have "freqOf (lfuRelocate e l0) = freqOf l0" "inLFU (lfuRelocate e l0) = inLFU l0"
    "lfuSize (lfuRelocate e l0) = lfuSize l0"
    by (simp_all add: l2_def l1_def)
  with sh2 l3 show ?thesis by simp
qed

lemma bs_move_data:
  assumes old: "\<forall>(f, es) \<in> set bs. 1 \<le> f \<and> es \<noteq> [] \<and> (\<forall>x \<in> set es. h x = f)"
    and e: "e \<notin> set (bs_entries bs)" and n: "1 \<le> n"
  shows "\<forall>(f, es) \<in> set (bs_add n e bs). 1 \<le> f \<and> es \<noteq> [] \<and> (\<forall>x \<in> set es. (h(e := n)) x = f)"
proof -
  have "x \<noteq> e" if "(f, es) \<in> set bs" "x \<in> set es" for f es x
    using e that by (force simp: bs_entries_def)
  with old have o: "1 \<le> f \<and> es \<noteq> [] \<and> (\<forall>x \<in> set es. (h(e := n)) x = f)" if "(f, es) \<in> set bs" for f es
    using that by fastforce
  have "1 \<le> f \<and> es \<noteq> [] \<and> (\<forall>x \<in> set es. (h(e := n)) x = f)" if "(f, es) \<in> set (bs_add n e bs)" for f es
  proof -
    consider "(f, es) \<in> set bs" | "f = n" "es = [e]" | es' where "f = n" "es = es' @ [e]" "(n, es') \<in> set bs"
      using bs_add_mem [OF \<open>(f, es) \<in> _\<close>] by blast
    then show ?thesis
    proof cases
      case 3
      with o [of n es'] show ?thesis by auto
    qed (use o n in auto)
  qed
  then show ?thesis by blast
qed

lemma bs_del_data:
  assumes "\<forall>(f, es) \<in> set bs. 1 \<le> f \<and> es \<noteq> [] \<and> (\<forall>x \<in> set es. h x = f)"
  shows "\<forall>(f, es) \<in> set (bs_del e bs). 1 \<le> f \<and> es \<noteq> [] \<and> (\<forall>x \<in> set es. h x = f)"
proof -
  have "set (remove1 e es) \<subseteq> set es" for es :: "eref list" by (rule set_remove1_subset)
  with assms show ?thesis by (fastforce simp: bs_del_def)
qed

lemma lfu_rep_relocate:
  assumes r: "lfu_rep l bs" and e: "e \<in> set (bs_entries bs)"
  shows "lfu_rep (lfuRelocate e (freqBump e l)) (bs_add (freqOf l e + 1) e (bs_del e bs))"
proof -
  from lfu_rep_split [OF r e] obtain xs es ys where bs: "bs = xs @ (freqOf l e, es) # ys" "e \<in> set es"
    and bk: "bucketOf l e = Some (freqOf l e)" and ne: "\<forall>(f, es) \<in> set (xs @ ys). es \<noteq> []"
    and il: "inLFU l e" by metis
  let ?f = "freqOf l e" and ?l = "lfuRelocate e (freqBump e l)"
  have sh: "lfu_shape l bs" and ds: "distinct (bs_entries bs)" and srt: "sorted_wrt (<) (map fst bs)"
    and dat: "\<forall>(f, es) \<in> set bs. 1 \<le> f \<and> es \<noteq> [] \<and> (\<forall>x \<in> set es. freqOf l x = f)"
    using r by (auto simp: lfu_rep_def lfu_shape_def)
  have f1: "1 \<le> ?f" using dat bs(1) by auto
  then have l0: "freqBump e l = l\<lparr>freqOf := (freqOf l)(e := ?f + 1)\<rparr>" by (simp add: freqBump_def)
  have "lfu_shape (freqBump e l) (xs @ (?f, es) # ys)" using sh bs by (simp add: l0 shape_ghost)
  from lfuRelocate_shape [OF this bs(2)] bk il
  have shape: "lfu_shape ?l (xs @ (if remove1 e es = [] then bs_add (?f + 1) e ys
      else (?f, remove1 e es) # bs_add (?f + 1) e ys))"
    and fr: "freqOf ?l = (freqOf l)(e := ?f + 1)" "inLFU ?l = inLFU l" "lfuSize ?l = lfuSize l"
    by (simp_all add: l0)
  have xs: "\<forall>g \<in> fst ` set xs. g < ?f + 1" using srt bs(1) by (force simp: sorted_wrt_append)
  have "bs_del e bs = xs @ (if remove1 e es = [] then ys else (?f, remove1 e es) # ys)"
    using bs_del_split [of xs ?f es ys e] bs ds ne by simp
  then have del: "bs_add (?f + 1) e (bs_del e bs) =
      xs @ (if remove1 e es = [] then bs_add (?f + 1) e ys else (?f, remove1 e es) # bs_add (?f + 1) e ys)"
    using bs_add_above [OF xs] by simp
  note s = set_bs_del [OF e ds]
  then have ne: "e \<notin> set (bs_entries (bs_del e bs))" by simp
  have "\<forall>(g, gs) \<in> set (bs_add (?f + 1) e (bs_del e bs)). 1 \<le> g \<and> gs \<noteq> [] \<and> (\<forall>x \<in> set gs. freqOf ?l x = g)"
    using bs_move_data [OF bs_del_data [OF dat] ne, of "?f + 1"] f1 unfolding fr by simp
  moreover have "set (bs_entries (bs_add (?f + 1) e (bs_del e bs))) = set (bs_entries bs)"
    using s e by auto
  moreover have "length (bs_entries (bs_add (?f + 1) e (bs_del e bs))) = length (bs_entries bs)"
    using s e bs_add_entries [of "?f + 1" e "bs_del e bs"]
    by (metis One_nat_def Suc_pred length_pos_if_in_set size_add_mset size_mset)
  moreover have "lfu_shape ?l (bs_add (?f + 1) e (bs_del e bs))" unfolding del by (rule shape)
  ultimately show ?thesis
    using r by (simp add: lfu_rep_def fr(2,3))
qed

section \<open>Victim selection\<close>

lemma bucketWalk_seg:
  "seg p (bfield bnext l) a fs None \<Longrightarrow> length fs \<le> n \<Longrightarrow> bucketWalk n l (hd_or fs None) = fs"
proof (induction fs arbitrary: n a)
  case Nil
  then show ?case by (cases n) simp_all
next
  case (Cons f fs)
  then obtain m where n: "n = Suc m" by (cases n) auto
  from Cons.prems have "bfield bnext l f = hd_or fs None" "seg p (bfield bnext l) (Some f) fs None" by auto
  with Cons.IH [of "Some f" m] Cons.prems(2) show ?case by (simp add: n)
qed

lemma bucket_entries_walk:
  assumes "bucket_ok l f es" "length es \<le> n"
  shows "dll_walk n (fNext l) (bfield bhead l f) = es"
  using assms dll_walk_seg [of "fPrev l" "fNext l" None es n]
  by (auto simp: bucket_ok_def dll_core_def bfield_def)

text \<open>The victim is the first admissible entry in order of frequency, then of recency.\<close>

lemma lfuPick_spec:
  assumes r: "lfu_rep l bs"
  shows "lfuPick skip vol ex l = find (pickable skip vol ex) (bs_entries bs)"
proof -
  let ?n = "nat (lfuSize l)"
  have "bucketWalk ?n l (lfuMin l) = map fst bs"
    using r bucketWalk_seg [of "bfield bprev l" l None "map fst bs" ?n] bucket_count [OF r]
    by (simp add: lfu_rep_def lfu_shape_def)
  moreover have "dll_walk ?n (fNext l) (bfield bhead l f) = es" if "(f, es) \<in> set bs" for f es
  proof (rule bucket_entries_walk)
    show "bucket_ok l f es" using r that by (auto simp: lfu_rep_def lfu_shape_def)
    have "length es \<le> length (bs_entries bs)"
      using that by (auto simp: bs_entries_def length_concat intro!: member_le_sum_list, force)
    then show "length es \<le> ?n" using r by (simp add: lfu_rep_def)
  qed
  then have "map (\<lambda>b. dll_walk ?n (fNext l) (bfield bhead l (fst b))) bs = map snd bs"
    by (intro map_cong refl) auto
  ultimately have "concat (map (\<lambda>b. dll_walk ?n (fNext l) (bfield bhead l b)) (bucketWalk ?n l (lfuMin l))) = bs_entries bs"
    by (simp add: bs_entries_def comp_def del: map_eq_conv)
  then show ?thesis using r by (auto simp: lfuPick_def Let_def lfu_rep_def)
qed

lemma bs_entries_sorted:
  assumes "lfu_rep l bs"
  shows "sorted (map (freqOf l) (bs_entries bs))"
proof -
  have "sorted_wrt (<) (map fst bs) \<Longrightarrow> \<forall>(f, es) \<in> set bs. \<forall>e \<in> set es. freqOf l e = f \<Longrightarrow>
      sorted (map (freqOf l) (bs_entries bs))" for bs :: buckets
  proof (induction bs)
    case (Cons b bs)
    obtain f es where b: "b = (f, es)" by (cases b)
    have "map (freqOf l) es = map (\<lambda>_. f) es" using Cons.prems b by simp
    then have "sorted (map (freqOf l) es)" by (simp add: map_replicate_const)
    moreover have "f \<le> freqOf l y" if "y \<in> set (bs_entries bs)" for y
      using Cons.prems b that by (force simp: bs_entries_def)
    ultimately show ?case using Cons b by (auto simp: sorted_append)
  qed simp
  moreover have "\<forall>(f, es) \<in> set bs. \<forall>e \<in> set es. freqOf l e = f" using assms by (auto simp: lfu_rep_def)
  ultimately show ?thesis using assms by (simp add: lfu_rep_def lfu_shape_def)
qed

definition lfu_inv :: "lfu \<Rightarrow> bool" where
  "lfu_inv l \<longleftrightarrow> (\<exists>bs. lfu_rep l bs)"

definition lfu_set :: "lfu \<Rightarrow> eref set" where
  "lfu_set l = {e. inLFU l e}"

lemma lfu_rep_set: "lfu_rep l bs \<Longrightarrow> lfu_set l = set (bs_entries bs)"
  by (auto simp: lfu_rep_def lfu_set_def)

interpretation lf: entry_index lfu_inv lfu_set lfuAdd lfuRemove
proof
  fix l e
  assume l: "lfu_inv l"
  then obtain bs where r: "lfu_rep l bs" by (auto simp: lfu_inv_def)
  note s = lfu_rep_set [OF r]
  {
    assume e: "e \<notin> lfu_set l"
    then have a: "lfu_rep (lfuAdd e l) (bs_add (max 1 (freqOf l e)) e bs)" using r s by (auto intro: lfu_rep_add)
    then show "lfu_inv (lfuAdd e l)" by (auto simp: lfu_inv_def)
    show "lfu_set (lfuAdd e l) = insert e (lfu_set l)" using lfu_rep_set [OF a] s by simp
  next
    assume e: "e \<in> lfu_set l"
    then have d: "lfu_rep (lfuRemove e l) (bs_del e bs)" using r s by (auto intro: lfu_rep_remove)
    then show "lfu_inv (lfuRemove e l)" by (auto simp: lfu_inv_def)
    have "distinct (bs_entries bs)" using r by (simp add: lfu_rep_def lfu_shape_def)
    then show "lfu_set (lfuRemove e l) = lfu_set l - {e}" using lfu_rep_set [OF d] set_bs_del [of e bs] s e by simp
  }
qed

lemma lfu_rep_empty: "lfu_rep lfuEmpty []"
  by (simp add: lfu_rep_def lfu_shape_def lfuEmpty_def)

lemma lfu_empty [simp]: "lfu_inv lfuEmpty" "lfu_set lfuEmpty = {}"
  using lfu_rep_empty by (auto simp: lfu_inv_def lfu_rep_set)

lemma lfuRelocate_inv:
  assumes "lfu_inv l" "e \<in> lfu_set l"
  shows "lfu_inv (lfuRelocate e (freqBump e l)) \<and> lfu_set (lfuRelocate e (freqBump e l)) = lfu_set l \<and>
    freqOf (lfuRelocate e (freqBump e l)) = (freqOf l)(e := freqOf l e + 1)"
proof -
  from assms obtain bs where r: "lfu_rep l bs" "e \<in> set (bs_entries bs)" by (auto simp: lfu_inv_def lfu_rep_set)
  note rr = lfu_rep_relocate [OF r]
  from r have "1 \<le> freqOf l e" by (auto simp: lfu_rep_def bs_entries_def)
  then have fb: "freqBump e l = l\<lparr>freqOf := (freqOf l)(e := freqOf l e + 1)\<rparr>" by (simp add: freqBump_def)
  have "freqOf (lfuRelocate e k) = freqOf k" for k
    by (simp add: lfuRelocate_def Let_def split: option.splits)
  moreover have "lfu_set (lfuRelocate e k) = lfu_set k" for k
    by (simp add: lfuRelocate_def lfu_set_def Let_def split: option.splits)
  ultimately show ?thesis using rr by (auto simp: lfu_inv_def fb lfu_set_def)
qed

text \<open>An admissible victim is found when there is one, and has a least frequency.\<close>

lemma lfuPick_sound:
  assumes "lfu_inv l"
  shows "case lfuPick skip vol ex l of
      Some e \<Rightarrow> e \<in> lfu_set l \<and> pickable skip vol ex e \<and>
        (\<forall>e' \<in> lfu_set l. pickable skip vol ex e' \<longrightarrow> freqOf l e \<le> freqOf l e')
    | None \<Rightarrow> (\<forall>e' \<in> lfu_set l. \<not> pickable skip vol ex e')"
proof -
  from assms obtain bs where r: "lfu_rep l bs" by (auto simp: lfu_inv_def)
  show ?thesis
    using find_spec [where P = "pickable skip vol ex" and xs = "bs_entries bs"]
      find_sorted_min [OF bs_entries_sorted [OF r], where P = "pickable skip vol ex"]
    by (auto simp: lfuPick_spec [OF r] lfu_rep_set [OF r] split: option.splits)
qed

text \<open>\<^verbatim>\<open>setFreq\<close> takes the entry out, assigns the counter and puts it back.\<close>

lemma lfu_reassign:
  assumes "lfu_inv l" "e \<in> lfu_set l"
  shows "lfu_inv (lfuAdd e ((lfuRemove e l)\<lparr>freqOf := (freqOf (lfuRemove e l))(e := n)\<rparr>)) \<and>
    lfu_set (lfuAdd e ((lfuRemove e l)\<lparr>freqOf := (freqOf (lfuRemove e l))(e := n)\<rparr>)) = lfu_set l"
    (is "lfu_inv (lfuAdd e ?k) \<and> _")
proof -
  from assms obtain bs where r: "lfu_rep l bs" "e \<in> set (bs_entries bs)" by (auto simp: lfu_inv_def lfu_rep_set)
  note d = lfu_rep_remove [OF r]
  have ds: "distinct (bs_entries bs)" using r by (simp add: lfu_rep_def lfu_shape_def)
  have ne: "e \<notin> set (bs_entries (bs_del e bs))" using set_bs_del [OF r(2) ds] by simp
  then have "\<forall>(f, es) \<in> set (bs_del e bs). e \<notin> set es" by (auto simp: bs_entries_def)
  with d have "lfu_rep ?k (bs_del e bs)" by (fastforce simp: lfu_rep_def shape_ghost)
  from lfu_rep_add [OF this ne] lfu_rep_set [OF this] set_bs_del [OF r(2) ds] lfu_rep_set [OF r(1)] r(2)
  show ?thesis by (auto simp: lfu_inv_def lfu_rep_set)
qed

section \<open>The contract of the index\<close>



end
