(* ===== verification/GoStrings.thy ===== *)
theory GoStrings
  imports Prelude "HOL-Library.Sublist"
begin

text \<open>
  The parts of Go's packages \<^verbatim>\<open>strings\<close> and \<^verbatim>\<open>strconv\<close> that the sources call. A Go
  string is its list of bytes. \<^verbatim>\<open>ToLower\<close> and \<^verbatim>\<open>ToUpper\<close> map the ASCII letters and the four
  other code points whose image is an ASCII letter (U+0130, U+0131, U+017F, U+212A); any other
  multi-byte sequence is left as it is. Its image in Go is not ASCII either, and the sources
  only compare the results with ASCII names. \<^verbatim>\<open>TrimSpace\<close> cuts every Unicode space.
\<close>

section \<open>Package strings\<close>

definition byteToLower :: "char \<Rightarrow> char" where
  "byteToLower c = (let n = of_char c :: nat in if 65 \<le> n \<and> n \<le> 90 then char_of (n + 32) else c)"

definition byteToUpper :: "char \<Rightarrow> char" where
  "byteToUpper c = (let n = of_char c :: nat in if 97 \<le> n \<and> n \<le> 122 then char_of (n - 32) else c)"

fun ToLower :: "string \<Rightarrow> string" where
  "ToLower [] = []"
| "ToLower (c # s) =
     (if prefix [CHR 0xC4, CHR 0xB0] (c # s) then CHR ''i'' # ToLower (drop 1 s)
      else if prefix [CHR 0xE2, CHR 0x84, CHR 0xAA] (c # s) then CHR ''k'' # ToLower (drop 2 s)
      else byteToLower c # ToLower s)"

fun ToUpper :: "string \<Rightarrow> string" where
  "ToUpper [] = []"
| "ToUpper (c # s) =
     (if prefix [CHR 0xC4, CHR 0xB1] (c # s) then CHR ''I'' # ToUpper (drop 1 s)
      else if prefix [CHR 0xC5, CHR 0xBF] (c # s) then CHR ''S'' # ToUpper (drop 1 s)
      else byteToUpper c # ToUpper s)"

text \<open>The UTF-8 encodings of the code points for which \<^verbatim>\<open>unicode.IsSpace\<close> holds.\<close>

definition spaceRunes :: "string list" where
  "spaceRunes =
     [[CHR 0x09], [CHR 0x0A], [CHR 0x0B], [CHR 0x0C], [CHR 0x0D], [CHR 0x20],
      [CHR 0xC2, CHR 0x85], [CHR 0xC2, CHR 0xA0], [CHR 0xE1, CHR 0x9A, CHR 0x80],
      [CHR 0xE2, CHR 0x80, CHR 0x80], [CHR 0xE2, CHR 0x80, CHR 0x81], [CHR 0xE2, CHR 0x80, CHR 0x82],
      [CHR 0xE2, CHR 0x80, CHR 0x83], [CHR 0xE2, CHR 0x80, CHR 0x84], [CHR 0xE2, CHR 0x80, CHR 0x85],
      [CHR 0xE2, CHR 0x80, CHR 0x86], [CHR 0xE2, CHR 0x80, CHR 0x87], [CHR 0xE2, CHR 0x80, CHR 0x88],
      [CHR 0xE2, CHR 0x80, CHR 0x89], [CHR 0xE2, CHR 0x80, CHR 0x8A], [CHR 0xE2, CHR 0x80, CHR 0xA8],
      [CHR 0xE2, CHR 0x80, CHR 0xA9], [CHR 0xE2, CHR 0x80, CHR 0xAF], [CHR 0xE2, CHR 0x81, CHR 0x9F],
      [CHR 0xE3, CHR 0x80, CHR 0x80]]"

lemma spaceRunes_nonempty: "r \<in> set spaceRunes \<Longrightarrow> r \<noteq> []"
  by (auto simp: spaceRunes_def)

function dropPrefixes :: "string list \<Rightarrow> string \<Rightarrow> string" where
  "dropPrefixes rs s =
     (case find (\<lambda>r. r \<noteq> [] \<and> prefix r s) rs of
        Some r \<Rightarrow> dropPrefixes rs (drop (length r) s)
      | None \<Rightarrow> s)"
  by auto
termination
  by (relation "measure (\<lambda>(_, s). length s)")
    (auto dest!: find_Some_D simp: prefix_def neq_Nil_conv)

declare dropPrefixes.simps [simp del]

definition TrimSpace :: "string \<Rightarrow> string" where
  "TrimSpace s = rev (dropPrefixes (map rev spaceRunes) (rev (dropPrefixes spaceRunes s)))"

lemma dropPrefixes_id: "\<forall>r \<in> set rs. r = [] \<or> \<not> prefix r s \<Longrightarrow> dropPrefixes rs s = s"
  by (subst dropPrefixes.simps) (auto split: option.splits dest!: find_Some_D)

lemma dropPrefixes_clean: "r \<in> set rs \<Longrightarrow> r \<noteq> [] \<Longrightarrow> \<not> prefix r (dropPrefixes rs s)"
proof (induction rs s rule: dropPrefixes.induct)
  case (1 rs s)
  show ?case
  proof (cases "find (\<lambda>r. r \<noteq> [] \<and> prefix r s) rs")
    case None
    then have "dropPrefixes rs s = s" by (subst dropPrefixes.simps) simp
    with None 1(2,3) show ?thesis by (auto simp: find_None_iff)
  next
    case (Some r')
    with 1 show ?thesis by (subst dropPrefixes.simps) simp
  qed
qed

text \<open>Lower case names, as the constants of the sources are, are fixed points.\<close>

definition lowerName :: "string \<Rightarrow> bool" where
  "lowerName s \<longleftrightarrow> list_all (\<lambda>c. let n = of_char c :: nat in 97 \<le> n \<and> n \<le> 122 \<or> n = 45) s"

lemma ToLower_lowerName: "lowerName s \<Longrightarrow> ToLower s = s"
  by (induction s) (auto simp: lowerName_def byteToLower_def Let_def)

lemma lowerName_rev [simp]: "lowerName (rev s) = lowerName s"
  by (simp add: lowerName_def)

lemma lowerName_not_prefix:
  assumes "lowerName s" "r \<in> set spaceRunes \<or> r \<in> rev ` set spaceRunes"
  shows "\<not> prefix r s"
proof
  assume p: "prefix r s"
  obtain c r' where "r = c # r'"
    using assms(2) spaceRunes_nonempty by (cases r) auto
  with p obtain s' where s: "s = c # s'" by (cases s) auto
  from assms(2) obtain x where "x \<in> set spaceRunes" "set r = set x" by auto
  with \<open>r = c # r'\<close> have "c \<in> (\<Union>x \<in> set spaceRunes. set x)" by (metis UN_I list.set_intros(1))
  then show False using assms(1) s by (auto simp: spaceRunes_def lowerName_def)
qed

lemma TrimSpace_lowerName: "lowerName s \<Longrightarrow> TrimSpace s = s"
  by (simp add: TrimSpace_def dropPrefixes_id lowerName_not_prefix)

section \<open>Package strconv\<close>

definition isDigit :: "char \<Rightarrow> bool" where
  "isDigit c \<longleftrightarrow> (let n = of_char c :: nat in 48 \<le> n \<and> n \<le> 57)"

definition digitVal :: "char \<Rightarrow> nat" where
  "digitVal c = of_char c - 48"

definition digitsVal :: "string \<Rightarrow> nat" where
  "digitsVal s = fold (\<lambda>c n. 10 * n + digitVal c) s 0"

datatype numError = ErrSyntax | ErrRange

text \<open>
  \<^verbatim>\<open>ParseInt(s, 10, 64)\<close> and \<^verbatim>\<open>Atoi(s)\<close>, which accept the same strings with the same
  values: an optional sign, then at least one digit, the value in the range of \<^verbatim>\<open>int64\<close>. The digits
  are read from the left, so a prefix that exceeds \<^verbatim>\<open>uint64\<close> is a range error whatever follows.
\<close>

definition parseDigits :: "string \<Rightarrow> numError + nat" where
  "parseDigits s =
     (if s = [] then Inl ErrSyntax
      else if 2 ^ 64 \<le> digitsVal (takeWhile isDigit s) then Inl ErrRange
      else if \<not> list_all isDigit s then Inl ErrSyntax
      else Inr (digitsVal s))"

definition ParseInt :: "string \<Rightarrow> numError + int" where
  "ParseInt s =
     (let (neg, ds) = (case s of
            [] \<Rightarrow> (False, [])
          | c # r \<Rightarrow> if c = CHR ''+'' then (False, r) else if c = CHR ''-'' then (True, r) else (False, s))
      in case parseDigits ds of
           Inl e \<Rightarrow> Inl e
         | Inr n \<Rightarrow> (let v = (if neg then - int n else int n) in if is_int64 v then Inr v else Inl ErrRange))"

fun natDigits :: "nat \<Rightarrow> string" where
  "natDigits n = (if n < 10 then [char_of (48 + n)] else natDigits (n div 10) @ [char_of (48 + n mod 10)])"

declare natDigits.simps [simp del]

definition FormatInt :: "int \<Rightarrow> string" where
  "FormatInt n = (if n < 0 then CHR ''-'' # natDigits (nat (- n)) else natDigits (nat n))"

lemma digit_char: "d < 10 \<Longrightarrow> isDigit (char_of (48 + d)) \<and> digitVal (char_of (48 + d)) = d"
  by (simp add: isDigit_def digitVal_def)

lemma natDigits_spec: "natDigits n \<noteq> [] \<and> list_all isDigit (natDigits n) \<and> digitsVal (natDigits n) = n"
proof (induction n rule: natDigits.induct)
  case (1 n)
  show ?case
  proof (cases "n < 10")
    case True
    then show ?thesis
      using digit_char [of n] by (subst (1 2 3) natDigits.simps) (simp add: digitsVal_def)
  next
    case False
    with 1 have IH: "list_all isDigit (natDigits (n div 10))" "digitsVal (natDigits (n div 10)) = n div 10" by auto
    have "n mod 10 < 10" by simp
    with digit_char [of "n mod 10"] IH False show ?thesis
      by (subst (1 2 3) natDigits.simps) (simp add: digitsVal_def)
  qed
qed

lemma parse_natDigits [simp]: "n < 2 ^ 64 \<Longrightarrow> parseDigits (natDigits n) = Inr n"
proof -
  have T: "takeWhile isDigit (natDigits n) = natDigits n" using natDigits_spec [of n] by (simp add: list_all_iff)
  show "n < 2 ^ 64 \<Longrightarrow> parseDigits (natDigits n) = Inr n"
    using natDigits_spec [of n] unfolding parseDigits_def T by simp
qed

lemma natDigits_first:
  obtains c r where "natDigits n = c # r" "c \<noteq> CHR ''+''" "c \<noteq> CHR ''-''"
proof -
  from natDigits_spec [of n] obtain c r where "natDigits n = c # r" "isDigit c" by (cases "natDigits n") auto
  moreover from this have "c \<noteq> CHR ''+''" "c \<noteq> CHR ''-''" by (auto simp: isDigit_def)
  ultimately show thesis using that by blast
qed

lemma ParseInt_FormatInt: "is_int64 n \<Longrightarrow> ParseInt (FormatInt n) = Inr n"
proof (cases "n < 0")
  case False
  assume n: "is_int64 n"
  obtain c r where r: "natDigits (nat n) = c # r" "c \<noteq> CHR ''+''" "c \<noteq> CHR ''-''" by (rule natDigits_first)
  have "nat n < 2 ^ 64" using n False by (simp add: is_int64_def nat_less_iff)
  from parse_natDigits [OF this] False n r show ?thesis by (simp add: ParseInt_def FormatInt_def)
next
  case True
  assume n: "is_int64 n"
  then have "nat (- n) < 2 ^ 64" using True by (simp add: is_int64_def nat_less_iff)
  from parse_natDigits [OF this] True n show ?thesis by (simp add: ParseInt_def FormatInt_def)
qed

lemma ParseInt_range: "ParseInt s = Inr n \<Longrightarrow> is_int64 n"
  by (auto simp: ParseInt_def Let_def split: sum.splits prod.splits if_splits)

lemma FormatInt_no_newline: "CHR 0x0D \<notin> set (FormatInt n)" "CHR 0x0A \<notin> set (FormatInt n)"
  using natDigits_spec [of "nat n"] natDigits_spec [of "nat (- n)"]
  by (auto simp: FormatInt_def list_all_iff isDigit_def)

lemmas parse_eval = ParseInt_def parseDigits_def digitsVal_def isDigit_def digitVal_def is_int64_def

end
