(* ===== verification/EvictionPolicy.thy ===== *)
theory EvictionPolicy
  imports GoStrings
begin

text \<open>
  \<^verbatim>\<open>internal/store/policy.go\<close>: the eviction policies. A policy is a string, as in the
  source, so a value that no constant names is possible and the operations' default branches
  are reachable.
\<close>

definition PolicyNoEviction :: string where "PolicyNoEviction = ''noeviction''"
definition PolicyAllKeysLRU :: string where "PolicyAllKeysLRU = ''allkeys-lru''"
definition PolicyAllKeysLFU :: string where "PolicyAllKeysLFU = ''allkeys-lfu''"
definition PolicyAllKeysRandom :: string where "PolicyAllKeysRandom = ''allkeys-random''"
definition PolicyAllKeysFIFO :: string where "PolicyAllKeysFIFO = ''allkeys-fifo''"
definition PolicyVolatileLRU :: string where "PolicyVolatileLRU = ''volatile-lru''"
definition PolicyVolatileLFU :: string where "PolicyVolatileLFU = ''volatile-lfu''"
definition PolicyVolatileRandom :: string where "PolicyVolatileRandom = ''volatile-random''"
definition PolicyVolatileTTL :: string where "PolicyVolatileTTL = ''volatile-ttl''"
definition PolicyVolatileFIFO :: string where "PolicyVolatileFIFO = ''volatile-fifo''"

lemmas policy_names = PolicyNoEviction_def PolicyAllKeysLRU_def PolicyAllKeysLFU_def
  PolicyAllKeysRandom_def PolicyAllKeysFIFO_def PolicyVolatileLRU_def PolicyVolatileLFU_def
  PolicyVolatileRandom_def PolicyVolatileTTL_def PolicyVolatileFIFO_def

definition allPolicies :: "string list" where
  "allPolicies = [PolicyNoEviction, PolicyAllKeysLRU, PolicyAllKeysLFU, PolicyAllKeysRandom,
     PolicyAllKeysFIFO, PolicyVolatileLRU, PolicyVolatileLFU, PolicyVolatileRandom,
     PolicyVolatileTTL, PolicyVolatileFIFO]"

definition ParseEvictionPolicy :: "string \<Rightarrow> string \<times> bool" where
  "ParseEvictionPolicy s =
     (let p = ToLower (TrimSpace s)
      in if p \<in> set allPolicies then (p, True)
         else if p = [] then (PolicyAllKeysLRU, True)
         else ([], False))"

definition volatileOnly :: "string \<Rightarrow> bool" where
  "volatileOnly p \<longleftrightarrow> p \<in> set [PolicyVolatileLRU, PolicyVolatileLFU, PolicyVolatileRandom,
     PolicyVolatileTTL, PolicyVolatileFIFO]"

definition usesLFU :: "string \<Rightarrow> bool" where
  "usesLFU p \<longleftrightarrow> p = PolicyAllKeysLFU \<or> p = PolicyVolatileLFU"

text \<open>\<^verbatim>\<open>eligible\<close> and \<^verbatim>\<open>remainingTTL\<close> read only the expiry of the entry.\<close>

definition eligible :: "string \<Rightarrow> gotime \<Rightarrow> bool" where
  "eligible p expiresAt \<longleftrightarrow> (if \<not> volatileOnly p then True else \<not> IsZero expiresAt)"

definition remainingTTL :: "gotime \<Rightarrow> gotime \<Rightarrow> duration" where
  "remainingTTL expiresAt now =
     (if IsZero expiresAt then 2 ^ 63 - 1
      else let d = timeSub expiresAt now in if d < 0 then 0 else d)"

lemma allPolicies_lowerName: "p \<in> set allPolicies \<Longrightarrow> lowerName p"
  by (auto simp: allPolicies_def policy_names lowerName_def)

text \<open>Accepted names are canonical: parsing a parsed name gives it back.\<close>

lemma ParseEvictionPolicy_range:
  "ParseEvictionPolicy s = (p, True) \<Longrightarrow> p \<in> set allPolicies"
  by (auto simp: ParseEvictionPolicy_def Let_def split: if_splits) (simp add: allPolicies_def)

lemma ParseEvictionPolicy_canonical: "p \<in> set allPolicies \<Longrightarrow> ParseEvictionPolicy p = (p, True)"
  using allPolicies_lowerName [of p]
  by (simp add: ParseEvictionPolicy_def TrimSpace_lowerName ToLower_lowerName)

lemma ParseEvictionPolicy_rejects: "snd (ParseEvictionPolicy s) = False \<Longrightarrow> fst (ParseEvictionPolicy s) = []"
  by (auto simp: ParseEvictionPolicy_def Let_def split: if_splits)

lemma remainingTTL_bounds: "0 \<le> remainingTTL t now \<and> remainingTTL t now \<le> maxDuration"
  by (auto simp: remainingTTL_def timeSub_def Let_def maxDuration_def minDuration_def)

text \<open>Policy names are read case-insensitively and without surrounding blanks; an accepted name is
  one of the ten policies and parses to itself, the empty name means \<^verbatim>\<open>allkeys-lru\<close>, and a rejected
  name gives the empty policy.\<close>

theorem ParseEvictionPolicy_names:
  "case ParseEvictionPolicy s of
     (p, True) \<Rightarrow> p \<in> set allPolicies \<and> ParseEvictionPolicy p = (p, True) \<and>
       p = (if TrimSpace s = [] then PolicyAllKeysLRU else ToLower (TrimSpace s))
   | (p, False) \<Rightarrow> p = [] \<and> ToLower (TrimSpace s) \<notin> set allPolicies \<and> TrimSpace s \<noteq> []"
proof -
  have e: "ToLower t = [] \<longleftrightarrow> t = []" for t by (cases t) auto
  have l: "PolicyAllKeysLRU \<in> set allPolicies" "[] \<notin> set allPolicies" by (simp_all add: allPolicies_def policy_names)
  show ?thesis
    using e [of "TrimSpace s"] l ParseEvictionPolicy_canonical [of "ToLower (TrimSpace s)"]
      ParseEvictionPolicy_canonical [OF l(1)]
    by (auto simp: ParseEvictionPolicy_def [of s] Let_def)
qed

end
