(* ===== verification/StoreState.thy ===== *)
theory StoreState
  imports Dll ExpHeap RandIdx Lfu EvictionPolicy "HOL-Library.Word"
begin

unbundle bit_operations_syntax

text \<open>
  The state of \<^verbatim>\<open>internal/store/store.go\<close>: configuration, entries, shards and the DB, the
  constructor and the read-only queries, and the invariant \<open>db_ok\<close> that every operation of
  the store keeps. The fields of an \<^verbatim>\<open>entry\<close> that link it into an index live with the index
  (\<open>dll\<close>, \<open>rndarr\<close>, \<open>lfu\<close>); the remaining ones are the record \<open>entry\<close>. Go's map
  \<^verbatim>\<open>shard.data\<close> is an association list with distinct keys. Locks are not modelled: each
  operation runs as one transition.
\<close>

definition EntryOverhead :: u64 where "EntryOverhead = 24"

definition StrategyGlobalTrack :: int where "StrategyGlobalTrack = 1"
definition StrategySteal :: int where "StrategySteal = 2"
definition StrategyShardBudget :: int where "StrategyShardBudget = 3"

lemmas strategy_defs = StrategyGlobalTrack_def StrategySteal_def StrategyShardBudget_def

record Config =
  MaxMemory :: u64
  ShardCount :: int
  Strategy :: int
  Policy :: string
  MaxTTL :: duration
  ExpiryInterval :: duration

record entry =
  ekey :: string
  evalue :: string
  expiresAt :: gotime
  esize :: u64

record shard =
  sdata :: "(string \<times> entry) list"
  sused :: u64
  budget :: u64
  slru :: dll
  sfifo :: dll
  srnd :: rndarr
  slfu :: lfu
  sttl :: expheap

text \<open>The mutations a DB reports to its sink (\<^verbatim>\<open>snapshot.go\<close>).\<close>

record Mutation =
  mOp :: string
  mKey :: string
  mValue :: string
  mKeys :: "string list"
  mExpiresAt :: gotime

text \<open>
  \<open>sink\<close> is \<open>None\<close> when no sink is attached, otherwise the mutations delivered to it so
  far. \<open>rand\<close> is the source of the draws of \<^verbatim>\<open>math/rand\<close>.
\<close>

record DB =
  cfg :: Config
  shards :: "shard list"
  used :: u64
  gLru :: dll
  gFifo :: dll
  expH :: expheap
  hits :: u64
  misses :: u64
  evictions :: u64
  sink :: "Mutation list option"
  rand :: rng

section \<open>Construction\<close>

definition normConfig :: "Config \<Rightarrow> Config" where
  "normConfig c =
     (let c1 = (if ShardCount c < 1 then c\<lparr>ShardCount := 1\<rparr> else c);
          c2 = (if Strategy c1 < StrategyGlobalTrack \<or> StrategyShardBudget < Strategy c1
                then c1\<lparr>Strategy := StrategyGlobalTrack\<rparr> else c1);
          c3 = (if Policy c2 = [] then c2\<lparr>Policy := PolicyAllKeysLRU\<rparr> else c2);
          c4 = (if \<not> snd (ParseEvictionPolicy (Policy c3)) then c3\<lparr>Policy := PolicyAllKeysLRU\<rparr> else c3);
          c5 = (if ExpiryInterval c4 \<le> 0 then c4\<lparr>ExpiryInterval := second\<rparr> else c4)
      in c5)"

definition newShard :: "u64 \<Rightarrow> shard" where
  "newShard b = \<lparr>sdata = [], sused = 0, budget = b, slru = dllEmpty, sfifo = dllEmpty, srnd = rndEmpty,
     slfu = lfuEmpty, sttl = heapEmpty\<rparr>"

definition New :: "Config \<Rightarrow> rng \<Rightarrow> DB" where
  "New cfg0 g =
     (let c = normConfig cfg0;
          n = nat (ShardCount c);
          base = MaxMemory c div n;
          rem = MaxMemory c mod n
      in \<lparr>cfg = c,
          shards = map (\<lambda>i. newShard (if i < rem then add64 base 1 else base)) [0..<n],
          used = 0, gLru = dllEmpty, gFifo = dllEmpty, expH = heapEmpty,
          hits = 0, misses = 0, evictions = 0, sink = None, rand = g\<rparr>)"

text \<open>\<^verbatim>\<open>hash/fnv\<close>: the 32-bit FNV-1a hash of the bytes of the key.\<close>

definition fnv32a :: "string \<Rightarrow> 32 word" where
  "fnv32a s = fold (\<lambda>c h. (h XOR of_nat (of_char c)) * 16777619) s 2166136261"

definition keyShard :: "nat \<Rightarrow> string \<Rightarrow> nat" where
  "keyShard n key = unat (fnv32a key mod (of_nat n :: 32 word))"

definition shardIndex :: "string \<Rightarrow> DB \<Rightarrow> nat" where
  "shardIndex key d = keyShard (length (shards d)) key"

definition memSize :: "string \<Rightarrow> string \<Rightarrow> u64" where
  "memSize key val = add64 (add64 (length key) (length val)) EntryOverhead"

definition expired :: "gotime \<Rightarrow> entry \<Rightarrow> bool" where
  "expired now e \<longleftrightarrow> \<not> IsZero (expiresAt e) \<and> \<not> now < expiresAt e"

definition Stats :: "DB \<Rightarrow> u64 \<times> u64 \<times> u64 \<times> u64 \<times> u64 \<times> u64" where
  "Stats d = (used d, MaxMemory (cfg d),
     fold (\<lambda>sh keys. add64 keys (length (sdata sh))) (shards d) 0,
     hits d, misses d, evictions d)"

definition DBSize :: "gotime \<Rightarrow> DB \<Rightarrow> int" where
  "DBSize now d =
     fold (\<lambda>sh n. fold (\<lambda>(k, e) n. if \<not> expired now e then n + 1 else n) (sdata sh) n) (shards d) 0"

definition addUsed :: "u64 \<Rightarrow> DB \<Rightarrow> DB" where
  "addUsed delta d = d\<lparr>used := add64 (used d) delta\<rparr>"

definition subUsed :: "u64 \<Rightarrow> DB \<Rightarrow> DB" where
  "subUsed delta d = d\<lparr>used := (if delta \<le> used d then used d - delta else 0)\<rparr>"

definition emit :: "Mutation \<Rightarrow> DB \<Rightarrow> DB" where
  "emit m d = d\<lparr>sink := map_option (\<lambda>log. log @ [m]) (sink d)\<rparr>"

definition SetMutationSink :: "Mutation list option \<Rightarrow> DB \<Rightarrow> DB" where
  "SetMutationSink s d = d\<lparr>sink := s\<rparr>"

section \<open>Access to shards and entries\<close>

definition theShard :: "string \<Rightarrow> DB \<Rightarrow> shard" where
  "theShard key d = shards d ! shardIndex key d"

definition lookup :: "DB \<Rightarrow> string \<Rightarrow> entry option" where
  "lookup d key = map_of (sdata (theShard key d)) key"

definition setShard :: "nat \<Rightarrow> shard \<Rightarrow> DB \<Rightarrow> DB" where
  "setShard si sh d = d\<lparr>shards := (shards d)[si := sh]\<rparr>"

definition noteDB :: "string \<Rightarrow> gotime \<Rightarrow> DB \<Rightarrow> DB" where
  "noteDB key at d = d\<lparr>expH := noteExpiry key at (expH d)\<rparr>"

definition clearDB :: "string \<Rightarrow> DB \<Rightarrow> DB" where
  "clearDB key d = d\<lparr>expH := clearExpiry key (expH d)\<rparr>"

definition keysOf :: "DB \<Rightarrow> string set" where
  "keysOf d = dom (lookup d)"

definition shardExp :: "shard \<Rightarrow> string \<Rightarrow> gotime" where
  "shardExp sh k = (case map_of (sdata sh) k of Some e \<Rightarrow> expiresAt e | None \<Rightarrow> 0)"

definition dbExp :: "DB \<Rightarrow> string \<Rightarrow> gotime" where
  "dbExp d k = (case lookup d k of Some e \<Rightarrow> expiresAt e | None \<Rightarrow> 0)"

section \<open>Invariant\<close>

definition deadline :: "entry \<Rightarrow> gotime option" where
  "deadline e = (if IsZero (expiresAt e) then None else Some (expiresAt e))"

abbreviation skeys :: "shard \<Rightarrow> string set" where
  "skeys sh \<equiv> fst ` set (sdata sh)"

text \<open>Every index of a shard holds exactly the keys of the map, and the counter is exact.\<close>

definition indexes_ok :: "shard \<Rightarrow> bool" where
  "indexes_ok sh \<longleftrightarrow>
     dll_inv (slru sh) \<and> dll_set (slru sh) = skeys sh \<and>
     dll_inv (sfifo sh) \<and> dll_set (sfifo sh) = skeys sh \<and>
     rnd_inv (srnd sh) \<and> rnd_set (srnd sh) = skeys sh \<and>
     lfu_inv (slfu sh) \<and> lfu_set (slfu sh) = skeys sh \<and>
     heap_inv (sttl sh) \<and> (\<forall>k. deadlines (sttl sh) k = Option.bind (map_of (sdata sh) k) deadline)"

definition entries_ok :: "nat \<Rightarrow> nat \<Rightarrow> shard \<Rightarrow> bool" where
  "entries_ok n i sh \<longleftrightarrow> distinct (map fst (sdata sh)) \<and>
     (\<forall>(k, e) \<in> set (sdata sh). ekey e = k \<and> esize e = memSize k (evalue e) \<and> keyShard n k = i)"

definition shardSum :: "shard \<Rightarrow> nat" where
  "shardSum sh = sum_list (map (\<lambda>(k, e). esize e) (sdata sh))"

definition shard_ok :: "nat \<Rightarrow> nat \<Rightarrow> shard \<Rightarrow> bool" where
  "shard_ok n i sh \<longleftrightarrow> indexes_ok sh \<and> entries_ok n i sh \<and> sused sh = shardSum sh"

definition cfg_ok :: "DB \<Rightarrow> bool" where
  "cfg_ok d \<longleftrightarrow> StrategyGlobalTrack \<le> Strategy (cfg d) \<and> Strategy (cfg d) \<le> StrategyShardBudget \<and>
     shards d \<noteq> [] \<and> length (shards d) < 2 ^ 32 \<and>
     (length (shards d) + 1) * MaxMemory (cfg d) < 2 ^ 64 \<and>
     (\<forall>sh \<in> set (shards d). budget sh \<le> MaxMemory (cfg d))"

text \<open>
  No shard exceeds \<^verbatim>\<open>MaxMemory\<close>: with \<open>cfg_ok\<close> this keeps every counter away from
  wrapping. The stronger bounds per strategy are theorems about \<^verbatim>\<open>Set\<close>.
\<close>

definition fits :: "DB \<Rightarrow> bool" where
  "fits d \<longleftrightarrow> (\<forall>sh \<in> set (shards d). sused sh \<le> MaxMemory (cfg d))"

definition globals_ok :: "DB \<Rightarrow> bool" where
  "globals_ok d \<longleftrightarrow>
     dll_inv (gLru d) \<and> dll_set (gLru d) = (if Strategy (cfg d) = StrategyGlobalTrack then keysOf d else {}) \<and>
     dll_inv (gFifo d) \<and> dll_set (gFifo d) = (if Strategy (cfg d) = StrategyGlobalTrack then keysOf d else {})"

text \<open>
  The tenant-wide heap has the deadline of every key of the store; for other keys it may
  hold a stale item, which \<^verbatim>\<open>IncrBy\<close> on an expired key can leave behind.
\<close>

definition exp_ok :: "DB \<Rightarrow> bool" where
  "exp_ok d \<longleftrightarrow> heap_inv (expH d) \<and> (\<forall>k e. lookup d k = Some e \<longrightarrow> deadlines (expH d) k = deadline e)"

definition shards_ok :: "DB \<Rightarrow> bool" where
  "shards_ok d \<longleftrightarrow> (\<forall>i < length (shards d). shard_ok (length (shards d)) i (shards d ! i))"

definition db_ok :: "DB \<Rightarrow> bool" where
  "db_ok d \<longleftrightarrow> cfg_ok d \<and> shards_ok d \<and> used d = sum_list (map sused (shards d)) \<and> fits d \<and>
     globals_ok d \<and> exp_ok d"

section \<open>Consequences\<close>

lemma entries_ok_iff:
  "entries_ok n i sh \<longleftrightarrow> distinct (map fst (sdata sh)) \<and>
     (\<forall>k e. map_of (sdata sh) k = Some e \<longrightarrow> ekey e = k \<and> esize e = memSize k (evalue e) \<and> keyShard n k = i)"
  by (auto simp: entries_ok_def dest: map_of_SomeD)

lemma keyShard_less: "0 < n \<Longrightarrow> n < 2 ^ 32 \<Longrightarrow> keyShard n k < n"
proof -
  assume n: "0 < n" "n < 2 ^ 32"
  then have u: "unat (of_nat n :: 32 word) = n" by (simp add: unat_of_nat)
  have "keyShard n k = unat (fnv32a k) mod n"
    unfolding keyShard_def by (simp add: unat_mod_distrib u)
  then show ?thesis using n by simp
qed

lemma shardIndex_less: "cfg_ok d \<Longrightarrow> shardIndex k d < length (shards d)"
  by (auto simp: cfg_ok_def shardIndex_def intro: keyShard_less)

lemma theShard_ok: "db_ok d \<Longrightarrow> shard_ok (length (shards d)) (shardIndex k d) (theShard k d)"
  using shardIndex_less [of d k] by (auto simp: db_ok_def shards_ok_def theShard_def)

lemma theShard_setShard:
  "shardIndex k' (setShard si sh d) = shardIndex k' d"
  "si < length (shards d) \<Longrightarrow> theShard k' (setShard si sh d) = (if shardIndex k' d = si then sh else theShard k' d)"
  by (auto simp: setShard_def shardIndex_def theShard_def)

lemma lookup_setShard:
  "si < length (shards d) \<Longrightarrow>
     lookup (setShard si sh d) k = (if shardIndex k d = si then map_of (sdata sh) k else lookup d k)"
  by (simp add: lookup_def theShard_setShard)

lemma lookup_shard:
  assumes "db_ok d" "i < length (shards d)" "map_of (sdata (shards d ! i)) k = Some e"
  shows "shardIndex k d = i \<and> lookup d k = Some e"
proof -
  have "entries_ok (length (shards d)) i (shards d ! i)"
    using assms by (auto simp: db_ok_def shards_ok_def shard_ok_def)
  with assms(3) have "keyShard (length (shards d)) k = i" by (auto simp: entries_ok_def dest: map_of_SomeD)
  with assms(3) show ?thesis by (auto simp: lookup_def theShard_def shardIndex_def)
qed

lemma lookup_entry:
  assumes "db_ok d" "lookup d k = Some e"
  shows "ekey e = k \<and> esize e = memSize k (evalue e)"
  using theShard_ok [OF assms(1), of k] assms(2)
  by (auto simp: shard_ok_def entries_ok_def lookup_def dest: map_of_SomeD)

lemma skeys_iff: "k \<in> skeys sh \<longleftrightarrow> map_of (sdata sh) k \<noteq> None"
  by (simp add: map_of_eq_None_iff)

lemma lookup_None_skeys: "lookup d k = None \<longleftrightarrow> k \<notin> skeys (theShard k d)"
  by (simp add: lookup_def map_of_eq_None_iff)

lemma keysOf_shards:
  assumes "db_ok d"
  shows "keysOf d = (\<Union>sh \<in> set (shards d). skeys sh)"
proof
  show "keysOf d \<subseteq> (\<Union>sh \<in> set (shards d). skeys sh)"
  proof
    fix k assume "k \<in> keysOf d"
    then have "k \<in> skeys (theShard k d)" using lookup_None_skeys [of d k] by (auto simp: keysOf_def)
    moreover have "theShard k d \<in> set (shards d)"
      using shardIndex_less [of d k] assms by (simp add: theShard_def db_ok_def)
    ultimately show "k \<in> (\<Union>sh \<in> set (shards d). skeys sh)" by blast
  qed
  show "(\<Union>sh \<in> set (shards d). skeys sh) \<subseteq> keysOf d"
  proof
    fix k assume "k \<in> (\<Union>sh \<in> set (shards d). skeys sh)"
    then obtain sh where "sh \<in> set (shards d)" "k \<in> skeys sh" by blast
    then obtain i where "i < length (shards d)" "map_of (sdata (shards d ! i)) k \<noteq> None"
      by (auto simp: in_set_conv_nth skeys_iff)
    then show "k \<in> keysOf d" using lookup_shard [OF assms] by (auto simp: keysOf_def)
  qed
qed

lemma keysOf_nth:
  assumes "db_ok d"
  shows "k \<in> keysOf d \<longleftrightarrow> (\<exists>i < length (shards d). k \<in> skeys (shards d ! i))"
  unfolding keysOf_shards [OF assms] UN_iff by (rule bex_set_nth)

lemma finite_keysOf: "db_ok d \<Longrightarrow> finite (keysOf d)"
  by (simp add: keysOf_shards)

text \<open>The counters never come close to wrapping.\<close>

lemma used_bound:
  assumes "db_ok d"
  shows "used d \<le> length (shards d) * MaxMemory (cfg d)" "used d + MaxMemory (cfg d) < 2 ^ 64"
proof -
  have "sum_list (map sused (shards d)) \<le> sum_list (map (\<lambda>_. MaxMemory (cfg d)) (shards d))"
    using assms by (intro sum_list_mono) (auto simp: db_ok_def fits_def)
  then show u: "used d \<le> length (shards d) * MaxMemory (cfg d)"
    using assms by (simp add: db_ok_def sum_list_triv)
  then have "used d + MaxMemory (cfg d) \<le> (length (shards d) + 1) * MaxMemory (cfg d)" by simp
  also have "\<dots> < 2 ^ 64" using assms by (simp add: db_ok_def cfg_ok_def)
  finally show "used d + MaxMemory (cfg d) < 2 ^ 64" .
qed

lemma shard_le_used: "db_ok d \<Longrightarrow> i < length (shards d) \<Longrightarrow> sused (shards d ! i) \<le> used d"
  by (auto simp: db_ok_def intro: member_le_sum_list)

lemma entry_le_shard:
  assumes "map_of (sdata sh) k = Some e"
  shows "esize e \<le> shardSum sh"
  unfolding shardSum_def by (rule member_le_sum_list) (use assms in \<open>force dest: map_of_SomeD\<close>)+

lemma entry_le_used:
  assumes "db_ok d" "lookup d k = Some e"
  shows "esize e \<le> sused (theShard k d)" "sused (theShard k d) \<le> used d"
  using assms theShard_ok [of d k] entry_le_shard [of "theShard k d" k e] shard_le_used [of d "shardIndex k d"]
    shardIndex_less [of d k]
  by (auto simp: shard_ok_def lookup_def theShard_def db_ok_def)

section \<open>A new store\<close>

lemma cfg_normConfig:
  "1 \<le> ShardCount (normConfig c)" "StrategyGlobalTrack \<le> Strategy (normConfig c)"
  "Strategy (normConfig c) \<le> StrategyShardBudget" "0 < ExpiryInterval (normConfig c)"
  "snd (ParseEvictionPolicy (Policy (normConfig c)))" "MaxMemory (normConfig c) = MaxMemory c"
proof -
  have "snd (ParseEvictionPolicy PolicyAllKeysLRU)"
    using ParseEvictionPolicy_canonical [of PolicyAllKeysLRU] by (simp add: allPolicies_def)
  then show "1 \<le> ShardCount (normConfig c)" "StrategyGlobalTrack \<le> Strategy (normConfig c)"
    "Strategy (normConfig c) \<le> StrategyShardBudget" "0 < ExpiryInterval (normConfig c)"
    "snd (ParseEvictionPolicy (Policy (normConfig c)))" "MaxMemory (normConfig c) = MaxMemory c"
    by (auto simp: normConfig_def Let_def strategy_defs second_def)
qed

lemma newShard_ok: "shard_ok n i (newShard b)"
  by (simp add: shard_ok_def indexes_ok_def entries_ok_def newShard_def shardSum_def)

lemma sum_budgets:
  assumes "r < n"
  shows "sum_list (map (\<lambda>i. if i < r then b + 1 else b) [0..<n]) = n * b + (r::nat)"
proof -
  have "sum_list (map (\<lambda>i. if i < r then b + 1 else b) [0..<m]) = m * b + min r m" for m
    by (induction m) auto
  with assms show ?thesis by simp
qed

lemma budget_no_wrap: "0 < n \<Longrightarrow> m < 2 ^ 64 \<Longrightarrow> i < m mod n \<Longrightarrow> add64 (m div n) 1 = m div n + 1 \<and> m div n + 1 \<le> m"
proof -
  assume n: "0 < n" and m: "m < 2 ^ 64" and i: "i < m mod n"
  then have "m div n * 1 \<le> m div n * n" by simp
  moreover have "m div n * n + m mod n = m" by simp
  ultimately have "m div n + 1 \<le> m" using i by linarith
  with m show ?thesis by simp
qed

lemma New_ok:
  assumes "(nat (max 1 (ShardCount c)) + 1) * MaxMemory c < 2 ^ 64" "ShardCount c < 2 ^ 32"
  shows "db_ok (New c g) \<and> keysOf (New c g) = {}"
proof -
  let ?c = "normConfig c" and ?d = "New c g"
  let ?n = "nat (ShardCount ?c)"
  have sc: "ShardCount ?c = max 1 (ShardCount c)" by (simp add: normConfig_def Let_def)
  have n: "0 < ?n" "?n < 2 ^ 32" using assms(2) by (auto simp: sc)
  have len: "length (shards ?d) = ?n" and cf: "cfg ?d = ?c" by (simp_all add: New_def Let_def)
  have mm: "MaxMemory ?c < 2 ^ 64" "(?n + 1) * MaxMemory ?c < 2 ^ 64"
    using assms(1) by (auto simp: sc cfg_normConfig(6))
  have nth: "shards ?d ! i = newShard (if i < MaxMemory ?c mod ?n then add64 (MaxMemory ?c div ?n) 1
      else MaxMemory ?c div ?n)" if "i < ?n" for i
    using that by (simp add: New_def Let_def)
  have empty: "lookup ?d k = None" for k
    using keyShard_less [OF n, of k] by (simp add: lookup_def theShard_def shardIndex_def len nth newShard_def)
  have "shards ?d \<noteq> []" using len n(1) by (metis length_0_conv less_numeral_extra(3))
  then have "cfg_ok ?d"
    using n mm cfg_normConfig budget_no_wrap [OF n(1) mm(1)] nth
    by (auto simp: cfg_ok_def cf len in_set_conv_nth newShard_def)
  moreover have "shards_ok ?d" using nth newShard_ok by (simp add: shards_ok_def len)
  moreover have "fits ?d" using nth by (auto simp: fits_def in_set_conv_nth len newShard_def)
  moreover have "used ?d = 0" "map sused (shards ?d) = map (\<lambda>_. 0) [0..<?n]"
    by (simp_all add: New_def Let_def newShard_def)
  moreover have ke: "keysOf ?d = {}" using empty by (auto simp: keysOf_def)
  moreover have "gLru ?d = dllEmpty" "gFifo ?d = dllEmpty" "expH ?d = heapEmpty"
    by (simp_all add: New_def Let_def)
  then have "globals_ok ?d" "exp_ok ?d"
    using empty ke by (simp_all add: globals_ok_def exp_ok_def)
  ultimately show ?thesis by (auto simp: db_ok_def map_replicate_const)
qed

end
