(* ===== verification/StoreCore.thy ===== *)
theory StoreCore
  imports StoreState
begin

text \<open>
  The state changes the operations of \<^verbatim>\<open>internal/store/ops.go\<close> are made of: removing an
  entry from its shard and from every index (\<^verbatim>\<open>removeFromShard\<close>), recording an access
  (\<^verbatim>\<open>touch\<close> and the move in the tenant-wide list), and the two ends of \<^verbatim>\<open>Set\<close>, overwriting an
  entry and linking a new one. Each keeps the invariant; the abstraction \<open>lookup\<close> changes
  as a finite map does.
\<close>

section \<open>Definitions\<close>

definition shardRemove :: "entry \<Rightarrow> shard \<Rightarrow> shard" where
  "shardRemove e sh =
     (let k = ekey e in
      sh\<lparr>sdata := AList.delete k (sdata sh),
         slru := dllRemove k (slru sh),
         sfifo := dllRemove k (sfifo sh),
         srnd := rndRemove k (srnd sh),
         slfu := (if inLFU (slfu sh) k then lfuRemove k (slfu sh) else slfu sh),
         sttl := clearExpiry k (sttl sh),
         sused := (if esize e \<le> sused sh then sused sh - esize e else 0)\<rparr>)"

definition stillInGlobal :: "eref \<Rightarrow> DB \<Rightarrow> bool" where
  "stillInGlobal k d \<longleftrightarrow> dll_linked k (gLru d)"

definition removeFromShard :: "nat \<Rightarrow> entry \<Rightarrow> bool \<Rightarrow> DB \<Rightarrow> DB" where
  "removeFromShard si e globalAlreadyUnlinked d =
     (let k = ekey e;
          d1 = setShard si (shardRemove e (shards d ! si)) d;
          d2 = subUsed (esize e) d1
      in if Strategy (cfg d2) = StrategyGlobalTrack \<and> \<not> globalAlreadyUnlinked
         then let d3 = (if stillInGlobal k d2 then d2\<lparr>gLru := dllRemove k (gLru d2)\<rparr> else d2)
              in if dll_linked k (gFifo d3) then d3\<lparr>gFifo := dllRemove k (gFifo d3)\<rparr> else d3
         else d2)"

definition touch :: "eref \<Rightarrow> shard \<Rightarrow> shard" where
  "touch k sh =
     (let sh1 = sh\<lparr>slfu := freqBump k (slfu sh)\<rparr>;
          sh2 = sh1\<lparr>slru := dllTouch k (slru sh1)\<rparr>
      in if inLFU (slfu sh2) k \<and> bucketOf (slfu sh2) k \<noteq> None
         then sh2\<lparr>slfu := lfuRelocate k (slfu sh2)\<rparr> else sh2)"

text \<open>The access in the tenant-wide recency list, after the shard's lock is released.\<close>

definition globalAccess :: "eref \<Rightarrow> DB \<Rightarrow> DB" where
  "globalAccess k d = (if stillInGlobal k d then d\<lparr>gLru := dllTouch k (gLru d)\<rparr> else d)"

text \<open>
  Allocating an entry: the zero value of every field, frequency 1 and array position \<open>-1\<close>.
  A removed entry of the same key is a different object in Go; the model has one slot per
  key, so the fields are assigned afresh.
\<close>

definition dllFresh :: "eref \<Rightarrow> dll \<Rightarrow> dll" where
  "dllFresh k x = x\<lparr>dprev := (dprev x)(k := None), dnext := (dnext x)(k := None)\<rparr>"

definition lfuFresh :: "eref \<Rightarrow> lfu \<Rightarrow> lfu" where
  "lfuFresh k x = x\<lparr>freqOf := (freqOf x)(k := 1), inLFU := (inLFU x)(k := False),
     bucketOf := (bucketOf x)(k := None), fPrev := (fPrev x)(k := None), fNext := (fNext x)(k := None)\<rparr>"

definition rndFresh :: "eref \<Rightarrow> rndarr \<Rightarrow> rndarr" where
  "rndFresh k x = x\<lparr>rndIdx := (rndIdx x)(k := -1)\<rparr>"

definition shardInsert :: "entry \<Rightarrow> shard \<Rightarrow> shard" where
  "shardInsert e sh =
     (let k = ekey e in
      sh\<lparr>sdata := AList.update k e (sdata sh),
         sused := add64 (sused sh) (esize e),
         slru := dllPushTail k (dllFresh k (slru sh)),
         sfifo := dllPushTail k (dllFresh k (sfifo sh)),
         srnd := rndAdd k (rndFresh k (srnd sh)),
         slfu := lfuAdd k (lfuFresh k (slfu sh)),
         sttl := noteExpiry k (expiresAt e) (sttl sh)\<rparr>)"

definition insertEntry :: "nat \<Rightarrow> entry \<Rightarrow> DB \<Rightarrow> DB" where
  "insertEntry si e d =
     (let k = ekey e;
          d0 = d\<lparr>gLru := dllFresh k (gLru d), gFifo := dllFresh k (gFifo d)\<rparr>;
          d1 = addUsed (esize e) (setShard si (shardInsert e (shards d0 ! si)) d0);
          d2 = (if Strategy (cfg d1) = StrategyGlobalTrack
                then d1\<lparr>gLru := dllPushTail k (gLru d1), gFifo := dllPushTail k (gFifo d1)\<rparr> else d1)
      in noteDB k (expiresAt e) d2)"

text \<open>Replacing value, size and expiry of a live entry, with the access it counts as.\<close>

definition overwriteEntry :: "nat \<Rightarrow> entry \<Rightarrow> entry \<Rightarrow> DB \<Rightarrow> DB" where
  "overwriteEntry si old e d =
     (let k = ekey e;
          d1 = (if esize old \<le> esize e then addUsed (esize e - esize old) d
                else subUsed (esize old - esize e) d);
          sh = shards d1 ! si;
          sh1 = sh\<lparr>sused := add64 (sub64 (sused sh) (esize old)) (esize e),
                   sdata := AList.update k e (sdata sh),
                   sttl := noteExpiry k (expiresAt e) (sttl sh)\<rparr>;
          d2 = setShard si (touch k sh1) d1;
          d3 = (if Strategy (cfg d2) = StrategyGlobalTrack then globalAccess k d2 else d2)
      in noteDB k (expiresAt e) d3)"

text \<open>Changing only the expiry of a live entry.\<close>

definition shardSetExp :: "eref \<Rightarrow> gotime \<Rightarrow> shard \<Rightarrow> shard" where
  "shardSetExp k t sh =
     (case map_of (sdata sh) k of
        Some e \<Rightarrow> sh\<lparr>sdata := AList.update k (e\<lparr>expiresAt := t\<rparr>) (sdata sh), sttl := noteExpiry k t (sttl sh)\<rparr>
      | None \<Rightarrow> sh)"

section \<open>Updating one shard\<close>

lemma sum_list_update_nat:
  "i < length xs \<Longrightarrow> sum_list (map f (xs[i := y])) + f (xs ! i) = sum_list (map f xs) + (f y :: nat)"
proof (induction xs arbitrary: i)
  case (Cons x xs)
  then show ?case by (cases i) auto
qed simp

definition keeps_shape :: "DB \<Rightarrow> DB \<Rightarrow> bool" where
  "keeps_shape d d' \<longleftrightarrow> Strategy (cfg d') = Strategy (cfg d) \<and> MaxMemory (cfg d') = MaxMemory (cfg d) \<and>
     map budget (shards d') = map budget (shards d)"

lemma cfg_ok_shape:
  assumes "keeps_shape d d'" "cfg_ok d"
  shows "cfg_ok d'"
proof -
  have "length (shards d') = length (shards d)" using assms(1) by (metis keeps_shape_def length_map)
  moreover from this assms(2) have "shards d' \<noteq> []" by (auto simp: cfg_ok_def)
  moreover have "budget ` set (shards d') = budget ` set (shards d)"
    using assms(1) by (metis keeps_shape_def list.set_map)
  then have "(\<forall>sh \<in> set (shards d'). budget sh \<le> m) \<longleftrightarrow> (\<forall>sh \<in> set (shards d). budget sh \<le> m)" for m
    by (metis (no_types, opaque_lifting) image_iff)
  ultimately show ?thesis using assms by (simp add: cfg_ok_def keeps_shape_def)
qed

lemma db_ok_update_shard:
  assumes ok: "db_ok d" and si: "si < length (shards d)"
    and sh: "shards d' = (shards d)[si := sh']" and cf: "cfg d' = cfg d" and b: "budget sh' = budget (shards d ! si)"
    and shok: "shard_ok (length (shards d)) si sh'" and fit: "sused sh' \<le> MaxMemory (cfg d)"
    and u: "used d' + sused (shards d ! si) = used d + sused sh'"
    and g: "globals_ok d'" and x: "exp_ok d'"
  shows "db_ok d'"
proof -
  have "keeps_shape d d'"
    using si b by (simp add: keeps_shape_def cf sh map_update) (metis length_map list_update_id nth_map)
  then have "cfg_ok d'" using cfg_ok_shape ok by (simp add: db_ok_def)
  moreover have "shards_ok d'"
    using ok shok si by (auto simp: shards_ok_def sh db_ok_def nth_list_update)
  moreover have "used d' = sum_list (map sused (shards d'))"
    using sum_list_update_nat [OF si, of sused sh'] u ok by (simp add: sh db_ok_def)
  moreover have "fits d'"
    using ok fit set_update_subset_insert [of "shards d" si sh'] by (auto simp: fits_def sh cf db_ok_def)
  ultimately show ?thesis using g x by (simp add: db_ok_def)
qed

lemma lookup_cong: "shards d' = shards d \<Longrightarrow> lookup d' = lookup d"
  by (rule ext) (simp add: lookup_def theShard_def shardIndex_def)

lemma lookup_update_shard:
  assumes "cfg_ok d" "shards d' = (shards d)[si := sh']" "si = shardIndex k d"
    and "\<And>k'. map_of (sdata sh') k' = (if k' = k then v else map_of (sdata (shards d ! si)) k')"
  shows "lookup d' = (lookup d)(k := v)"
proof
  fix k'
  have si: "si < length (shards d)" using assms(1,3) shardIndex_less by simp
  have "lookup d' = lookup (setShard si sh' d)" by (rule lookup_cong) (simp add: setShard_def assms(2))
  then have "lookup d' k' = (if shardIndex k' d = si then map_of (sdata sh') k' else lookup d k')"
    by (simp add: lookup_setShard [OF si])
  then show "lookup d' k' = ((lookup d)(k := v)) k'"
    using assms(3,4) by (auto simp: lookup_def theShard_def)
qed

section \<open>Removing\<close>

lemma shardRemove_ok:
  assumes ok: "shard_ok n i sh" and e: "map_of (sdata sh) k = Some e"
  shows "shard_ok n i (shardRemove e sh)" "sused (shardRemove e sh) + esize e = sused sh"
    "budget (shardRemove e sh) = budget sh" "sdata (shardRemove e sh) = AList.delete k (sdata sh)"
proof -
  have k: "ekey e = k" "k \<in> skeys sh"
    using ok e by (auto simp: shard_ok_def entries_ok_def dest: map_of_SomeD) (force dest: map_of_SomeD)
  have d: "distinct (map fst (sdata sh))" using ok by (simp add: shard_ok_def entries_ok_def)
  have sum: "shardSum sh = esize e + sum_list (map (\<lambda>(k, e). esize e) (AList.delete k (sdata sh)))"
    using sum_delete [OF d e, of "\<lambda>(k, e). esize e"] by (simp add: shardSum_def)
  then have us: "sused sh = esize e + shardSum (shardRemove e sh)"
    using ok by (simp add: shard_ok_def shardRemove_def k shardSum_def)
  have in_lfu: "inLFU (slfu sh) k" using ok k by (auto simp: shard_ok_def indexes_ok_def lfu_set_def)
  have sk: "skeys (shardRemove e sh) = skeys sh - {k}"
    by (simp add: shardRemove_def k)
  have "indexes_ok (shardRemove e sh)"
    using ok k in_lfu sk
    by (auto simp: indexes_ok_def shard_ok_def shardRemove_def Let_def dll_rules ra.inv_del ra.members_del
        lf.inv_del lf.members_del dq.inv_drop dq.deadlines_drop map_of_delete_conv)
  moreover have "entries_ok n i (shardRemove e sh)"
    using ok d by (auto simp: shard_ok_def entries_ok_iff shardRemove_def k distinct_delete map_of_delete_conv)
  moreover show "sused (shardRemove e sh) + esize e = sused sh"
    using us by (simp add: shardRemove_def Let_def)
  ultimately show "shard_ok n i (shardRemove e sh)"
    using us by (simp add: shard_ok_def)
  show "budget (shardRemove e sh) = budget sh" "sdata (shardRemove e sh) = AList.delete k (sdata sh)"
    by (simp_all add: shardRemove_def k Let_def)
qed


lemma globals_ok_delete:
  assumes "globals_ok d" and strat: "Strategy (cfg d') = Strategy (cfg d)" and "keysOf d' = keysOf d - {k}"
    and "gLru d' = (if Strategy (cfg d) = StrategyGlobalTrack then dllRemove k (gLru d) else gLru d)"
    and "gFifo d' = (if Strategy (cfg d) = StrategyGlobalTrack then dllRemove k (gFifo d) else gFifo d)"
    and "k \<in> keysOf d"
  shows "globals_ok d'"
  using assms by (auto simp: globals_ok_def dll_rules split: if_splits)

text \<open>
  Removing a live entry: the invariant is kept, the key is gone from the map and from all
  indexes, everything else stays.
\<close>

lemma removeFromShard_spec:
  assumes ok: "db_ok d" and e: "lookup d k = Some e" and si: "si = shardIndex k d"
  shows "db_ok (removeFromShard si e False d)" (is "db_ok ?d")
    and "lookup (removeFromShard si e False d) = (lookup d)(k := None)"
    and "used (removeFromShard si e False d) + esize e = used d"
    and "shards (removeFromShard si e False d) = (shards d)[si := shardRemove e (shards d ! si)]"
    and "expH (removeFromShard si e False d) = expH d" "cfg (removeFromShard si e False d) = cfg d"
proof -
  let ?sh = "shards d ! si"
  have c: "cfg_ok d" and g: "globals_ok d" and x: "exp_ok d" using ok by (auto simp: db_ok_def)
  have lt: "si < length (shards d)" using shardIndex_less [OF c] si by simp
  have e': "map_of (sdata ?sh) k = Some e" using e si by (simp add: lookup_def theShard_def)
  have shok: "shard_ok (length (shards d)) si ?sh" using ok lt by (auto simp: db_ok_def shards_ok_def)
  note r = shardRemove_ok [OF shok e']
  have k: "ekey e = k" using lookup_entry [OF ok e] by simp
  have kin: "k \<in> keysOf d" using e by (auto simp: keysOf_def)
  show sh: "shards ?d = (shards d)[si := shardRemove e ?sh]" and cf: "cfg ?d = cfg d" and ex: "expH ?d = expH d"
    by (simp_all add: removeFromShard_def Let_def subUsed_def setShard_def)
  have le: "esize e \<le> used d" using entry_le_used [OF ok e] by simp
  then show u: "used ?d + esize e = used d"
    by (simp add: removeFromShard_def Let_def subUsed_def setShard_def)
  show lk: "lookup ?d = (lookup d)(k := None)"
    by (rule lookup_update_shard [OF c sh si]) (simp add: r(4) map_of_delete_conv)
  have linked: "Strategy (cfg d) = StrategyGlobalTrack \<Longrightarrow> dll_linked k (gLru d) \<and> dll_linked k (gFifo d)"
    using g kin by (simp add: globals_ok_def dll_linked_iff)
  have "globals_ok ?d"
    by (rule globals_ok_delete [OF g, of _ k])
      (use kin lk linked in \<open>auto simp: cf keysOf_def removeFromShard_def Let_def subUsed_def setShard_def stillInGlobal_def k\<close>)
  moreover have "exp_ok ?d" using x by (auto simp: exp_ok_def lk ex)
  moreover have "sused ?sh \<le> MaxMemory (cfg d)" using ok lt by (auto simp: db_ok_def fits_def)
  ultimately show "db_ok ?d"
    using u r by (intro db_ok_update_shard [OF ok lt sh cf]) auto
qed

lemma removeFromShard_frame [simp]:
  "sink (removeFromShard si e b d) = sink d" "rand (removeFromShard si e b d) = rand d"
  "map budget (shards (removeFromShard si e b d)) = map budget (shards d)"
proof -
  show "sink (removeFromShard si e b d) = sink d" "rand (removeFromShard si e b d) = rand d"
    by (simp_all add: removeFromShard_def Let_def subUsed_def setShard_def)
  have "shards (removeFromShard si e b d) = (shards d)[si := shardRemove e (shards d ! si)]"
    by (simp add: removeFromShard_def Let_def subUsed_def setShard_def)
  moreover have "budget (shardRemove e sh) = budget sh" for sh by (simp add: shardRemove_def Let_def)
  ultimately show "map budget (shards (removeFromShard si e b d)) = map budget (shards d)"
    by (cases "si < length (shards d)") (simp_all add: map_update list_update_same_conv list_update_beyond)
qed

lemma clearDB_frame [simp]:
  "shards (clearDB k d) = shards d" "cfg (clearDB k d) = cfg d" "used (clearDB k d) = used d"
  "gLru (clearDB k d) = gLru d" "gFifo (clearDB k d) = gFifo d" "sink (clearDB k d) = sink d"
  by (simp_all add: clearDB_def)

lemma lookup_clearDB [simp]: "lookup (clearDB k d) = lookup d" "keysOf (clearDB k d) = keysOf d"
  using lookup_cong [of "clearDB k d" d] by (simp_all add: keysOf_def)

lemma db_ok_heap:
  assumes "db_ok d" "heap_inv h" "\<And>k e. lookup d k = Some e \<Longrightarrow> deadlines h k = deadline e"
  shows "db_ok (d\<lparr>expH := h\<rparr>)"
proof -
  have "lookup (d\<lparr>expH := h\<rparr>) = lookup d" by (rule lookup_cong) simp
  then show ?thesis
    using assms by (simp add: db_ok_def cfg_ok_def shards_ok_def fits_def globals_ok_def exp_ok_def keysOf_def)
qed

lemma clearDB_ok: "db_ok d \<Longrightarrow> lookup d k = None \<Longrightarrow> db_ok (clearDB k d)"
  unfolding clearDB_def
  by (rule db_ok_heap) (auto simp: db_ok_def exp_ok_def dq.inv_drop dq.deadlines_drop)

text \<open>The pair of calls by which every operation drops a key.\<close>

definition dropKey :: "string \<Rightarrow> entry \<Rightarrow> DB \<Rightarrow> DB" where
  "dropKey key e d = clearDB key (removeFromShard (shardIndex key d) e False d)"

lemma dropKey_spec:
  assumes "db_ok d" "lookup d k = Some e"
  shows "db_ok (dropKey k e d)" "lookup (dropKey k e d) = (lookup d)(k := None)"
    "used (dropKey k e d) + esize e = used d" "cfg (dropKey k e d) = cfg d"
    "length (shards (dropKey k e d)) = length (shards d)" "sink (dropKey k e d) = sink d"
    "map budget (shards (dropKey k e d)) = map budget (shards d)"
proof -
  note r = removeFromShard_spec [OF assms refl]
  show "db_ok (dropKey k e d)" "lookup (dropKey k e d) = (lookup d)(k := None)"
    "used (dropKey k e d) + esize e = used d" "cfg (dropKey k e d) = cfg d"
    "length (shards (dropKey k e d)) = length (shards d)"
    using r by (simp_all add: dropKey_def clearDB_ok)
  show "sink (dropKey k e d) = sink d" "map budget (shards (dropKey k e d)) = map budget (shards d)"
    by (simp_all add: dropKey_def)
qed

section \<open>Accessing\<close>

lemma lfu_bump_linked:
  assumes "lfu_inv l" "k \<in> lfu_set l"
  shows "inLFU (freqBump k l) k" "bucketOf (freqBump k l) k \<noteq> None"
proof -
  from assms obtain bs where r: "lfu_rep l bs" by (auto simp: lfu_inv_def)
  have "k \<in> set (bs_entries bs)" using lfu_rep_set [OF r] assms(2) by simp
  from lfu_rep_split [OF r this] have "bucketOf l k \<noteq> None" "inLFU l k" by auto
  then show "inLFU (freqBump k l) k" "bucketOf (freqBump k l) k \<noteq> None"
    by (simp_all add: freqBump_def Let_def)
qed

lemma touch_eq:
  assumes "indexes_ok sh" "k \<in> skeys sh"
  shows "touch k sh = sh\<lparr>slfu := lfuRelocate k (freqBump k (slfu sh)), slru := dllTouch k (slru sh)\<rparr>"
  using assms lfu_bump_linked [of "slfu sh" k] by (simp add: touch_def Let_def indexes_ok_def)

lemma touch_frame [simp]:
  "sdata (touch k sh) = sdata sh" "sused (touch k sh) = sused sh" "budget (touch k sh) = budget sh"
  "sttl (touch k sh) = sttl sh" "sfifo (touch k sh) = sfifo sh" "srnd (touch k sh) = srnd sh"
  "shardSum (touch k sh) = shardSum sh"
  by (simp_all add: touch_def Let_def shardSum_def)

lemma touch_indexes:
  assumes "indexes_ok sh" "k \<in> skeys sh"
  shows "indexes_ok (touch k sh)"
  using assms lfuRelocate_inv [of "slfu sh" k]
  by (simp add: indexes_ok_def touch_eq dllTouch_inv dllTouch_set)

lemma touch_ok: "shard_ok n i sh \<Longrightarrow> k \<in> skeys sh \<Longrightarrow> shard_ok n i (touch k sh)"
  by (simp add: shard_ok_def touch_indexes entries_ok_def)

lemma globalAccess_frame [simp]:
  "shards (globalAccess k d) = shards d" "cfg (globalAccess k d) = cfg d" "used (globalAccess k d) = used d"
  "expH (globalAccess k d) = expH d" "gFifo (globalAccess k d) = gFifo d" "sink (globalAccess k d) = sink d"
  by (simp_all add: globalAccess_def)

lemma lookup_globalAccess [simp]: "lookup (globalAccess k d) = lookup d" "keysOf (globalAccess k d) = keysOf d"
  using lookup_cong [of "globalAccess k d" d] by (simp_all add: keysOf_def)

lemma globalAccess_globals: "globals_ok d \<Longrightarrow> globals_ok (globalAccess k d)"
  by (simp add: globals_ok_def) (simp add: globalAccess_def stillInGlobal_def dll_rules)

lemma globals_ok_cong:
  "globals_ok d \<Longrightarrow> keysOf d' = keysOf d \<Longrightarrow> Strategy (cfg d') = Strategy (cfg d) \<Longrightarrow> gLru d' = gLru d \<Longrightarrow>
     gFifo d' = gFifo d \<Longrightarrow> globals_ok d'"
  by (simp add: globals_ok_def)

section \<open>Writing\<close>

lemma dllFresh_id: "dll_inv x \<Longrightarrow> k \<notin> dll_set x \<Longrightarrow> dllFresh k x = x"
  using dll_inv_rep [of x] by (simp add: dllFresh_def dll_rep_def dll_set_def fun_upd_idem)

lemma rndFresh_ok: "rnd_inv x \<Longrightarrow> k \<notin> rnd_set x \<Longrightarrow> rnd_inv (rndFresh k x) \<and> rnd_set (rndFresh k x) = rnd_set x"
  by (auto simp: rndFresh_def rnd_inv_def rnd_set_def)

lemma lfuFresh_ok:
  assumes "lfu_inv x" "k \<notin> lfu_set x"
  shows "lfu_inv (lfuFresh k x) \<and> lfu_set (lfuFresh k x) = lfu_set x"
proof -
  from assms obtain bs where r: "lfu_rep x bs" by (auto simp: lfu_inv_def)
  have k: "k \<notin> set (bs_entries bs)" using lfu_rep_set [OF r] assms(2) by simp
  with r have "bucketOf x k = None" "fPrev x k = None" "fNext x k = None" "inLFU x k = False"
    by (auto simp: lfu_rep_def lfu_shape_def)
  then have eq: "lfuFresh k x = x\<lparr>freqOf := (freqOf x)(k := 1)\<rparr>"
    by (simp add: lfuFresh_def fun_upd_idem)
  have "\<forall>(f, es) \<in> set bs. k \<notin> set es" using k by (auto simp: bs_entries_def)
  with r have "lfu_rep (lfuFresh k x) bs" unfolding eq by (fastforce simp: lfu_rep_def shape_ghost)
  then show ?thesis by (auto simp: lfu_inv_def eq lfu_set_def)
qed

lemma shardInsert_ok:
  assumes ok: "shard_ok n i sh" and new: "map_of (sdata sh) k = None"
    and e: "ekey e = k" "esize e = memSize k (evalue e)" "keyShard n k = i"
    and room: "sused sh + esize e < 2 ^ 64"
  shows "shard_ok n i (shardInsert e sh)" "sused (shardInsert e sh) = sused sh + esize e"
    "budget (shardInsert e sh) = budget sh" "sdata (shardInsert e sh) = AList.update k e (sdata sh)"
proof -
  have k: "k \<notin> skeys sh" using new by (simp add: map_of_eq_None_iff)
  have io: "indexes_ok sh" using ok by (simp add: shard_ok_def)
  show us: "sused (shardInsert e sh) = sused sh + esize e"
    and "budget (shardInsert e sh) = budget sh" "sdata (shardInsert e sh) = AList.update k e (sdata sh)"
    using room by (simp_all add: shardInsert_def Let_def e)
  have "shardSum (shardInsert e sh) = shardSum sh + esize e"
    using sum_update_new [OF new, of "\<lambda>(k, e). esize e" e] by (simp add: shardSum_def shardInsert_def e)
  moreover have "indexes_ok (shardInsert e sh)"
    using io k rndFresh_ok [of "srnd sh" k] lfuFresh_ok [of "slfu sh" k]
    by (simp add: indexes_ok_def shardInsert_def Let_def e dllFresh_id dll_rules ra.inv_add ra.members_add
        lf.inv_add lf.members_add noteExpiry_inv deadlines_noteExpiry map_of_update_conv deadline_def)
  moreover have "entries_ok n i (shardInsert e sh)"
    using ok e by (auto simp: shard_ok_def entries_ok_iff shardInsert_def Let_def map_of_update_conv distinct_update)
  ultimately show "shard_ok n i (shardInsert e sh)"
    using ok us by (simp add: shard_ok_def)
qed

lemma noteDB_frame [simp]:
  "shards (noteDB k t d) = shards d" "cfg (noteDB k t d) = cfg d" "used (noteDB k t d) = used d"
  "gLru (noteDB k t d) = gLru d" "gFifo (noteDB k t d) = gFifo d" "sink (noteDB k t d) = sink d"
  "expH (noteDB k t d) = noteExpiry k t (expH d)"
  by (simp_all add: noteDB_def)

lemma lookup_noteDB [simp]: "lookup (noteDB k t d) = lookup d" "keysOf (noteDB k t d) = keysOf d"
  using lookup_cong [of "noteDB k t d" d] by (simp_all add: keysOf_def)

lemma exp_ok_note:
  assumes "exp_ok d" "expH d' = noteExpiry k (expiresAt e) (expH d)" "lookup d' = (lookup d)(k \<mapsto> e)"
  shows "exp_ok d'"
  using assms by (auto simp: exp_ok_def noteExpiry_inv deadlines_noteExpiry deadline_def split: if_splits)

lemma insertEntry_spec:
  assumes ok: "db_ok d" and new: "lookup d k = None" and si: "si = shardIndex k d"
    and e: "ekey e = k" "esize e = memSize k (evalue e)"
    and room: "sused (shards d ! si) + esize e \<le> MaxMemory (cfg d)"
  shows "db_ok (insertEntry si e d)" (is "db_ok ?d")
    and "lookup (insertEntry si e d) = (lookup d)(k \<mapsto> e)"
    and "used (insertEntry si e d) = used d + esize e"
    and "shards (insertEntry si e d) = (shards d)[si := shardInsert e (shards d ! si)]"
    and "cfg (insertEntry si e d) = cfg d"
proof -
  let ?sh = "shards d ! si"
  have c: "cfg_ok d" and g: "globals_ok d" and x: "exp_ok d" using ok by (auto simp: db_ok_def)
  have lt: "si < length (shards d)" using shardIndex_less [OF c] si by simp
  have shok: "shard_ok (length (shards d)) si ?sh" using ok lt by (auto simp: db_ok_def shards_ok_def)
  have new': "map_of (sdata ?sh) k = None" using new si by (simp add: lookup_def theShard_def)
  have kin: "k \<notin> keysOf d" using new by (auto simp: keysOf_def)
  have mm: "used d + MaxMemory (cfg d) < 2 ^ 64" by (rule used_bound [OF ok])
  have "keyShard (length (shards d)) k = si" using si by (simp add: shardIndex_def)
  note r = shardInsert_ok [OF shok new' e this]
  have fresh: "dllFresh k (gLru d) = gLru d" "dllFresh k (gFifo d) = gFifo d"
    using g kin by (auto simp: globals_ok_def dllFresh_id)
  show sh: "shards ?d = (shards d)[si := shardInsert e ?sh]" and cf: "cfg ?d = cfg d"
    by (simp_all add: insertEntry_def Let_def addUsed_def setShard_def)
  show u: "used ?d = used d + esize e"
    using mm room by (simp add: insertEntry_def Let_def addUsed_def setShard_def)
  have room': "sused ?sh + esize e < 2 ^ 64" using mm room by linarith
  show lk: "lookup ?d = (lookup d)(k \<mapsto> e)"
    by (rule lookup_update_shard [OF c sh si]) (simp add: r(4) [OF room'] map_of_update_conv)
  have gl: "gLru ?d = (if Strategy (cfg d) = StrategyGlobalTrack then dllPushTail k (gLru d) else gLru d)"
    "gFifo ?d = (if Strategy (cfg d) = StrategyGlobalTrack then dllPushTail k (gFifo d) else gFifo d)"
    using fresh by (simp_all add: insertEntry_def Let_def addUsed_def setShard_def e)
  have "keysOf ?d = insert k (keysOf d)" by (simp add: keysOf_def lk)
  then have "globals_ok ?d" using g kin by (simp add: globals_ok_def gl cf dll_rules)
  moreover have "exp_ok ?d"
    by (rule exp_ok_note [OF x _ lk]) (simp add: insertEntry_def Let_def addUsed_def setShard_def e)
  ultimately show "db_ok ?d"
    using r [OF room'] u room by (intro db_ok_update_shard [OF ok lt sh cf]) auto
qed

lemma shardOverwrite_ok:
  assumes ok: "shard_ok n i sh" and old: "map_of (sdata sh) k = Some old"
    and e: "ekey e = k" "esize e = memSize k (evalue e)"
    and upd: "sh' = sh\<lparr>sused := u, sdata := AList.update k e (sdata sh), sttl := noteExpiry k (expiresAt e) (sttl sh)\<rparr>"
    and u: "u + esize old = sused sh + esize e"
  shows "shard_ok n i sh'" "k \<in> skeys sh'"
proof -
  have d: "distinct (map fst (sdata sh))" using ok by (simp add: shard_ok_def entries_ok_def)
  have k: "k \<in> skeys sh" using old by (simp add: skeys_iff)
  then have sk: "skeys sh' = skeys sh" by (auto simp: upd)
  then show "k \<in> skeys sh'" using k by simp
  have "shardSum sh' + esize old = shardSum sh + esize e"
    using sum_update_old [OF d old, of "\<lambda>(k, e). esize e" e] by (simp add: shardSum_def upd)
  moreover have "indexes_ok sh'"
    using ok sk by (simp add: shard_ok_def indexes_ok_def)
      (simp add: upd noteExpiry_inv deadlines_noteExpiry map_of_update_conv deadline_def)
  moreover have "entries_ok n i sh'"
    using ok e old d by (auto simp: shard_ok_def entries_ok_iff upd map_of_update_conv distinct_update)
  ultimately show "shard_ok n i sh'" using ok u by (simp add: shard_ok_def upd)
qed

lemma overwriteEntry_spec:
  assumes ok: "db_ok d" and old: "lookup d k = Some old" and si: "si = shardIndex k d"
    and e: "ekey e = k" "esize e = memSize k (evalue e)"
    and room: "sused (shards d ! si) + esize e \<le> MaxMemory (cfg d) + esize old"
  shows "db_ok (overwriteEntry si old e d)" (is "db_ok ?d")
    and "lookup (overwriteEntry si old e d) = (lookup d)(k \<mapsto> e)"
    and "used (overwriteEntry si old e d) + esize old = used d + esize e"
    and "cfg (overwriteEntry si old e d) = cfg d"
    and "\<And>i. i \<noteq> si \<Longrightarrow> shards (overwriteEntry si old e d) ! i = shards d ! i"
    and "length (shards (overwriteEntry si old e d)) = length (shards d)"
    and "sused (shards (overwriteEntry si old e d) ! si) + esize old = sused (shards d ! si) + esize e"
proof -
  let ?sh = "shards d ! si"
  let ?u = "sused ?sh - esize old + esize e"
  let ?sh1 = "?sh\<lparr>sused := ?u, sdata := AList.update k e (sdata ?sh), sttl := noteExpiry k (expiresAt e) (sttl ?sh)\<rparr>"
  have c: "cfg_ok d" and g: "globals_ok d" and x: "exp_ok d" using ok by (auto simp: db_ok_def)
  have lt: "si < length (shards d)" using shardIndex_less [OF c] si by simp
  have shok: "shard_ok (length (shards d)) si ?sh" using ok lt by (auto simp: db_ok_def shards_ok_def)
  have old': "map_of (sdata ?sh) k = Some old" using old si by (simp add: lookup_def theShard_def)
  have le: "esize old \<le> sused ?sh" "sused ?sh \<le> used d"
    using entry_le_used [OF ok old] si by (simp_all add: theShard_def)
  have mm: "used d + MaxMemory (cfg d) < 2 ^ 64" by (rule used_bound [OF ok])
  have um: "?u \<le> MaxMemory (cfg d)" using le room by linarith
  have uw: "add64 (sub64 (sused ?sh) (esize old)) (esize e) = ?u" using le um mm by simp
  have u: "?u + esize old = sused ?sh + esize e" using le by simp
  note r = shardOverwrite_ok [OF shok old' e refl u]
  note t = touch_ok [OF r]
  have d1: "shards ?d = (shards d)[si := touch k ?sh1]" "cfg ?d = cfg d"
    "gFifo ?d = gFifo d" "expH ?d = noteExpiry k (expiresAt e) (expH d)"
    "gLru ?d = (if Strategy (cfg d) = StrategyGlobalTrack then gLru (globalAccess k d) else gLru d)"
    using uw by (simp_all add: overwriteEntry_def Let_def addUsed_def subUsed_def setShard_def e globalAccess_def
        stillInGlobal_def)
  show cf: "cfg ?d = cfg d" by (rule d1(2))
  show "length (shards ?d) = length (shards d)" by (simp add: d1)
  show "\<And>i. i \<noteq> si \<Longrightarrow> shards ?d ! i = shards d ! i" by (simp add: d1)
  show "sused (shards ?d ! si) + esize old = sused ?sh + esize e" using lt u by (simp add: d1)
  have "used d + esize e - esize old < 2 ^ 64" using mm um le by linarith
  then show us: "used ?d + esize old = used d + esize e"
    using le by (auto simp: overwriteEntry_def Let_def addUsed_def subUsed_def setShard_def)
  show lk: "lookup ?d = (lookup d)(k \<mapsto> e)"
    by (rule lookup_update_shard [OF c d1(1) si]) (simp add: map_of_update_conv)
  have ke: "keysOf ?d = keysOf d" using old by (auto simp: keysOf_def lk)
  have "globals_ok ?d"
    using globalAccess_globals [OF g, of k] g by (auto simp: globals_ok_def d1 ke)
  moreover have "exp_ok ?d" by (rule exp_ok_note [OF x d1(4) lk])
  ultimately show "db_ok ?d"
    using t us le um by (intro db_ok_update_shard [OF ok lt d1(1) cf]) auto
qed

end
