(* ===== verification/Evict.thy ===== *)
theory Evict
  imports StoreCore
begin

text \<open>
  Victim selection (\<^verbatim>\<open>internal/store/evict.go\<close>, \<^verbatim>\<open>ttlPick\<close> of \<^verbatim>\<open>expiry.go\<close>) and the eviction
  loops (\<^verbatim>\<open>evictOneGlobal\<close>, \<^verbatim>\<open>evictOneLocal\<close>, \<^verbatim>\<open>stealFromOtherShards\<close>, \<^verbatim>\<open>ensureSpace\<close> of
  \<^verbatim>\<open>ops.go\<close>). A walk along a list is bounded by the number of keys, the loop of
  \<^verbatim>\<open>pickGlobalTTL\<close> by the number of heap items plus one, the loops of \<^verbatim>\<open>ensureSpace\<close> by the
  number of keys plus one; the lemmas show that the invariant makes these bounds enough.
\<close>

datatype storeErr = ErrOOM | ErrNotInteger | NoReturn

section \<open>Victims\<close>

function ttlPick :: "string \<Rightarrow> gotime \<Rightarrow> (string \<times> entry) list \<Rightarrow> expheap \<Rightarrow> eref option \<times> expheap" where
  "ttlPick skipKey now al h =
     (case hitems h of
        [] \<Rightarrow> (None, h)
      | item # _ \<Rightarrow>
          (case map_of al (ikey item) of
             None \<Rightarrow> ttlPick skipKey now al (heapRemoveAt 0 h)
           | Some e \<Rightarrow>
               if IsZero (expiresAt e) \<or> expiresAt e \<noteq> iat item
               then ttlPick skipKey now al (heapRemoveAt 0 h)
               else if ikey item = skipKey
               then let (cand, h1) = ttlPick skipKey now al (heapRemoveAt 0 h) in (cand, heapPush item h1)
               else if expired now e then (Some (ekey e), h)
               else (Some (ekey e), h)))"
  by pat_completeness auto
termination
  by (relation "measure (\<lambda>(s, now, al, h). length (hitems h))") simp_all

declare ttlPick.simps [simp del]

definition shardTtlPick :: "string \<Rightarrow> gotime \<Rightarrow> shard \<Rightarrow> eref option \<times> shard" where
  "shardTtlPick skipKey now sh =
     (let (r, h) = ttlPick skipKey now (sdata sh) (sttl sh) in (r, sh\<lparr>sttl := h\<rparr>))"

definition pickLocalVictim ::
  "string \<Rightarrow> string \<Rightarrow> gotime \<Rightarrow> shard \<Rightarrow> rng \<Rightarrow> eref option \<times> shard \<times> rng" where
  "pickLocalVictim pol skipKey now sh g =
     (if pol = PolicyNoEviction then (None, sh, g)
      else
        let vol = volatileOnly pol; n = length (sdata sh);
            ok = (\<lambda>e. e \<noteq> skipKey \<and> eligible pol (shardExp sh e)) in
        if pol \<in> set [PolicyAllKeysLRU, PolicyVolatileLRU]
        then (find ok (dll_walk n (dnext (slru sh)) (dhead (slru sh))), sh, g)
        else if pol \<in> set [PolicyAllKeysFIFO, PolicyVolatileFIFO]
        then (find ok (dll_walk n (dnext (sfifo sh)) (dhead (sfifo sh))), sh, g)
        else if pol \<in> set [PolicyAllKeysRandom, PolicyVolatileRandom]
        then let (r, g1) = rndPick skipKey vol (shardExp sh) (srnd sh) g in (r, sh, g1)
        else if pol \<in> set [PolicyAllKeysLFU, PolicyVolatileLFU]
        then (lfuPick skipKey vol (shardExp sh) (slfu sh), sh, g)
        else if pol = PolicyVolatileTTL
        then let (r, sh1) = shardTtlPick skipKey now sh in (r, sh1, g)
        else (find ok (dll_walk n (dnext (slru sh)) (dhead (slru sh))), sh, g))"

fun randomScan :: "string \<Rightarrow> bool \<Rightarrow> shard list \<Rightarrow> rng \<Rightarrow> string option \<times> rng" where
  "randomScan skipKey vol [] g = (None, g)"
| "randomScan skipKey vol (sh # shs) g =
     (case rndPick skipKey vol (shardExp sh) (srnd sh) g of
        (Some e, g1) \<Rightarrow> (Some e, g1)
      | (None, g1) \<Rightarrow> randomScan skipKey vol shs g1)"

definition pickGlobalRandom :: "string \<Rightarrow> DB \<Rightarrow> string option \<times> DB" where
  "pickGlobalRandom skipKey d =
     (let vol = volatileOnly (Policy (cfg d)); n = length (shards d);
          (start, g1) = Intn n (rand d);
          (r, g2) = randomScan skipKey vol (map (\<lambda>i. shards d ! ((start + i) mod n)) [0..<n]) g1
      in (r, d\<lparr>rand := g2\<rparr>))"

text \<open>The running best of \<^verbatim>\<open>pickGlobalLFU\<close>: frequency first, then the smaller key.\<close>

definition lfuBetter :: "(string \<times> int) option \<Rightarrow> string \<Rightarrow> int \<Rightarrow> bool" where
  "lfuBetter best k f \<longleftrightarrow>
     (case best of None \<Rightarrow> True | Some (bestKey, bestFreq) \<Rightarrow> f < bestFreq \<or> f = bestFreq \<and> k < bestKey)"

fun lfuScan :: "string \<Rightarrow> bool \<Rightarrow> shard list \<Rightarrow> (string \<times> int) option \<Rightarrow> (string \<times> int) option" where
  "lfuScan skipKey vol [] best = best"
| "lfuScan skipKey vol (sh # shs) best =
     (case lfuPick skipKey vol (shardExp sh) (slfu sh) of
        None \<Rightarrow> lfuScan skipKey vol shs best
      | Some e \<Rightarrow>
          lfuScan skipKey vol shs
            (if lfuBetter best e (freqOf (slfu sh) e) then Some (e, freqOf (slfu sh) e) else best))"

definition pickGlobalLFU :: "string \<Rightarrow> DB \<Rightarrow> string option" where
  "pickGlobalLFU skipKey d =
     map_option fst (lfuScan skipKey (volatileOnly (Policy (cfg d))) (shards d) None)"

fun ttlScan :: "string \<Rightarrow> gotime \<Rightarrow> nat list \<Rightarrow> DB \<Rightarrow> string option \<times> DB" where
  "ttlScan skipKey now [] d = (None, d)"
| "ttlScan skipKey now (i # is) d =
     (case shardTtlPick skipKey now (shards d ! i) of
        (Some e, sh) \<Rightarrow> (Some e, setShard i sh d)
      | (None, sh) \<Rightarrow> ttlScan skipKey now is (setShard i sh d))"

fun pickGlobalTTL :: "nat \<Rightarrow> string \<Rightarrow> gotime \<Rightarrow> DB \<Rightarrow> string option \<times> DB" where
  "pickGlobalTTL 0 skipKey now d = (None, d)"
| "pickGlobalTTL (Suc n) skipKey now d =
     (case hitems (expH d) of
        [] \<Rightarrow> (None, d)
      | item # _ \<Rightarrow>
          if ikey item = skipKey
          then let si = shardIndex (ikey item) d;
                   (r, sh) = shardTtlPick skipKey now (shards d ! si);
                   d1 = setShard si sh d
               in case r of Some e \<Rightarrow> (Some e, d1) | None \<Rightarrow> ttlScan skipKey now [0..<length (shards d1)] d1
          else case lookup d (ikey item) of
            None \<Rightarrow> pickGlobalTTL n skipKey now (clearDB (ikey item) d)
          | Some e \<Rightarrow>
              if IsZero (expiresAt e) then pickGlobalTTL n skipKey now (clearDB (ikey item) d)
              else if expiresAt e \<noteq> iat item
              then pickGlobalTTL n skipKey now (noteDB (ikey item) (expiresAt e) d)
              else (Some (ekey e), d))"

definition totalKeys :: "DB \<Rightarrow> nat" where
  "totalKeys d = sum_list (map (\<lambda>sh. length (sdata sh)) (shards d))"

definition pickGlobalVictimKey :: "string \<Rightarrow> gotime \<Rightarrow> DB \<Rightarrow> string option \<times> DB" where
  "pickGlobalVictimKey skipKey now d =
     (let pol = Policy (cfg d); n = totalKeys d;
          ok = (\<lambda>e. e \<noteq> skipKey \<and> eligible pol (dbExp d e)) in
      if pol = PolicyNoEviction then (None, d)
      else if pol \<in> set [PolicyAllKeysLRU, PolicyVolatileLRU]
      then (find ok (dll_walk n (dnext (gLru d)) (dhead (gLru d))), d)
      else if pol \<in> set [PolicyAllKeysFIFO, PolicyVolatileFIFO]
      then (find ok (dll_walk n (dnext (gFifo d)) (dhead (gFifo d))), d)
      else if pol \<in> set [PolicyAllKeysRandom, PolicyVolatileRandom] then pickGlobalRandom skipKey d
      else if pol \<in> set [PolicyAllKeysLFU, PolicyVolatileLFU] then (pickGlobalLFU skipKey d, d)
      else if pol = PolicyVolatileTTL then pickGlobalTTL (Suc (length (hitems (expH d)))) skipKey now d
      else pickGlobalRandom skipKey d)"

section \<open>Eviction\<close>

definition evictOneGlobal :: "string \<Rightarrow> gotime \<Rightarrow> DB \<Rightarrow> bool \<times> DB" where
  "evictOneGlobal skipKey now d =
     (case pickGlobalVictimKey skipKey now d of
        (None, d1) \<Rightarrow> (False, d1)
      | (Some key, d1) \<Rightarrow>
          (case lookup d1 key of
             None \<Rightarrow>
               (True, if key \<in> set (dll_walk (totalKeys d1) (dnext (gLru d1)) (dhead (gLru d1)))
                      then d1\<lparr>gLru := dllRemove key (gLru d1)\<rparr> else d1)
           | Some cur \<Rightarrow>
               let d2 = clearDB key (removeFromShard (shardIndex key d1) cur False d1)
               in (True, d2\<lparr>evictions := add64 (evictions d2) 1\<rparr>)))"

definition evictOneLocal :: "nat \<Rightarrow> string \<Rightarrow> gotime \<Rightarrow> DB \<Rightarrow> bool \<times> DB" where
  "evictOneLocal si skipKey now d =
     (case pickLocalVictim (Policy (cfg d)) skipKey now (shards d ! si) (rand d) of
        (None, sh, g) \<Rightarrow> (False, (setShard si sh d)\<lparr>rand := g\<rparr>)
      | (Some key, sh, g) \<Rightarrow>
          let d1 = (setShard si sh d)\<lparr>rand := g\<rparr>;
              v = the (map_of (sdata sh) key);
              d2 = removeFromShard si v False d1;
              d3 = d2\<lparr>evictions := add64 (evictions d2) 1\<rparr>
          in (True, clearDB key d3))"

fun stealScan :: "nat list \<Rightarrow> nat \<Rightarrow> string \<Rightarrow> (nat \<Rightarrow> gotime) \<Rightarrow> DB \<Rightarrow> bool \<times> DB" where
  "stealScan [] holdSI skipKey clock d = (False, d)"
| "stealScan (i # is) holdSI skipKey clock d =
     (let si = (holdSI + 1 + i) mod length (shards d) in
      if si = holdSI then stealScan is holdSI skipKey clock d
      else case evictOneLocal si skipKey (clock i) d of
        (True, d1) \<Rightarrow> (True, d1)
      | (False, d1) \<Rightarrow> stealScan is holdSI skipKey clock d1)"

definition stealFromOtherShards :: "nat \<Rightarrow> string \<Rightarrow> (nat \<Rightarrow> gotime) \<Rightarrow> DB \<Rightarrow> bool \<times> DB" where
  "stealFromOtherShards holdSI skipKey clock d = stealScan [0..<length (shards d)] holdSI skipKey clock d"

text \<open>
  The loops \<^verbatim>\<open>for used + need > limit { if !evict { return ErrOOM } }\<close>. The first argument
  bounds the number of iterations; running out of it is the value \<open>NoReturn\<close>, which
  \<open>ensureSpace_spec\<close> excludes.
\<close>

fun evictWhile :: "nat \<Rightarrow> (DB \<Rightarrow> bool) \<Rightarrow> (nat \<Rightarrow> DB \<Rightarrow> bool \<times> DB) \<Rightarrow> DB \<Rightarrow> storeErr option \<times> DB" where
  "evictWhile 0 over step d = (if over d then (Some NoReturn, d) else (None, d))"
| "evictWhile (Suc n) over step d =
     (if \<not> over d then (None, d)
      else case step n d of
        (True, d1) \<Rightarrow> evictWhile n over step d1
      | (False, d1) \<Rightarrow> (Some ErrOOM, d1))"

text \<open>
  \<open>clock n i\<close> are the readings of \<^verbatim>\<open>time.Now()\<close> in the successive evictions. The parameter
  \<^verbatim>\<open>exists\<close> of the source is never read.
\<close>

definition ensureSpace ::
  "nat \<Rightarrow> string \<Rightarrow> u64 \<Rightarrow> u64 \<Rightarrow> (nat \<Rightarrow> nat \<Rightarrow> gotime) \<Rightarrow> DB \<Rightarrow> storeErr option \<times> DB" where
  "ensureSpace si key need newSize clock d =
     (let limit = MaxMemory (cfg d); strat = Strategy (cfg d); fuel = Suc (totalKeys d) in
      if (if strat = StrategyShardBudget then budget (shards d ! si) < newSize else limit < newSize)
      then (Some ErrOOM, d)
      else if Policy (cfg d) = PolicyNoEviction
      then (if (if strat = StrategyShardBudget
                then budget (shards d ! si) < add64 (sused (shards d ! si)) need
                else limit < add64 (used d) need)
            then (Some ErrOOM, d) else (None, d))
      else if strat = StrategyGlobalTrack
      then evictWhile fuel (\<lambda>d. limit < add64 (used d) need) (\<lambda>n. evictOneGlobal key (clock n 0)) d
      else if strat = StrategySteal
      then evictWhile fuel (\<lambda>d. limit < add64 (used d) need)
             (\<lambda>n d. case evictOneLocal si key (clock n 0) d of
                      (True, d1) \<Rightarrow> (True, d1)
                    | (False, d1) \<Rightarrow> stealFromOtherShards si key (\<lambda>i. clock n (Suc i)) d1) d
      else if strat = StrategyShardBudget
      then evictWhile fuel (\<lambda>d. budget (shards d ! si) < add64 (sused (shards d ! si)) need)
             (\<lambda>n. evictOneLocal si key (clock n 0)) d
      else (None, d))"

section \<open>The deadline heap as a victim index\<close>

definition fresh_items :: "(string \<times> entry) list \<Rightarrow> expheap \<Rightarrow> bool" where
  "fresh_items al h \<longleftrightarrow> (\<forall>k t. deadlines h k = Some t \<longrightarrow>
     (\<exists>e. map_of al k = Some e \<and> expiresAt e = t \<and> \<not> IsZero t \<and> ekey e = k))"

lemma heap_root:
  assumes "heap_inv h" "hitems h = item # rest"
  shows "deadlines h (ikey item) = Some (iat item)"
    "\<And>k t. deadlines h k = Some t \<Longrightarrow> iat item \<le> t"
    "heapRemoveAt 0 h = clearExpiry (ikey item) h"
proof -
  have p: "peek h = Some (ikey item, iat item)" using assms(2) by (simp add: peek_def)
  show "deadlines h (ikey item) = Some (iat item)" by (rule dq.peek_Some [OF assms(1) p])
  show "\<And>k t. deadlines h k = Some t \<Longrightarrow> iat item \<le> t" by (rule dq.peek_least [OF assms(1) p])
  show "heapRemoveAt 0 h = clearExpiry (ikey item) h" by (rule removeAt_root [OF assms])
qed

lemma heap_nil: "heap_inv h \<Longrightarrow> hitems h = [] \<longleftrightarrow> deadlines h = Map.empty"
  using dq.peek_None [of h] by (cases "hitems h") (simp_all add: peek_def)

text \<open>
  With no stale items, \<^verbatim>\<open>ttlPick\<close> finds a key other than \<open>skipKey\<close> with a least deadline,
  fails only if there is none, and leaves the set of deadlines as it was.
\<close>

lemma ttlPick_spec:
  assumes "heap_inv h" "fresh_items al h" "ttlPick skipKey now al h = (r, h')"
  shows "heap_inv h' \<and> deadlines h' = deadlines h \<and>
    (case r of
       None \<Rightarrow> (\<forall>k. deadlines h k \<noteq> None \<longrightarrow> k = skipKey)
     | Some k \<Rightarrow> k \<noteq> skipKey \<and> (\<exists>t. deadlines h k = Some t \<and>
         (\<forall>k' t'. deadlines h k' = Some t' \<longrightarrow> k' \<noteq> skipKey \<longrightarrow> t \<le> t')))"
  using assms
proof (induction skipKey now al h arbitrary: r h' rule: ttlPick.induct)
  case (1 skipKey now al h)
  show ?case
  proof (cases "hitems h")
    case Nil
    then have "ttlPick skipKey now al h = (None, h)" by (subst ttlPick.simps) simp
    with 1(4,6) Nil show ?thesis by (simp add: heap_nil)
  next
    case (Cons item rest)
    note root = heap_root [OF 1(4) Cons]
    from root(1) 1(5) obtain e where e: "map_of al (ikey item) = Some e" "expiresAt e = iat item"
      "\<not> IsZero (iat item)" "ekey e = ikey item"
      unfolding fresh_items_def by blast
    show ?thesis
    proof (cases "ikey item = skipKey")
      case False
      with Cons e have "ttlPick skipKey now al h = (Some (ikey item), h)" by (subst ttlPick.simps) simp
      with 1(6) have "r = Some (ikey item)" "h' = h" by simp_all
      with 1(4) root(1,2) False show ?thesis by auto
    next
      case True
      let ?h = "heapRemoveAt 0 h"
      have q: "heap_inv ?h" "deadlines ?h = (deadlines h)(skipKey := None)"
        using root(3) True 1(4) by (simp_all add: dq.inv_drop dq.deadlines_drop)
      have fr: "fresh_items al ?h" using 1(5) q(2) by (auto simp: fresh_items_def split: if_splits)
      obtain c h1 where p: "ttlPick skipKey now al ?h = (c, h1)" by fastforce
      have IH: "heap_inv h1 \<and> deadlines h1 = deadlines ?h \<and>
        (case c of
           None \<Rightarrow> (\<forall>k. deadlines ?h k \<noteq> None \<longrightarrow> k = skipKey)
         | Some k \<Rightarrow> k \<noteq> skipKey \<and> (\<exists>t. deadlines ?h k = Some t \<and>
             (\<forall>k' t'. deadlines ?h k' = Some t' \<longrightarrow> k' \<noteq> skipKey \<longrightarrow> t \<le> t')))"
        by (rule 1(3) [OF Cons e(1) _ True q(1) fr p]) (use e in simp)
      have "ttlPick skipKey now al h = (c, heapPush item h1)"
        using Cons e True p by (subst ttlPick.simps) simp
      then have r: "r = c" "h' = heapPush item h1" using 1(6) by simp_all
      have none: "deadlines h1 skipKey = None" using IH q by simp
      have "h' = heapPush \<lparr>ikey = skipKey, iat = iat item\<rparr> h1" using r(2) True by (cases item) simp
      then have dl: "deadlines h' = (deadlines h1)(skipKey \<mapsto> iat item)" and inv: "heap_inv h'"
        using IH none by (simp_all only: dq.deadlines_push dq.inv_push)
      have "deadlines h' = deadlines h" using dl IH q root(1) True by (simp add: fun_eq_iff)
      moreover have other: "k' \<noteq> skipKey \<Longrightarrow> deadlines ?h k' = deadlines h k'" for k' by (simp add: q(2))
      have "case c of
           None \<Rightarrow> (\<forall>k. deadlines h k \<noteq> None \<longrightarrow> k = skipKey)
         | Some k \<Rightarrow> k \<noteq> skipKey \<and> (\<exists>t. deadlines h k = Some t \<and>
             (\<forall>k' t'. deadlines h k' = Some t' \<longrightarrow> k' \<noteq> skipKey \<longrightarrow> t \<le> t'))"
      proof (cases c)
        case None
        with IH have n: "\<And>k. deadlines ?h k \<noteq> None \<Longrightarrow> k = skipKey" by simp
        have "k = skipKey" if "deadlines h k \<noteq> None" for k
        proof (rule ccontr)
          assume "k \<noteq> skipKey"
          with that have "deadlines ?h k \<noteq> None" by (simp only: other not_False_eq_True)
          from n [OF this] \<open>k \<noteq> skipKey\<close> show False by simp
        qed
        with None show ?thesis by simp
      next
        case (Some k)
        with IH obtain t where t: "k \<noteq> skipKey" "deadlines ?h k = Some t"
          "\<And>k' t'. deadlines ?h k' = Some t' \<Longrightarrow> k' \<noteq> skipKey \<Longrightarrow> t \<le> t'" by auto
        then have "deadlines h k = Some t" by (simp only: other not_False_eq_True)
        moreover have "t \<le> t'" if "deadlines h k' = Some t'" "k' \<noteq> skipKey" for k' t'
          using t(3) [of k' t'] that by (simp only: other not_False_eq_True)
        ultimately show ?thesis using Some t(1) by simp
      qed
      ultimately show ?thesis using inv r(1) by simp
    qed
  qed
qed


section \<open>Local victims\<close>

lemma pickable_eligible: "pickable skip (volatileOnly pol) ex = (\<lambda>e. e \<noteq> skip \<and> eligible pol (ex e))"
  by (auto simp: pickable_def eligible_def fun_eq_iff)

definition pick_result :: "string set \<Rightarrow> string \<Rightarrow> string \<Rightarrow> (string \<Rightarrow> gotime) \<Rightarrow> string option \<Rightarrow> bool" where
  "pick_result ks pol skip ex r \<longleftrightarrow>
     (case r of
        Some k \<Rightarrow> k \<in> ks \<and> k \<noteq> skip \<and> eligible pol (ex k)
      | None \<Rightarrow> \<forall>k \<in> ks. k \<noteq> skip \<longrightarrow> \<not> eligible pol (ex k))"

lemma pick_result_find:
  "set xs = ks \<Longrightarrow> pick_result ks pol skip ex (find (\<lambda>e. e \<noteq> skip \<and> eligible pol (ex e)) xs)"
  using find_spec [where P = "\<lambda>e. e \<noteq> skip \<and> eligible pol (ex e)" and xs = xs]
  by (auto simp: pick_result_def split: option.splits)

lemma local_walk:
  assumes "indexes_ok sh" "distinct (map fst (sdata sh))"
  shows "dll_walk (length (sdata sh)) (dnext (slru sh)) (dhead (slru sh)) = dll_list (slru sh)"
    "dll_walk (length (sdata sh)) (dnext (sfifo sh)) (dhead (sfifo sh)) = dll_list (sfifo sh)"
proof -
  have "length (dll_list x) = length (sdata sh)" if "dll_inv x" "dll_set x = skeys sh" for x
  proof -
    have "length (dll_list x) = card (dll_set x)"
      using ol.distinct_order [OF that(1)] by (simp add: dll_set_def distinct_card)
    also have "\<dots> = length (sdata sh)" using that(2) distinct_card [OF assms(2)] by simp
    finally show ?thesis .
  qed
  with assms(1) show "dll_walk (length (sdata sh)) (dnext (slru sh)) (dhead (slru sh)) = dll_list (slru sh)"
    "dll_walk (length (sdata sh)) (dnext (sfifo sh)) (dhead (sfifo sh)) = dll_list (sfifo sh)"
    by (simp_all add: indexes_ok_def dll_walk_enough)
qed

lemma shard_fresh_items:
  assumes "indexes_ok sh" "entries_ok n i sh"
  shows "fresh_items (sdata sh) (sttl sh)"
  using assms by (auto simp: fresh_items_def indexes_ok_def entries_ok_iff deadline_def
      split: bind_splits if_splits)

lemma shard_deadlines:
  assumes "indexes_ok sh"
  shows "deadlines (sttl sh) k \<noteq> None \<longleftrightarrow> k \<in> skeys sh \<and> \<not> IsZero (shardExp sh k)"
    "deadlines (sttl sh) k = Some t \<Longrightarrow> shardExp sh k = t"
proof -
  have "deadlines (sttl sh) k = Option.bind (map_of (sdata sh) k) deadline"
    using assms unfolding indexes_ok_def by blast
  then show "deadlines (sttl sh) k \<noteq> None \<longleftrightarrow> k \<in> skeys sh \<and> \<not> IsZero (shardExp sh k)"
    "deadlines (sttl sh) k = Some t \<Longrightarrow> shardExp sh k = t"
    unfolding skeys_iff by (auto simp: deadline_def shardExp_def split: bind_splits if_splits)
qed

lemma eligible_ttl: "eligible PolicyVolatileTTL t \<longleftrightarrow> \<not> IsZero t"
  by (simp add: eligible_def volatileOnly_def)

lemma shardTtlPick_spec:
  assumes ok: "indexes_ok sh" "entries_ok n i sh" and p: "shardTtlPick skip now sh = (r, sh')"
  shows "pick_result (skeys sh) PolicyVolatileTTL skip (shardExp sh) r"
    "sh' = sh\<lparr>sttl := sttl sh'\<rparr>" "heap_inv (sttl sh')" "deadlines (sttl sh') = deadlines (sttl sh)"
    "r = Some k \<Longrightarrow> k' \<in> skeys sh \<Longrightarrow> k' \<noteq> skip \<Longrightarrow> \<not> IsZero (shardExp sh k') \<Longrightarrow> shardExp sh k \<le> shardExp sh k'"
proof -
  obtain h where h: "ttlPick skip now (sdata sh) (sttl sh) = (r, h)" and sh': "sh' = sh\<lparr>sttl := h\<rparr>"
    using p by (auto simp: shardTtlPick_def split: prod.splits)
  have hi: "heap_inv (sttl sh)" using ok by (simp add: indexes_ok_def)
  note t = ttlPick_spec [OF hi shard_fresh_items [OF ok] h]
  show "sh' = sh\<lparr>sttl := sttl sh'\<rparr>" "heap_inv (sttl sh')" "deadlines (sttl sh') = deadlines (sttl sh)"
    using t by (simp_all add: sh')
  show "pick_result (skeys sh) PolicyVolatileTTL skip (shardExp sh) r"
  proof (cases r)
    case None
    with t have "\<And>k. deadlines (sttl sh) k \<noteq> None \<Longrightarrow> k = skip" by simp
    then show ?thesis using None shard_deadlines(1) [OF ok(1)] by (auto simp: pick_result_def eligible_ttl)
  next
    case (Some k)
    with t have "k \<noteq> skip" "deadlines (sttl sh) k \<noteq> None" by auto
    then show ?thesis using Some shard_deadlines(1) [OF ok(1)] by (auto simp: pick_result_def eligible_ttl)
  qed
  assume r: "r = Some k" and k': "k' \<in> skeys sh" "k' \<noteq> skip" "\<not> IsZero (shardExp sh k')"
  from r t obtain u where u: "deadlines (sttl sh) k = Some u"
    "\<And>k' t'. deadlines (sttl sh) k' = Some t' \<Longrightarrow> k' \<noteq> skip \<Longrightarrow> u \<le> t'" by auto
  from k' shard_deadlines(1) [OF ok(1), of k'] obtain t' where "deadlines (sttl sh) k' = Some t'" by auto
  with u k'(2) shard_deadlines(2) [OF ok(1)] show "shardExp sh k \<le> shardExp sh k'" by metis
qed

lemma lfuPick_result:
  assumes "lfu_inv l" "lfu_set l = ks"
  shows "pick_result ks pol skip ex (lfuPick skip (volatileOnly pol) ex l)"
  using lfuPick_sound [OF assms(1), of skip "volatileOnly pol" ex] assms(2)
  by (auto simp: pick_result_def pickable_eligible split: option.splits)

lemma rndPick_result:
  assumes "rnd_set a = ks" "rndPick skip (volatileOnly pol) ex a g = (r, g')"
  shows "pick_result ks pol skip ex r"
  using rndPick_spec [OF assms(2)] assms(1)
  by (auto simp: pick_result_def pickable_eligible split: option.splits)

text \<open>
  A local pick changes nothing but the shape of the shard's heap, returns an admissible key
  and fails only if there is none (or under \<^verbatim>\<open>noeviction\<close>).
\<close>

lemma pickLocalVictim_spec:
  assumes ok: "indexes_ok sh" "entries_ok n i sh" and p: "pickLocalVictim pol skip now sh g = (r, sh', g')"
  shows "sh' = sh\<lparr>sttl := sttl sh'\<rparr> \<and> heap_inv (sttl sh') \<and> deadlines (sttl sh') = deadlines (sttl sh) \<and>
    (if pol = PolicyNoEviction then r = None else pick_result (skeys sh) pol skip (shardExp sh) r)"
proof -
  have ds: "distinct (map fst (sdata sh))" using ok by (simp add: entries_ok_def)
  note w = local_walk [OF ok(1) ds]
  have hi: "heap_inv (sttl sh)" "set (dll_list (slru sh)) = skeys sh" "set (dll_list (sfifo sh)) = skeys sh"
    "rnd_set (srnd sh) = skeys sh" "lfu_inv (slfu sh)" "lfu_set (slfu sh) = skeys sh"
    using ok by (auto simp: indexes_ok_def dll_set_def)
  show ?thesis
  proof (cases "pol = PolicyVolatileTTL")
    case True
    then have "shardTtlPick skip now sh = (r, sh')"
      using p by (simp add: pickLocalVictim_def policy_names Let_def split: prod.splits)
    from shardTtlPick_spec [OF ok this] True show ?thesis by (auto simp: policy_names)
  next
    case False
    then have "sh' = sh"
      using p by (simp add: pickLocalVictim_def Let_def split: prod.splits if_splits)
    moreover have "pol \<noteq> PolicyNoEviction \<Longrightarrow> pick_result (skeys sh) pol skip (shardExp sh) r"
      using p False pick_result_find [OF hi(2)] pick_result_find [OF hi(3)] rndPick_result [OF hi(4)]
        lfuPick_result [OF hi(5,6)]
      by (simp add: pickLocalVictim_def Let_def w split: prod.splits if_splits) blast+
    moreover have "pol = PolicyNoEviction \<Longrightarrow> r = None" using p by (simp add: pickLocalVictim_def)
    ultimately show ?thesis using hi(1) by simp
  qed
qed


section \<open>Tenant-wide victims\<close>

text \<open>States that differ only in the internal shape of heaps and in consumed random draws.\<close>

definition same_store :: "DB \<Rightarrow> DB \<Rightarrow> bool" where
  "same_store d d' \<longleftrightarrow> cfg d' = cfg d \<and> used d' = used d \<and> gLru d' = gLru d \<and> gFifo d' = gFifo d \<and>
     sink d' = sink d \<and>
     length (shards d') = length (shards d) \<and>
     (\<forall>i < length (shards d). shards d' ! i = (shards d ! i)\<lparr>sttl := sttl (shards d' ! i)\<rparr>)"

lemma same_store_refl [simp]: "same_store d d"
  by (simp add: same_store_def)

lemma same_store_trans: "same_store d d' \<Longrightarrow> same_store d' d'' \<Longrightarrow> same_store d d''"
  unfolding same_store_def by (metis shard.surjective shard.update_convs(8))

lemma same_store_shard:
  assumes "same_store d d'" "i < length (shards d)"
  shows "sdata (shards d' ! i) = sdata (shards d ! i)" "sused (shards d' ! i) = sused (shards d ! i)"
    "budget (shards d' ! i) = budget (shards d ! i)"
proof -
  have "shards d' ! i = (shards d ! i)\<lparr>sttl := sttl (shards d' ! i)\<rparr>" using assms by (simp add: same_store_def)
  then obtain h where "shards d' ! i = (shards d ! i)\<lparr>sttl := h\<rparr>" by blast
  then show "sdata (shards d' ! i) = sdata (shards d ! i)" "sused (shards d' ! i) = sused (shards d ! i)"
    "budget (shards d' ! i) = budget (shards d ! i)" by simp_all
qed

lemma same_store_lookup:
  assumes "same_store d d'" "cfg_ok d"
  shows "lookup d' = lookup d"
proof
  fix k
  have "length (shards d') = length (shards d)" using assms by (simp add: same_store_def)
  then show "lookup d' k = lookup d k"
    using same_store_shard(1) [OF assms(1) shardIndex_less [OF assms(2)]]
    by (simp add: lookup_def theShard_def shardIndex_def)
qed

lemma db_ok_heap_shard:
  assumes ok: "db_ok d" and i: "i < length (shards d)"
    and sh: "sh' = (shards d ! i)\<lparr>sttl := sttl sh'\<rparr>" "heap_inv (sttl sh')"
      "deadlines (sttl sh') = deadlines (sttl (shards d ! i))"
  shows "db_ok (setShard i sh' d) \<and> same_store d (setShard i sh' d)"
proof -
  obtain h where h: "sh' = (shards d ! i)\<lparr>sttl := h\<rparr>" using sh(1) by blast
  have s: "same_store d (setShard i sh' d)"
    using h i by (simp add: same_store_def setShard_def nth_list_update)
  have c: "cfg_ok d" using ok by (simp add: db_ok_def)
  note lk = same_store_lookup [OF s c]
  have "shard_ok (length (shards d)) i (shards d ! i)" using ok i by (simp add: db_ok_def shards_ok_def)
  then have "shard_ok (length (shards d)) i sh'"
    using sh(2,3) h by (simp add: shard_ok_def indexes_ok_def entries_ok_def shardSum_def)
  moreover have "sused (shards d ! i) \<le> MaxMemory (cfg d)" using ok i by (simp add: db_ok_def fits_def)
  moreover have "globals_ok (setShard i sh' d)" "exp_ok (setShard i sh' d)"
    using ok lk unfolding db_ok_def globals_ok_def exp_ok_def keysOf_def by (simp_all add: setShard_def)
  ultimately have "db_ok (setShard i sh' d)"
    by (intro db_ok_update_shard [OF ok i, where sh' = sh']) (simp_all add: setShard_def h)
  with s show ?thesis by simp
qed

lemma shard_parts:
  assumes "db_ok d" "i < length (shards d)"
  shows "indexes_ok (shards d ! i)" "entries_ok (length (shards d)) i (shards d ! i)"
  using assms by (auto simp: db_ok_def shards_ok_def shard_ok_def)

lemma shardExp_dbExp:
  assumes "db_ok d" "i < length (shards d)" "k \<in> skeys (shards d ! i)"
  shows "shardExp (shards d ! i) k = dbExp d k"
proof -
  from assms(3) obtain e where "map_of (sdata (shards d ! i)) k = Some e" by (auto simp: skeys_iff)
  with lookup_shard [OF assms(1,2)] show ?thesis by (simp add: shardExp_def dbExp_def)
qed

lemma db_ok_rand: "db_ok d \<Longrightarrow> db_ok (d\<lparr>rand := g\<rparr>) \<and> same_store d (d\<lparr>rand := g\<rparr>)"
proof -
  assume ok: "db_ok d"
  have "lookup (d\<lparr>rand := g\<rparr>) = lookup d" by (rule lookup_cong) simp
  with ok show ?thesis
    by (simp add: db_ok_def cfg_ok_def shards_ok_def fits_def globals_ok_def exp_ok_def keysOf_def same_store_def)
qed

text \<open>What is found in some shard, or in none, is found in the store, or nowhere.\<close>

lemma pick_result_shards:
  assumes "db_ok d" "\<And>i. i < length (shards d) \<Longrightarrow> pick_result (skeys (shards d ! i)) pol skip (shardExp (shards d ! i)) None"
  shows "pick_result (keysOf d) pol skip (dbExp d) None"
  unfolding pick_result_def option.case
proof (intro ballI impI)
  fix k assume k: "k \<in> keysOf d" "k \<noteq> skip"
  then obtain i where i: "i < length (shards d)" "k \<in> skeys (shards d ! i)"
    using keysOf_nth [OF assms(1)] by blast
  with assms(2) [OF i(1)] k(2) have "\<not> eligible pol (shardExp (shards d ! i) k)" by (auto simp: pick_result_def)
  then show "\<not> eligible pol (dbExp d k)" using shardExp_dbExp [OF assms(1) i] by simp
qed

lemma pick_result_shard:
  assumes "db_ok d" "i < length (shards d)" "pick_result (skeys (shards d ! i)) pol skip (shardExp (shards d ! i)) (Some k)"
  shows "pick_result (keysOf d) pol skip (dbExp d) (Some k)"
proof -
  have "k \<in> skeys (shards d ! i)" using assms(3) by (simp add: pick_result_def)
  moreover from this have "k \<in> keysOf d" using keysOf_nth [OF assms(1)] assms(2) by blast
  ultimately show ?thesis using assms(3) shardExp_dbExp [OF assms(1,2), of k] by (simp add: pick_result_def)
qed

lemma randomScan_spec:
  assumes "randomScan skip (volatileOnly pol) shs g = (r, g')" "\<And>sh. sh \<in> set shs \<Longrightarrow> rnd_set (srnd sh) = skeys sh"
  shows "case r of
      None \<Rightarrow> (\<forall>sh \<in> set shs. pick_result (skeys sh) pol skip (shardExp sh) None)
    | Some k \<Rightarrow> (\<exists>sh \<in> set shs. pick_result (skeys sh) pol skip (shardExp sh) (Some k))"
  using assms
proof (induction shs arbitrary: g)
  case (Cons sh shs)
  obtain r1 g1 where p: "rndPick skip (volatileOnly pol) (shardExp sh) (srnd sh) g = (r1, g1)" by fastforce
  have "rnd_set (srnd sh) = skeys sh" using Cons.prems(2) by simp
  note pr = rndPick_result [OF this p]
  show ?case
  proof (cases r1)
    case None
    with p pr Cons.IH [of g1] Cons.prems show ?thesis by (auto split: option.splits)
  next
    case (Some k)
    with p pr Cons.prems show ?thesis by (auto split: option.splits)
  qed
qed auto

lemma pickGlobalRandom_spec:
  assumes ok: "db_ok d" and p: "pickGlobalRandom skip d = (r, d')"
  shows "db_ok d' \<and> same_store d d' \<and> pick_result (keysOf d) (Policy (cfg d)) skip (dbExp d) r"
proof -
  let ?n = "length (shards d)" and ?pol = "Policy (cfg d)"
  obtain start g1 where s: "Intn ?n (rand d) = (start, g1)" by fastforce
  let ?shs = "map (\<lambda>i. shards d ! ((start + i) mod ?n)) [0..<?n]"
  obtain g2 where g2: "randomScan skip (volatileOnly ?pol) ?shs g1 = (r, g2)" "d' = d\<lparr>rand := g2\<rparr>"
    using p s by (auto simp: pickGlobalRandom_def Let_def split: prod.splits)
  have n: "0 < ?n" using ok by (simp add: db_ok_def cfg_ok_def)
  have "set ?shs = (\<lambda>j. shards d ! j) ` ((\<lambda>i. (start + i) mod ?n) ` {0..<?n})" by (simp add: image_image)
  also have "\<dots> = set (shards d)" using scan_set [OF n, of start] by (auto simp: set_conv_nth)
  finally have st: "set ?shs = set (shards d)" .
  have "rnd_set (srnd sh) = skeys sh" if "sh \<in> set ?shs" for sh
  proof -
    from that obtain i where "i < ?n" "sh = shards d ! i" unfolding st in_set_conv_nth by blast
    with shard_parts(1) [OF ok] show ?thesis by (simp add: indexes_ok_def)
  qed
  note sc = randomScan_spec [OF g2(1) this, unfolded st]
  have "pick_result (keysOf d) ?pol skip (dbExp d) r"
  proof (cases r)
    case None
    with sc show ?thesis using pick_result_shards [OF ok, of ?pol skip] by (simp add: all_set_conv_all_nth)
  next
    case (Some k)
    with sc obtain i where "i < ?n" "pick_result (skeys (shards d ! i)) ?pol skip (shardExp (shards d ! i)) (Some k)"
      unfolding Some option.case bex_set_nth by blast
    with Some show ?thesis using pick_result_shard [OF ok] by simp
  qed
  then show ?thesis using db_ok_rand [OF ok] g2(2) by simp
qed


lemma lfuScan_spec:
  assumes "\<And>sh. sh \<in> set shs \<Longrightarrow> lfu_inv (slfu sh) \<and> lfu_set (slfu sh) = skeys sh"
  shows "case lfuScan skip (volatileOnly pol) shs best of
      None \<Rightarrow> best = None \<and> (\<forall>sh \<in> set shs. pick_result (skeys sh) pol skip (shardExp sh) None)
    | Some (k, f) \<Rightarrow>
        (best = Some (k, f) \<or> (\<exists>sh \<in> set shs. f = freqOf (slfu sh) k \<and>
           pick_result (skeys sh) pol skip (shardExp sh) (Some k))) \<and>
        (\<forall>sh \<in> set shs. \<forall>k' \<in> skeys sh. k' \<noteq> skip \<longrightarrow> eligible pol (shardExp sh k') \<longrightarrow> f \<le> freqOf (slfu sh) k') \<and>
        (\<forall>k' f'. best = Some (k', f') \<longrightarrow> f \<le> f')"
  using assms
proof (induction shs arbitrary: best)
  case Nil
  then show ?case by (auto split: option.splits)
next
  case (Cons sh shs)
  let ?p = "lfuPick skip (volatileOnly pol) (shardExp sh) (slfu sh)"
  have inv: "lfu_inv (slfu sh)" "lfu_set (slfu sh) = skeys sh" using Cons.prems [of sh] by simp_all
  note pr = lfuPick_result [OF inv, of pol skip "shardExp sh"]
  note so = lfuPick_sound [OF inv(1), of skip "volatileOnly pol" "shardExp sh", unfolded inv(2) pickable_eligible]
  have IH: "\<And>best. case lfuScan skip (volatileOnly pol) shs best of
      None \<Rightarrow> best = None \<and> (\<forall>sh \<in> set shs. pick_result (skeys sh) pol skip (shardExp sh) None)
    | Some (k, f) \<Rightarrow>
        (best = Some (k, f) \<or> (\<exists>sh \<in> set shs. f = freqOf (slfu sh) k \<and>
           pick_result (skeys sh) pol skip (shardExp sh) (Some k))) \<and>
        (\<forall>sh \<in> set shs. \<forall>k' \<in> skeys sh. k' \<noteq> skip \<longrightarrow> eligible pol (shardExp sh k') \<longrightarrow> f \<le> freqOf (slfu sh) k') \<and>
        (\<forall>k' f'. best = Some (k', f') \<longrightarrow> f \<le> f')"
    by (rule Cons.IH) (use Cons.prems in simp)
  show ?case
  proof (cases ?p)
    case None
    then have "lfuScan skip (volatileOnly pol) (sh # shs) best = lfuScan skip (volatileOnly pol) shs best" by simp
    with IH [of best] pr None show ?thesis
      by (cases "lfuScan skip (volatileOnly pol) shs best") (auto simp: pick_result_def)
  next
    case (Some e)
    define b where "b = (if lfuBetter best e (freqOf (slfu sh) e) then Some (e, freqOf (slfu sh) e) else best)"
    have b: "b \<noteq> None" "b = Some (e, freqOf (slfu sh) e) \<or> b = best"
      "\<And>k f. b = Some (k, f) \<Longrightarrow> f \<le> freqOf (slfu sh) e \<and> (\<forall>k' f'. best = Some (k', f') \<longrightarrow> f \<le> f')"
      by (auto simp: b_def lfuBetter_def split: option.splits if_splits)
    have "lfuScan skip (volatileOnly pol) (sh # shs) best = lfuScan skip (volatileOnly pol) shs b"
      using Some by (simp add: b_def)
    moreover from IH [of b] b(1) obtain k f where kf: "lfuScan skip (volatileOnly pol) shs b = Some (k, f)"
      by (cases "lfuScan skip (volatileOnly pol) shs b") auto
    moreover obtain bk bf where bb: "b = Some (bk, bf)" using b(1) by (cases b) auto
    moreover have min: "\<forall>k' \<in> skeys sh. k' \<noteq> skip \<longrightarrow> eligible pol (shardExp sh k') \<longrightarrow> freqOf (slfu sh) e \<le> freqOf (slfu sh) k'"
      using so Some by simp
    ultimately show ?thesis
      using IH [of b] b(2) b(3) [OF bb] pr Some by (fastforce intro: order_trans)
  qed
qed

lemma pickGlobalLFU_spec:
  assumes ok: "db_ok d"
  shows "pick_result (keysOf d) (Policy (cfg d)) skip (dbExp d) (pickGlobalLFU skip d)"
    "pickGlobalLFU skip d = Some k \<Longrightarrow> k' \<in> keysOf d \<Longrightarrow> k' \<noteq> skip \<Longrightarrow> eligible (Policy (cfg d)) (dbExp d k') \<Longrightarrow>
       freqOf (slfu (theShard k d)) k \<le> freqOf (slfu (theShard k' d)) k'"
proof -
  let ?pol = "Policy (cfg d)"
  let ?r = "lfuScan skip (volatileOnly ?pol) (shards d) None"
  have inv: "lfu_inv (slfu sh) \<and> lfu_set (slfu sh) = skeys sh" if "sh \<in> set (shards d)" for sh
  proof -
    from that obtain i where "i < length (shards d)" "sh = shards d ! i" unfolding in_set_conv_nth by blast
    with shard_parts(1) [OF ok] show ?thesis by (simp add: indexes_ok_def)
  qed
  note sc = lfuScan_spec [OF inv, where skip = skip and pol = ?pol and best = None and shs = "shards d"]
  have r: "?r = Some (x, f) \<Longrightarrow> \<exists>i < length (shards d). f = freqOf (slfu (shards d ! i)) x \<and>
      pick_result (skeys (shards d ! i)) ?pol skip (shardExp (shards d ! i)) (Some x)" for x f
    using sc unfolding bex_set_nth by simp
  show "pick_result (keysOf d) ?pol skip (dbExp d) (pickGlobalLFU skip d)"
  proof (cases ?r)
    case None
    with sc show ?thesis
      using pick_result_shards [OF ok, of ?pol skip] by (simp add: pickGlobalLFU_def all_set_conv_all_nth)
  next
    case (Some p)
    obtain x f where p: "p = (x, f)" by fastforce
    from r [of x f] Some p obtain i where "i < length (shards d)"
      "pick_result (skeys (shards d ! i)) ?pol skip (shardExp (shards d ! i)) (Some x)" by blast
    with Some p show ?thesis using pick_result_shard [OF ok] by (simp add: pickGlobalLFU_def)
  qed
  assume k: "pickGlobalLFU skip d = Some k" and k': "k' \<in> keysOf d" "k' \<noteq> skip" "eligible ?pol (dbExp d k')"
  then obtain f where f: "?r = Some (k, f)" by (auto simp: pickGlobalLFU_def)
  from r [OF f] obtain i where i: "i < length (shards d)" "f = freqOf (slfu (shards d ! i)) k" "k \<in> skeys (shards d ! i)"
    by (auto simp: pick_result_def)
  from k'(1) obtain j where j: "j < length (shards d)" "k' \<in> skeys (shards d ! j)" using keysOf_nth [OF ok] by blast
  have "shardIndex k d = i" "shardIndex k' d = j"
    using i j lookup_shard [OF ok] unfolding skeys_iff by blast+
  moreover have "\<forall>sh \<in> set (shards d). \<forall>k' \<in> skeys sh. k' \<noteq> skip \<longrightarrow> eligible ?pol (shardExp sh k') \<longrightarrow>
      f \<le> freqOf (slfu sh) k'" using sc unfolding f option.case prod.case by blast
  then have "f \<le> freqOf (slfu (shards d ! j)) k'"
    using nth_mem [OF j(1)] j(2) k'(2,3) shardExp_dbExp [OF ok j] by (metis (no_types))
  ultimately show "freqOf (slfu (theShard k d)) k \<le> freqOf (slfu (theShard k' d)) k'"
    using i(2) by (simp add: theShard_def)
qed


text \<open>The deadline heap of the DB: an admissible key is found when there is one.\<close>

lemma pick_result_cong:
  "pick_result ks pol skip ex r \<Longrightarrow> (\<And>k. k \<in> ks \<Longrightarrow> ex k = ex' k) \<Longrightarrow> pick_result ks pol skip ex' r"
  by (auto simp: pick_result_def split: option.splits)

lemma dbExp_cong: "lookup d' = lookup d \<Longrightarrow> dbExp d' = dbExp d"
  by (simp add: dbExp_def fun_eq_iff)

lemma ttlScan_spec:
  assumes "db_ok d" "ttlScan skip now is d = (r, d')" "\<And>i. i \<in> set is \<Longrightarrow> i < length (shards d)"
  shows "db_ok d' \<and> same_store d d' \<and>
    (case r of
       None \<Rightarrow> (\<forall>i \<in> set is. pick_result (skeys (shards d ! i)) PolicyVolatileTTL skip (shardExp (shards d ! i)) None)
     | Some k \<Rightarrow> pick_result (keysOf d) PolicyVolatileTTL skip (dbExp d) (Some k))"
  using assms
proof (induction "is" arbitrary: d)
  case (Cons i "is")
  obtain r1 sh where p: "shardTtlPick skip now (shards d ! i) = (r1, sh)" by fastforce
  have i: "i < length (shards d)" using Cons.prems(3) by simp
  note t = shardTtlPick_spec [OF shard_parts [OF Cons.prems(1) i] p]
  have s: "db_ok (setShard i sh d)" "same_store d (setShard i sh d)"
    using db_ok_heap_shard [OF Cons.prems(1) i t(2,3,4)] by simp_all
  show ?case
  proof (cases r1)
    case (Some k)
    then have "r = Some k" "d' = setShard i sh d" using p Cons.prems(2) by simp_all
    with s t(1) Some pick_result_shard [OF Cons.prems(1) i] show ?thesis by simp
  next
    case None
    then have sc: "ttlScan skip now is (setShard i sh d) = (r, d')" using p Cons.prems(2) by simp
    have len: "\<And>j. j \<in> set is \<Longrightarrow> j < length (shards (setShard i sh d))"
      using Cons.prems(3) by (simp add: setShard_def)
    note IH = Cons.IH [OF s(1) sc len]
    have lk: "lookup (setShard i sh d) = lookup d"
      using same_store_lookup [OF s(2)] Cons.prems(1) by (simp add: db_ok_def)
    have "sdata (shards (setShard i sh d) ! j) = sdata (shards d ! j)" if "j < length (shards d)" for j
      using same_store_shard(1) [OF s(2) that] .
    then have "skeys (shards (setShard i sh d) ! j) = skeys (shards d ! j) \<and>
        shardExp (shards (setShard i sh d) ! j) = shardExp (shards d ! j)" if "j < length (shards d)" for j
      using that by (simp add: shardExp_def fun_eq_iff)
    with IH t(1) None Cons.prems(3) same_store_trans [OF s(2)] show ?thesis
      by (simp add: keysOf_def lk dbExp_cong [OF lk] split: option.splits)
  qed
qed simp

text \<open>Every item other than those of live keys with their deadline costs one round.\<close>

lemma dead_items_clear:
  assumes "heap_inv h" "hitems h = item # rest"
  shows "length (hitems (clearExpiry (ikey item) h)) = length rest"
  using heap_root(3) [OF assms] length_heapRemoveAt [of 0 h] assms(2) by simp

lemma pickGlobalTTL_spec:
  assumes "db_ok d" "pickGlobalTTL n skip now d = (r, d')" "length (hitems (expH d)) < n"
  shows "db_ok d' \<and> same_store d d' \<and> pick_result (keysOf d) PolicyVolatileTTL skip (dbExp d) r"
  using assms
proof (induction n arbitrary: d)
  case (Suc n)
  have hi: "heap_inv (expH d)" and dl: "\<And>k e. lookup d k = Some e \<Longrightarrow> deadlines (expH d) k = deadline e"
    and c: "cfg_ok d" using Suc.prems(1) by (auto simp: db_ok_def exp_ok_def)
  have live: "k \<in> keysOf d \<Longrightarrow> \<not> IsZero (dbExp d k) \<Longrightarrow> deadlines (expH d) k = Some (dbExp d k)" for k
    using dl by (auto simp: keysOf_def dbExp_def deadline_def)
  show ?case
  proof (cases "hitems (expH d)")
    case Nil
    then have "deadlines (expH d) = Map.empty" using heap_nil [OF hi] by simp
    with live have "\<And>k. k \<in> keysOf d \<Longrightarrow> IsZero (dbExp d k)" by (metis option.distinct(1))
    with Nil Suc.prems show ?thesis by (simp add: pick_result_def eligible_ttl)
  next
    case (Cons item rest)
    note root = heap_root [OF hi Cons]
    show ?thesis
    proof (cases "ikey item = skip")
      case True
      let ?si = "shardIndex skip d"
      obtain r1 sh where p: "shardTtlPick skip now (shards d ! ?si) = (r1, sh)" by fastforce
      have si: "?si < length (shards d)" by (rule shardIndex_less [OF c])
      note t = shardTtlPick_spec [OF shard_parts [OF Suc.prems(1) si] p]
      have s: "db_ok (setShard ?si sh d)" "same_store d (setShard ?si sh d)"
        using db_ok_heap_shard [OF Suc.prems(1) si t(2,3,4)] by simp_all
      have lk: "lookup (setShard ?si sh d) = lookup d" by (rule same_store_lookup [OF s(2) c])
      show ?thesis
      proof (cases r1)
        case (Some k)
        then have "r = Some k" "d' = setShard ?si sh d" using p Suc.prems(2) Cons True by simp_all
        with s t(1) Some pick_result_shard [OF Suc.prems(1) si] show ?thesis by simp
      next
        case None
        let ?d = "setShard ?si sh d"
        have sc: "ttlScan skip now [0..<length (shards ?d)] ?d = (r, d')"
          using p Suc.prems(2) Cons True None by (simp add: Let_def)
        have "db_ok d' \<and> same_store ?d d' \<and>
          (case r of
             None \<Rightarrow> (\<forall>i \<in> set [0..<length (shards ?d)].
                pick_result (skeys (shards ?d ! i)) PolicyVolatileTTL skip (shardExp (shards ?d ! i)) None)
           | Some k \<Rightarrow> pick_result (keysOf ?d) PolicyVolatileTTL skip (dbExp ?d) (Some k))"
          by (rule ttlScan_spec [OF s(1) sc]) simp
        moreover have "r = None \<Longrightarrow> pick_result (keysOf ?d) PolicyVolatileTTL skip (dbExp ?d) None"
          by (rule pick_result_shards [OF s(1)]) (use calculation in auto)
        ultimately have "db_ok d'" "same_store ?d d'" "pick_result (keysOf ?d) PolicyVolatileTTL skip (dbExp ?d) r"
          by (cases r; auto)+
        then show ?thesis using same_store_trans [OF s(2)] by (simp add: keysOf_def lk dbExp_cong [OF lk])
      qed
    next
      case False
      show ?thesis
      proof (cases "lookup d (ikey item)")
        case None
        let ?d = "clearDB (ikey item) d"
        have "pickGlobalTTL n skip now ?d = (r, d')" using Suc.prems(2) Cons False None by simp
        moreover have "length (hitems (expH ?d)) < n"
          using dead_items_clear [OF hi Cons] Suc.prems(3) Cons by (simp add: clearDB_def)
        ultimately have IH: "db_ok d' \<and> same_store ?d d' \<and> pick_result (keysOf ?d) PolicyVolatileTTL skip (dbExp ?d) r"
          by (intro Suc.IH clearDB_ok Suc.prems(1) None)
        moreover have "same_store d ?d" by (simp add: same_store_def)
        ultimately show ?thesis using same_store_trans dbExp_cong [of ?d d] by auto
      next
        case (Some e)
        have "deadlines (expH d) (ikey item) = deadline e" by (rule dl [OF Some])
        then have at: "expiresAt e = iat item" "\<not> IsZero (expiresAt e)"
          using root(1) by (auto simp: deadline_def split: if_splits)
        then have "r = Some (ekey e)" "d' = d" using Suc.prems(2) Cons False Some by simp_all
        moreover have "ekey e = ikey item" using lookup_entry [OF Suc.prems(1) Some] by simp
        ultimately show ?thesis
          using Suc.prems(1) False Some at by (auto simp: pick_result_def keysOf_def dbExp_def eligible_ttl)
      qed
    qed
  qed
qed simp


lemma card_keys_le: "db_ok d \<Longrightarrow> card (keysOf d) \<le> totalKeys d"
proof -
  have "card (\<Union>sh \<in> set shs. skeys sh) \<le> sum_list (map (\<lambda>sh. length (sdata sh)) shs)" for shs
  proof (induction shs)
    case (Cons sh shs)
    have "card (\<Union>sh \<in> set (sh # shs). skeys sh) \<le> card (skeys sh) + card (\<Union>sh \<in> set shs. skeys sh)"
      by (simp add: card_Un_le)
    also have "card (skeys sh) \<le> length (sdata sh)" by (metis card_length length_map list.set_map)
    finally show ?case using Cons by simp
  qed simp
  then show "db_ok d \<Longrightarrow> card (keysOf d) \<le> totalKeys d" by (simp add: keysOf_shards totalKeys_def)
qed

lemma global_walk:
  assumes ok: "db_ok d" and st: "Strategy (cfg d) = StrategyGlobalTrack"
  shows "dll_walk (totalKeys d) (dnext (gLru d)) (dhead (gLru d)) = dll_list (gLru d)"
    "dll_walk (totalKeys d) (dnext (gFifo d)) (dhead (gFifo d)) = dll_list (gFifo d)"
    "set (dll_list (gLru d)) = keysOf d" "set (dll_list (gFifo d)) = keysOf d"
proof -
  have g: "dll_inv (gLru d)" "dll_set (gLru d) = keysOf d" "dll_inv (gFifo d)" "dll_set (gFifo d) = keysOf d"
    using ok st by (auto simp: db_ok_def globals_ok_def)
  have "length (dll_list x) \<le> totalKeys d" if "dll_inv x" "dll_set x = keysOf d" for x
    using card_keys_le [OF ok] ol.distinct_order [OF that(1)] that(2) by (metis dll_set_def distinct_card)
  with g show "dll_walk (totalKeys d) (dnext (gLru d)) (dhead (gLru d)) = dll_list (gLru d)"
    "dll_walk (totalKeys d) (dnext (gFifo d)) (dhead (gFifo d)) = dll_list (gFifo d)"
    "set (dll_list (gLru d)) = keysOf d" "set (dll_list (gFifo d)) = keysOf d"
    by (simp_all add: dll_walk_enough dll_set_def)
qed

lemma pickGlobalVictimKey_spec:
  assumes ok: "db_ok d" and st: "Strategy (cfg d) = StrategyGlobalTrack"
    and p: "pickGlobalVictimKey skip now d = (r, d')"
  shows "db_ok d' \<and> same_store d d' \<and>
    (if Policy (cfg d) = PolicyNoEviction then r = None else pick_result (keysOf d) (Policy (cfg d)) skip (dbExp d) r)"
proof -
  let ?pol = "Policy (cfg d)"
  note w = global_walk [OF ok st]
  have f: "pick_result (keysOf d) ?pol skip (dbExp d)
      (find (\<lambda>e. e \<noteq> skip \<and> eligible ?pol (dbExp d e)) (dll_list x))" if "set (dll_list x) = keysOf d" for x
    by (rule pick_result_find [OF that])
  consider (no) "?pol = PolicyNoEviction"
    | (lru) "?pol \<in> {PolicyAllKeysLRU, PolicyVolatileLRU}" "?pol \<noteq> PolicyNoEviction"
    | (fifo) "?pol \<in> {PolicyAllKeysFIFO, PolicyVolatileFIFO}" "?pol \<noteq> PolicyNoEviction"
    | (lfu) "?pol \<in> {PolicyAllKeysLFU, PolicyVolatileLFU}" "?pol \<noteq> PolicyNoEviction"
    | (ttl) "?pol = PolicyVolatileTTL" "?pol \<noteq> PolicyNoEviction"
    | (random) "?pol \<notin> {PolicyNoEviction, PolicyAllKeysLRU, PolicyVolatileLRU, PolicyAllKeysFIFO, PolicyVolatileFIFO,
        PolicyAllKeysLFU, PolicyVolatileLFU, PolicyVolatileTTL}"
    by blast
  then show ?thesis
  proof cases
    case no
    with p ok show ?thesis by (simp add: pickGlobalVictimKey_def)
  next
    case lru
    with p ok f [OF w(3)] show ?thesis by (auto simp: pickGlobalVictimKey_def Let_def w)
  next
    case fifo
    then have "pickGlobalVictimKey skip now d = (find (\<lambda>e. e \<noteq> skip \<and> eligible ?pol (dbExp d e)) (dll_list (gFifo d)), d)"
      by (auto simp: pickGlobalVictimKey_def Let_def w policy_names)
    with fifo p ok f [OF w(4)] show ?thesis by auto
  next
    case lfu
    then have "pickGlobalVictimKey skip now d = (pickGlobalLFU skip d, d)"
      by (auto simp: pickGlobalVictimKey_def Let_def policy_names)
    with lfu p ok pickGlobalLFU_spec(1) [OF ok, of skip] show ?thesis by auto
  next
    case ttl
    then have "pickGlobalTTL (Suc (length (hitems (expH d)))) skip now d = (r, d')"
      using p by (auto simp: pickGlobalVictimKey_def Let_def policy_names)
    from pickGlobalTTL_spec [OF ok this] ttl show ?thesis by simp
  next
    case random
    then have "pickGlobalRandom skip d = (r, d')"
      using p by (auto simp: pickGlobalVictimKey_def Let_def split: if_splits)
    from pickGlobalRandom_spec [OF ok this] random show ?thesis by simp
  qed
qed

section \<open>Evicting one key\<close>

text \<open>
  \<open>evict_step ks skip d b d'\<close>: one eviction attempt on candidates \<open>ks\<close>. On success exactly one
  admissible key other than \<open>skip\<close> has left the store; failure means that there was no
  admissible candidate and changes nothing visible.
\<close>

definition evict_step :: "string set \<Rightarrow> string \<Rightarrow> DB \<Rightarrow> bool \<Rightarrow> DB \<Rightarrow> bool" where
  "evict_step ks skip d b d' \<longleftrightarrow> db_ok d' \<and> cfg d' = cfg d \<and> sink d' = sink d \<and>
     map budget (shards d') = map budget (shards d) \<and>
     (if b then \<exists>k e. lookup d k = Some e \<and> k \<in> ks \<and> k \<noteq> skip \<and> eligible (Policy (cfg d)) (expiresAt e) \<and>
                  lookup d' = (lookup d)(k := None) \<and> used d' + esize e = used d
      else lookup d' = lookup d \<and> used d' = used d \<and> map sused (shards d') = map sused (shards d) \<and>
           (Policy (cfg d) = PolicyNoEviction \<or> (\<forall>k \<in> ks. k \<noteq> skip \<longrightarrow> \<not> eligible (Policy (cfg d)) (dbExp d k))))"

lemma same_store_maps:
  assumes "same_store d d'"
  shows "map budget (shards d') = map budget (shards d)" "map sused (shards d') = map sused (shards d)"
  using same_store_shard [OF assms] assms by (auto intro!: nth_equalityI simp: same_store_def)

lemma clearDB_evictions: "(clearDB k d)\<lparr>evictions := n\<rparr> = clearDB k (d\<lparr>evictions := n\<rparr>)"
  by (simp add: clearDB_def)

lemma clearDB_evictions_field [simp]: "evictions (clearDB k d) = evictions d"
  by (simp add: clearDB_def)

lemma db_ok_evictions: "db_ok d \<Longrightarrow> db_ok (d\<lparr>evictions := n\<rparr>)" "lookup (d\<lparr>evictions := n\<rparr>) = lookup d"
proof -
  show lk: "lookup (d\<lparr>evictions := n\<rparr>) = lookup d" by (rule lookup_cong) simp
  then show "db_ok d \<Longrightarrow> db_ok (d\<lparr>evictions := n\<rparr>)"
    by (simp add: db_ok_def cfg_ok_def shards_ok_def fits_def globals_ok_def exp_ok_def keysOf_def)
qed

lemma evict_step_drop:
  assumes ok: "db_ok d1" and s: "same_store d d1" "cfg_ok d" and e: "lookup d1 k = Some e" and si: "si = shardIndex k d1"
    and adm: "k \<in> ks" "k \<noteq> skip" "eligible (Policy (cfg d)) (dbExp d k)"
    and d': "d' = clearDB k ((removeFromShard si e False d1)\<lparr>evictions := n\<rparr>)"
  shows "evict_step ks skip d True d'"
proof -
  note lk = same_store_lookup [OF s]
  note r = removeFromShard_spec [OF ok e si]
  let ?d2 = "(removeFromShard si e False d1)\<lparr>evictions := n\<rparr>"
  have l2: "lookup ?d2 = (lookup d1)(k := None)" using r(2) by (simp add: db_ok_evictions)
  have "db_ok d'" unfolding d' by (rule clearDB_ok [OF db_ok_evictions(1) [OF r(1)]]) (simp add: l2)
  moreover have "dbExp d k = expiresAt e" using e lk by (simp add: dbExp_def)
  ultimately show ?thesis
    using s(1) r(3,6) l2 lk e adm same_store_maps [OF s(1)]
    by (auto simp: evict_step_def d' same_store_def)
qed

lemma evictOneGlobal_spec:
  assumes ok: "db_ok d" and st: "Strategy (cfg d) = StrategyGlobalTrack" and p: "evictOneGlobal skip now d = (b, d')"
  shows "evict_step (keysOf d) skip d b d'"
proof -
  obtain r d1 where v: "pickGlobalVictimKey skip now d = (r, d1)" by fastforce
  note vs = pickGlobalVictimKey_spec [OF ok st v]
  have c: "cfg_ok d" using ok by (simp add: db_ok_def)
  have s: "same_store d d1" using vs by simp
  note lk = same_store_lookup [OF s c]
  show ?thesis
  proof (cases r)
    case None
    then have "b = False" "d' = d1" using p v by (simp_all add: evictOneGlobal_def)
    with vs lk same_store_maps [OF s] None show ?thesis
      by (auto simp: evict_step_def pick_result_def same_store_def)
  next
    case (Some k)
    with vs have k: "k \<in> keysOf d" "k \<noteq> skip" "eligible (Policy (cfg d)) (dbExp d k)"
      by (auto simp: pick_result_def split: if_splits)
    then obtain e where e: "lookup d1 k = Some e" using lk by (auto simp: keysOf_def)
    have "b = True" "d' = clearDB k ((removeFromShard (shardIndex k d1) e False d1)\<lparr>evictions :=
        add64 (evictions (removeFromShard (shardIndex k d1) e False d1)) 1\<rparr>)"
      using p v Some e by (simp_all add: evictOneGlobal_def Let_def clearDB_evictions)
    then show ?thesis using evict_step_drop [OF _ s c e refl k] vs by simp
  qed
qed

lemma evictOneLocal_spec:
  assumes ok: "db_ok d" and si: "si < length (shards d)" and p: "evictOneLocal si skip now d = (b, d')"
  shows "evict_step (skeys (shards d ! si)) skip d b d'"
proof -
  obtain r sh g where v: "pickLocalVictim (Policy (cfg d)) skip now (shards d ! si) (rand d) = (r, sh, g)"
    by (metis prod_cases3)
  note vs = pickLocalVictim_spec [OF shard_parts [OF ok si] v]
  let ?d1 = "(setShard si sh d)\<lparr>rand := g\<rparr>"
  have "db_ok (setShard si sh d) \<and> same_store d (setShard si sh d)"
    by (rule db_ok_heap_shard [OF ok si]) (use vs in auto)
  with db_ok_rand [of "setShard si sh d" g] have ok1: "db_ok ?d1" and s: "same_store d ?d1"
    using same_store_trans by auto
  have c: "cfg_ok d" using ok by (simp add: db_ok_def)
  note lk = same_store_lookup [OF s c]
  have sd: "sdata sh = sdata (shards d ! si)" using vs by (metis shard.select_convs(1) shard.surjective shard.update_convs(8))
  show ?thesis
  proof (cases r)
    case None
    then have "b = False" "d' = ?d1" using p v by (simp_all add: evictOneLocal_def)
    moreover have "\<forall>k \<in> skeys (shards d ! si). k \<noteq> skip \<longrightarrow> \<not> eligible (Policy (cfg d)) (dbExp d k)"
      if "Policy (cfg d) \<noteq> PolicyNoEviction"
    proof (intro ballI impI)
      fix k assume k: "k \<in> skeys (shards d ! si)" "k \<noteq> skip"
      with vs None that have "\<not> eligible (Policy (cfg d)) (shardExp (shards d ! si) k)" by (auto simp: pick_result_def)
      then show "\<not> eligible (Policy (cfg d)) (dbExp d k)" using shardExp_dbExp [OF ok si k(1)] by simp
    qed
    ultimately show ?thesis
      using ok1 s lk same_store_maps [OF s] by (simp only: evict_step_def same_store_def if_False) blast
  next
    case (Some k)
    with vs have "pick_result (skeys (shards d ! si)) (Policy (cfg d)) skip (shardExp (shards d ! si)) (Some k)"
      by (auto split: if_splits)
    then have k: "k \<in> skeys (shards d ! si)" "k \<noteq> skip" "eligible (Policy (cfg d)) (dbExp d k)"
      unfolding pick_result_def option.case using shardExp_dbExp [OF ok si, of k] by simp_all
    then obtain e where e: "map_of (sdata (shards d ! si)) k = Some e" unfolding skeys_iff by auto
    from lookup_shard [OF ok si e] lk have e1: "lookup ?d1 k = Some e" "si = shardIndex k ?d1"
      using s by (simp_all add: shardIndex_def same_store_def)
    have "b = True" "d' = clearDB k ((removeFromShard si e False ?d1)\<lparr>evictions :=
        add64 (evictions (removeFromShard si e False ?d1)) 1\<rparr>)"
      using p v Some e sd by (simp_all add: evictOneLocal_def Let_def)
    then show ?thesis using evict_step_drop [OF ok1 s c e1 k] by simp
  qed
qed


section \<open>Sequences of evictions\<close>

text \<open>\<open>freed skip d d'\<close>: some admissible keys other than \<open>skip\<close> have left, nothing else changed.\<close>

definition freed :: "string \<Rightarrow> DB \<Rightarrow> DB \<Rightarrow> bool" where
  "freed skip d d' \<longleftrightarrow> db_ok d' \<and> cfg d' = cfg d \<and> sink d' = sink d \<and>
     map budget (shards d') = map budget (shards d) \<and> lookup d' \<subseteq>\<^sub>m lookup d \<and> lookup d' skip = lookup d skip \<and>
     used d' \<le> used d \<and>
     (\<forall>k e. lookup d k = Some e \<longrightarrow> lookup d' k = None \<longrightarrow> eligible (Policy (cfg d)) (expiresAt e))"

lemma freed_refl: "db_ok d \<Longrightarrow> freed skip d d"
  by (simp add: freed_def)

lemma freed_trans:
  assumes "freed skip d d1" "freed skip d1 d2"
  shows "freed skip d d2"
proof -
  have "eligible (Policy (cfg d)) (expiresAt e)" if "lookup d k = Some e" "lookup d2 k = None" for k e
  proof (cases "lookup d1 k")
    case None
    with assms(1) that show ?thesis by (auto simp: freed_def)
  next
    case (Some e')
    with assms(1) that(1) have "e' = e" by (force simp: freed_def map_le_def dom_def)
    with assms Some that(2) show ?thesis by (auto simp: freed_def)
  qed
  moreover have "lookup d2 \<subseteq>\<^sub>m lookup d" using assms by (auto simp: freed_def intro: map_le_trans)
  ultimately show ?thesis using assms by (simp add: freed_def)
qed

lemma evict_step_freed: "evict_step ks skip d b d' \<Longrightarrow> freed skip d d'"
  by (auto simp: evict_step_def freed_def map_le_def split: if_splits)

lemma freed_length: "freed skip d d' \<Longrightarrow> length (shards d') = length (shards d)"
  unfolding freed_def by (metis length_map)

lemma evict_step_card:
  assumes "db_ok d" "evict_step ks skip d True d'"
  shows "card (keysOf d') < card (keysOf d)"
proof -
  from assms(2) obtain k e where "lookup d k = Some e" "lookup d' = (lookup d)(k := None)"
    by (auto simp: evict_step_def)
  then have "keysOf d' = keysOf d - {k}" "k \<in> keysOf d" by (auto simp: keysOf_def)
  then show ?thesis using finite_keysOf [OF assms(1)] by (metis card_Diff1_less)
qed

lemma skeys_lookup:
  assumes "db_ok d" "i < length (shards d)"
  shows "skeys (shards d ! i) = {k \<in> keysOf d. keyShard (length (shards d)) k = i}"
proof (intro equalityI subsetI)
  fix k assume "k \<in> skeys (shards d ! i)"
  then obtain e where "map_of (sdata (shards d ! i)) k = Some e" unfolding skeys_iff by auto
  from lookup_shard [OF assms this] show "k \<in> {k \<in> keysOf d. keyShard (length (shards d)) k = i}"
    by (simp add: keysOf_def shardIndex_def domIff)
next
  fix k assume "k \<in> {k \<in> keysOf d. keyShard (length (shards d)) k = i}"
  then show "k \<in> skeys (shards d ! i)"
    unfolding skeys_iff by (auto simp: keysOf_def lookup_def theShard_def shardIndex_def)
qed

lemma skeys_same:
  assumes "db_ok d" "db_ok d'" "lookup d' = lookup d" "length (shards d') = length (shards d)" "i < length (shards d)"
  shows "skeys (shards d' ! i) = skeys (shards d ! i)"
  using assms skeys_lookup [of d i] skeys_lookup [of d' i] by (simp add: keysOf_def)

text \<open>A failed attempt followed by another one.\<close>

lemma evict_step_seq:
  assumes "evict_step ks1 skip d False d1" "evict_step ks2 skip d1 b d2"
  shows "evict_step (ks1 \<union> ks2) skip d b d2"
proof -
  have "lookup d1 = lookup d" using assms(1) by (simp add: evict_step_def)
  then have "dbExp d1 = dbExp d" by (rule dbExp_cong)
  with assms show ?thesis by (cases b) (auto simp: evict_step_def)
qed

lemma evict_step_mono: "evict_step ks skip d b d' \<Longrightarrow> ks \<subseteq> ks' \<Longrightarrow> (\<not> b \<Longrightarrow> ks' = ks) \<Longrightarrow> evict_step ks' skip d b d'"
  by (cases b) (auto simp: evict_step_def)

lemma stealScan_spec:
  assumes "db_ok d" "stealScan is hold skip clock d = (b, d')"
  shows "evict_step (\<Union>i \<in> (\<lambda>i. (hold + 1 + i) mod length (shards d)) ` set is - {hold}. skeys (shards d ! i)) skip d b d'"
  using assms
proof (induction "is" arbitrary: d)
  case Nil
  then show ?case by (simp add: evict_step_def)
next
  case (Cons i "is")
  let ?n = "length (shards d)"
  let ?si = "(hold + 1 + i) mod ?n"
  let ?K = "\<lambda>d is. \<Union>i \<in> (\<lambda>i. (hold + 1 + i) mod length (shards d)) ` set is - {hold}. skeys (shards d ! i)"
  have n: "0 < ?n" using Cons.prems(1) by (simp add: db_ok_def cfg_ok_def)
  show ?case
  proof (cases "?si = hold")
    case True
    then have "stealScan is hold skip clock d = (b, d')" using Cons.prems(2) by simp
    moreover have "?K d (i # is) = ?K d is" using True by auto
    ultimately show ?thesis using Cons.IH [OF Cons.prems(1)] by simp
  next
    case False
    obtain b1 d1 where p: "evictOneLocal ?si skip (clock i) d = (b1, d1)" by fastforce
    have si: "?si < ?n" using n by simp
    note e = evictOneLocal_spec [OF Cons.prems(1) si p]
    have K: "?K d (i # is) = skeys (shards d ! ?si) \<union> ?K d is" using False by auto
    show ?thesis
    proof (cases b1)
      case True
      then have bd: "b = True" "d' = d1" using Cons.prems(2) False p by simp_all
      have "evict_step (skeys (shards d ! ?si)) skip d True d1" using e True by simp
      then show ?thesis unfolding K bd by (rule evict_step_mono [OF _ Un_upper1]) simp
    next
      case b1: False
      then have sc: "stealScan is hold skip clock d1 = (b, d')" using Cons.prems(2) False p by simp
      from e b1 have f: "db_ok d1" "lookup d1 = lookup d" by (simp_all add: evict_step_def)
      have len: "length (shards d1) = ?n" by (rule freed_length [OF evict_step_freed [OF e]])
      have "(hold + 1 + j) mod ?n < ?n" for j using n by simp
      then have "?K d1 is = ?K d is"
        unfolding len by (intro SUP_cong refl skeys_same [OF Cons.prems(1) f len]) auto
      have "evict_step (skeys (shards d ! ?si)) skip d False d1" using e b1 by simp
      from evict_step_seq [OF this Cons.IH [OF f(1) sc]] show ?thesis unfolding K \<open>?K d1 is = ?K d is\<close> .
    qed
  qed
qed

lemma steal_covers:
  assumes "db_ok d" "hold < length (shards d)"
  shows "skeys (shards d ! hold) \<union>
    (\<Union>i \<in> (\<lambda>i. (hold + 1 + i) mod length (shards d)) ` set [0..<length (shards d)] - {hold}. skeys (shards d ! i)) = keysOf d"
proof -
  let ?n = "length (shards d)"
  have "0 < ?n" using assms(2) by linarith
  then have "(\<lambda>i. (hold + 1 + i) mod ?n) ` set [0..<?n] = {0..<?n}"
    unfolding atLeast_upt [symmetric] atLeast0LessThan [symmetric] by (rule scan_set)
  then have "(\<Union>i \<in> (\<lambda>i. (hold + 1 + i) mod ?n) ` set [0..<?n] - {hold}. skeys (shards d ! i)) =
      (\<Union>i \<in> {0..<?n} - {hold}. skeys (shards d ! i))" by simp
  moreover have "A hold \<union> (\<Union>i \<in> {0..<?n} - {hold}. A i) = {k. \<exists>i < ?n. k \<in> A i}" for A :: "nat \<Rightarrow> string set"
    using assms(2) by auto
  moreover have "keysOf d = {k. \<exists>i < ?n. k \<in> skeys (shards d ! i)}"
    using keysOf_nth [OF assms(1)] by (simp only: set_eq_iff mem_Collect_eq) blast
  ultimately show ?thesis by (simp only:)
qed


section \<open>The loops of ensureSpace\<close>

text \<open>
  The contract between a loop and what it runs, common to the three strategies: an attempt
  acts on a set of candidates, and the loop's condition reads only counters and limits.
\<close>

locale eviction_loop =
  fixes strat :: int and si :: nat and skip :: string
    and over :: "DB \<Rightarrow> bool" and attempt :: "nat \<Rightarrow> DB \<Rightarrow> bool \<times> DB" and cand :: "DB \<Rightarrow> string set"
  assumes attempt_law: "db_ok d \<Longrightarrow> Strategy (cfg d) = strat \<Longrightarrow> si < length (shards d) \<Longrightarrow>
      attempt n d = (b, d') \<Longrightarrow> evict_step (cand d) skip d b d'"
    and over_law: "cfg d' = cfg d \<Longrightarrow> used d' = used d \<Longrightarrow> map sused (shards d') = map sused (shards d) \<Longrightarrow>
      map budget (shards d') = map budget (shards d) \<Longrightarrow> si < length (shards d) \<Longrightarrow> over d' = over d"
    and cand_law: "db_ok d \<Longrightarrow> db_ok d' \<Longrightarrow> lookup d' = lookup d \<Longrightarrow> length (shards d') = length (shards d) \<Longrightarrow>
      si < length (shards d) \<Longrightarrow> cand d' = cand d"
begin

lemma loop_spec:
  assumes "db_ok d" "Strategy (cfg d) = strat" "si < length (shards d)"
    and "evictWhile n over attempt d = (r, d')" "card (keysOf d) < n"
  shows "freed skip d d' \<and> (case r of None \<Rightarrow> \<not> over d'
    | Some x \<Rightarrow> x = ErrOOM \<and> over d' \<and>
        (Policy (cfg d) = PolicyNoEviction \<or>
         (\<forall>k \<in> cand d'. k \<noteq> skip \<longrightarrow> \<not> eligible (Policy (cfg d)) (dbExp d' k))))"
  using assms
proof (induction n arbitrary: d)
  case (Suc n)
  show ?case
  proof (cases "over d")
    case False
    with Suc.prems have "r = None" "d' = d" by simp_all
    with False Suc.prems(1) show ?thesis by (simp add: freed_refl)
  next
    case True
    obtain b d1 where a: "attempt n d = (b, d1)" by fastforce
    note st = attempt_law [OF Suc.prems(1,2,3) a]
    note f = evict_step_freed [OF st]
    note len = freed_length [OF f]
    have ok1: "db_ok d1" and c1: "cfg d1 = cfg d" using f by (simp_all add: freed_def)
    show ?thesis
    proof (cases b)
      case b: True
      then have w: "evictWhile n over attempt d1 = (r, d')" using Suc.prems(4) True a by simp
      have "card (keysOf d1) < n" using evict_step_card [OF Suc.prems(1)] st b Suc.prems(5) by fastforce
      then have IH: "freed skip d1 d' \<and> (case r of None \<Rightarrow> \<not> over d'
        | Some x \<Rightarrow> x = ErrOOM \<and> over d' \<and>
            (Policy (cfg d) = PolicyNoEviction \<or>
             (\<forall>k \<in> cand d'. k \<noteq> skip \<longrightarrow> \<not> eligible (Policy (cfg d)) (dbExp d' k))))"
        using Suc.IH [OF ok1 _ _ w, unfolded c1 len] Suc.prems(2,3) by simp
      with freed_trans [OF f] show ?thesis by blast
    next
      case b: False
      then have r: "r = Some ErrOOM" "d' = d1" using Suc.prems(4) True a by simp_all
      have lk: "lookup d1 = lookup d" using st b by (simp add: evict_step_def)
      have ov: "over d1 = over d" by (rule over_law) (use st b Suc.prems(3) in \<open>simp_all add: evict_step_def\<close>)
      have "cand d1 = cand d" by (rule cand_law [OF Suc.prems(1) ok1 lk len Suc.prems(3)])
      then show ?thesis using f st b r ov True dbExp_cong [OF lk] by (simp add: evict_step_def)
    qed
  qed
qed simp

end

interpretation track: eviction_loop StrategyGlobalTrack si key "\<lambda>d. limit < add64 (used d) need"
  "\<lambda>n. evictOneGlobal key (clock n (0::nat))" keysOf
  for si key limit need clock
proof (unfold_locales, goal_cases)
  case 1
  then show ?case by (intro evictOneGlobal_spec)
qed (simp_all add: keysOf_def)

lemma nth_map_eq: "map f xs = map f ys \<Longrightarrow> i < length ys \<Longrightarrow> f (xs ! i) = f (ys ! i)"
  by (metis length_map nth_map)

interpretation bud: eviction_loop StrategyShardBudget si key
  "\<lambda>d. budget (shards d ! si) < add64 (sused (shards d ! si)) need"
  "\<lambda>n. evictOneLocal si key (clock n (0::nat))" "\<lambda>d. skeys (shards d ! si)"
  for si key need clock
proof (unfold_locales, goal_cases)
  case 1
  then show ?case by (intro evictOneLocal_spec)
next
  case (2 d' d)
  then show ?case
    using nth_map_eq [of sused "shards d'" "shards d" si] nth_map_eq [of budget "shards d'" "shards d" si] by simp
next
  case 3
  then show ?case by (intro skeys_same)
qed

lemma steal_attempt:
  assumes "db_ok d" "si < length (shards d)"
    and "(case evictOneLocal si key t d of (True, d1) \<Rightarrow> (True, d1) | (False, d1) \<Rightarrow> stealFromOtherShards si key u d1) = (b, d')"
  shows "evict_step (keysOf d) key d b d'"
proof -
  let ?n = "length (shards d)"
  let ?O = "\<lambda>d. \<Union>i \<in> (\<lambda>i. (si + 1 + i) mod length (shards d)) ` set [0..<length (shards d)] - {si}. skeys (shards d ! i)"
  obtain b1 d1 where p: "evictOneLocal si key t d = (b1, d1)" by fastforce
  note e = evictOneLocal_spec [OF assms(1,2) p]
  note cov = steal_covers [OF assms(1,2)]
  show ?thesis
  proof (cases b1)
    case True
    have "b = True" "d' = d1" "evict_step (skeys (shards d ! si)) key d True d1" using assms(3) True p e by simp_all
    moreover have "skeys (shards d ! si) \<subseteq> keysOf d" unfolding cov [symmetric] by (rule Un_upper1)
    ultimately show ?thesis using evict_step_mono [of _ key d True d1 "keysOf d"] by simp
  next
    case False
    then have f: "db_ok d1" "lookup d1 = lookup d" "evict_step (skeys (shards d ! si)) key d False d1"
      using e by (simp_all add: evict_step_def)
    have len: "length (shards d1) = ?n" by (rule freed_length [OF evict_step_freed [OF e]])
    have "stealScan [0..<length (shards d1)] si key u d1 = (b, d')"
      using assms(3) p False by (simp add: stealFromOtherShards_def)
    note s = stealScan_spec [OF f(1) this]
    have "?O d1 = ?O d"
      unfolding len by (intro SUP_cong refl skeys_same [OF assms(1) f(1,2) len])
        (use assms(2) in \<open>auto intro: mod_less_divisor le_less_trans\<close>)
    with evict_step_seq [OF f(3) s] cov show ?thesis by simp
  qed
qed

interpretation steal: eviction_loop StrategySteal si key "\<lambda>d. limit < add64 (used d) need"
  "\<lambda>n d. case evictOneLocal si key (clock n (0::nat)) d of
       (True, d1) \<Rightarrow> (True, d1) | (False, d1) \<Rightarrow> stealFromOtherShards si key (\<lambda>i. clock n (Suc i)) d1" keysOf
  for si key limit need clock
proof (unfold_locales, goal_cases)
  case 1
  then show ?case by (intro steal_attempt)
qed (simp_all add: keysOf_def)


text \<open>The limit that applies to a write, and what counts towards it.\<close>

definition limitOf :: "nat \<Rightarrow> DB \<Rightarrow> u64" where
  "limitOf si d = (if Strategy (cfg d) = StrategyShardBudget then budget (shards d ! si) else MaxMemory (cfg d))"

definition loadOf :: "nat \<Rightarrow> DB \<Rightarrow> u64" where
  "loadOf si d = (if Strategy (cfg d) = StrategyShardBudget then sused (shards d ! si) else used d)"

definition candOf :: "nat \<Rightarrow> DB \<Rightarrow> string set" where
  "candOf si d = (if Strategy (cfg d) = StrategyShardBudget then skeys (shards d ! si) else keysOf d)"

lemma limitOf_freed: "freed skip d d' \<Longrightarrow> si < length (shards d) \<Longrightarrow> limitOf si d' = limitOf si d"
  using nth_map_eq [of budget "shards d'" "shards d" si] by (simp add: limitOf_def freed_def)

lemma limitOf_le: "db_ok d \<Longrightarrow> si < length (shards d) \<Longrightarrow> limitOf si d \<le> MaxMemory (cfg d)"
  by (simp add: limitOf_def db_ok_def cfg_ok_def)

lemma load_no_wrap:
  assumes "db_ok d" "si < length (shards d)" "need \<le> MaxMemory (cfg d)"
  shows "add64 (used d) need = used d + need" "add64 (sused (shards d ! si)) need = sused (shards d ! si) + need"
proof -
  have "used d + need < 2 ^ 64" "sused (shards d ! si) + need < 2 ^ 64"
    using used_bound(2) [OF assms(1)] assms(3) shard_le_used [OF assms(1,2)] by linarith+
  then show "add64 (used d) need = used d + need" "add64 (sused (shards d ! si)) need = sused (shards d ! si) + need"
    by simp_all
qed

text \<open>
  \<^verbatim>\<open>ensureSpace\<close> returns, having evicted only admissible keys other than the one being
  written. When it succeeds the write fits; when it fails, either the entry exceeds the limit
  on its own, or the store is over the limit and there is nothing left to evict.
\<close>

lemma ensureSpace_spec:
  assumes ok: "db_ok d" and si: "si < length (shards d)" and need: "need \<le> newSize"
    and p: "ensureSpace si key need newSize clock d = (r, d')"
  shows "freed key d d' \<and>
    (case r of
       None \<Rightarrow> newSize \<le> limitOf si d \<and> loadOf si d' + need \<le> limitOf si d'
     | Some x \<Rightarrow> x = ErrOOM \<and>
         (limitOf si d < newSize \<or>
          limitOf si d' < loadOf si d' + need \<and>
          (Policy (cfg d) = PolicyNoEviction \<or>
           (\<forall>k \<in> candOf si d'. k \<noteq> key \<longrightarrow> \<not> eligible (Policy (cfg d)) (dbExp d' k)))))"
proof (cases "limitOf si d < newSize")
  case True
  then have "r = Some ErrOOM" "d' = d"
    using p by (auto simp: ensureSpace_def Let_def limitOf_def split: if_splits)
  with True ok show ?thesis by (simp add: freed_refl)
next
  case False
  let ?S = "Strategy (cfg d)" and ?fuel = "Suc (totalKeys d)"
  have mm: "need \<le> MaxMemory (cfg d)" using False need limitOf_le [OF ok si] by simp
  have nw: "add64 (used x) need = used x + need" "add64 (sused (shards x ! si)) need = sused (shards x ! si) + need"
    if "freed key d x" for x
    using load_no_wrap [of x si need] freed_length [OF that] that mm si by (simp_all add: freed_def)
  have lim: "limitOf si x = limitOf si d" "cfg x = cfg d" if "freed key d x" for x
    using limitOf_freed [OF that si] that by (simp_all add: freed_def)
  have fuel: "card (keysOf d) < ?fuel" using card_keys_le [OF ok] by simp
  have range: "?S = StrategyGlobalTrack \<or> ?S = StrategySteal \<or> ?S = StrategyShardBudget"
    using ok by (auto simp: db_ok_def cfg_ok_def strategy_defs)
  note distinct_strategies = strategy_defs
  show ?thesis
  proof (cases "Policy (cfg d) = PolicyNoEviction")
    case True
    have d': "d' = d" using p True by (auto simp: ensureSpace_def Let_def split: if_splits)
    have "r = (if limitOf si d < loadOf si d + need then Some ErrOOM else None)"
      using p True False nw [OF freed_refl [OF ok]]
      by (auto simp: ensureSpace_def Let_def limitOf_def loadOf_def split: if_splits)
    with d' True False ok show ?thesis by (simp add: freed_refl)
  next
    case noev: False
    consider (track) "?S = StrategyGlobalTrack" | (steal) "?S = StrategySteal" | (bud) "?S = StrategyShardBudget"
      using range by blast
    then show ?thesis
    proof cases
      case track
      then have w: "evictWhile ?fuel (\<lambda>x. MaxMemory (cfg d) < add64 (used x) need) (\<lambda>n. evictOneGlobal key (clock n 0)) d = (r, d')"
        using p False noev by (simp add: ensureSpace_def Let_def limitOf_def strategy_defs)
      note l = track.loop_spec [where clock = clock, OF ok track si w fuel]
      with nw lim track False show ?thesis
        by (auto simp: limitOf_def loadOf_def candOf_def strategy_defs split: option.splits)
    next
      case steal
      then have w: "evictWhile ?fuel (\<lambda>x. MaxMemory (cfg d) < add64 (used x) need)
          (\<lambda>n d. case evictOneLocal si key (clock n 0) d of (True, d1) \<Rightarrow> (True, d1)
             | (False, d1) \<Rightarrow> stealFromOtherShards si key (\<lambda>i. clock n (Suc i)) d1) d = (r, d')"
        using p False noev by (simp add: ensureSpace_def Let_def limitOf_def strategy_defs)
      note l = steal.loop_spec [where clock = clock, OF ok steal si w fuel]
      with nw lim steal False show ?thesis
        by (auto simp: limitOf_def loadOf_def candOf_def strategy_defs split: option.splits)
    next
      case bud
      then have w: "evictWhile ?fuel (\<lambda>x. budget (shards x ! si) < add64 (sused (shards x ! si)) need)
          (\<lambda>n. evictOneLocal si key (clock n 0)) d = (r, d')"
        using p False noev by (simp add: ensureSpace_def Let_def limitOf_def strategy_defs)
      note l = bud.loop_spec [where clock = clock, OF ok bud si w fuel]
      with nw lim(2) bud False show ?thesis
        by (auto simp: limitOf_def loadOf_def candOf_def strategy_defs split: option.splits)
    qed
  qed
qed

end
