(* ===== verification/StoreOps.thy ===== *)
theory StoreOps
  imports Evict
begin

text \<open>
  The operations of \<^verbatim>\<open>internal/store/ops.go\<close> and the active expiry of \<^verbatim>\<open>expiry.go\<close>. The
  readings of the clock are arguments. Every operation keeps \<open>db_ok\<close>; its effect is stated on
  the abstraction \<open>lookup\<close>.
\<close>

section \<open>Reading\<close>

definition Get :: "string \<Rightarrow> gotime \<Rightarrow> DB \<Rightarrow> string option \<times> DB" where
  "Get key now d =
     (let si = shardIndex key d in
      case lookup d key of
        None \<Rightarrow> (None, d\<lparr>misses := add64 (misses d) 1\<rparr>)
      | Some e \<Rightarrow>
          if expired now e
          then let d1 = dropKey key e d in (None, d1\<lparr>misses := add64 (misses d1) 1\<rparr>)
          else
            let d1 = setShard si (touch key (shards d ! si)) d;
                d2 = (if Strategy (cfg d1) = StrategyGlobalTrack then globalAccess key d1 else d1)
            in (Some (evalue e), d2\<lparr>hits := add64 (hits d2) 1\<rparr>))"

section \<open>Writing\<close>

record SetOptions =
  optEX :: duration
  optPX :: duration
  optNX :: bool
  optXX :: bool
  KeepTTL :: bool
  ExpireAt :: gotime
  HasExpireAt :: bool

definition noOptions :: SetOptions where
  "noOptions = \<lparr>optEX = 0, optPX = 0, optNX = False, optXX = False, KeepTTL = False, ExpireAt = 0, HasExpireAt = False\<rparr>"

definition setExpiry :: "SetOptions \<Rightarrow> gotime \<Rightarrow> duration \<Rightarrow> gotime" where
  "setExpiry opt now maxTTL =
     (let t = (if HasExpireAt opt then ExpireAt opt
               else if 0 < optPX opt then now + optPX opt
               else if 0 < optEX opt then now + optEX opt else 0)
      in if \<not> IsZero t \<and> 0 < maxTTL
         then let maxAt = now + maxTTL in if maxAt < t then maxAt else t
         else t)"

definition keepsTTL :: "SetOptions \<Rightarrow> bool" where
  "keepsTTL opt \<longleftrightarrow> KeepTTL opt \<and> \<not> HasExpireAt opt \<and> optEX opt = 0 \<and> optPX opt = 0"

text \<open>Lazy expiry at the start of \<^verbatim>\<open>Set\<close>.\<close>

definition purge :: "string \<Rightarrow> gotime \<Rightarrow> DB \<Rightarrow> DB" where
  "purge key now d =
     (case lookup d key of
        Some e \<Rightarrow> if expired now e then dropKey key e d else d
      | None \<Rightarrow> d)"

definition setMutation :: "string \<Rightarrow> string \<Rightarrow> gotime \<Rightarrow> Mutation" where
  "setMutation key val t = \<lparr>mOp = ''SET'', mKey = key, mValue = val, mKeys = [], mExpiresAt = t\<rparr>"

definition needFor :: "entry option \<Rightarrow> u64 \<Rightarrow> u64" where
  "needFor ex newSize =
     (case ex of
        Some e \<Rightarrow> if esize e < newSize then newSize - esize e else 0
      | None \<Rightarrow> newSize)"

definition Set ::
  "string \<Rightarrow> string \<Rightarrow> SetOptions \<Rightarrow> gotime \<Rightarrow> (nat \<Rightarrow> nat \<Rightarrow> gotime) \<Rightarrow> DB \<Rightarrow> (storeErr + bool) \<times> DB" where
  "Set key val opt now clock d =
     (let si = shardIndex key d;
          newSize = memSize key val;
          exp0 = setExpiry opt now (MaxTTL (cfg d))
      in if Strategy (cfg d) = StrategyGlobalTrack \<and> MaxMemory (cfg d) < newSize then (Inl ErrOOM, d)
         else
           let d1 = purge key now d; ex = lookup d1 key in
           if optNX opt \<and> ex \<noteq> None then (Inr False, d1)
           else if optXX opt \<and> ex = None then (Inr False, d1)
           else
             let expAt = (case ex of Some e \<Rightarrow> if keepsTTL opt then expiresAt e else exp0 | None \<Rightarrow> exp0);
                 need = needFor ex newSize
             in case ensureSpace si key need newSize clock d1 of
                  (Some err, d2) \<Rightarrow> (Inl err, d2)
                | (None, d2) \<Rightarrow>
                    (case lookup d2 key of
                       Some old \<Rightarrow>
                         if optNX opt then (Inr False, d2)
                         else
                           let e = old\<lparr>evalue := val, esize := newSize,
                                       expiresAt := (if keepsTTL opt then expiresAt old else expAt)\<rparr>
                           in (Inr True, emit (setMutation key val (expiresAt e)) (overwriteEntry si old e d2))
                     | None \<Rightarrow>
                         if optXX opt then (Inr False, d2)
                         else
                           let e = \<lparr>ekey = key, evalue = val, expiresAt = expAt, esize = newSize\<rparr>
                           in (Inr True, emit (setMutation key val expAt) (insertEntry si e d2))))"

section \<open>Deleting and testing\<close>

definition delOne :: "string \<Rightarrow> gotime \<Rightarrow> DB \<Rightarrow> int \<times> DB" where
  "delOne key now d =
     (case lookup d key of
        None \<Rightarrow> (0, d)
      | Some e \<Rightarrow>
          let d1 = dropKey key e d in
          if \<not> expired now e
          then (1, emit \<lparr>mOp = ''DEL'', mKey = [], mValue = [], mKeys = [key], mExpiresAt = 0\<rparr> d1)
          else (0, d1))"

fun Del :: "string list \<Rightarrow> gotime \<Rightarrow> DB \<Rightarrow> int \<times> DB" where
  "Del [] now d = (0, d)"
| "Del (key # keys) now d =
     (let (n, d1) = delOne key now d; (m, d2) = Del keys now d1 in (n + m, d2))"

definition existsOne :: "string \<Rightarrow> gotime \<Rightarrow> DB \<Rightarrow> int \<times> DB" where
  "existsOne key now d =
     (case lookup d key of
        None \<Rightarrow> (0, d)
      | Some e \<Rightarrow> if expired now e then (0, dropKey key e d) else (1, d))"

fun Exists :: "string list \<Rightarrow> gotime \<Rightarrow> DB \<Rightarrow> int \<times> DB" where
  "Exists [] now d = (0, d)"
| "Exists (key # keys) now d =
     (let (n, d1) = existsOne key now d; (m, d2) = Exists keys now d1 in (n + m, d2))"

section \<open>Expiry of a key\<close>

definition setExpireAt :: "string \<Rightarrow> gotime \<Rightarrow> gotime \<Rightarrow> DB \<Rightarrow> int \<times> DB" where
  "setExpireAt key at now d =
     (let si = shardIndex key d in
      case lookup d key of
        None \<Rightarrow> (0, d)
      | Some e \<Rightarrow>
          if expired now e then (0, dropKey key e d)
          else
            let d1 = setShard si (shardSetExp key at (shards d ! si)) d;
                d2 = noteDB key at d1
            in (1, emit \<lparr>mOp = ''EXPIRE'', mKey = key, mValue = [], mKeys = [], mExpiresAt = at\<rparr> d2))"

text \<open>\<open>now0\<close> is read for the deadline, \<open>now\<close> in \<^verbatim>\<open>Del\<close> or \<^verbatim>\<open>setExpireAt\<close>.\<close>

definition Expire :: "string \<Rightarrow> duration \<Rightarrow> gotime \<Rightarrow> gotime \<Rightarrow> DB \<Rightarrow> int \<times> DB" where
  "Expire key dur now0 now d =
     (if dur \<le> 0
      then let (n, d1) = Del [key] now d in (if 0 < n then 1 else 0, d1)
      else
        let dur1 = (if 0 < MaxTTL (cfg d) \<and> MaxTTL (cfg d) < dur then MaxTTL (cfg d) else dur)
        in setExpireAt key (now0 + dur1) now d)"

definition Persist :: "string \<Rightarrow> gotime \<Rightarrow> DB \<Rightarrow> int \<times> DB" where
  "Persist key now d =
     (let si = shardIndex key d in
      case lookup d key of
        None \<Rightarrow> (0, d)
      | Some e \<Rightarrow>
          if expired now e then (0, dropKey key e d)
          else if IsZero (expiresAt e) then (0, d)
          else
            let d1 = setShard si (shardSetExp key 0 (shards d ! si)) d;
                d2 = clearDB key d1
            in (1, emit \<lparr>mOp = ''PERSIST'', mKey = key, mValue = [], mKeys = [], mExpiresAt = 0\<rparr> d2))"

text \<open>\<^verbatim>\<open>Duration.Milliseconds\<close> truncates; the duration is not negative here unless it saturates.\<close>

definition PTTL :: "string \<Rightarrow> gotime \<Rightarrow> DB \<Rightarrow> int \<times> DB" where
  "PTTL key now d =
     (case lookup d key of
        None \<Rightarrow> (-2, d)
      | Some e \<Rightarrow>
          if expired now e then (-2, dropKey key e d)
          else if IsZero (expiresAt e) then (-1, d)
          else
            let dur = timeSub (expiresAt e) now;
                ms = (if dur < 0 then - ((- dur) div millisecond) else dur div millisecond)
            in if ms < 0 then (-2, d) else (ms, d))"

definition TTL :: "string \<Rightarrow> gotime \<Rightarrow> DB \<Rightarrow> int \<times> DB" where
  "TTL key now d =
     (let (ms, d1) = PTTL key now d in if ms < 0 then (ms, d1) else (wrap64 (ms + 999) div 1000, d1))"

definition Type :: "string \<Rightarrow> gotime \<Rightarrow> DB \<Rightarrow> string \<times> DB" where
  "Type key now d = (let (n, d1) = Exists [key] now d in if n = 0 then (''none'', d1) else (''string'', d1))"

section \<open>Counters\<close>

text \<open>\<open>now\<close> is the reading of \<^verbatim>\<open>IncrBy\<close>, \<open>now1\<close> and \<open>clock\<close> those of the \<^verbatim>\<open>Set\<close> it calls.\<close>

definition IncrBy ::
  "string \<Rightarrow> int \<Rightarrow> gotime \<Rightarrow> gotime \<Rightarrow> (nat \<Rightarrow> nat \<Rightarrow> gotime) \<Rightarrow> DB \<Rightarrow> (storeErr + int) \<times> DB" where
  "IncrBy key delta now now1 clock d =
     (let si = shardIndex key d;
          (d1, live) = (case lookup d key of
             Some e \<Rightarrow> if expired now e then (removeFromShard si e False d, None) else (d, Some e)
           | None \<Rightarrow> (d, None))
      in case (case live of Some e \<Rightarrow> ParseInt (evalue e) | None \<Rightarrow> Inr 0) of
           Inl err \<Rightarrow> (Inl ErrNotInteger, d1)
         | Inr cur \<Rightarrow>
             let n = wrap64 (cur + delta);
                 opt = (case live of
                          Some e \<Rightarrow> if \<not> IsZero (expiresAt e)
                                    then noOptions\<lparr>HasExpireAt := True, ExpireAt := expiresAt e\<rparr> else noOptions
                        | None \<Rightarrow> noOptions)
             in case Set key (FormatInt n) opt now1 clock d1 of
                  (Inl err, d2) \<Rightarrow> (Inl err, d2)
                | (Inr _, d2) \<Rightarrow> (Inr n, d2))"

section \<open>Reconfiguration\<close>

definition SetEvictionPolicy :: "string \<Rightarrow> DB \<Rightarrow> DB" where
  "SetEvictionPolicy p d =
     (let p1 = (if \<not> snd (ParseEvictionPolicy p) \<or> p = [] then PolicyAllKeysLRU else p)
      in d\<lparr>cfg := (cfg d)\<lparr>Policy := p1\<rparr>\<rparr>)"

text \<open>The links of the entries on a local recency list are cleared, then the list heads.\<close>

definition dllClear :: "eref list \<Rightarrow> dll \<Rightarrow> dll" where
  "dllClear es x = fold dllFresh es x"

definition localOrder :: "shard \<Rightarrow> eref list" where
  "localOrder sh = dll_walk (length (sdata sh)) (dnext (slru sh)) (dhead (slru sh))"

definition localFifo :: "shard \<Rightarrow> eref list" where
  "localFifo sh = dll_walk (length (sdata sh)) (dnext (sfifo sh)) (dhead (sfifo sh))"

definition clearGlobalOrderLists :: "DB \<Rightarrow> DB" where
  "clearGlobalOrderLists d =
     (let es = concat (map localOrder (shards d))
      in d\<lparr>gLru := (dllClear es (gLru d))\<lparr>dhead := None, dtail := None\<rparr>,
           gFifo := (dllClear es (gFifo d))\<lparr>dhead := None, dtail := None\<rparr>\<rparr>)"

definition rebuildGlobalOrderLists :: "DB \<Rightarrow> DB" where
  "rebuildGlobalOrderLists d =
     fold (\<lambda>sh d.
        let d1 = d\<lparr>gLru := fold dllPushTail (localOrder sh) (gLru d)\<rparr>
        in d1\<lparr>gFifo := fold dllPushTail (localFifo sh) (gFifo d1)\<rparr>) (shards d) d"

definition SetShardingStrategy :: "int \<Rightarrow> DB \<Rightarrow> DB" where
  "SetShardingStrategy s0 d =
     (let s = (if s0 < StrategyGlobalTrack \<or> StrategyShardBudget < s0 then StrategyGlobalTrack else s0) in
      if Strategy (cfg d) = s then d
      else
        let d1 = clearGlobalOrderLists d;
            d2 = d1\<lparr>cfg := (cfg d1)\<lparr>Strategy := s\<rparr>\<rparr>
        in if s = StrategyGlobalTrack then rebuildGlobalOrderLists d2 else d2)"

section \<open>Active expiry\<close>

definition deleteIfExpired :: "string \<Rightarrow> gotime \<Rightarrow> DB \<Rightarrow> bool \<times> DB" where
  "deleteIfExpired key now d =
     (case lookup d key of
        None \<Rightarrow> (False, d)
      | Some e \<Rightarrow> if \<not> expired now e then (False, d) else (True, dropKey key e d))"

text \<open>
  The loop of \<^verbatim>\<open>expireDue\<close>; every round takes one item off the heap, so the number of items
  bounds the rounds (\<open>expireDue_spec\<close>).
\<close>

fun expireLoop :: "nat \<Rightarrow> nat \<Rightarrow> nat \<Rightarrow> gotime \<Rightarrow> DB \<Rightarrow> nat \<times> DB" where
  "expireLoop 0 removed limit now d = (removed, d)"
| "expireLoop (Suc n) removed limit now d =
     (if \<not> removed < limit then (removed, d)
      else case hitems (expH d) of
        [] \<Rightarrow> (removed, d)
      | item # _ \<Rightarrow>
          if now < iat item then (removed, d)
          else case deleteIfExpired (ikey item) now d of
            (True, d1) \<Rightarrow> expireLoop n (removed + 1) limit now d1
          | (False, d1) \<Rightarrow>
              let d2 = (case hidx (expH d1) (ikey item) of
                          Some idx \<Rightarrow>
                            if idx < length (hitems (expH d1)) \<and> ikey (hitems (expH d1) ! idx) = ikey item \<and>
                               iat (hitems (expH d1) ! idx) = iat item
                            then d1\<lparr>expH := heapRemoveAt idx (expH d1)\<rparr> else d1
                        | None \<Rightarrow> d1)
              in expireLoop n removed limit now d2)"

definition expireDue :: "gotime \<Rightarrow> nat \<Rightarrow> DB \<Rightarrow> nat \<times> DB" where
  "expireDue now limit d = expireLoop (length (hitems (expH d))) 0 limit now d"


section \<open>Observations\<close>

text \<open>What a client can see of a key at an instant.\<close>

definition visible :: "gotime \<Rightarrow> DB \<Rightarrow> string \<Rightarrow> (string \<times> gotime) option" where
  "visible now d k =
     (case lookup d k of
        Some e \<Rightarrow> if expired now e then None else Some (evalue e, expiresAt e)
      | None \<Rightarrow> None)"

lemma visible_cong: "lookup d' = lookup d \<Longrightarrow> visible now d' = visible now d"
  by (simp add: visible_def fun_eq_iff)

lemma visible_drop_expired:
  "lookup d k = Some e \<Longrightarrow> expired now e \<Longrightarrow> lookup d' = (lookup d)(k := None) \<Longrightarrow> visible now d' = visible now d"
  by (auto simp: visible_def fun_eq_iff)

lemma db_ok_frame:
  assumes "db_ok d" "cfg d' = cfg d" "shards d' = shards d" "used d' = used d" "gLru d' = gLru d"
    "gFifo d' = gFifo d" "expH d' = expH d"
  shows "db_ok d'" "lookup d' = lookup d"
proof -
  show "lookup d' = lookup d" by (rule lookup_cong [OF assms(3)])
  with assms show "db_ok d'"
    by (simp add: db_ok_def cfg_ok_def shards_ok_def fits_def globals_ok_def exp_ok_def keysOf_def)
qed

lemma db_ok_counters [simp]:
  "db_ok d \<Longrightarrow> db_ok (d\<lparr>hits := n\<rparr>)" "db_ok d \<Longrightarrow> db_ok (d\<lparr>misses := n\<rparr>)" "db_ok d \<Longrightarrow> db_ok (emit m d)"
  by (auto elim!: db_ok_frame(1) simp: emit_def)

lemma lookup_counters [simp]:
  "lookup (d\<lparr>hits := n\<rparr>) = lookup d" "lookup (d\<lparr>misses := n\<rparr>) = lookup d" "lookup (emit m d) = lookup d"
  by (auto intro!: lookup_cong simp: emit_def)

text \<open>Recording an access to a live key.\<close>

definition accessed :: "string \<Rightarrow> DB \<Rightarrow> DB" where
  "accessed key d =
     (let d1 = setShard (shardIndex key d) (touch key (theShard key d)) d
      in if Strategy (cfg d1) = StrategyGlobalTrack then globalAccess key d1 else d1)"

lemma accessed_spec:
  assumes ok: "db_ok d" and e: "lookup d k = Some e"
  shows "db_ok (accessed k d)" "lookup (accessed k d) = lookup d" "cfg (accessed k d) = cfg d"
    "theShard k (accessed k d) = touch k (theShard k d)"
proof -
  let ?si = "shardIndex k d" and ?sh = "theShard k d"
  let ?d1 = "setShard ?si (touch k ?sh) d"
  have c: "cfg_ok d" and g: "globals_ok d" using ok by (simp_all add: db_ok_def)
  have si: "?si < length (shards d)" by (rule shardIndex_less [OF c])
  have sh: "shards d ! ?si = ?sh" by (simp add: theShard_def)
  have shok: "shard_ok (length (shards d)) ?si ?sh" by (rule theShard_ok [OF ok])
  have k: "k \<in> skeys ?sh" using e lookup_None_skeys [of d k] by auto
  have st: "shards (accessed k d) = (shards d)[?si := touch k ?sh]"
    by (simp add: accessed_def Let_def setShard_def)
  show cf: "cfg (accessed k d) = cfg d" by (simp add: accessed_def Let_def setShard_def)
  have "lookup (accessed k d) = (lookup d)(k := lookup d k)"
    by (rule lookup_update_shard [OF c st refl]) (auto simp: sh e lookup_def)
  then show lk: "lookup (accessed k d) = lookup d" by simp
  show "theShard k (accessed k d) = touch k (theShard k d)"
    using si by (simp add: theShard_def st shardIndex_def)
  have ke: "keysOf ?d1 = keysOf d"
  proof -
    have "lookup ?d1 = lookup (accessed k d)" by (rule lookup_cong) (simp add: st setShard_def)
    then show ?thesis by (simp add: keysOf_def lk)
  qed
  have g1: "globals_ok ?d1" by (rule globals_ok_cong [OF g ke]) (simp_all add: setShard_def)
  then have "globals_ok (accessed k d)" using globalAccess_globals [OF g1] by (simp add: accessed_def Let_def)
  moreover have "exp_ok (accessed k d)"
    using ok by (simp add: db_ok_def exp_ok_def lk) (simp add: accessed_def Let_def setShard_def)
  moreover have "used (accessed k d) = used d" by (simp add: accessed_def Let_def setShard_def)
  moreover have "sused ?sh \<le> MaxMemory (cfg d)" using ok si by (simp add: db_ok_def fits_def theShard_def)
  ultimately show "db_ok (accessed k d)"
    by (intro db_ok_update_shard [OF ok si st cf]) (simp_all add: touch_ok [OF shok k] sh)
qed

section \<open>Get\<close>

lemma Get_eq:
  "Get key now d = (case lookup d key of
      None \<Rightarrow> (None, d\<lparr>misses := add64 (misses d) 1\<rparr>)
    | Some e \<Rightarrow> if expired now e
        then (None, (dropKey key e d)\<lparr>misses := add64 (misses (dropKey key e d)) 1\<rparr>)
        else (Some (evalue e), (accessed key d)\<lparr>hits := add64 (hits (accessed key d)) 1\<rparr>))"
  by (auto simp: Get_def accessed_def Let_def theShard_def split: option.splits)

lemma Get_spec:
  assumes ok: "db_ok d" and g: "Get key now d = (r, d')"
  shows "db_ok d'" "r = map_option fst (visible now d key)" "visible now d' = visible now d"
proof -
  have "db_ok d' \<and> r = map_option fst (visible now d key) \<and> visible now d' = visible now d"
  proof (cases "lookup d key")
    case None
    with g ok show ?thesis by (auto simp: Get_eq visible_def)
  next
    case (Some e)
    note dr = dropKey_spec [OF ok Some] and ac = accessed_spec [OF ok Some]
    show ?thesis
    proof (cases "expired now e")
      case True
      with g Some dr visible_drop_expired [OF Some True, of d'] show ?thesis by (auto simp: Get_eq visible_def)
    next
      case False
      with g Some ac visible_cong [of d' d] show ?thesis by (auto simp: Get_eq visible_def)
    qed
  qed
  then show "db_ok d'" "r = map_option fst (visible now d key)" "visible now d' = visible now d" by simp_all
qed

section \<open>Set\<close>

lemma purge_spec:
  assumes "db_ok d"
  shows "db_ok (purge key now d)" "visible now (purge key now d) = visible now d"
    "cfg (purge key now d) = cfg d" "length (shards (purge key now d)) = length (shards d)"
    "lookup (purge key now d) key = (case lookup d key of Some e \<Rightarrow> if expired now e then None else Some e | None \<Rightarrow> None)"
    "k \<noteq> key \<Longrightarrow> lookup (purge key now d) k = lookup d k" "sink (purge key now d) = sink d"
    "map budget (shards (purge key now d)) = map budget (shards d)"
    "used (purge key now d) \<le> used d"
proof -
  have "db_ok (purge key now d) \<and> visible now (purge key now d) = visible now d \<and>
    cfg (purge key now d) = cfg d \<and> length (shards (purge key now d)) = length (shards d) \<and>
    lookup (purge key now d) key = (case lookup d key of Some e \<Rightarrow> if expired now e then None else Some e | None \<Rightarrow> None) \<and>
    (k \<noteq> key \<longrightarrow> lookup (purge key now d) k = lookup d k) \<and> sink (purge key now d) = sink d \<and>
    map budget (shards (purge key now d)) = map budget (shards d) \<and> used (purge key now d) \<le> used d"
  proof (cases "lookup d key")
    case None
    with assms show ?thesis by (simp add: purge_def)
  next
    case (Some e)
    note r = dropKey_spec [OF assms Some]
    show ?thesis
    proof (cases "expired now e")
      case True
      with Some r visible_drop_expired [OF Some True r(2)] show ?thesis by (simp add: purge_def)
    next
      case False
      with Some assms show ?thesis by (simp add: purge_def)
    qed
  qed
  then show "db_ok (purge key now d)" "visible now (purge key now d) = visible now d"
    "cfg (purge key now d) = cfg d" "length (shards (purge key now d)) = length (shards d)"
    "lookup (purge key now d) key = (case lookup d key of Some e \<Rightarrow> if expired now e then None else Some e | None \<Rightarrow> None)"
    "k \<noteq> key \<Longrightarrow> lookup (purge key now d) k = lookup d k" "sink (purge key now d) = sink d"
    "map budget (shards (purge key now d)) = map budget (shards d)" "used (purge key now d) \<le> used d"
    by simp_all
qed

lemma needFor_le: "needFor ex n \<le> n"
  by (simp add: needFor_def split: option.splits)


lemma map_update_same: "f y = f (xs ! i) \<Longrightarrow> map f (xs[i := y]) = map f xs"
  by (cases "i < length xs") (simp_all add: map_update list_update_same_conv list_update_beyond)

lemma write_frame [simp]:
  "map budget (shards (insertEntry si e d)) = map budget (shards d)"
  "map budget (shards (overwriteEntry si old e d)) = map budget (shards d)"
  "sink (insertEntry si e d) = sink d" "sink (overwriteEntry si old e d) = sink d"
proof -
  have "shards (insertEntry si e d) = (shards d)[si := shardInsert e (shards d ! si)]"
    by (simp add: insertEntry_def Let_def addUsed_def setShard_def)
  then show "map budget (shards (insertEntry si e d)) = map budget (shards d)"
    by (simp add: map_update_same shardInsert_def Let_def)
  have "\<exists>sh. budget sh = budget (shards d ! si) \<and> shards (overwriteEntry si old e d) = (shards d)[si := sh]"
    by (intro exI conjI) (auto simp: overwriteEntry_def Let_def addUsed_def subUsed_def setShard_def)
  then show "map budget (shards (overwriteEntry si old e d)) = map budget (shards d)"
    by (auto simp: map_update_same)
  show "sink (insertEntry si e d) = sink d" "sink (overwriteEntry si old e d) = sink d"
    by (simp_all add: insertEntry_def overwriteEntry_def Let_def addUsed_def subUsed_def setShard_def)
qed

lemma load_le_shard: "db_ok d \<Longrightarrow> si < length (shards d) \<Longrightarrow> sused (shards d ! si) \<le> loadOf si d"
  using shard_le_used [of d si] by (simp add: loadOf_def)

text \<open>Both ends of \<^verbatim>\<open>Set\<close>, once there is room.\<close>

definition storeEntry :: "nat \<Rightarrow> entry \<Rightarrow> DB \<Rightarrow> DB" where
  "storeEntry si e d =
     (case lookup d (ekey e) of Some old \<Rightarrow> overwriteEntry si old e d | None \<Rightarrow> insertEntry si e d)"

lemma storeEntry_spec:
  assumes ok: "db_ok d" and si: "si = shardIndex key d" and e: "ekey e = key" "esize e = memSize key (evalue e)"
    and room: "loadOf si d + needFor (lookup d key) (esize e) \<le> limitOf si d"
  shows "db_ok (storeEntry si e d)" (is ?a) "lookup (storeEntry si e d) = (lookup d)(key \<mapsto> e)" (is ?b)
    "cfg (storeEntry si e d) = cfg d" (is ?c) "sink (storeEntry si e d) = sink d" (is ?d)
    "map budget (shards (storeEntry si e d)) = map budget (shards d)" (is ?e)
    "loadOf si (storeEntry si e d) \<le> limitOf si (storeEntry si e d)" (is ?f)
proof -
  have lt: "si < length (shards d)" using ok si shardIndex_less by (simp add: db_ok_def)
  have lim: "limitOf si d \<le> MaxMemory (cfg d)" by (rule limitOf_le [OF ok lt])
  have load: "sused (shards d ! si) \<le> loadOf si d" by (rule load_le_shard [OF ok lt])
  have "?a \<and> ?b \<and> ?c \<and> ?d \<and> ?e \<and> loadOf si (storeEntry si e d) \<le> limitOf si d"
  proof (cases "lookup d key")
    case None
    then have r: "sused (shards d ! si) + esize e \<le> MaxMemory (cfg d)" using room load lim by (simp add: needFor_def)
    have "keyShard (length (shards d)) key = si" using si by (simp add: shardIndex_def)
    moreover have "map_of (sdata (shards d ! si)) key = None" using None si by (simp add: lookup_def theShard_def)
    moreover have "shard_ok (length (shards d)) si (shards d ! si)" using ok lt by (simp add: db_ok_def shards_ok_def)
    moreover have "sused (shards d ! si) + esize e < 2 ^ 64" using r used_bound(2) [OF ok] by linarith
    ultimately have "sused (shardInsert e (shards d ! si)) = sused (shards d ! si) + esize e"
      using e by (intro shardInsert_ok(2))
    moreover note ins = insertEntry_spec [OF ok None si e r]
    ultimately have "loadOf si (insertEntry si e d) = loadOf si d + esize e" using lt by (simp add: loadOf_def)
    with ins(1,2,5) None e(1) room show ?thesis by (simp add: storeEntry_def needFor_def)
  next
    case (Some old)
    have le: "esize old \<le> loadOf si d" "esize old \<le> sused (shards d ! si)"
      using entry_le_used [OF ok Some] load si by (simp_all add: theShard_def)
    have r: "sused (shards d ! si) + esize e \<le> MaxMemory (cfg d) + esize old"
      using room load lim Some by (simp add: needFor_def split: if_splits)
    note ow = overwriteEntry_spec [OF ok Some si e r]
    have "loadOf si (overwriteEntry si old e d) + esize old = loadOf si d + esize e"
      using ow(3,4,7) by (simp add: loadOf_def)
    moreover have "loadOf si d + esize e \<le> limitOf si d + esize old"
      using room Some by (simp add: needFor_def split: if_splits)
    ultimately show ?thesis using ow(1,2,4) Some e(1) by (simp add: storeEntry_def)
  qed
  moreover have "limitOf si (storeEntry si e d) = limitOf si d" if "?c" "?e"
    using that nth_map_eq [OF that(2) lt] by (simp add: limitOf_def)
  ultimately show ?a ?b ?c ?d ?e ?f by auto
qed

definition finalExpiry :: "string \<Rightarrow> SetOptions \<Rightarrow> gotime \<Rightarrow> DB \<Rightarrow> gotime" where
  "finalExpiry key opt now d =
     (case visible now d key of
        Some (_, t) \<Rightarrow> if keepsTTL opt then t else setExpiry opt now (MaxTTL (cfg d))
      | None \<Rightarrow> setExpiry opt now (MaxTTL (cfg d)))"

definition newEntry :: "string \<Rightarrow> string \<Rightarrow> gotime \<Rightarrow> entry" where
  "newEntry key val t = \<lparr>ekey = key, evalue = val, expiresAt = t, esize = memSize key val\<rparr>"

lemma visible_lookup_purge:
  assumes "db_ok d"
  shows "visible now d key = map_option (\<lambda>e. (evalue e, expiresAt e)) (lookup (purge key now d) key)"
  using purge_spec(5) [OF assms, of key now] by (auto simp: visible_def split: option.splits)

text \<open>\<^verbatim>\<open>Set\<close> is: lazy expiry, the NX and XX conditions, making room, storing the entry.\<close>

lemma Set_stages:
  assumes ok: "db_ok d"
  shows "Set key val opt now clock d =
    (let d1 = purge key now d; si = shardIndex key d; v = visible now d key in
     if Strategy (cfg d) = StrategyGlobalTrack \<and> MaxMemory (cfg d) < memSize key val then (Inl ErrOOM, d)
     else if optNX opt \<and> v \<noteq> None \<or> optXX opt \<and> v = None then (Inr False, d1)
     else case ensureSpace si key (needFor (lookup d1 key) (memSize key val)) (memSize key val) clock d1 of
       (Some err, d2) \<Rightarrow> (Inl err, d2)
     | (None, d2) \<Rightarrow> (let t = finalExpiry key opt now d
         in (Inr True, emit (setMutation key val t) (storeEntry si (newEntry key val t) d2))))"
proof -
  let ?d1 = "purge key now d" and ?si = "shardIndex key d" and ?n = "memSize key val"
  note pu = purge_spec [OF ok]
  have v: "visible now d key = None \<longleftrightarrow> lookup ?d1 key = None" by (simp add: visible_lookup_purge [OF ok])
  obtain r d2 where es: "ensureSpace ?si key (needFor (lookup ?d1 key) ?n) ?n clock ?d1 = (r, d2)" by fastforce
  have "?si < length (shards ?d1)" using ok shardIndex_less pu(4) by (simp add: db_ok_def)
  from ensureSpace_spec [OF pu(1) this needFor_le es] have f: "freed key ?d1 d2" by simp
  then have lk: "lookup d2 key = lookup ?d1 key" and ok2: "db_ok d2" by (simp_all add: freed_def)
  show ?thesis
  proof (cases "lookup ?d1 key")
    case None
    then have fe: "finalExpiry key opt now d = setExpiry opt now (MaxTTL (cfg d))"
      by (simp add: finalExpiry_def visible_lookup_purge [OF ok])
    show ?thesis
      using None lk v es fe
      by (cases r) (simp_all add: Set_def Let_def storeEntry_def newEntry_def)
  next
    case (Some old)
    then have fe: "finalExpiry key opt now d = (if keepsTTL opt then expiresAt old else setExpiry opt now (MaxTTL (cfg d)))"
      by (simp add: finalExpiry_def visible_lookup_purge [OF ok])
    have "ekey old = key" using lookup_entry [OF pu(1) Some] by simp
    then have "old\<lparr>evalue := val, esize := ?n, expiresAt := t\<rparr> = newEntry key val t" for t
      by (cases old) (simp add: newEntry_def)
    then show ?thesis
      using Some lk v es fe
      by (cases r) (simp_all add: Set_def Let_def storeEntry_def newEntry_def)
  qed
qed


text \<open>
  The behaviour of \<^verbatim>\<open>Set\<close>. \<open>evicted d d'\<close>: keys of \<open>d\<close> other than the written one are as
  before or have been evicted, and only admissible ones have.
\<close>

definition evicted :: "string \<Rightarrow> DB \<Rightarrow> DB \<Rightarrow> bool" where
  "evicted key d d' \<longleftrightarrow> (\<forall>k. k \<noteq> key \<longrightarrow> lookup d' k = lookup d k \<or>
     lookup d' k = None \<and> (\<exists>e. lookup d k = Some e \<and> eligible (Policy (cfg d)) (expiresAt e)))"

lemma freed_evicted: "freed key d d' \<Longrightarrow> evicted key d d'"
proof -
  assume f: "freed key d d'"
  show ?thesis unfolding evicted_def
  proof (intro allI impI)
    fix k assume "k \<noteq> key"
    show "lookup d' k = lookup d k \<or> lookup d' k = None \<and> (\<exists>e. lookup d k = Some e \<and> eligible (Policy (cfg d)) (expiresAt e))"
    proof (cases "lookup d' k")
      case None
      with f show ?thesis by (cases "lookup d k") (auto simp: freed_def)
    next
      case (Some e)
      with f have "lookup d k = Some e" by (force simp: freed_def map_le_def dom_def)
      with Some show ?thesis by simp
    qed
  qed
qed

lemma emit_frame [simp]:
  "cfg (emit m d) = cfg d" "shards (emit m d) = shards d" "used (emit m d) = used d"
  "sink (emit m d) = map_option (\<lambda>l. l @ [m]) (sink d)" "loadOf si (emit m d) = loadOf si d"
  "limitOf si (emit m d) = limitOf si d" "evicted key d0 (emit m d) = evicted key d0 d" "expH (emit m d) = expH d"
  by (simp_all add: emit_def loadOf_def limitOf_def evicted_def) (simp_all add: emit_def [symmetric])

lemma evicted_purge:
  assumes "db_ok d" "evicted key (purge key now d) d'"
  shows "evicted key d d'"
  using assms(2) purge_spec(6) [OF assms(1), of _ key now] purge_spec(3) [OF assms(1), of key now]
  by (simp add: evicted_def)

lemma Set_spec:
  assumes ok: "db_ok d" and s: "Set key val opt now clock d = (r, d')"
  shows "db_ok d'" "cfg d' = cfg d" "evicted key d d'"
    "r = Inr True \<Longrightarrow> lookup d' key = Some (newEntry key val (finalExpiry key opt now d)) \<and>
       loadOf (shardIndex key d') d' \<le> limitOf (shardIndex key d') d' \<and>
       sink d' = map_option (\<lambda>l. l @ [setMutation key val (finalExpiry key opt now d)]) (sink d)"
    "r \<noteq> Inr True \<Longrightarrow> visible now d' key = visible now d key \<and> sink d' = sink d"
    "r = Inr False \<Longrightarrow> optNX opt \<and> visible now d key \<noteq> None \<or> optXX opt \<and> visible now d key = None"
    "r = Inl err \<Longrightarrow> err = ErrOOM"
    "map budget (shards d') = map budget (shards d)"
proof -
  let ?d1 = "purge key now d" and ?si = "shardIndex key d" and ?n = "memSize key val"
  let ?t = "finalExpiry key opt now d"
  note pu = purge_spec [OF ok]
  have c: "cfg_ok d" using ok by (simp add: db_ok_def)
  have lt: "?si < length (shards ?d1)" using shardIndex_less [OF c] pu(4) by simp
  obtain x d2 where es: "ensureSpace ?si key (needFor (lookup ?d1 key) ?n) ?n clock ?d1 = (x, d2)" by fastforce
  note sp = ensureSpace_spec [OF pu(1) lt needFor_le es]
  have f: "freed key ?d1 d2" using sp by simp
  have f2: "db_ok d2" "lookup d2 key = lookup ?d1 key" "cfg d2 = cfg d" "sink d2 = sink d"
    "map budget (shards d2) = map budget (shards d)"
    using f pu(3,7,8) by (simp_all add: freed_def)
  have len2: "length (shards d2) = length (shards d)" using f2(5) by (metis length_map)
  have vis: "visible now x key = visible now d key" if "lookup x key = lookup ?d1 key" for x
  proof -
    have "visible now x key = visible now ?d1 key" using that by (simp add: visible_def)
    then show ?thesis by (simp add: pu(2))
  qed
  have ev2: "evicted key d d2" by (rule evicted_purge [OF ok freed_evicted [OF f]])
  have ev1: "evicted key d ?d1" by (rule evicted_purge [OF ok, of key now]) (simp add: evicted_def)
  note st = s [unfolded Set_stages [OF ok] Let_def]
  let ?res = "db_ok d' \<and> cfg d' = cfg d \<and> evicted key d d' \<and>
    (r = Inr True \<longrightarrow> lookup d' key = Some (newEntry key val ?t) \<and>
       loadOf (shardIndex key d') d' \<le> limitOf (shardIndex key d') d' \<and>
       sink d' = map_option (\<lambda>l. l @ [setMutation key val ?t]) (sink d)) \<and>
    (r \<noteq> Inr True \<longrightarrow> visible now d' key = visible now d key \<and> sink d' = sink d) \<and>
    (r = Inr False \<longrightarrow> optNX opt \<and> visible now d key \<noteq> None \<or> optXX opt \<and> visible now d key = None) \<and>
    (\<forall>x. r = Inl x \<longrightarrow> x = ErrOOM) \<and> map budget (shards d') = map budget (shards d)"
  consider (big) "Strategy (cfg d) = StrategyGlobalTrack \<and> MaxMemory (cfg d) < ?n"
    | (cond) "\<not> (Strategy (cfg d) = StrategyGlobalTrack \<and> MaxMemory (cfg d) < ?n)"
        "optNX opt \<and> visible now d key \<noteq> None \<or> optXX opt \<and> visible now d key = None"
    | (oom) e where "\<not> (Strategy (cfg d) = StrategyGlobalTrack \<and> MaxMemory (cfg d) < ?n)"
        "\<not> (optNX opt \<and> visible now d key \<noteq> None \<or> optXX opt \<and> visible now d key = None)" "x = Some e"
    | (store) "\<not> (Strategy (cfg d) = StrategyGlobalTrack \<and> MaxMemory (cfg d) < ?n)"
        "\<not> (optNX opt \<and> visible now d key \<noteq> None \<or> optXX opt \<and> visible now d key = None)" "x = None"
    by (cases x) blast+
  then have ?res
  proof cases
    case big
    then have "r = Inl ErrOOM" "d' = d" using st by simp_all
    then show ?thesis using ok by (simp add: evicted_def)
  next
    case cond
    then have "r = Inr False" "d' = ?d1" using st by (simp_all split: if_splits)
    then show ?thesis using pu(1,3,7,8) ev1 vis cond(2) by simp
  next
    case oom
    have "r = Inl e" "d' = d2" using st [unfolded if_not_P [OF oom(1)] if_not_P [OF oom(2)] es oom(3)] by simp_all
    then show ?thesis using f2 ev2 vis sp oom by simp
  next
    case store
    let ?e = "newEntry key val ?t"
    let ?d3 = "storeEntry ?si ?e d2"
    have rd: "r = Inr True" "d' = emit (setMutation key val ?t) ?d3"
      using st [unfolded if_not_P [OF store(1)] if_not_P [OF store(2)] es store(3)] by simp_all
    have si: "?si = shardIndex key d2" by (simp add: shardIndex_def len2)
    have e: "ekey ?e = key" "esize ?e = memSize key (evalue ?e)" "esize ?e = ?n" by (simp_all add: newEntry_def)
    have "loadOf ?si d2 + needFor (lookup d2 key) (esize ?e) \<le> limitOf ?si d2"
      using sp store(3) f2(2) e(3) by simp
    note w = storeEntry_spec [OF f2(1) si e(1,2) this]
    have len3: "length (shards ?d3) = length (shards d2)" using w(5) by (metis length_map)
    have "length (shards d') = length (shards d)" using len3 len2 by (simp add: rd emit_def)
    then have "shardIndex key d' = ?si" by (simp add: shardIndex_def)
    moreover have "evicted key d ?d3" using ev2 w(2) by (simp add: evicted_def)
    ultimately show ?thesis
      using w f2 unfolding rd by simp
  qed
  then show "db_ok d'" "cfg d' = cfg d" "evicted key d d'"
    "r = Inr True \<Longrightarrow> lookup d' key = Some (newEntry key val (finalExpiry key opt now d)) \<and>
       loadOf (shardIndex key d') d' \<le> limitOf (shardIndex key d') d' \<and>
       sink d' = map_option (\<lambda>l. l @ [setMutation key val (finalExpiry key opt now d)]) (sink d)"
    "r \<noteq> Inr True \<Longrightarrow> visible now d' key = visible now d key \<and> sink d' = sink d"
    "r = Inr False \<Longrightarrow> optNX opt \<and> visible now d key \<noteq> None \<or> optXX opt \<and> visible now d key = None"
    "r = Inl err \<Longrightarrow> err = ErrOOM" "map budget (shards d') = map budget (shards d)"
    by blast+
qed


section \<open>Del, Exists and Type\<close>

lemma delOne_spec:
  assumes "db_ok d" "delOne key now d = (n, d')"
  shows "db_ok d'" "lookup d' = (lookup d)(key := None)" "n = (if visible now d key \<noteq> None then 1 else 0)"
    "cfg d' = cfg d"
proof -
  have "db_ok d' \<and> lookup d' = (lookup d)(key := None) \<and> n = (if visible now d key \<noteq> None then 1 else 0) \<and> cfg d' = cfg d"
  proof (cases "lookup d key")
    case None
    with assms show ?thesis by (auto simp: delOne_def visible_def)
  next
    case (Some e)
    note r = dropKey_spec [OF assms(1) Some]
    show ?thesis using assms(2) Some r by (cases "expired now e") (auto simp: delOne_def visible_def)
  qed
  then show "db_ok d'" "lookup d' = (lookup d)(key := None)" "n = (if visible now d key \<noteq> None then 1 else 0)"
    "cfg d' = cfg d" by simp_all
qed

lemma Del_spec:
  assumes "db_ok d" "Del keys now d = (n, d')"
  shows "db_ok d' \<and> (\<forall>k. lookup d' k = (if k \<in> set keys then None else lookup d k)) \<and>
    n = int (card {k \<in> set keys. visible now d k \<noteq> None}) \<and> cfg d' = cfg d"
  using assms
proof (induction keys arbitrary: d n)
  case (Cons key keys)
  obtain a d1 where a: "delOne key now d = (a, d1)" by fastforce
  obtain m where r: "n = a + m" and m: "Del keys now d1 = (m, d')"
    using Cons.prems(2) a by (auto split: prod.splits)
  note o = delOne_spec [OF Cons.prems(1) a]
  note IH = Cons.IH [OF o(1) m]
  have v1: "visible now d1 k = (if k = key then None else visible now d k)" for k
    using o(2) by (simp add: visible_def)
  have eq: "{k \<in> set (key # keys). visible now d k \<noteq> None} =
      (if visible now d key \<noteq> None then {key} else {}) \<union> {k \<in> set keys. visible now d1 k \<noteq> None}"
    by (auto simp: v1)
  have "card {k \<in> set (key # keys). visible now d k \<noteq> None} =
      (if visible now d key \<noteq> None then 1 else 0) + card {k \<in> set keys. visible now d1 k \<noteq> None}"
    unfolding eq by (subst card_Un_disjoint) (auto simp: v1)
  then show ?case using IH o r by auto
qed simp

lemma existsOne_spec:
  assumes "db_ok d" "existsOne key now d = (n, d')"
  shows "db_ok d'" "visible now d' = visible now d" "n = (if visible now d key \<noteq> None then 1 else 0)"
    "cfg d' = cfg d"
proof -
  have "db_ok d' \<and> visible now d' = visible now d \<and> n = (if visible now d key \<noteq> None then 1 else 0) \<and> cfg d' = cfg d"
  proof (cases "lookup d key")
    case None
    with assms show ?thesis by (auto simp: existsOne_def visible_def)
  next
    case (Some e)
    note r = dropKey_spec [OF assms(1) Some]
    show ?thesis
    proof (cases "expired now e")
      case True
      with assms(2) Some r visible_drop_expired [OF Some True, of d'] show ?thesis
        by (auto simp: existsOne_def visible_def)
    next
      case False
      with assms Some show ?thesis by (auto simp: existsOne_def visible_def)
    qed
  qed
  then show "db_ok d'" "visible now d' = visible now d" "n = (if visible now d key \<noteq> None then 1 else 0)"
    "cfg d' = cfg d" by simp_all
qed

lemma Exists_spec:
  assumes "db_ok d" "Exists keys now d = (n, d')"
  shows "db_ok d' \<and> visible now d' = visible now d \<and>
    n = int (length (filter (\<lambda>k. visible now d k \<noteq> None) keys)) \<and> cfg d' = cfg d"
  using assms
proof (induction keys arbitrary: d n)
  case (Cons key keys)
  obtain a d1 where a: "existsOne key now d = (a, d1)" by fastforce
  obtain m where r: "n = a + m" and m: "Exists keys now d1 = (m, d')"
    using Cons.prems(2) a by (auto split: prod.splits)
  note o = existsOne_spec [OF Cons.prems(1) a]
  note IH = Cons.IH [OF o(1) m]
  show ?case using IH o r by simp
qed simp

section \<open>Changing the expiry of a key\<close>

lemma shardSetExp_spec:
  assumes ok: "db_ok d" and e: "lookup d k = Some e" and si: "si = shardIndex k d"
    and d': "d' = (setShard si (shardSetExp k t (shards d ! si)) d)\<lparr>expH := noteExpiry k t (expH d)\<rparr>"
  shows "db_ok d'" "lookup d' = (lookup d)(k \<mapsto> e\<lparr>expiresAt := t\<rparr>)" "cfg d' = cfg d" "used d' = used d"
proof -
  let ?sh = "shards d ! si" and ?e = "e\<lparr>expiresAt := t\<rparr>"
  have c: "cfg_ok d" and g: "globals_ok d" and x: "exp_ok d" using ok by (auto simp: db_ok_def)
  have lt: "si < length (shards d)" using shardIndex_less [OF c] si by simp
  have shok: "shard_ok (length (shards d)) si ?sh" using ok lt by (auto simp: db_ok_def shards_ok_def)
  have e': "map_of (sdata ?sh) k = Some e" using e si by (simp add: lookup_def theShard_def)
  have ek: "ekey ?e = k" "esize ?e = memSize k (evalue ?e)" using lookup_entry [OF ok e] by simp_all
  have s1: "shardSetExp k t ?sh = ?sh\<lparr>sused := sused ?sh, sdata := AList.update k ?e (sdata ?sh),
      sttl := noteExpiry k (expiresAt ?e) (sttl ?sh)\<rparr>"
    using e' by (simp add: shardSetExp_def)
  have shok': "shard_ok (length (shards d)) si (shardSetExp k t ?sh)"
    by (rule shardOverwrite_ok(1) [OF shok e' ek s1]) simp
  have sh: "shards d' = (shards d)[si := shardSetExp k t ?sh]" by (simp add: d' setShard_def)
  show cf: "cfg d' = cfg d" and us: "used d' = used d" by (simp_all add: d' setShard_def)
  show lk: "lookup d' = (lookup d)(k \<mapsto> ?e)"
    by (rule lookup_update_shard [OF c sh si]) (simp add: s1 map_of_update_conv)
  have ke: "keysOf d' = keysOf d" using e by (auto simp: keysOf_def lk)
  have "globals_ok d'" by (rule globals_ok_cong [OF g ke]) (simp_all add: d' setShard_def)
  moreover have "exp_ok d'" by (rule exp_ok_note [OF x _ lk]) (simp add: d' setShard_def)
  moreover have "sused ?sh \<le> MaxMemory (cfg d)" using ok lt by (simp add: db_ok_def fits_def)
  ultimately show "db_ok d'"
    using shok' us by (intro db_ok_update_shard [OF ok lt sh cf]) (simp_all add: s1)
qed

lemma setExpireAt_spec:
  assumes ok: "db_ok d" and s: "setExpireAt key at now d = (n, d')"
  shows "db_ok d'" "n = (if visible now d key \<noteq> None then 1 else 0)" "cfg d' = cfg d"
    "visible now d key = None \<Longrightarrow> visible now d' = visible now d"
    "visible now d key = Some (v, t) \<Longrightarrow> lookup d' = (lookup d)(key \<mapsto> newEntry key v at)"
proof -
  have "db_ok d' \<and> n = (if visible now d key \<noteq> None then 1 else 0) \<and> cfg d' = cfg d \<and>
    (visible now d key = None \<longrightarrow> visible now d' = visible now d) \<and>
    (\<forall>v t. visible now d key = Some (v, t) \<longrightarrow> lookup d' = (lookup d)(key \<mapsto> newEntry key v at))"
  proof (cases "lookup d key")
    case None
    with ok s show ?thesis by (auto simp: setExpireAt_def visible_def)
  next
    case (Some e)
    show ?thesis
    proof (cases "expired now e")
      case True
      with s Some dropKey_spec [OF ok Some] visible_drop_expired [OF Some True, of d'] show ?thesis
        by (auto simp: setExpireAt_def visible_def)
    next
      case False
      let ?d2 = "(setShard (shardIndex key d) (shardSetExp key at (shards d ! shardIndex key d)) d)
        \<lparr>expH := noteExpiry key at (expH d)\<rparr>"
      have d': "n = 1" "d' = emit \<lparr>mOp = ''EXPIRE'', mKey = key, mValue = [], mKeys = [], mExpiresAt = at\<rparr> ?d2"
        using s Some False by (simp_all add: setExpireAt_def noteDB_def setShard_def Let_def)
      note sp = shardSetExp_spec [OF ok Some refl refl, of at]
      have "e\<lparr>expiresAt := at\<rparr> = newEntry key (evalue e) at"
        using lookup_entry [OF ok Some] by (cases e) (simp add: newEntry_def)
      with sp d' Some False show ?thesis by (auto simp: visible_def)
    qed
  qed
  then show "db_ok d'" "n = (if visible now d key \<noteq> None then 1 else 0)" "cfg d' = cfg d"
    "visible now d key = None \<Longrightarrow> visible now d' = visible now d"
    "visible now d key = Some (v, t) \<Longrightarrow> lookup d' = (lookup d)(key \<mapsto> newEntry key v at)"
    by blast+
qed

lemma Persist_spec:
  assumes ok: "db_ok d" and s: "Persist key now d = (n, d')"
  shows "db_ok d' \<and> cfg d' = cfg d \<and> (case visible now d key of
      Some (v, t) \<Rightarrow> if IsZero t then n = 0 \<and> visible now d' = visible now d
        else n = 1 \<and> lookup d' = (lookup d)(key \<mapsto> newEntry key v 0)
    | None \<Rightarrow> n = 0 \<and> visible now d' = visible now d)"
proof (cases "lookup d key")
  case None
  with ok s show ?thesis by (auto simp: Persist_def visible_def)
next
  case (Some e)
  show ?thesis
  proof (cases "expired now e")
    case True
    with s Some dropKey_spec [OF ok Some] visible_drop_expired [OF Some True, of d'] show ?thesis
      by (auto simp: Persist_def visible_def)
  next
    case live: False
    show ?thesis
    proof (cases "IsZero (expiresAt e)")
      case True
      with s Some ok live show ?thesis by (auto simp: Persist_def visible_def)
    next
      case False
      let ?d2 = "(setShard (shardIndex key d) (shardSetExp key 0 (shards d ! shardIndex key d)) d)
        \<lparr>expH := noteExpiry key 0 (expH d)\<rparr>"
      have d': "n = 1" "d' = emit \<lparr>mOp = ''PERSIST'', mKey = key, mValue = [], mKeys = [], mExpiresAt = 0\<rparr> ?d2"
        using s Some live False by (simp_all add: Persist_def clearDB_def setShard_def noteExpiry_eq Let_def)
      note sp = shardSetExp_spec [OF ok Some refl refl, of 0]
      have "e\<lparr>expiresAt := 0\<rparr> = newEntry key (evalue e) 0"
        using lookup_entry [OF ok Some] by (cases e) (simp add: newEntry_def)
      with sp d' Some False live show ?thesis by (auto simp: visible_def)
    qed
  qed
qed

lemma PTTL_spec:
  assumes ok: "db_ok d" and s: "PTTL key now d = (n, d')"
  shows "db_ok d' \<and> visible now d' = visible now d \<and> cfg d' = cfg d \<and>
    n = (case visible now d key of None \<Rightarrow> -2 | Some (v, t) \<Rightarrow> if IsZero t then -1
           else min maxDuration (t - now) div millisecond)"
proof (cases "lookup d key")
  case None
  with ok s show ?thesis by (auto simp: PTTL_def visible_def)
next
  case (Some e)
  show ?thesis
  proof (cases "expired now e")
    case True
    with s Some dropKey_spec [OF ok Some] visible_drop_expired [OF Some True, of d'] show ?thesis
      by (auto simp: PTTL_def visible_def)
  next
    case live: False
    show ?thesis
    proof (cases "IsZero (expiresAt e)")
      case True
      with s Some ok live show ?thesis by (auto simp: PTTL_def visible_def)
    next
      case False
      with live have "now < expiresAt e" by (simp add: expired_def)
      then have ts: "timeSub (expiresAt e) now = min maxDuration (expiresAt e - now)"
        "0 \<le> min maxDuration (expiresAt e - now)"
        by (auto simp: timeSub_def maxDuration_def minDuration_def)
      define u where "u = min maxDuration (expiresAt e - now)"
      then have "0 \<le> u" "0 \<le> u div millisecond"
        using ts(2) by (simp_all add: millisecond_def pos_imp_zdiv_nonneg_iff)
      then have "n = u div millisecond" "d' = d"
        using ts(1) s Some live False by (simp_all add: PTTL_def u_def [symmetric])
      with Some ok live False show ?thesis by (simp add: visible_def u_def)
    qed
  qed
qed


section \<open>IncrBy\<close>

definition counterOf :: "(string \<times> gotime) option \<Rightarrow> numError + int" where
  "counterOf v = (case v of Some (x, _) \<Rightarrow> ParseInt x | None \<Rightarrow> Inr 0)"

definition incrOptions :: "(string \<times> gotime) option \<Rightarrow> SetOptions" where
  "incrOptions v = (case v of
     Some (_, t) \<Rightarrow> if \<not> IsZero t then noOptions\<lparr>HasExpireAt := True, ExpireAt := t\<rparr> else noOptions
   | None \<Rightarrow> noOptions)"

lemma incrOptions_simps [simp]:
  "\<not> optNX (incrOptions v)" "\<not> optXX (incrOptions v)" "\<not> keepsTTL (incrOptions v)"
  by (auto simp: incrOptions_def noOptions_def keepsTTL_def split: option.splits prod.splits)

lemma IncrBy_stages:
  assumes ok: "db_ok d"
  obtains d1 where "db_ok d1" "cfg d1 = cfg d" "visible now d1 = visible now d"
    "\<And>k. k \<noteq> key \<Longrightarrow> lookup d1 k = lookup d k" "sink d1 = sink d"
    "IncrBy key delta now now1 clock d =
      (case counterOf (visible now d key) of
         Inl _ \<Rightarrow> (Inl ErrNotInteger, d1)
       | Inr cur \<Rightarrow> (case Set key (FormatInt (wrap64 (cur + delta))) (incrOptions (visible now d key)) now1 clock d1 of
           (Inl err, d2) \<Rightarrow> (Inl err, d2) | (Inr _, d2) \<Rightarrow> (Inr (wrap64 (cur + delta)), d2)))"
proof (cases "lookup d key")
  case None
  then show thesis
    by (intro that [of d])
      (simp_all add: ok IncrBy_def counterOf_def incrOptions_def visible_def Let_def split: prod.splits sum.splits)
next
  case (Some e)
  let ?d1 = "removeFromShard (shardIndex key d) e False d"
  note r = removeFromShard_spec [OF ok Some refl]
  show thesis
  proof (cases "expired now e")
    case True
    then show thesis
      by (intro that [of ?d1])
        (simp_all add: r Some IncrBy_def counterOf_def incrOptions_def visible_def Let_def fun_eq_iff
          split: prod.splits sum.splits)
  next
    case False
    with Some have v: "visible now d key = Some (evalue e, expiresAt e)" by (simp add: visible_def)
    from Some False show thesis
      by (cases "ParseInt (evalue e)"; intro that [of d])
        (simp_all add: ok IncrBy_def counterOf_def incrOptions_def v Let_def)
  qed
qed

lemma IncrBy_spec:
  assumes ok: "db_ok d" and i: "IncrBy key delta now now1 clock d = (r, d')"
  shows "db_ok d' \<and> cfg d' = cfg d \<and> evicted key d d' \<and>
    (case counterOf (visible now d key) of
       Inl _ \<Rightarrow> r = Inl ErrNotInteger \<and> visible now d' = visible now d \<and> sink d' = sink d
     | Inr cur \<Rightarrow> r = Inl ErrOOM \<and> sink d' = sink d \<or>
         r = Inr (wrap64 (cur + delta)) \<and>
         lookup d' key = Some (newEntry key (FormatInt (wrap64 (cur + delta)))
           (setExpiry (incrOptions (visible now d key)) now1 (MaxTTL (cfg d)))))"
proof -
  let ?v = "visible now d key"
  from IncrBy_stages [OF ok, of now key delta now1 clock] obtain d1 where d1: "db_ok d1" "cfg d1 = cfg d"
    "visible now d1 = visible now d" "\<And>k. k \<noteq> key \<Longrightarrow> lookup d1 k = lookup d k" "sink d1 = sink d"
    and st: "IncrBy key delta now now1 clock d =
      (case counterOf ?v of
         Inl _ \<Rightarrow> (Inl ErrNotInteger, d1)
       | Inr cur \<Rightarrow> (case Set key (FormatInt (wrap64 (cur + delta))) (incrOptions ?v) now1 clock d1 of
           (Inl err, d2) \<Rightarrow> (Inl err, d2) | (Inr _, d2) \<Rightarrow> (Inr (wrap64 (cur + delta)), d2)))" by blast
  have ev: "evicted key d x" if "evicted key d1 x" for x using that d1(2,4) by (simp add: evicted_def)
  show ?thesis
  proof (cases "counterOf ?v")
    case (Inl err)
    with st i have "r = Inl ErrNotInteger" "d' = d1" by simp_all
    with Inl d1 show ?thesis by (simp add: evicted_def)
  next
    case (Inr cur)
    let ?n = "wrap64 (cur + delta)"
    obtain x d2 where s: "Set key (FormatInt ?n) (incrOptions ?v) now1 clock d1 = (x, d2)" by fastforce
    note sp = Set_spec [OF d1(1) s]
    have fe: "finalExpiry key (incrOptions ?v) now1 d1 = setExpiry (incrOptions ?v) now1 (MaxTTL (cfg d))"
      by (simp add: finalExpiry_def d1(2) split: option.splits)
    show ?thesis
    proof (cases x)
      case (Inl err)
      with st i Inr s have "r = Inl err" "d' = d2" by simp_all
      with sp(1,2,5) sp(7) [OF Inl] ev [OF sp(3)] Inl Inr d1 show ?thesis by simp
    next
      case x: (Inr b)
      have b: "b" using sp(6) x by auto
      with st i Inr s x have "r = Inr ?n" "d' = d2" by simp_all
      with sp(1,2) sp(4) ev [OF sp(3)] x b Inr d1 fe show ?thesis by simp
    qed
  qed
qed

section \<open>Reconfiguration\<close>

lemma SetEvictionPolicy_spec:
  assumes "db_ok d"
  shows "db_ok (SetEvictionPolicy p d) \<and> lookup (SetEvictionPolicy p d) = lookup d"
proof -
  have "lookup (SetEvictionPolicy p d) = lookup d"
    by (rule lookup_cong) (simp add: SetEvictionPolicy_def Let_def)
  then show ?thesis
    using assms unfolding db_ok_def cfg_ok_def shards_ok_def fits_def globals_ok_def exp_ok_def keysOf_def
    by (simp add: SetEvictionPolicy_def Let_def)
qed

lemma dllFresh_fold:
  "dprev (fold dllFresh es x) e = (if e \<in> set es then None else dprev x e)"
  "dnext (fold dllFresh es x) e = (if e \<in> set es then None else dnext x e)"
  by (induction es arbitrary: x) (auto simp: dllFresh_def)

lemma clear_empty:
  assumes "dll_inv x" "dll_set x \<subseteq> set es"
  shows "(dllClear es x)\<lparr>dhead := None, dtail := None\<rparr> = dllEmpty"
proof -
  have "dprev x e = None \<and> dnext x e = None" if "e \<notin> set es" for e
    using dll_inv_rep [OF assms(1)] assms(2) that by (auto simp: dll_rep_def dll_set_def)
  then have "dprev (dllClear es x) = (\<lambda>_. None)" "dnext (dllClear es x) = (\<lambda>_. None)"
    by (auto simp: dllClear_def dllFresh_fold fun_eq_iff)
  then show ?thesis by (simp add: dllEmpty_def)
qed

lemma local_lists:
  assumes "db_ok d" "sh \<in> set (shards d)"
  shows "localOrder sh = dll_list (slru sh)" "localFifo sh = dll_list (sfifo sh)"
    "set (localOrder sh) = skeys sh" "set (localFifo sh) = skeys sh" "distinct (localOrder sh)" "distinct (localFifo sh)"
proof -
  from assms(2) obtain i where i: "i < length (shards d)" "sh = shards d ! i" unfolding in_set_conv_nth by blast
  have io: "indexes_ok sh" and ds: "distinct (map fst (sdata sh))"
    using shard_parts [OF assms(1) i(1)] i(2) by (simp_all add: entries_ok_def)
  show l: "localOrder sh = dll_list (slru sh)" "localFifo sh = dll_list (sfifo sh)"
    using local_walk [OF io ds] by (simp_all add: localOrder_def localFifo_def)
  have inv: "dll_inv (slru sh)" "dll_inv (sfifo sh)" "dll_set (slru sh) = skeys sh" "dll_set (sfifo sh) = skeys sh"
    using io by (simp_all add: indexes_ok_def)
  then show "set (localOrder sh) = skeys sh" "set (localFifo sh) = skeys sh" "distinct (localOrder sh)" "distinct (localFifo sh)"
    by (simp_all add: l dll_set_def ol.distinct_order)
qed

lemma skeys_disjoint:
  assumes "db_ok d" "i < j" "j < length (shards d)"
  shows "skeys (shards d ! i) \<inter> skeys (shards d ! j) = {}"
  using skeys_lookup [OF assms(1), of i] skeys_lookup [OF assms(1,3)] assms(2,3) by auto

lemma all_lists:
  assumes ok: "db_ok d"
  shows "set (concat (map localOrder (shards d))) = keysOf d" "distinct (concat (map localOrder (shards d)))"
    "set (concat (map localFifo (shards d))) = keysOf d" "distinct (concat (map localFifo (shards d)))"
proof -
  show "set (concat (map localOrder (shards d))) = keysOf d" "set (concat (map localFifo (shards d))) = keysOf d"
    unfolding keysOf_shards [OF ok] by (simp_all add: local_lists(3,4) [OF ok])
  show "distinct (concat (map localOrder (shards d)))" "distinct (concat (map localFifo (shards d)))"
    by (rule distinct_concat_disjoint;
        use local_lists [OF ok] skeys_disjoint [OF ok] in \<open>auto simp del: disjoint_iff\<close>)+
qed

lemma rebuild_fold:
  "fold (\<lambda>sh d. let d1 = d\<lparr>gLru := fold dllPushTail (localOrder sh) (gLru d)\<rparr>
        in d1\<lparr>gFifo := fold dllPushTail (localFifo sh) (gFifo d1)\<rparr>) shs d =
   d\<lparr>gLru := fold dllPushTail (concat (map localOrder shs)) (gLru d),
     gFifo := fold dllPushTail (concat (map localFifo shs)) (gFifo d)\<rparr>"
  by (induction shs arbitrary: d) (simp_all add: Let_def)


lemma clearGlobals:
  assumes ok: "db_ok d"
  shows "gLru (clearGlobalOrderLists d) = dllEmpty" "gFifo (clearGlobalOrderLists d) = dllEmpty"
proof -
  have g: "dll_inv (gLru d)" "dll_set (gLru d) \<subseteq> keysOf d" "dll_inv (gFifo d)" "dll_set (gFifo d) \<subseteq> keysOf d"
    using ok by (auto simp: db_ok_def globals_ok_def split: if_splits)
  have "dllClear (concat (map localOrder (shards d))) x\<lparr>dhead := None, dtail := None\<rparr> = dllEmpty"
    if "dll_inv x" "dll_set x \<subseteq> keysOf d" for x
    by (rule clear_empty [OF that(1)]) (simp only: all_lists(1) [OF ok] that(2))
  with g show "gLru (clearGlobalOrderLists d) = dllEmpty" "gFifo (clearGlobalOrderLists d) = dllEmpty"
    by (simp_all add: clearGlobalOrderLists_def Let_def)
qed

text \<open>
  Switching the strategy keeps data, counters and invariant. Entering the tenant-wide
  strategy rebuilds the lists: shard by shard, each shard's order kept.
\<close>

lemma SetShardingStrategy_spec:
  assumes ok: "db_ok d"
  shows "db_ok (SetShardingStrategy s d) \<and> lookup (SetShardingStrategy s d) = lookup d \<and>
    (Strategy (cfg d) \<noteq> StrategyGlobalTrack \<longrightarrow> Strategy (cfg (SetShardingStrategy s d)) = StrategyGlobalTrack \<longrightarrow>
       dll_list (gLru (SetShardingStrategy s d)) = concat (map (\<lambda>sh. dll_list (slru sh)) (shards d)) \<and>
       dll_list (gFifo (SetShardingStrategy s d)) = concat (map (\<lambda>sh. dll_list (sfifo sh)) (shards d)))"
proof -
  define s' where "s' = (if s < StrategyGlobalTrack \<or> StrategyShardBudget < s then StrategyGlobalTrack else s)"
  define es where "es = concat (map localOrder (shards d))"
  define fs where "fs = concat (map localFifo (shards d))"
  define d2 where "d2 = (let d1 = clearGlobalOrderLists d in d1\<lparr>cfg := (cfg d1)\<lparr>Strategy := s'\<rparr>\<rparr>)"
  have d2: "gLru d2 = dllEmpty" "gFifo d2 = dllEmpty" "shards d2 = shards d" "cfg d2 = (cfg d)\<lparr>Strategy := s'\<rparr>"
    "used d2 = used d" "expH d2 = expH d"
    using clearGlobals [OF ok] by (simp_all add: d2_def Let_def) (simp_all add: clearGlobalOrderLists_def Let_def)
  define d3 where "d3 = (if s' = StrategyGlobalTrack then rebuildGlobalOrderLists d2 else d2)"
  have S: "SetShardingStrategy s d = (if Strategy (cfg d) = s' then d else d3)"
    unfolding SetShardingStrategy_def Let_def s'_def [symmetric] d3_def d2_def by simp
  show ?thesis
  proof (cases "Strategy (cfg d) = s'")
    case True
    then show ?thesis using ok S by simp
  next
    case False
    have d3: "shards d3 = shards d" "cfg d3 = (cfg d)\<lparr>Strategy := s'\<rparr>" "used d3 = used d" "expH d3 = expH d"
      "gLru d3 = (if s' = StrategyGlobalTrack then fold dllPushTail es dllEmpty else dllEmpty)"
      "gFifo d3 = (if s' = StrategyGlobalTrack then fold dllPushTail fs dllEmpty else dllEmpty)"
      unfolding d3_def rebuildGlobalOrderLists_def rebuild_fold by (simp_all add: d2 es_def fs_def)
    have lk: "lookup d3 = lookup d" by (rule lookup_cong [OF d3(1)])
    have l: "dll_inv (fold dllPushTail xs dllEmpty) \<and> dll_set (fold dllPushTail xs dllEmpty) = set xs \<and>
        dll_list (fold dllPushTail xs dllEmpty) = xs" if "distinct xs" for xs
      using ol.inv_members_fold_add [of dllEmpty xs] ol.order_fold_add [of dllEmpty xs] that by simp
    have e: "distinct es" "set es = keysOf d" "distinct fs" "set fs = keysOf d"
      using all_lists [OF ok] unfolding es_def fs_def by simp_all
    have ke: "keysOf d3 = keysOf d" by (simp add: keysOf_def lk)
    have "globals_ok d3" using l [OF e(1)] l [OF e(3)] e(2,4) by (simp add: globals_ok_def d3(2,5,6) ke)
    moreover have "StrategyGlobalTrack \<le> s'" "s' \<le> StrategyShardBudget" by (auto simp: s'_def strategy_defs)
    ultimately have "db_ok d3"
      using ok by (simp add: db_ok_def cfg_ok_def shards_ok_def fits_def exp_ok_def lk d3(1-4))
    moreover have "es = concat (map (\<lambda>sh. dll_list (slru sh)) (shards d))" "fs = concat (map (\<lambda>sh. dll_list (sfifo sh)) (shards d))"
      unfolding es_def fs_def using local_lists(1,2) [OF ok] by (simp_all cong: map_cong)
    ultimately show ?thesis
      using S False lk l [OF e(1)] l [OF e(3)] d3 by simp
  qed
qed

section \<open>Active expiry\<close>

lemma deleteIfExpired_spec:
  assumes "db_ok d" "deleteIfExpired key now d = (b, d')"
  shows "db_ok d' \<and> visible now d' = visible now d \<and> cfg d' = cfg d \<and>
    (b \<longleftrightarrow> (\<exists>e. lookup d key = Some e \<and> expired now e)) \<and>
    (b \<longrightarrow> lookup d' = (lookup d)(key := None) \<and> expH d' = clearExpiry key (expH d)) \<and> (\<not> b \<longrightarrow> d' = d)"
proof (cases "lookup d key")
  case None
  with assms show ?thesis by (auto simp: deleteIfExpired_def)
next
  case (Some e)
  show ?thesis
  proof (cases "expired now e")
    case True
    then have d': "b = True" "d' = dropKey key e d" using assms(2) Some by (simp_all add: deleteIfExpired_def)
    have "expH d' = clearExpiry key (expH d)"
      using removeFromShard_spec(5) [OF assms(1) Some refl] by (simp add: d' dropKey_def clearDB_def)
    with dropKey_spec [OF assms(1) Some] visible_drop_expired [OF Some True, of d'] Some True d' show ?thesis by simp
  next
    case False
    with assms Some show ?thesis by (auto simp: deleteIfExpired_def)
  qed
qed

lemma clear_shrinks:
  assumes "heap_inv h" "deadlines h k \<noteq> None"
  shows "Suc (length (hitems (clearExpiry k h))) = length (hitems h)"
proof -
  from assms obtain i where i: "hidx h k = Some i" using hidx_None [OF assms(1), of k] by auto
  have "hitems h \<noteq> []" using assms heap_nil by auto
  then show ?thesis using i by (cases "hitems h") (simp_all add: clearExpiry_def)
qed

text \<open>An item that is due but whose key is gone is taken off the heap.\<close>

lemma expireLoop_stale:
  assumes ok: "db_ok d" and h: "hitems (expH d) = item # rest" "\<not> now < iat item"
    and p: "deleteIfExpired (ikey item) now d = (False, d1)" and lt: "removed < limit"
  shows "lookup d (ikey item) = None"
    "expireLoop (Suc n) removed limit now d = expireLoop n removed limit now (clearDB (ikey item) d)"
proof -
  have hi: "heap_inv (expH d)" and dl: "\<And>k e. lookup d k = Some e \<Longrightarrow> deadlines (expH d) k = deadline e"
    using ok by (auto simp: db_ok_def exp_ok_def)
  note root = heap_root [OF hi h(1)] and q = deleteIfExpired_spec [OF ok p]
  show "lookup d (ikey item) = None"
  proof (rule ccontr)
    assume "lookup d (ikey item) \<noteq> None"
    then obtain e where e: "lookup d (ikey item) = Some e" by blast
    then have "deadline e = Some (iat item)" using dl root(1) by simp
    then have "expired now e" using h(2) by (auto simp: deadline_def expired_def split: if_splits)
    with e q show False by blast
  qed
  have "hidx (expH d) (ikey item) = Some 0" using hi h(1) by (auto simp: heap_inv_def idx_ok_def)
  then show "expireLoop (Suc n) removed limit now d = expireLoop n removed limit now (clearDB (ikey item) d)"
    using h lt p q by (simp add: clearDB_def root(3))
qed

text \<open>
  One sweep: only expired keys go, their number is counted, and a sweep that stays under the
  limit leaves no expired key. The number of heap items is enough fuel.
\<close>

lemma expireLoop_spec:
  assumes "db_ok d" "expireLoop n removed limit now d = (r, d')" "length (hitems (expH d)) \<le> n" "removed \<le> limit"
  shows "db_ok d' \<and> cfg d' = cfg d \<and> visible now d' = visible now d \<and> removed \<le> r \<and> r \<le> limit \<and>
    card (keysOf d) = card (keysOf d') + (r - removed) \<and> lookup d' \<subseteq>\<^sub>m lookup d \<and>
    (r < limit \<longrightarrow> (\<forall>k e. lookup d' k = Some e \<longrightarrow> \<not> expired now e))"
  using assms
proof (induction n arbitrary: d removed)
  case 0
  have hi: "heap_inv (expH d)" and dl: "\<And>k e. lookup d k = Some e \<Longrightarrow> deadlines (expH d) k = deadline e"
    using 0(1) by (auto simp: db_ok_def exp_ok_def)
  from 0(3) have "deadlines (expH d) = Map.empty" using heap_nil [OF hi] by simp
  with dl have "IsZero (expiresAt e)" if "lookup d k = Some e" for k e
    using that by (force simp: deadline_def split: if_splits)
  with 0 show ?case by (auto simp: expired_def)
next
  case (Suc n)
  have hi: "heap_inv (expH d)" and dl: "\<And>k e. lookup d k = Some e \<Longrightarrow> deadlines (expH d) k = deadline e"
    using Suc.prems(1) by (auto simp: db_ok_def exp_ok_def)
  have live: "deadlines (expH d) k = Some (expiresAt e) \<and> expiresAt e \<le> now" if "lookup d k = Some e" "expired now e" for k e
    using dl [OF that(1)] that(2) by (auto simp: deadline_def expired_def)
  show ?case
  proof (cases "removed < limit \<and> (\<exists>item rest. hitems (expH d) = item # rest \<and> \<not> now < iat item)")
    case False
    have rd: "r = removed" "d' = d" using False Suc.prems(2) by (auto split: if_splits list.splits)
    have "\<not> expired now e" if "removed < limit" "lookup d k = Some e" for k e
    proof
      assume x: "expired now e"
      from live [OF that(2) x] obtain item rest where h: "hitems (expH d) = item # rest"
        using heap_nil [OF hi] by (cases "hitems (expH d)") auto
      have "iat item \<le> now" using heap_root(2) [OF hi h] live [OF that(2) x] by force
      with False that(1) h show False by auto
    qed
    with rd Suc.prems show ?thesis by auto
  next
    case True
    then obtain item rest where h: "hitems (expH d) = item # rest" "\<not> now < iat item" and lt: "removed < limit" by blast
    note root = heap_root [OF hi h(1)]
    obtain b d1 where p: "deleteIfExpired (ikey item) now d = (b, d1)" by fastforce
    note q = deleteIfExpired_spec [OF Suc.prems(1) p]
    have sh: "Suc (length (hitems (clearExpiry (ikey item) (expH d)))) = length (hitems (expH d))"
      using clear_shrinks [OF hi] root(1) by simp
    show ?thesis
    proof (cases b)
      case b: True
      then have lp: "expireLoop n (removed + 1) limit now d1 = (r, d')" using Suc.prems(2) h lt p by simp
      have "length (hitems (expH d1)) \<le> n" using q b sh Suc.prems(3) by simp
      then have IH: "db_ok d' \<and> cfg d' = cfg d1 \<and> visible now d' = visible now d1 \<and> removed + 1 \<le> r \<and> r \<le> limit \<and>
          card (keysOf d1) = card (keysOf d') + (r - (removed + 1)) \<and> lookup d' \<subseteq>\<^sub>m lookup d1 \<and>
          (r < limit \<longrightarrow> (\<forall>k e. lookup d' k = Some e \<longrightarrow> \<not> expired now e))"
        using q lt by (intro Suc.IH [OF _ lp]) simp_all
      have l1: "lookup d1 = (lookup d)(ikey item := None)" and k: "ikey item \<in> keysOf d"
        using q b by (auto simp: keysOf_def)
      have "keysOf d1 = keysOf d - {ikey item}" using l1 by (auto simp: keysOf_def)
      then have "card (keysOf d) = Suc (card (keysOf d1))"
        using card_Suc_Diff1 [OF finite_keysOf [OF Suc.prems(1)] k] by simp
      moreover have "lookup d1 \<subseteq>\<^sub>m lookup d" using l1 by (simp add: map_le_def)
      moreover from this have "lookup d' \<subseteq>\<^sub>m lookup d" using IH map_le_trans by blast
      ultimately show ?thesis using IH q by (elim conjE) (intro conjI; simp)
    next
      case b: False
      have p': "deleteIfExpired (ikey item) now d = (False, d1)" using p b by simp
      note none = expireLoop_stale(1) [OF Suc.prems(1) h p' lt] and lp = expireLoop_stale(2) [OF Suc.prems(1) h p' lt, of n, symmetric, unfolded Suc.prems(2)]
      have "length (hitems (expH (clearDB (ikey item) d))) \<le> n" using sh Suc.prems(3) by (simp add: clearDB_def)
      note IH = Suc.IH [OF clearDB_ok [OF Suc.prems(1) none] lp this Suc.prems(4)]
      then show ?thesis using visible_cong [of "clearDB (ikey item) d" d] by simp
    qed
  qed
qed

lemma expireDue_spec:
  assumes "db_ok d" "expireDue now limit d = (r, d')"
  shows "db_ok d' \<and> cfg d' = cfg d \<and> visible now d' = visible now d \<and> r \<le> limit \<and>
    card (keysOf d) = card (keysOf d') + r \<and> lookup d' \<subseteq>\<^sub>m lookup d \<and>
    (r < limit \<longrightarrow> (\<forall>k e. lookup d' k = Some e \<longrightarrow> \<not> expired now e))"
  using expireLoop_spec [OF assms(1) assms(2) [unfolded expireDue_def]] by simp

end
