(* ===== verification/Snapshot.thy ===== *)
theory Snapshot
  imports StoreOps
begin

text \<open>
  \<^verbatim>\<open>internal/store/snapshot.go\<close>: exporting the keys of a DB, flushing it and loading records
  into it. Go leaves the order in which \<^verbatim>\<open>range\<close> visits a map unspecified: it is the argument
  \<open>perm\<close>, of which the lemmas assume only that it rearranges the keys.
\<close>

record Record =
  rKey :: string
  rValue :: string
  rExpiresAt :: gotime
  rFreq :: int

definition rangeKeys :: "(string list \<Rightarrow> string list) \<Rightarrow> shard \<Rightarrow> string list" where
  "rangeKeys perm sh = perm (map fst (sdata sh))"

definition exportShard :: "(string list \<Rightarrow> string list) \<Rightarrow> gotime \<Rightarrow> shard \<Rightarrow> Record list" where
  "exportShard perm now sh =
     concat (map (\<lambda>k. case map_of (sdata sh) k of
         Some e \<Rightarrow> if expired now e then []
           else [\<lparr>rKey = ekey e, rValue = evalue e, rExpiresAt = expiresAt e, rFreq = freqOf (slfu sh) k\<rparr>]
       | None \<Rightarrow> []) (rangeKeys perm sh))"

definition ExportAll :: "(string list \<Rightarrow> string list) \<Rightarrow> gotime \<Rightarrow> DB \<Rightarrow> Record list" where
  "ExportAll perm now d = concat (map (exportShard perm now) (shards d))"

fun flushKeys :: "string list \<Rightarrow> DB \<Rightarrow> nat \<times> DB" where
  "flushKeys [] d = (0, d)"
| "flushKeys (k # ks) d =
     (case lookup d k of
        None \<Rightarrow> flushKeys ks d
      | Some e \<Rightarrow> let (n, d1) = flushKeys ks (dropKey k e d) in (n + 1, d1))"

definition flushMutation :: Mutation where
  "flushMutation = \<lparr>mOp = ''FLUSHDB'', mKey = [], mValue = [], mKeys = [], mExpiresAt = 0\<rparr>"

definition FlushDB :: "(string list \<Rightarrow> string list) \<Rightarrow> DB \<Rightarrow> nat \<times> DB" where
  "FlushDB perm d =
     (let (n, d1) = flushKeys (concat (map (rangeKeys perm) (shards d))) d
      in (n, if 0 < n then emit flushMutation d1 else d1))"

definition setFreq :: "string \<Rightarrow> int \<Rightarrow> DB \<Rightarrow> DB" where
  "setFreq key freq d =
     (if freq \<le> 0 then d
      else
        let si = shardIndex key d; sh = shards d ! si; l = slfu sh in
        case lookup d key of
          None \<Rightarrow> d
        | Some e \<Rightarrow>
            if inLFU l key
            then let l1 = lfuRemove key l; l2 = l1\<lparr>freqOf := (freqOf l1)(key := freq)\<rparr>
                 in setShard si (sh\<lparr>slfu := lfuAdd key l2\<rparr>) d
            else setShard si (sh\<lparr>slfu := l\<lparr>freqOf := (freqOf l)(key := freq)\<rparr>\<rparr>) d)"

text \<open>
  The loop of \<^verbatim>\<open>LoadRecords\<close>. \<open>now\<close> is read once; \<open>nows i\<close> and \<open>clocks i\<close> are the readings in
  the \<open>i\<close>-th call of \<^verbatim>\<open>Set\<close>.
\<close>

fun loadLoop ::
  "nat \<Rightarrow> Record list \<Rightarrow> gotime \<Rightarrow> (nat \<Rightarrow> gotime) \<Rightarrow> (nat \<Rightarrow> nat \<Rightarrow> nat \<Rightarrow> gotime) \<Rightarrow> DB \<Rightarrow> storeErr option \<times> DB" where
  "loadLoop i [] now nows clocks d = (None, d)"
| "loadLoop i (r # rs) now nows clocks d =
     (if \<not> IsZero (rExpiresAt r) \<and> \<not> now < rExpiresAt r then loadLoop (Suc i) rs now nows clocks d
      else
        let opt = (if \<not> IsZero (rExpiresAt r)
                   then noOptions\<lparr>HasExpireAt := True, ExpireAt := rExpiresAt r\<rparr> else noOptions)
        in case Set (rKey r) (rValue r) opt (nows i) (clocks i) d of
             (Inl err, d1) \<Rightarrow> (Some err, d1)
           | (Inr _, d1) \<Rightarrow> loadLoop (Suc i) rs now nows clocks (setFreq (rKey r) (rFreq r) d1))"

definition LoadRecords ::
  "(string list \<Rightarrow> string list) \<Rightarrow> Record list \<Rightarrow> gotime \<Rightarrow> (nat \<Rightarrow> gotime) \<Rightarrow> (nat \<Rightarrow> nat \<Rightarrow> nat \<Rightarrow> gotime) \<Rightarrow>
   DB \<Rightarrow> storeErr option \<times> DB" where
  "LoadRecords perm recs now nows clocks d =
     (let s = sink d;
          d1 = SetMutationSink None d;
          (_, d2) = FlushDB perm d1;
          (r, d3) = loadLoop 0 recs now nows clocks d2
      in (r, SetMutationSink s d3))"

definition is_perm :: "(string list \<Rightarrow> string list) \<Rightarrow> bool" where
  "is_perm perm \<longleftrightarrow> (\<forall>ks. set (perm ks) = set ks \<and> distinct (perm ks) = distinct ks)"

section \<open>Frequencies\<close>

definition freqAt :: "DB \<Rightarrow> string \<Rightarrow> int" where
  "freqAt d k = freqOf (slfu (theShard k d)) k"

lemma freqOf_lfuAdd: "freqOf (lfuAdd k l) = (freqOf l)(k := max 1 (freqOf l k))"
  by (auto simp: lfuAdd_def Let_def fun_eq_iff)

lemma freqOf_lfuRemove [simp]: "freqOf (lfuRemove k l) = freqOf l"
  by (simp add: lfuRemove_def Let_def split: option.splits)

lemma freq_positive:
  assumes ok: "db_ok d" and k: "k \<in> keysOf d"
  shows "1 \<le> freqAt d k"
proof -
  have "lookup d k \<noteq> None" using k by (auto simp: keysOf_def)
  then have "k \<in> skeys (theShard k d)" using lookup_None_skeys [of d k] by simp
  moreover have "indexes_ok (theShard k d)" using theShard_ok [OF ok] by (simp add: shard_ok_def)
  ultimately have "lfu_inv (slfu (theShard k d))" "k \<in> lfu_set (slfu (theShard k d))" by (simp_all add: indexes_ok_def)
  then obtain bs where "lfu_rep (slfu (theShard k d)) bs" "k \<in> set (bs_entries bs)"
    using lfu_rep_set by (auto simp: lfu_inv_def)
  then show ?thesis by (auto simp: freqAt_def lfu_rep_def bs_entries_def)
qed

lemma setFreq_spec:
  assumes ok: "db_ok d" and f: "1 \<le> f" and k: "lookup d k = Some e"
  shows "db_ok (setFreq k f d)" "lookup (setFreq k f d) = lookup d" "cfg (setFreq k f d) = cfg d"
    "used (setFreq k f d) = used d" "freqAt (setFreq k f d) = (freqAt d)(k := f)" "sink (setFreq k f d) = sink d"
proof -
  let ?si = "shardIndex k d" and ?sh = "theShard k d"
  have c: "cfg_ok d" and g: "globals_ok d" using ok by (simp_all add: db_ok_def)
  have si: "?si < length (shards d)" by (rule shardIndex_less [OF c])
  have shok: "shard_ok (length (shards d)) ?si ?sh" by (rule theShard_ok [OF ok])
  have kin: "k \<in> skeys ?sh" using k lookup_None_skeys [of d k] by auto
  then have l: "lfu_inv (slfu ?sh)" "k \<in> lfu_set (slfu ?sh)" "inLFU (slfu ?sh) k"
    using shok by (auto simp: shard_ok_def indexes_ok_def lfu_set_def)
  define l2 where "l2 = lfuAdd k ((lfuRemove k (slfu ?sh))\<lparr>freqOf := (freqOf (lfuRemove k (slfu ?sh)))(k := f)\<rparr>)"
  have inv: "lfu_inv l2" "lfu_set l2 = lfu_set (slfu ?sh)"
    using lfu_reassign [OF l(1,2), of f] by (simp_all add: l2_def)
  have fr: "freqOf l2 = (freqOf (slfu ?sh))(k := f)" using f by (auto simp: l2_def freqOf_lfuAdd)
  have D: "setFreq k f d = setShard ?si (?sh\<lparr>slfu := l2\<rparr>) d"
    using f k l(3) by (simp add: setFreq_def Let_def l2_def theShard_def)
  have sh: "shards (setFreq k f d) = (shards d)[?si := ?sh\<lparr>slfu := l2\<rparr>]" by (simp add: D setShard_def)
  show cf: "cfg (setFreq k f d) = cfg d" and us: "used (setFreq k f d) = used d" and "sink (setFreq k f d) = sink d"
    by (simp_all add: D setShard_def)
  have "lookup (setFreq k f d) = (lookup d)(k := lookup d k)"
    by (rule lookup_update_shard [OF c sh refl]) (auto simp: lookup_def theShard_def)
  then show lk: "lookup (setFreq k f d) = lookup d" by simp
  show "freqAt (setFreq k f d) = (freqAt d)(k := f)"
    using si fr by (auto simp: freqAt_def fun_eq_iff D theShard_setShard) (simp_all add: theShard_def)
  have "globals_ok (setFreq k f d)" by (rule globals_ok_cong [OF g]) (simp_all add: D setShard_def keysOf_def lk [unfolded D setShard_def])
  moreover have "exp_ok (setFreq k f d)" using ok by (simp add: db_ok_def exp_ok_def lk) (simp add: D setShard_def)
  moreover have "shard_ok (length (shards d)) ?si (?sh\<lparr>slfu := l2\<rparr>)"
    using shok inv by (simp add: shard_ok_def indexes_ok_def entries_ok_def shardSum_def)
  moreover have "sused ?sh \<le> MaxMemory (cfg d)" using ok si by (simp add: db_ok_def fits_def theShard_def)
  ultimately show "db_ok (setFreq k f d)"
    using us by (intro db_ok_update_shard [OF ok si sh cf]) (simp_all add: theShard_def)
qed

section \<open>FlushDB\<close>

lemma flushKeys_spec:
  assumes "db_ok d" "flushKeys ks d = (n, d')"
  shows "db_ok d' \<and> cfg d' = cfg d \<and> sink d' = sink d \<and> (\<forall>k. lookup d' k = (if k \<in> set ks then None else lookup d k)) \<and>
    n = card (keysOf d \<inter> set ks)"
  using assms
proof (induction ks arbitrary: d n)
  case (Cons k ks)
  show ?case
  proof (cases "lookup d k")
    case None
    then have "keysOf d \<inter> set (k # ks) = keysOf d \<inter> set ks" by (auto simp: keysOf_def)
    with None Cons show ?thesis by auto
  next
    case (Some e)
    note r = dropKey_spec [OF Cons.prems(1) Some]
    obtain m where m: "flushKeys ks (dropKey k e d) = (m, d')" "n = m + 1"
      using Cons.prems(2) Some by (auto split: prod.splits)
    note IH = Cons.IH [OF r(1) m(1)]
    have "keysOf d \<inter> set (k # ks) = insert k (keysOf (dropKey k e d) \<inter> set ks)" "k \<notin> keysOf (dropKey k e d)"
      using r(2) Some by (auto simp: keysOf_def)
    then have "card (keysOf d \<inter> set (k # ks)) = Suc (card (keysOf (dropKey k e d) \<inter> set ks))" by simp
    with IH r m(2) show ?thesis by auto
  qed
qed simp

lemma range_covers:
  assumes "db_ok d" "is_perm perm"
  shows "set (concat (map (rangeKeys perm) (shards d))) = keysOf d"
  unfolding keysOf_shards [OF assms(1)] using assms(2) by (simp add: rangeKeys_def is_perm_def)

lemma FlushDB_spec:
  assumes ok: "db_ok d" and p: "is_perm perm" and f: "FlushDB perm d = (n, d')"
  shows "db_ok d' \<and> cfg d' = cfg d \<and> (\<forall>k. lookup d' k = None) \<and> used d' = 0 \<and> n = card (keysOf d) \<and>
    sink d' = (if n = 0 then sink d else map_option (\<lambda>l. l @ [flushMutation]) (sink d))"
proof -
  obtain d1 where fk: "flushKeys (concat (map (rangeKeys perm) (shards d))) d = (n, d1)"
    and d': "d' = (if 0 < n then emit flushMutation d1 else d1)"
    using f by (auto simp: FlushDB_def Let_def split: prod.splits)
  note s = flushKeys_spec [OF ok fk, unfolded range_covers [OF ok p]]
  have none: "lookup d1 k = None" for k
    using s by (cases "k \<in> keysOf d") (auto simp: keysOf_def)
  have "sused sh = 0" if "sh \<in> set (shards d1)" for sh
  proof -
    have ok1: "db_ok d1" using s by simp
    from that obtain i where i: "i < length (shards d1)" "sh = shards d1 ! i" unfolding in_set_conv_nth by blast
    have "keysOf d1 = {}" using none by (auto simp: keysOf_def)
    then have "skeys sh = {}" using skeys_lookup [OF ok1 i(1)] i(2) by simp
    then have "shardSum sh = 0" by (simp add: shardSum_def)
    then show ?thesis using ok1 i by (simp add: db_ok_def shards_ok_def shard_ok_def)
  qed
  then have "used d1 = 0" using s by (simp add: db_ok_def)
  then show ?thesis using s none d' by simp
qed

section \<open>ExportAll\<close>

definition recordOf :: "DB \<Rightarrow> string \<Rightarrow> string \<times> gotime \<Rightarrow> Record" where
  "recordOf d k v = \<lparr>rKey = k, rValue = fst v, rExpiresAt = snd v, rFreq = freqAt d k\<rparr>"

lemma exportShard_spec:
  assumes ok: "db_ok d" and i: "i < length (shards d)" and p: "is_perm perm"
  shows "set (exportShard perm now (shards d ! i)) =
      {recordOf d k v |k v. k \<in> skeys (shards d ! i) \<and> visible now d k = Some v}"
    "distinct (map rKey (exportShard perm now (shards d ! i)))"
    "rKey ` set (exportShard perm now (shards d ! i)) \<subseteq> skeys (shards d ! i)"
proof -
  let ?sh = "shards d ! i"
  let ?rec = "\<lambda>k. case map_of (sdata ?sh) k of
         Some e \<Rightarrow> if expired now e then []
           else [\<lparr>rKey = ekey e, rValue = evalue e, rExpiresAt = expiresAt e, rFreq = freqOf (slfu ?sh) k\<rparr>]
       | None \<Rightarrow> []"
  have one: "?rec k = (case visible now d k of Some v \<Rightarrow> [recordOf d k v] | None \<Rightarrow> [])" if k: "k \<in> skeys ?sh" for k
  proof -
    from k obtain e where e: "map_of (sdata ?sh) k = Some e" unfolding skeys_iff by auto
    from lookup_shard [OF ok i e] have l: "lookup d k = Some e" "shardIndex k d = i" by simp_all
    have "ekey e = k" using lookup_entry [OF ok l(1)] by simp
    then show ?thesis using e l by (simp add: visible_def recordOf_def freqAt_def theShard_def)
  qed
  have ks: "set (rangeKeys perm ?sh) = skeys ?sh" "distinct (rangeKeys perm ?sh)"
    using p shard_parts(2) [OF ok i] by (simp_all add: rangeKeys_def is_perm_def entries_ok_def)
  have E: "exportShard perm now ?sh =
      concat (map (\<lambda>k. case visible now d k of Some v \<Rightarrow> [recordOf d k v] | None \<Rightarrow> []) (rangeKeys perm ?sh))"
    unfolding exportShard_def using one ks(1) by (intro arg_cong [of _ _ concat] map_cong) auto
  show s: "set (exportShard perm now ?sh) = {recordOf d k v |k v. k \<in> skeys ?sh \<and> visible now d k = Some v}"
    unfolding E ks(1) [symmetric] by (auto split: option.splits) (metis option.inject)
  show "rKey ` set (exportShard perm now ?sh) \<subseteq> skeys ?sh"
    by (rule image_subsetI, unfold s mem_Collect_eq, elim exE conjE) (simp add: recordOf_def)
  have "distinct xs \<Longrightarrow> distinct (map rKey (concat (map (\<lambda>k. case visible now d k of Some v \<Rightarrow> [recordOf d k v] | None \<Rightarrow> []) xs)))
      \<and> rKey ` set (concat (map (\<lambda>k. case visible now d k of Some v \<Rightarrow> [recordOf d k v] | None \<Rightarrow> []) xs)) \<subseteq> set xs" for xs
    by (induction xs) (auto simp: recordOf_def split: option.splits)
  then show "distinct (map rKey (exportShard perm now ?sh))" unfolding E using ks(2) by blast
qed

lemma ExportAll_spec:
  assumes ok: "db_ok d" and p: "is_perm perm"
  shows "set (ExportAll perm now d) = {recordOf d k v |k v. visible now d k = Some v}"
    "distinct (map rKey (ExportAll perm now d))"
proof -
  have E: "set (ExportAll perm now d) = (\<Union>sh \<in> set (shards d). set (exportShard perm now sh))"
    by (simp add: ExportAll_def)
  have mem: "r \<in> set (ExportAll perm now d) \<longleftrightarrow>
      (\<exists>i < length (shards d). \<exists>k v. r = recordOf d k v \<and> k \<in> skeys (shards d ! i) \<and> visible now d k = Some v)" for r
    unfolding E UN_iff bex_set_nth
    by (intro ex_cong1 conj_cong refl) (simp only: exportShard_spec(1) [OF ok _ p] mem_Collect_eq)
  have "k \<in> keysOf d" if "visible now d k = Some v" for k v
    using that by (auto simp: visible_def keysOf_def split: option.splits)
  then have vis: "\<exists>i < length (shards d). k \<in> skeys (shards d ! i)" if "visible now d k = Some v" for k v
    using keysOf_nth [OF ok] that by blast
  show "set (ExportAll perm now d) = {recordOf d k v |k v. visible now d k = Some v}"
    unfolding set_eq_iff mem mem_Collect_eq using vis by blast
  have "distinct (concat (map (\<lambda>sh. map rKey (exportShard perm now sh)) (shards d)))"
  proof (rule distinct_concat_disjoint)
    fix xs assume "xs \<in> set (map (\<lambda>sh. map rKey (exportShard perm now sh)) (shards d))"
    then obtain sh where "sh \<in> set (shards d)" "xs = map rKey (exportShard perm now sh)" by auto
    then show "distinct xs" using exportShard_spec(2) [OF ok _ p] unfolding in_set_conv_nth by blast
  next
    fix i j assume ij: "i < j" "j < length (map (\<lambda>sh. map rKey (exportShard perm now sh)) (shards d))"
    then show "set (map (\<lambda>sh. map rKey (exportShard perm now sh)) (shards d) ! i) \<inter>
        set (map (\<lambda>sh. map rKey (exportShard perm now sh)) (shards d) ! j) = {}"
      using exportShard_spec(3) [OF ok, of i perm now] exportShard_spec(3) [OF ok, of j perm now] p
        skeys_disjoint [OF ok, of i j] by (simp add: disjoint_iff) blast
  qed
  then show "distinct (map rKey (ExportAll perm now d))" by (simp add: ExportAll_def map_concat comp_def)
qed


section \<open>Loading\<close>

lemma ensureSpace_room:
  assumes ok: "db_ok d" and si: "si < length (shards d)" and need: "need \<le> newSize"
    and room: "newSize \<le> limitOf si d" "loadOf si d + need \<le> limitOf si d"
  shows "ensureSpace si key need newSize clock d = (None, d)"
proof -
  have mm: "need \<le> MaxMemory (cfg d)" using need room(1) limitOf_le [OF ok si] by simp
  note nw = load_no_wrap [OF ok si mm]
  have "evictWhile n over step d = (None, d)" if "\<not> over d" for n over step using that by (cases n) simp_all
  then show ?thesis
    using room nw by (auto simp: ensureSpace_def Let_def limitOf_def loadOf_def strategy_defs split: if_splits)
qed

text \<open>Writing a key that is not there, when it fits.\<close>

lemma Set_fresh:
  assumes ok: "db_ok d" and k: "lookup d key = None" and xx: "\<not> optXX opt"
    and st: "Strategy (cfg d) \<noteq> StrategyShardBudget" and room: "used d + memSize key val \<le> MaxMemory (cfg d)"
  shows "\<exists>d'. Set key val opt now clock d = (Inr True, d') \<and> db_ok d' \<and> cfg d' = cfg d \<and>
    lookup d' = (lookup d)(key \<mapsto> newEntry key val (setExpiry opt now (MaxTTL (cfg d)))) \<and>
    used d' = used d + memSize key val \<and> (\<forall>k. k \<noteq> key \<longrightarrow> freqAt d' k = freqAt d k) \<and>
    (sink d = None \<longrightarrow> sink d' = None)"
proof -
  let ?si = "shardIndex key d" and ?n = "memSize key val" and ?t = "setExpiry opt now (MaxTTL (cfg d))"
  let ?e = "newEntry key val ?t"
  have pu: "purge key now d = d" and v: "visible now d key = None" using k by (simp_all add: purge_def visible_def)
  have si: "?si < length (shards d)" using ok shardIndex_less by (simp add: db_ok_def)
  have lim: "limitOf ?si d = MaxMemory (cfg d)" "loadOf ?si d = used d" using st by (simp_all add: limitOf_def loadOf_def)
  have es: "ensureSpace ?si key (needFor None ?n) ?n clock d = (None, d)"
    by (rule ensureSpace_room [OF ok si]) (use room lim in \<open>simp_all add: needFor_def\<close>)
  have S: "Set key val opt now clock d = (Inr True, emit (setMutation key val ?t) (insertEntry ?si ?e d))"
    unfolding Set_stages [OF ok] Let_def pu v k es
    using xx room by (simp add: finalExpiry_def v storeEntry_def newEntry_def k)
  have "sused (shards d ! ?si) \<le> used d" by (rule shard_le_used [OF ok si])
  then have r: "sused (shards d ! ?si) + esize ?e \<le> MaxMemory (cfg d)" using room by (simp add: newEntry_def)
  have e: "ekey ?e = key" "esize ?e = memSize key (evalue ?e)" by (simp_all add: newEntry_def)
  note ins = insertEntry_spec [OF ok k refl e r]
  let ?d = "insertEntry ?si ?e d"
  have len: "length (shards ?d) = length (shards d)" by (simp add: ins(4))
  have fr: "freqAt ?d k' = freqAt d k'" if "k' \<noteq> key" for k'
  proof -
    have "freqOf (slfu (shardInsert ?e sh)) k' = freqOf (slfu sh) k'" for sh
      using that by (simp add: shardInsert_def e Let_def freqOf_lfuAdd lfuFresh_def)
    moreover have "shardIndex k' ?d = shardIndex k' d" unfolding shardIndex_def [of k'] len ..
    ultimately show ?thesis using si unfolding freqAt_def theShard_def ins(4) by (simp add: nth_list_update)
  qed
  have "freqAt (emit m x) = freqAt x" for m x by (simp add: freqAt_def theShard_def shardIndex_def fun_eq_iff)
  then show ?thesis
    using S ins fr by (intro exI [of _ "emit (setMutation key val ?t) ?d"]) (simp add: newEntry_def)
qed

definition loadOpt :: "Record \<Rightarrow> SetOptions" where
  "loadOpt r = (if \<not> IsZero (rExpiresAt r) then noOptions\<lparr>HasExpireAt := True, ExpireAt := rExpiresAt r\<rparr> else noOptions)"

lemma loadOpt_expiry: "setExpiry (loadOpt r) now 0 = rExpiresAt r" "\<not> optXX (loadOpt r)"
  by (simp_all add: setExpiry_def loadOpt_def noOptions_def)

text \<open>Loading unexpired records with distinct new keys that fit stores them all.\<close>

lemma loadLoop_spec:
  assumes "db_ok d" "Strategy (cfg d) \<noteq> StrategyShardBudget" "MaxTTL (cfg d) = 0" "sink d = None"
    and "distinct (map rKey rs)" "\<And>r. r \<in> set rs \<Longrightarrow> lookup d (rKey r) = None"
    and "\<And>r. r \<in> set rs \<Longrightarrow> IsZero (rExpiresAt r) \<or> now < rExpiresAt r" "\<And>r. r \<in> set rs \<Longrightarrow> 1 \<le> rFreq r"
    and "used d + sum_list (map (\<lambda>r. memSize (rKey r) (rValue r)) rs) \<le> MaxMemory (cfg d)"
  shows "\<exists>d'. loadLoop i rs now nows clocks d = (None, d') \<and> db_ok d' \<and>
    (\<forall>r \<in> set rs. lookup d' (rKey r) = Some (newEntry (rKey r) (rValue r) (rExpiresAt r)) \<and> freqAt d' (rKey r) = rFreq r) \<and>
    (\<forall>k. k \<notin> rKey ` set rs \<longrightarrow> lookup d' k = lookup d k \<and> freqAt d' k = freqAt d k) \<and> cfg d' = cfg d"
  using assms
proof (induction rs arbitrary: d i)
  case (Cons r rs)
  let ?k = "rKey r" and ?v = "rValue r"
  have k: "lookup d ?k = None" using Cons.prems(6) by simp
  have "used d + memSize ?k ?v \<le> MaxMemory (cfg d)" using Cons.prems(9) by simp
  from Set_fresh [OF Cons.prems(1) k loadOpt_expiry(2) Cons.prems(2) this, where now = "nows i" and clock = "clocks i", unfolded Cons.prems(3) loadOpt_expiry(1)]
  obtain d1 where s: "Set ?k ?v (loadOpt r) (nows i) (clocks i) d = (Inr True, d1)" "db_ok d1" "cfg d1 = cfg d"
    "lookup d1 = (lookup d)(?k \<mapsto> newEntry ?k ?v (rExpiresAt r))" "used d1 = used d + memSize ?k ?v"
    "\<And>k. k \<noteq> ?k \<Longrightarrow> freqAt d1 k = freqAt d k" "sink d1 = None" using Cons.prems(4) by blast
  let ?d2 = "setFreq ?k (rFreq r) d1"
  have l1: "lookup d1 ?k = Some (newEntry ?k ?v (rExpiresAt r))" using s(4) by simp
  note f = setFreq_spec [OF s(2) _ l1, of "rFreq r"]
  have rf: "1 \<le> rFreq r" using Cons.prems(8) by simp
  have "\<not> (\<not> IsZero (rExpiresAt r) \<and> \<not> now < rExpiresAt r)" using Cons.prems(7) [of r] by auto
  then have L: "loadLoop i (r # rs) now nows clocks d = loadLoop (Suc i) rs now nows clocks ?d2"
    using s(1) by (auto simp: Let_def loadOpt_def)
  have kn: "?k \<notin> rKey ` set rs" using Cons.prems(5) by auto
  have "\<exists>d'. loadLoop (Suc i) rs now nows clocks ?d2 = (None, d') \<and> db_ok d' \<and>
    (\<forall>r \<in> set rs. lookup d' (rKey r) = Some (newEntry (rKey r) (rValue r) (rExpiresAt r)) \<and> freqAt d' (rKey r) = rFreq r) \<and>
    (\<forall>k. k \<notin> rKey ` set rs \<longrightarrow> lookup d' k = lookup ?d2 k \<and> freqAt d' k = freqAt ?d2 k) \<and> cfg d' = cfg ?d2"
  proof (rule Cons.IH)
    fix x assume x: "x \<in> set rs"
    then have "rKey x \<noteq> ?k" using kn by (metis image_eqI)
    then show "lookup ?d2 (rKey x) = None" using f(2) [OF rf] s(4) Cons.prems(6) [of x] x by simp
  qed (use f [OF rf] s Cons.prems in auto)
  then obtain d' where d': "loadLoop (Suc i) rs now nows clocks ?d2 = (None, d')" "db_ok d'" "cfg d' = cfg ?d2"
    "\<And>r. r \<in> set rs \<Longrightarrow> lookup d' (rKey r) = Some (newEntry (rKey r) (rValue r) (rExpiresAt r)) \<and> freqAt d' (rKey r) = rFreq r"
    "\<And>k. k \<notin> rKey ` set rs \<Longrightarrow> lookup d' k = lookup ?d2 k \<and> freqAt d' k = freqAt ?d2 k" by blast
  have "lookup d' ?k = Some (newEntry ?k ?v (rExpiresAt r)) \<and> freqAt d' ?k = rFreq r"
    using d'(5) [OF kn] f(2,5) [OF rf] s(4) by simp
  moreover have "lookup d' k = lookup d k \<and> freqAt d' k = freqAt d k" if "k \<notin> rKey ` set (r # rs)" for k
    using d'(5) [of k] that f(2,5) [OF rf] s(4,6) by simp
  ultimately show ?case
    using L d' f(3) [OF rf] s(3) by (intro exI [of _ d']) simp
qed simp

lemma export_size:
  assumes ok: "db_ok d" and p: "is_perm perm"
  shows "sum_list (map (\<lambda>r. memSize (rKey r) (rValue r)) (ExportAll perm now d)) \<le> used d"
proof -
  let ?w = "\<lambda>r. memSize (rKey r) (rValue r)"
  have sh: "sum_list (map ?w (exportShard perm now (shards d ! i))) \<le> sused (shards d ! i)"
    if i: "i < length (shards d)" for i
  proof -
    let ?sh = "shards d ! i"
    let ?size = "\<lambda>k. case map_of (sdata ?sh) k of Some e \<Rightarrow> esize e | None \<Rightarrow> 0"
    note en = shard_parts(2) [OF ok i]
    have ds: "distinct (map fst (sdata ?sh))" using en by (simp add: entries_ok_def)
    have "sum_list (map ?w (case map_of (sdata ?sh) k of
         Some e \<Rightarrow> if expired now e then []
           else [\<lparr>rKey = ekey e, rValue = evalue e, rExpiresAt = expiresAt e, rFreq = freqOf (slfu ?sh) k\<rparr>]
       | None \<Rightarrow> [])) \<le> ?size k" for k
      using en by (auto simp: entries_ok_iff split: option.splits)
    then have "sum_list (map ?w (exportShard perm now ?sh)) \<le> sum_list (map ?size (rangeKeys perm ?sh))"
      unfolding exportShard_def by (simp add: map_concat sum_list_concat comp_def sum_list_mono)
    also have "\<dots> = sum ?size (set (rangeKeys perm ?sh))"
      using p ds by (simp add: sum_list_distinct_conv_sum_set rangeKeys_def is_perm_def)
    also have "set (rangeKeys perm ?sh) = set (map fst (sdata ?sh))" using p by (simp add: rangeKeys_def is_perm_def)
    also have "sum ?size \<dots> = sum_list (map ?size (map fst (sdata ?sh)))" using ds by (simp only: sum_list_distinct_conv_sum_set)
    also have "map ?size (map fst (sdata ?sh)) = map (\<lambda>(k, e). esize e) (sdata ?sh)"
      using ds by (auto simp: map_of_is_SomeI)
    also have "sum_list \<dots> = sused ?sh" using ok i by (simp add: db_ok_def shards_ok_def shard_ok_def shardSum_def)
    finally show ?thesis .
  qed
  have "sum_list (map ?w (ExportAll perm now d)) = sum_list (map (\<lambda>sh. sum_list (map ?w (exportShard perm now sh))) (shards d))"
    by (induction "shards d") (simp_all add: ExportAll_def map_concat sum_list_concat comp_def)
  also have "\<dots> \<le> sum_list (map sused (shards d))"
  proof (rule sum_list_mono)
    fix x assume "x \<in> set (shards d)"
    then obtain i where "i < length (shards d)" "x = shards d ! i" unfolding in_set_conv_nth by blast
    then show "sum_list (map ?w (exportShard perm now x)) \<le> sused x" using sh by simp
  qed
  finally show ?thesis using ok by (simp add: db_ok_def)
qed


text \<open>
  Restoring what was exported: with enough memory, and no deadline passed meanwhile, loading
  the export of \<open>d\<close> into any store gives the visible keys of \<open>d\<close> with value, deadline and
  frequency, and nothing else.
\<close>

lemma export_load:
  assumes ok: "db_ok d" and p: "is_perm perm" "is_perm perm'" and ok0: "db_ok d0"
    and st: "Strategy (cfg d0) \<noteq> StrategyShardBudget" "MaxTTL (cfg d0) = 0"
    and room: "used d \<le> MaxMemory (cfg d0)"
    and time: "\<And>k v t. visible now d k = Some (v, t) \<Longrightarrow> IsZero t \<or> now' < t"
  shows "\<exists>d'. LoadRecords perm' (ExportAll perm now d) now' nows clocks d0 = (None, d') \<and> db_ok d' \<and> sink d' = sink d0 \<and>
    (\<forall>k. map_option (\<lambda>e. (evalue e, expiresAt e)) (lookup d' k) = visible now d k) \<and>
    (\<forall>k. visible now d k \<noteq> None \<longrightarrow> freqAt d' k = freqAt d k)"
proof -
  let ?rs = "ExportAll perm now d" and ?d1 = "SetMutationSink None d0"
  note ex = ExportAll_spec [OF ok p(1), of now]
  have ok1: "db_ok ?d1" by (rule db_ok_frame(1) [OF ok0]) (simp_all add: SetMutationSink_def)
  obtain n d2 where f: "FlushDB perm' ?d1 = (n, d2)" by fastforce
  note fs = FlushDB_spec [OF ok1 p(2) f]
  have c2: "cfg d2 = cfg d0" and s2: "sink d2 = None" and ok2: "db_ok d2" and none: "\<And>k. lookup d2 k = None" and u2: "used d2 = 0"
    using fs by (simp_all add: SetMutationSink_def)
  have recs: "\<exists>k v. r = recordOf d k v \<and> visible now d k = Some v" if "r \<in> set ?rs" for r
    using that unfolding ex(1) by blast
  have vk: "k \<in> keysOf d" if "visible now d k = Some v" for k v
    using that by (auto simp: visible_def keysOf_def split: option.splits)
  have "\<exists>d'. loadLoop 0 ?rs now' nows clocks d2 = (None, d') \<and> db_ok d' \<and>
    (\<forall>r \<in> set ?rs. lookup d' (rKey r) = Some (newEntry (rKey r) (rValue r) (rExpiresAt r)) \<and> freqAt d' (rKey r) = rFreq r) \<and>
    (\<forall>k. k \<notin> rKey ` set ?rs \<longrightarrow> lookup d' k = lookup d2 k \<and> freqAt d' k = freqAt d2 k) \<and> cfg d' = cfg d2"
  proof (rule loadLoop_spec [OF ok2 _ _ s2 ex(2) none])
    fix r assume "r \<in> set ?rs"
    then obtain k v where r: "r = recordOf d k v" "visible now d k = Some v" using recs by blast
    show "IsZero (rExpiresAt r) \<or> now' < rExpiresAt r" using time [of k "fst v" "snd v"] r by (simp add: recordOf_def)
    show "1 \<le> rFreq r" using freq_positive [OF ok vk [OF r(2)]] r(1) by (simp add: recordOf_def)
  next
    show "used d2 + sum_list (map (\<lambda>r. memSize (rKey r) (rValue r)) ?rs) \<le> MaxMemory (cfg d2)"
      using export_size [OF ok p(1), of now] room by (simp add: u2 c2)
  qed (use st c2 in simp_all)
  then obtain d' where d': "loadLoop 0 ?rs now' nows clocks d2 = (None, d')" "db_ok d'"
    "\<And>r. r \<in> set ?rs \<Longrightarrow> lookup d' (rKey r) = Some (newEntry (rKey r) (rValue r) (rExpiresAt r)) \<and> freqAt d' (rKey r) = rFreq r"
    "\<And>k. k \<notin> rKey ` set ?rs \<Longrightarrow> lookup d' k = lookup d2 k" by blast
  let ?d = "SetMutationSink (sink d0) d'"
  have "LoadRecords perm' ?rs now' nows clocks d0 = (None, ?d)"
    using f d'(1) by (simp add: LoadRecords_def)
  moreover have fr: "db_ok ?d" "lookup ?d = lookup d'"
    using db_ok_frame [OF d'(2), of ?d] by (simp_all add: SetMutationSink_def)
  moreover have "freqAt ?d = freqAt d'" by (simp add: freqAt_def theShard_def shardIndex_def fun_eq_iff SetMutationSink_def)
  moreover have "map_option (\<lambda>e. (evalue e, expiresAt e)) (lookup d' k) = visible now d k \<and>
      (visible now d k \<noteq> None \<longrightarrow> freqAt d' k = freqAt d k)" for k
  proof (cases "visible now d k")
    case None
    have "k \<notin> rKey ` set ?rs" using recs None by (force simp: recordOf_def)
    with None none d'(4) show ?thesis by simp
  next
    case (Some v)
    then have "recordOf d k v \<in> set ?rs" unfolding ex(1) by blast
    from d'(3) [OF this] Some show ?thesis by (simp add: recordOf_def newEntry_def)
  qed
  moreover have "sink ?d = sink d0" by (simp add: SetMutationSink_def)
  ultimately show ?thesis by (intro exI [of _ ?d]) simp
qed

end
