(* ===== verification/StoreRun.thy ===== *)
theory StoreRun
  imports Snapshot
begin

text \<open>
  The store as a state machine: one rule per exported operation of
  \<^verbatim>\<open>internal/store\<close>, with arbitrary arguments and clock readings, and the states reachable
  from \<open>New\<close>. The invariant holds in all of them; while the strategy is not switched, so does
  the memory bound of the strategy.
\<close>

inductive store_step :: "DB \<Rightarrow> DB \<Rightarrow> bool" where
  step_Get: "store_step d (snd (Get key now d))"
| step_Set: "store_step d (snd (Set key val opt now clock d))"
| step_Del: "store_step d (snd (Del keys now d))"
| step_Exists: "store_step d (snd (Exists keys now d))"
| step_Type: "store_step d (snd (Type key now d))"
| step_Expire: "store_step d (snd (Expire key dur now0 now d))"
| step_Persist: "store_step d (snd (Persist key now d))"
| step_TTL: "store_step d (snd (TTL key now d))"
| step_PTTL: "store_step d (snd (PTTL key now d))"
| step_IncrBy: "store_step d (snd (IncrBy key delta now now1 clock d))"
| step_SetEvictionPolicy: "store_step d (SetEvictionPolicy p d)"
| step_expireDue: "store_step d (snd (expireDue now limit d))"
| step_FlushDB: "is_perm perm \<Longrightarrow> store_step d (snd (FlushDB perm d))"
| step_LoadRecords: "is_perm perm \<Longrightarrow> store_step d (snd (LoadRecords perm recs now nows clocks d))"
| step_SetMutationSink: "store_step d (SetMutationSink s d)"

inductive switch_step :: "DB \<Rightarrow> DB \<Rightarrow> bool" where
  switch: "switch_step d (SetShardingStrategy s d)"

inductive reachable :: "Config \<Rightarrow> rng \<Rightarrow> DB \<Rightarrow> bool" for c g where
  init: "reachable c g (New c g)"
| op: "reachable c g d \<Longrightarrow> store_step d d' \<Longrightarrow> reachable c g d'"
| reconf: "reachable c g d \<Longrightarrow> switch_step d d' \<Longrightarrow> reachable c g d'"

inductive reachable_fixed :: "Config \<Rightarrow> rng \<Rightarrow> DB \<Rightarrow> bool" for c g where
  init_fixed: "reachable_fixed c g (New c g)"
| op_fixed: "reachable_fixed c g d \<Longrightarrow> store_step d d' \<Longrightarrow> reachable_fixed c g d'"

inductive_cases switch_stepE: "switch_step d d'"

definition sane :: "Config \<Rightarrow> bool" where
  "sane c \<longleftrightarrow> (nat (max 1 (ShardCount c)) + 1) * MaxMemory c < 2 ^ 64 \<and> ShardCount c < 2 ^ 32"

section \<open>What every step keeps\<close>

text \<open>
  \<open>shrinks d d'\<close>: the invariant is kept, configuration limits stay, and whatever is in \<open>d'\<close> was
  in \<open>d\<close> with the same size, or lies within the limit that applies to it.
\<close>

definition bounded :: "DB \<Rightarrow> bool" where
  "bounded d \<longleftrightarrow> (\<forall>si < length (shards d). loadOf si d \<le> limitOf si d)"

definition same_limits :: "DB \<Rightarrow> DB \<Rightarrow> bool" where
  "same_limits d d' \<longleftrightarrow> Strategy (cfg d') = Strategy (cfg d) \<and> MaxMemory (cfg d') = MaxMemory (cfg d) \<and>
     map budget (shards d') = map budget (shards d)"

lemma same_limits_refl [simp]: "same_limits d d"
  by (simp add: same_limits_def)

lemma same_limits_trans: "same_limits d d' \<Longrightarrow> same_limits d' d'' \<Longrightarrow> same_limits d d''"
  by (simp add: same_limits_def)

lemma same_limits_length: "same_limits d d' \<Longrightarrow> length (shards d') = length (shards d)"
  unfolding same_limits_def by (metis length_map)

definition sizeOf :: "DB \<Rightarrow> string \<Rightarrow> nat" where
  "sizeOf d k = (case lookup d k of Some e \<Rightarrow> esize e | None \<Rightarrow> 0)"

lemma sused_sum:
  assumes ok: "db_ok d" and i: "i < length (shards d)"
  shows "sused (shards d ! i) = sum (sizeOf d) {k \<in> keysOf d. keyShard (length (shards d)) k = i}"
proof -
  let ?sh = "shards d ! i"
  have ds: "distinct (map fst (sdata ?sh))" using shard_parts(2) [OF ok i] by (simp add: entries_ok_def)
  have "map (sizeOf d) (map fst (sdata ?sh)) = map (\<lambda>(k, e). esize e) (sdata ?sh)"
  proof -
    have "sizeOf d k = esize e" if "(k, e) \<in> set (sdata ?sh)" for k e
      using lookup_shard [OF ok i map_of_is_SomeI [OF ds that]] by (simp add: sizeOf_def)
    then show ?thesis by auto
  qed
  moreover have "sused ?sh = sum_list (map (\<lambda>(k, e). esize e) (sdata ?sh))"
    using ok i by (simp add: db_ok_def shards_ok_def shard_ok_def shardSum_def)
  ultimately have "sused ?sh = sum_list (map (sizeOf d) (map fst (sdata ?sh)))" by (simp only:)
  also have "\<dots> = sum (sizeOf d) (set (map fst (sdata ?sh)))" by (rule sum_list_distinct_conv_sum_set [OF ds])
  also have "set (map fst (sdata ?sh)) = skeys ?sh" by simp
  finally show ?thesis using skeys_lookup [OF ok i] by simp
qed

lemma keysOf_partition:
  assumes "db_ok d"
  shows "used d = sum (sizeOf d) (keysOf d)"
proof -
  let ?n = "length (shards d)"
  have "used d = (\<Sum>i < ?n. sused (shards d ! i))"
    using assms by (simp add: db_ok_def sum_list_sum_nth atLeast0LessThan)
  also have "\<dots> = (\<Sum>i < ?n. sum (sizeOf d) {k \<in> keysOf d. keyShard ?n k = i})"
    by (rule sum.cong) (simp_all add: sused_sum [OF assms])
  also have "\<dots> = sum (sizeOf d) (keysOf d)"
    by (rule sum.group [OF finite_keysOf [OF assms]])
      (use assms keyShard_less in \<open>auto simp: db_ok_def cfg_ok_def\<close>)
  finally show ?thesis .
qed

text \<open>Fewer keys, no larger: less memory, shard by shard and in total.\<close>

lemma sum_keys_mono:
  assumes ok: "db_ok d" "db_ok d'" and le: "\<And>k. P k \<Longrightarrow> sizeOf d' k \<le> sizeOf d k"
  shows "sum (sizeOf d') {k \<in> keysOf d'. P k} \<le> sum (sizeOf d) {k \<in> keysOf d. P k}"
proof -
  let ?U = "{k \<in> keysOf d \<union> keysOf d'. P k}"
  have zero: "sizeOf x k = 0" if "k \<notin> keysOf x" for x k using that by (auto simp: sizeOf_def keysOf_def split: option.splits)
  have fin: "finite ?U" using finite_keysOf [OF ok(1)] finite_keysOf [OF ok(2)] by simp
  have "sum (sizeOf d') {k \<in> keysOf d'. P k} = sum (sizeOf d') ?U"
    by (rule sum.mono_neutral_left [OF fin]) (blast, intro ballI zero, blast)
  also have "\<dots> \<le> sum (sizeOf d) ?U" by (rule sum_mono) (simp add: le)
  also have "\<dots> = sum (sizeOf d) {k \<in> keysOf d. P k}"
    by (rule sum.mono_neutral_right [OF fin]) (blast, intro ballI zero, blast)
  finally show ?thesis .
qed

lemma sused_mono:
  assumes ok: "db_ok d" "db_ok d'" and len: "length (shards d') = length (shards d)" and si: "si < length (shards d)"
    and le: "\<And>k. keyShard (length (shards d)) k = si \<Longrightarrow> sizeOf d' k \<le> sizeOf d k"
  shows "sused (shards d' ! si) \<le> sused (shards d ! si)"
  using sum_keys_mono [OF ok, of "\<lambda>k. keyShard (length (shards d)) k = si", OF le] si
    sused_sum [OF ok(1) si] sused_sum [OF ok(2)] len by simp

lemma load_mono:
  assumes ok: "db_ok d" "db_ok d'" and lim: "same_limits d d'"
    and le: "\<And>k. sizeOf d' k \<le> sizeOf d k" and si: "si < length (shards d)"
  shows "loadOf si d' \<le> loadOf si d"
proof -
  have "sused (shards d' ! si) \<le> sused (shards d ! si)"
    by (rule sused_mono [OF ok same_limits_length [OF lim] si]) (rule le)
  moreover have "used d' \<le> used d"
    using sum_keys_mono [OF ok, of "\<lambda>_. True", OF le] keysOf_partition [OF ok(1)] keysOf_partition [OF ok(2)] by simp
  ultimately show ?thesis using lim by (simp add: loadOf_def same_limits_def)
qed

lemma limitOf_same: "same_limits d d' \<Longrightarrow> si < length (shards d) \<Longrightarrow> limitOf si d' = limitOf si d"
  using nth_map_eq [of budget "shards d'" "shards d" si] by (simp add: limitOf_def same_limits_def)

lemma bounded_mono:
  assumes "db_ok d" "db_ok d'" "same_limits d d'" "\<And>k. sizeOf d' k \<le> sizeOf d k" "bounded d"
  shows "bounded d'"
  unfolding bounded_def
proof (intro allI impI)
  fix si assume "si < length (shards d')"
  then have si: "si < length (shards d)" using same_limits_length [OF assms(3)] by simp
  have "loadOf si d \<le> limitOf si d" using assms(5) si by (simp add: bounded_def)
  then show "loadOf si d' \<le> limitOf si d'"
    using load_mono [OF assms(1-4) si] limitOf_same [OF assms(3) si] by simp
qed


section \<open>Every operation\<close>

text \<open>\<open>kept d d'\<close>: invariant and limits are kept, and so is the memory bound.\<close>

definition kept :: "DB \<Rightarrow> DB \<Rightarrow> bool" where
  "kept d d' \<longleftrightarrow> db_ok d' \<and> same_limits d d' \<and> (bounded d \<longrightarrow> bounded d')"

lemma kept_refl: "db_ok d \<Longrightarrow> kept d d"
  by (simp add: kept_def)

lemma kept_trans: "kept d d' \<Longrightarrow> kept d' d'' \<Longrightarrow> kept d d''"
  by (auto simp: kept_def intro: same_limits_trans)

lemma kept_smaller:
  "db_ok d \<Longrightarrow> db_ok d' \<Longrightarrow> same_limits d d' \<Longrightarrow> (\<And>k. sizeOf d' k \<le> sizeOf d k) \<Longrightarrow> kept d d'"
  by (auto simp: kept_def intro: bounded_mono)

lemma bounded_frame [simp]:
  "bounded (d\<lparr>hits := n\<rparr>) = bounded d" "bounded (d\<lparr>misses := n\<rparr>) = bounded d" "bounded (emit m d) = bounded d"
  "bounded (d\<lparr>sink := s\<rparr>) = bounded d"
  by (simp_all add: bounded_def) (simp_all add: loadOf_def limitOf_def)

lemma kept_counters:
  "kept d d' \<Longrightarrow> kept d (d'\<lparr>hits := n\<rparr>)" "kept d d' \<Longrightarrow> kept d (d'\<lparr>misses := n\<rparr>)" "kept d d' \<Longrightarrow> kept d (emit m d')"
  by (simp_all add: kept_def same_limits_def)

lemma kept_drop:
  assumes "db_ok d" "lookup d k = Some e"
  shows "kept d (dropKey k e d)"
  using dropKey_spec [OF assms]
  by (intro kept_smaller assms(1)) (simp_all add: same_limits_def sizeOf_def)

lemma kept_accessed:
  assumes "db_ok d" "lookup d k = Some e"
  shows "kept d (accessed k d)"
proof -
  note a = accessed_spec [OF assms]
  have "map budget (shards (accessed k d)) = map budget (shards d)"
    by (simp add: accessed_def Let_def setShard_def theShard_def map_update_same)
  with a show ?thesis by (intro kept_smaller assms(1)) (simp_all add: same_limits_def sizeOf_def)
qed

lemma kept_Get: "db_ok d \<Longrightarrow> kept d (snd (Get key now d))"
  by (cases "lookup d key") (auto simp: Get_eq intro!: kept_counters kept_drop kept_accessed kept_refl)

lemma kept_delOne: "db_ok d \<Longrightarrow> kept d (snd (delOne key now d))"
  by (cases "lookup d key") (auto simp: delOne_def Let_def intro!: kept_counters kept_drop kept_refl)

lemma kept_Del: "db_ok d \<Longrightarrow> kept d (snd (Del keys now d))"
proof (induction keys arbitrary: d)
  case (Cons key keys)
  obtain a d1 where a: "delOne key now d = (a, d1)" by fastforce
  have k: "kept d d1" using kept_delOne [OF Cons.prems, of key now] a by simp
  then have "kept d1 (snd (Del keys now d1))" by (intro Cons.IH) (simp add: kept_def)
  with k a show ?case by (auto simp: split_beta intro: kept_trans)
qed (simp add: kept_refl)

lemma kept_existsOne: "db_ok d \<Longrightarrow> kept d (snd (existsOne key now d))"
  by (cases "lookup d key") (auto simp: existsOne_def intro!: kept_drop kept_refl)

lemma kept_Exists: "db_ok d \<Longrightarrow> kept d (snd (Exists keys now d))"
proof (induction keys arbitrary: d)
  case (Cons key keys)
  obtain a d1 where a: "existsOne key now d = (a, d1)" by fastforce
  have k: "kept d d1" using kept_existsOne [OF Cons.prems, of key now] a by simp
  then have "kept d1 (snd (Exists keys now d1))" by (intro Cons.IH) (simp add: kept_def)
  with k a show ?case by (auto simp: split_beta intro: kept_trans)
qed (simp add: kept_refl)

lemma kept_shardSetExp:
  assumes "db_ok d" "lookup d k = Some e"
    and d': "d' = (setShard (shardIndex k d) (shardSetExp k t (shards d ! shardIndex k d)) d)\<lparr>expH := noteExpiry k t (expH d)\<rparr>"
  shows "kept d d'"
proof -
  note s = shardSetExp_spec [OF assms(1,2) refl d']
  have "budget (shardSetExp k t sh) = budget sh" for sh by (simp add: shardSetExp_def split: option.splits)
  then have "map budget (shards d') = map budget (shards d)" by (simp add: d' setShard_def map_update_same)
  with s assms(2) show ?thesis by (intro kept_smaller assms(1)) (simp_all add: same_limits_def sizeOf_def)
qed

lemma kept_setExpireAt: "db_ok d \<Longrightarrow> kept d (snd (setExpireAt key at now d))"
  using kept_shardSetExp [of d key _ _ at]
  by (cases "lookup d key")
    (auto simp: setExpireAt_def Let_def noteDB_def setShard_def intro!: kept_counters kept_drop kept_refl)

lemma kept_Expire: "db_ok d \<Longrightarrow> kept d (snd (Expire key dur now0 now d))"
  using kept_Del [of d "[key]" now] by (auto simp: Expire_def split_beta Let_def intro!: kept_setExpireAt)

lemma kept_Persist: "db_ok d \<Longrightarrow> kept d (snd (Persist key now d))"
  using kept_shardSetExp [of d key _ _ 0]
  by (cases "lookup d key")
    (auto simp: Persist_def Let_def clearDB_def setShard_def noteExpiry_eq intro!: kept_counters kept_drop kept_refl)

lemma kept_PTTL: "db_ok d \<Longrightarrow> kept d (snd (PTTL key now d))"
  by (cases "lookup d key") (auto simp: PTTL_def Let_def intro!: kept_drop kept_refl)

lemma kept_TTL: "db_ok d \<Longrightarrow> kept d (snd (TTL key now d))"
  using kept_PTTL [of d key now] by (auto simp: TTL_def split_beta Let_def)

lemma kept_Type: "db_ok d \<Longrightarrow> kept d (snd (Type key now d))"
  using kept_Exists [of d "[key]" now] by (auto simp: Type_def split_beta Let_def)


lemma freed_size: "freed key d d' \<Longrightarrow> sizeOf d' k \<le> sizeOf d k"
proof -
  assume "freed key d d'"
  then have "lookup d' k = None \<or> lookup d' k = lookup d k"
    by (cases "lookup d' k") (force simp: freed_def map_le_def dom_def)+
  then show ?thesis by (auto simp: sizeOf_def)
qed

lemma kept_freed:
  assumes "db_ok d" and f: "freed key d d'"
  shows "kept d d'"
  using f by (intro kept_smaller [OF assms(1) _ _ freed_size [OF f]]) (simp_all add: freed_def same_limits_def)

lemma kept_purge: "db_ok d \<Longrightarrow> kept d (purge key now d)"
  by (cases "lookup d key") (auto simp: purge_def intro!: kept_drop kept_refl)

lemma kept_Set:
  assumes ok: "db_ok d"
  shows "kept d (snd (Set key val opt now clock d))"
proof -
  obtain r d' where s: "Set key val opt now clock d = (r, d')" by fastforce
  note sp = Set_spec [OF ok s]
  let ?d1 = "purge key now d" and ?si = "shardIndex key d" and ?n = "memSize key val"
  have lim: "same_limits d d'" using sp(2,8) by (simp add: same_limits_def)
  have len: "length (shards d') = length (shards d)" by (rule same_limits_length [OF lim])
  show ?thesis
  proof (cases "r = Inr True")
    case True
    have si: "shardIndex key d' = ?si" by (simp add: shardIndex_def len)
    have tgt: "loadOf ?si d' \<le> limitOf ?si d'" using sp(4) [OF True] si by simp
    have "loadOf i d' \<le> limitOf i d'" if b: "bounded d" and i: "i < length (shards d')" for i
    proof (cases "Strategy (cfg d') = StrategyShardBudget \<and> i \<noteq> ?si")
      case False
      with tgt show ?thesis by (auto simp: loadOf_def limitOf_def)
    next
      case other: True
      have "sused (shards d' ! i) \<le> sused (shards d ! i)"
      proof (rule sused_mono [OF ok sp(1) len])
        fix k assume "keyShard (length (shards d)) k = i"
        then have "k \<noteq> key" using other by (auto simp: shardIndex_def)
        then have "lookup d' k = lookup d k \<or> lookup d' k = None" using sp(3) by (auto simp: evicted_def)
        then show "sizeOf d' k \<le> sizeOf d k" by (auto simp: sizeOf_def)
      qed (use i len in simp)
      moreover have "loadOf i d \<le> limitOf i d" using b i len by (simp add: bounded_def)
      ultimately show ?thesis
        using other limitOf_same [OF lim, of i] i len lim by (simp add: loadOf_def same_limits_def)
    qed
    then show ?thesis using s sp(1) lim by (simp add: kept_def bounded_def)
  next
    case False
    obtain x d2 where es: "ensureSpace ?si key (needFor (lookup ?d1 key) ?n) ?n clock ?d1 = (x, d2)" by fastforce
    note pu = purge_spec [OF ok]
    have lt: "?si < length (shards ?d1)" using shardIndex_less ok pu(4) by (simp add: db_ok_def)
    have "freed key ?d1 d2" using ensureSpace_spec [OF pu(1) lt needFor_le es] by simp
    then have k2: "kept d d2" using kept_freed [OF pu(1)] kept_trans [OF kept_purge [OF ok]] by blast
    have "d' = d \<or> d' = ?d1 \<or> d' = d2"
      using s False unfolding Set_stages [OF ok] Let_def es by (auto split: if_splits option.splits)
    then show ?thesis using s k2 kept_purge [OF ok] kept_refl [OF ok] by auto
  qed
qed

lemma kept_IncrBy:
  assumes ok: "db_ok d"
  shows "kept d (snd (IncrBy key delta now now1 clock d))"
proof -
  let ?d1 = "case lookup d key of Some e \<Rightarrow> if expired now e then removeFromShard (shardIndex key d) e False d else d | None \<Rightarrow> d"
  have k1: "kept d ?d1"
  proof (cases "lookup d key")
    case (Some e)
    note r = removeFromShard_spec [OF ok Some refl]
    have "kept d (removeFromShard (shardIndex key d) e False d)"
      using r(1,2,6) by (intro kept_smaller ok) (simp_all add: same_limits_def sizeOf_def)
    with Some show ?thesis by (auto intro: kept_refl [OF ok])
  qed (simp add: kept_refl [OF ok])
  have "snd (IncrBy key delta now now1 clock d) = ?d1 \<or>
      (\<exists>v opt. snd (IncrBy key delta now now1 clock d) = snd (Set key v opt now1 clock ?d1))"
    by (auto simp: IncrBy_def Let_def split: option.splits sum.splits prod.splits) (metis snd_conv)+
  moreover have "db_ok ?d1" using k1 by (simp add: kept_def)
  ultimately show ?thesis using k1 kept_trans [OF k1 kept_Set] by auto
qed

lemma kept_SetEvictionPolicy: "db_ok d \<Longrightarrow> kept d (SetEvictionPolicy p d)"
  using SetEvictionPolicy_spec [of d p]
  by (intro kept_smaller) (simp_all add: same_limits_def sizeOf_def, simp_all add: SetEvictionPolicy_def Let_def)

lemma kept_SetMutationSink: "db_ok d \<Longrightarrow> kept d (SetMutationSink s d)"
  using db_ok_frame [of d "SetMutationSink s d"] by (simp add: kept_def same_limits_def SetMutationSink_def)

text \<open>A sweep only removes keys, so \<open>kept_smaller\<close> applies to its outcome.\<close>

lemma map_le_size: "lookup d' \<subseteq>\<^sub>m lookup d \<Longrightarrow> sizeOf d' k \<le> sizeOf d k"
  by (cases "lookup d' k") (force simp: sizeOf_def map_le_def dom_def)+

lemma budget_deleteIfExpired:
  assumes "db_ok d"
  shows "map budget (shards (snd (deleteIfExpired key now d))) = map budget (shards d)"
  using dropKey_spec(7) [OF assms] by (auto simp: deleteIfExpired_def split: option.splits)

lemma budget_expireLoop:
  assumes "db_ok d"
  shows "map budget (shards (snd (expireLoop n removed limit now d))) = map budget (shards d)"
  using assms
proof (induction n arbitrary: removed d)
  case (Suc n)
  show ?case
  proof (cases "removed < limit \<and> (\<exists>item rest. hitems (expH d) = item # rest \<and> \<not> now < iat item)")
    case False
    then show ?thesis by (auto split: list.splits)
  next
    case True
    then obtain item rest where h: "hitems (expH d) = item # rest" "\<not> now < iat item" and lt: "removed < limit" by blast
    obtain b d1 where p: "deleteIfExpired (ikey item) now d = (b, d1)" by fastforce
    note q = deleteIfExpired_spec [OF Suc.prems p] and bd = budget_deleteIfExpired [OF Suc.prems, of "ikey item" now, unfolded p]
    show ?thesis
    proof (cases b)
      case True
      then show ?thesis using Suc.IH [of d1] h lt p q bd by simp
    next
      case False
      then have p': "deleteIfExpired (ikey item) now d = (False, d1)" using p by simp
      note st = expireLoop_stale [OF Suc.prems h(1,2) p' lt]
      have "db_ok (clearDB (ikey item) d)" by (rule clearDB_ok [OF Suc.prems st(1)])
      from Suc.IH [OF this, of removed] show ?thesis unfolding st(2) by (simp add: clearDB_def)
    qed
  qed
qed simp

lemma kept_expireDue:
  assumes ok: "db_ok d"
  shows "kept d (snd (expireDue now limit d))"
proof -
  obtain r d' where e: "expireDue now limit d = (r, d')" by fastforce
  note sp = expireDue_spec [OF ok e]
  have "map budget (shards d') = map budget (shards d)"
    using budget_expireLoop [OF ok, of "length (hitems (expH d))" 0 limit now] e by (simp add: expireDue_def)
  then have "same_limits d d'" using sp by (simp add: same_limits_def)
  then show ?thesis using e kept_smaller [OF ok, of d'] map_le_size [of d' d] sp by simp
qed

lemma kept_flushKeys: "db_ok d \<Longrightarrow> kept d (snd (flushKeys ks d))"
proof (induction ks arbitrary: d)
  case (Cons k ks)
  show ?case
  proof (cases "lookup d k")
    case None
    with Cons show ?thesis by simp
  next
    case (Some e)
    have "kept d (dropKey k e d)" by (rule kept_drop [OF Cons.prems Some])
    moreover from this have "kept (dropKey k e d) (snd (flushKeys ks (dropKey k e d)))"
      by (intro Cons.IH) (simp add: kept_def)
    ultimately show ?thesis using Some kept_trans by (auto simp: split_beta Let_def)
  qed
qed (simp add: kept_refl)

lemma kept_FlushDB: "db_ok d \<Longrightarrow> kept d (snd (FlushDB perm d))"
  using kept_flushKeys [of d] by (auto simp: FlushDB_def split_beta Let_def intro!: kept_counters)

lemma kept_setFreq:
  assumes ok: "db_ok d"
  shows "kept d (setFreq k f d)"
proof (cases "f \<le> 0 \<or> lookup d k = None")
  case True
  then show ?thesis by (auto simp: setFreq_def Let_def kept_refl [OF ok])
next
  case False
  then obtain e where e: "lookup d k = Some e" and f: "1 \<le> f" by auto
  note s = setFreq_spec [OF ok f e]
  have "map budget (shards (setFreq k f d)) = map budget (shards d)"
    using f by (simp add: setFreq_def Let_def setShard_def map_update_same split: option.splits)
  with s show ?thesis by (intro kept_smaller ok) (simp_all add: same_limits_def sizeOf_def)
qed

lemma kept_loadLoop: "db_ok d \<Longrightarrow> kept d (snd (loadLoop i rs now nows clocks d))"
proof (induction rs arbitrary: i d)
  case (Cons r rs)
  let ?opt = "if \<not> IsZero (rExpiresAt r) then noOptions\<lparr>HasExpireAt := True, ExpireAt := rExpiresAt r\<rparr> else noOptions"
  obtain x d1 where s: "Set (rKey r) (rValue r) ?opt (nows i) (clocks i) d = (x, d1)" by fastforce
  have k1: "kept d d1" using kept_Set [OF Cons.prems, of "rKey r" "rValue r" ?opt "nows i" "clocks i"] s by simp
  then have k2: "kept d (setFreq (rKey r) (rFreq r) d1)"
    by (intro kept_trans [OF k1] kept_setFreq) (simp add: kept_def)
  then have "db_ok (setFreq (rKey r) (rFreq r) d1)" by (simp add: kept_def)
  then have "kept d (snd (loadLoop (Suc i) rs now nows clocks (setFreq (rKey r) (rFreq r) d1)))"
    using kept_trans [OF k2] Cons.IH by blast
  then show ?case using Cons.IH [OF Cons.prems] k1 s by (cases x) (simp_all add: Let_def)
qed (simp add: kept_refl)

lemma kept_LoadRecords:
  assumes ok: "db_ok d"
  shows "kept d (snd (LoadRecords perm recs now nows clocks d))"
proof -
  let ?d1 = "SetMutationSink None d"
  let ?d2 = "snd (FlushDB perm ?d1)"
  let ?d3 = "snd (loadLoop 0 recs now nows clocks ?d2)"
  have k1: "kept d ?d1" by (rule kept_SetMutationSink [OF ok])
  then have k2: "kept d ?d2" using kept_trans kept_FlushDB by (blast dest: kept_def [THEN iffD1])
  then have k3: "kept d ?d3" using kept_trans kept_loadLoop by (blast dest: kept_def [THEN iffD1])
  then have "kept ?d3 (SetMutationSink (sink d) ?d3)" by (intro kept_SetMutationSink) (simp add: kept_def)
  with k3 show ?thesis using kept_trans by (auto simp: LoadRecords_def split_beta Let_def)
qed

lemmas kept_ops = kept_Get kept_Set kept_Del kept_Exists kept_Type kept_Expire kept_Persist kept_TTL kept_PTTL
  kept_IncrBy kept_SetEvictionPolicy kept_expireDue kept_FlushDB kept_LoadRecords kept_SetMutationSink

lemma store_step_kept: "store_step d d' \<Longrightarrow> db_ok d \<Longrightarrow> kept d d'"
  by (induction rule: store_step.induct) (simp_all add: kept_ops)

section \<open>Reachable states\<close>

lemma New_bounded: "bounded (New c g)"
proof -
  have "sused (shards (New c g) ! i) = 0" if "i < length (shards (New c g))" for i
    using that by (simp add: New_def newShard_def Let_def)
  moreover have "used (New c g) = 0" by (simp add: New_def Let_def)
  ultimately show ?thesis by (simp add: bounded_def loadOf_def)
qed

lemma New_db_ok: "sane c \<Longrightarrow> db_ok (New c g)"
  using New_ok [of c g] unfolding sane_def by blast

lemma reachable_ok: "reachable c g d \<Longrightarrow> sane c \<Longrightarrow> db_ok d"
proof (induction rule: reachable.induct)
  case init
  then show ?case by (rule New_db_ok)
next
  case (op d d')
  then show ?case using store_step_kept by (simp add: kept_def)
next
  case (reconf d d')
  then show ?case using SetShardingStrategy_spec by (elim switch_stepE) simp
qed

lemma reachable_fixed_kept: "reachable_fixed c g d \<Longrightarrow> sane c \<Longrightarrow> kept (New c g) d"
proof (induction rule: reachable_fixed.induct)
  case init_fixed
  then show ?case by (intro kept_refl New_db_ok)
next
  case (op_fixed d d')
  then have "kept (New c g) d" by simp
  moreover from this have "kept d d'" using op_fixed store_step_kept by (simp add: kept_def)
  ultimately show ?case by (rule kept_trans)
qed

end
