(* ===== verification/Resp.thy ===== *)
theory Resp
  imports GoStrings
begin

text \<open>
  \<^verbatim>\<open>internal/protocol/resp.go\<close>: the RESP2 codec. A connection's input is the string of bytes that are
  still to come, after which the peer has closed it; a reader returns the value or error and
  the bytes left. Writing gives the bytes; the I/O errors of the writer are not modelled. The
  struct \<^verbatim>\<open>Value\<close> with its type tag is a datatype, so the branch of \<^verbatim>\<open>Write\<close> for an unknown tag
  has no counterpart.
\<close>

section \<open>Values\<close>

datatype Value =
    SimpleString string
  | RespError string
  | RespInteger int
  | BulkString string
  | Array "Value list"
  | Null

definition CRLF :: string where
  "CRLF = [CHR 0x0D, CHR 0x0A]"

fun Write :: "Value \<Rightarrow> string" where
  "Write (SimpleString s) = ''+'' @ s @ CRLF"
| "Write (RespError s) = ''-'' @ s @ CRLF"
| "Write (RespInteger n) = '':'' @ FormatInt n @ CRLF"
| "Write (BulkString s) = ''$'' @ FormatInt (int (length s)) @ CRLF @ s @ CRLF"
| "Write Null = ''$-1'' @ CRLF"
| "Write (Array vs) = ''*'' @ FormatInt (int (length vs)) @ CRLF @ concat (map Write vs)"

section \<open>Reading\<close>

text \<open>
  \<open>Panic\<close> is the run-time panic of \<^verbatim>\<open>make\<close> for a length that is negative or needs more than
  the address space of the allocator (\<open>2 ^ 48\<close> bytes on 64-bit platforms). \<open>NoFuel\<close> is no error of
  the code: the fuel given to the reader is never exhausted.
\<close>

datatype readErr =
    EOF | UnexpectedEOF | BadInteger string numError
  | BadBulkLength string numError | NegativeBulkLength int | BadArrayLength string numError | NegativeArrayLength int
  | NoTrailer | NoCRLF | EmptyInline | EmptyArray | EmptyCommand | BadArgument nat | NotACommand nat | Panic | NoFuel

type_synonym 'a reader = "string \<Rightarrow> (readErr + 'a) \<times> string"

definition maxAlloc :: int where "maxAlloc = 2 ^ 48"

definition makeslice :: "int \<Rightarrow> int \<Rightarrow> bool" where
  "makeslice elem n \<longleftrightarrow> 0 \<le> n \<and> n * elem \<le> maxAlloc"

text \<open>\<^verbatim>\<open>ReadString('\n')\<close>: up to and including the delimiter, everything at the end of input.\<close>

definition ReadString :: "string reader" where
  "ReadString r =
     (if CHR 0x0A \<in> set r
      then (Inr (takeWhile (\<lambda>c. c \<noteq> CHR 0x0A) r @ [CHR 0x0A]), drop 1 (dropWhile (\<lambda>c. c \<noteq> CHR 0x0A) r))
      else (Inl EOF, []))"

definition readLine :: "string reader" where
  "readLine r =
     (case ReadString r of
        (Inl e, r1) \<Rightarrow> (Inl e, r1)
      | (Inr line, r1) \<Rightarrow>
          if length line < 2 \<or> line ! (length line - 2) \<noteq> CHR 0x0D then (Inl NoCRLF, r1)
          else (Inr (take (length line - 2) line), r1))"

fun splitLoop :: "string list \<Rightarrow> string \<Rightarrow> bool \<Rightarrow> string \<Rightarrow> string list" where
  "splitLoop parts cur inSpace [] = (if \<not> inSpace then parts @ [cur] else parts)"
| "splitLoop parts cur inSpace (c # line) =
     (if c = CHR '' '' \<or> c = CHR 0x09
      then (if \<not> inSpace then splitLoop (parts @ [cur]) [] True line else splitLoop parts cur inSpace line)
      else splitLoop parts (cur @ [c]) False line)"

definition splitArgs :: "string \<Rightarrow> string list" where
  "splitArgs line = splitLoop [] [] True line"

definition readInline :: "Value reader" where
  "readInline r =
     (case readLine r of
        (Inl e, r1) \<Rightarrow> (Inl e, r1)
      | (Inr line, r1) \<Rightarrow>
          if line = [] then (Inl EmptyInline, r1)
          else (Inr (Array (map BulkString (splitArgs line))), r1))"

text \<open>The branch for \<^verbatim>\<open>$\<close>, after the length line; \<open>n + 2\<close> is computed in 64 bits.\<close>

definition readBulk :: "int \<Rightarrow> Value reader" where
  "readBulk n r =
     (if n = -1 then (Inr Null, r)
      else if n < 0 then (Inl (NegativeBulkLength n), r)
      else if \<not> makeslice 1 (wrap64 (n + 2)) then (Inl Panic, r)
      else let k = nat n in
        if length r < k + 2 then (Inl (if r = [] then EOF else UnexpectedEOF), [])
        else if r ! k \<noteq> CHR 0x0D \<or> r ! (k + 1) \<noteq> CHR 0x0A then (Inl NoTrailer, drop (k + 2) r)
        else (Inr (BulkString (take k r)), drop (k + 2) r))"

text \<open>The size of a \<^verbatim>\<open>Value\<close>: tag, string header, integer and slice header.\<close>

definition sizeofValue :: int where "sizeofValue = 56"

fun readValue :: "nat \<Rightarrow> Value reader" and readElems :: "nat \<Rightarrow> nat \<Rightarrow> Value list reader" where
  "readValue 0 r = (Inl NoFuel, r)"
| "readValue (Suc f) r =
     (case r of
        [] \<Rightarrow> (Inl EOF, [])
      | tag # r0 \<Rightarrow>
          if tag = CHR ''+'' then
            (case readLine r0 of (Inl e, r1) \<Rightarrow> (Inl e, r1) | (Inr line, r1) \<Rightarrow> (Inr (SimpleString line), r1))
          else if tag = CHR ''-'' then
            (case readLine r0 of (Inl e, r1) \<Rightarrow> (Inl e, r1) | (Inr line, r1) \<Rightarrow> (Inr (RespError line), r1))
          else if tag = CHR '':'' then
            (case readLine r0 of
               (Inl e, r1) \<Rightarrow> (Inl e, r1)
             | (Inr line, r1) \<Rightarrow>
                 (case ParseInt line of Inl e \<Rightarrow> (Inl (BadInteger line e), r1) | Inr n \<Rightarrow> (Inr (RespInteger n), r1)))
          else if tag = CHR ''$'' then
            (case readLine r0 of
               (Inl e, r1) \<Rightarrow> (Inl e, r1)
             | (Inr line, r1) \<Rightarrow>
                 (case ParseInt line of Inl e \<Rightarrow> (Inl (BadBulkLength line e), r1) | Inr n \<Rightarrow> readBulk n r1))
          else if tag = CHR ''*'' then
            (case readLine r0 of
               (Inl e, r1) \<Rightarrow> (Inl e, r1)
             | (Inr line, r1) \<Rightarrow>
                 (case ParseInt line of
                    Inl e \<Rightarrow> (Inl (BadArrayLength line e), r1)
                  | Inr n \<Rightarrow>
                      if n = -1 then (Inr Null, r1)
                      else if n < 0 then (Inl (NegativeArrayLength n), r1)
                      else if \<not> makeslice sizeofValue n then (Inl Panic, r1)
                      else (case readElems f (nat n) r1 of
                              (Inl e, r2) \<Rightarrow> (Inl e, r2)
                            | (Inr vs, r2) \<Rightarrow> (Inr (Array vs), r2))))
          else readInline r)"
| "readElems 0 n r = (Inl NoFuel, r)"
| "readElems (Suc f) n r =
     (if n = 0 then (Inr [], r)
      else case readValue f r of
        (Inl e, r1) \<Rightarrow> (Inl e, r1)
      | (Inr v, r1) \<Rightarrow>
          (case readElems f (n - 1) r1 of
             (Inl e, r2) \<Rightarrow> (Inl e, r2)
           | (Inr vs, r2) \<Rightarrow> (Inr (v # vs), r2)))"

definition Read :: "Value reader" where
  "Read r = readValue (2 * length r + 1) r"

section \<open>Commands\<close>

fun commandArgs :: "nat \<Rightarrow> Value list \<Rightarrow> readErr + string list" where
  "commandArgs i [] = Inr []"
| "commandArgs i (v # vs) =
     (case (case v of
              BulkString s \<Rightarrow> Some s
            | SimpleString s \<Rightarrow> Some s
            | RespInteger n \<Rightarrow> Some (FormatInt n)
            | _ \<Rightarrow> None) of
        None \<Rightarrow> Inl (BadArgument i)
      | Some a \<Rightarrow> (case commandArgs (Suc i) vs of Inl e \<Rightarrow> Inl e | Inr as \<Rightarrow> Inr (a # as)))"

definition ReadCommand :: "string list reader" where
  "ReadCommand r =
     (case Read r of
        (Inl e, r1) \<Rightarrow> (Inl e, r1)
      | (Inr v, r1) \<Rightarrow>
          (case v of
             Array vs \<Rightarrow> if vs = [] then (Inl EmptyArray, r1) else (commandArgs 0 vs, r1)
           | SimpleString s \<Rightarrow> if s = [] then (Inl EmptyCommand, r1) else (Inr [s], r1)
           | BulkString s \<Rightarrow> if s = [] then (Inl EmptyCommand, r1) else (Inr [s], r1)
           | RespError _ \<Rightarrow> (Inl (NotACommand 1), r1)
           | RespInteger _ \<Rightarrow> (Inl (NotACommand 2), r1)
           | Null \<Rightarrow> (Inl (NotACommand 5), r1)))"

section \<open>Lines\<close>

lemma CR_LF_distinct [simp]: "CHR 0x0D \<noteq> CHR 0x0A"
  by simp

lemma readLine_CRLF [simp]: "CHR 0x0A \<notin> set s \<Longrightarrow> readLine (s @ CRLF @ rest) = (Inr s, rest)"
proof -
  assume s: "CHR 0x0A \<notin> set s"
  have t: "takeWhile (\<lambda>c. c \<noteq> CHR 0x0A) (s @ CRLF @ rest) = s @ [CHR 0x0D]"
    "dropWhile (\<lambda>c. c \<noteq> CHR 0x0A) (s @ CRLF @ rest) = CHR 0x0A # rest"
    using s by (auto simp: CRLF_def takeWhile_append dropWhile_append)
  have "ReadString (s @ CRLF @ rest) = (Inr (s @ CRLF), rest)"
    unfolding ReadString_def t by (simp add: CRLF_def)
  then show ?thesis by (simp add: readLine_def CRLF_def nth_append)
qed

lemma readLine_suffix: "suffix (snd (readLine r)) r \<and> fst (readLine r) \<noteq> Inl NoFuel"
proof -
  have "suffix (drop 1 (dropWhile P r)) r" for P
    using suffix_drop suffix_dropWhile suffix_order.trans by blast
  then show ?thesis by (auto simp: readLine_def ReadString_def)
qed

lemma readLine_progress: "fst (readLine r) = Inr s \<Longrightarrow> length (snd (readLine r)) < length r"
proof -
  assume a: "fst (readLine r) = Inr s"
  then have n: "CHR 0x0A \<in> set r" by (auto simp: readLine_def ReadString_def split: if_splits)
  then have "0 < length (dropWhile (\<lambda>c. c \<noteq> CHR 0x0A) r)" by (auto simp: dropWhile_eq_Nil_conv)
  moreover have "length (dropWhile (\<lambda>c. c \<noteq> CHR 0x0A) r) \<le> length r" by (rule length_dropWhile_le)
  ultimately have "length (drop 1 (dropWhile (\<lambda>c. c \<noteq> CHR 0x0A) r)) < length r" by (simp only: length_drop)
  moreover have "snd (readLine r) = drop 1 (dropWhile (\<lambda>c. c \<noteq> CHR 0x0A) r)"
    using n unfolding readLine_def ReadString_def by (simp split: if_splits)
  ultimately show ?thesis by (simp only:)
qed

section \<open>Encoding and decoding\<close>

text \<open>
  What the wire format can carry: a line must not contain a line feed, integers have 64 bits,
  and lengths are such that the receiver can allocate.
\<close>

fun encodable :: "Value \<Rightarrow> bool" where
  "encodable (SimpleString s) \<longleftrightarrow> CHR 0x0A \<notin> set s"
| "encodable (RespError s) \<longleftrightarrow> CHR 0x0A \<notin> set s"
| "encodable (RespInteger n) \<longleftrightarrow> is_int64 n"
| "encodable (BulkString s) \<longleftrightarrow> int (length s) + 2 \<le> maxAlloc"
| "encodable (Array vs) \<longleftrightarrow> int (length vs) * sizeofValue \<le> maxAlloc \<and> list_all encodable vs"
| "encodable Null \<longleftrightarrow> True"

lemma Write_length: "3 \<le> length (Write v)"
  by (cases v) (simp_all add: CRLF_def)

lemma readBulk_ok: "int (length s) + 2 \<le> maxAlloc \<Longrightarrow> readBulk (int (length s)) (s @ CRLF @ rest) = (Inr (BulkString s), rest)"
  by (simp add: readBulk_def makeslice_def maxAlloc_def CRLF_def nth_append is_int64_def)

lemma length_is_int64: "int n * sizeofValue \<le> maxAlloc \<Longrightarrow> is_int64 (int n)" "int n + 2 \<le> maxAlloc \<Longrightarrow> is_int64 (int n)"
  by (simp_all add: is_int64_def sizeofValue_def maxAlloc_def)

lemma readElems_Write:
  assumes "\<And>v f rest. v \<in> set vs \<Longrightarrow> 2 * length (Write v) \<le> f \<Longrightarrow> readValue f (Write v @ rest) = (Inr v, rest)"
    and "2 * length (concat (map Write vs)) + 1 \<le> f"
  shows "readElems f (length vs) (concat (map Write vs) @ rest) = (Inr vs, rest)"
  using assms
proof (induction vs arbitrary: f)
  case Nil
  then show ?case by (cases f) simp_all
next
  case (Cons v vs)
  then obtain g where f: "f = Suc g" by (cases f) simp_all
  have g: "2 * length (Write v) \<le> g" "2 * length (concat (map Write vs)) + 1 \<le> g"
    using Cons.prems(2) f Write_length [of v] by simp_all
  have "readValue g (Write v @ concat (map Write vs) @ rest) = (Inr v, concat (map Write vs) @ rest)"
    by (rule Cons.prems(1) [OF _ g(1)]) simp
  moreover have "readElems g (length vs) (concat (map Write vs) @ rest) = (Inr vs, rest)"
    by (rule Cons.IH [OF Cons.prems(1) g(2)]) simp_all
  ultimately show ?case using f by simp
qed

lemma readValue_Write:
  "encodable v \<Longrightarrow> 2 * length (Write v) \<le> f \<Longrightarrow> readValue f (Write v @ rest) = (Inr v, rest)"
proof (induction v arbitrary: f rest)
  case (BulkString s)
  then obtain g where "f = Suc g" by (cases f) (simp_all add: CRLF_def)
  with BulkString show ?case
    by (simp add: FormatInt_no_newline ParseInt_FormatInt length_is_int64 readBulk_ok)
next
  case (Array vs)
  then obtain g where f: "f = Suc g" by (cases f) (simp_all add: CRLF_def)
  have b: "2 * length (concat (map Write vs)) + 1 \<le> g" using Array.prems(2) f by (simp add: CRLF_def)
  have m: "\<not> int (length vs) < 0" "makeslice sizeofValue (int (length vs))" "is_int64 (int (length vs))"
    using Array.prems(1) length_is_int64(1) by (simp_all add: makeslice_def)
  have "readElems g (length vs) (concat (map Write vs) @ rest) = (Inr vs, rest)"
    by (rule readElems_Write [OF Array.IH b]) (use Array.prems in \<open>auto simp: list_all_iff\<close>)
  then show ?case
    using f m by (simp add: FormatInt_no_newline ParseInt_FormatInt)
next
  case Null
  then obtain g where "f = Suc g" by (cases f) (simp_all add: CRLF_def)
  moreover have "readLine (''-1'' @ CRLF @ rest) = (Inr ''-1'', rest)" by (rule readLine_CRLF) simp
  moreover have "ParseInt ''-1'' = Inr (-1)"
    by (simp add: parse_eval)
  ultimately show ?case by (simp add: readBulk_def del: readLine_CRLF)
next
  case (RespInteger n)
  then obtain g where "f = Suc g" by (cases f) (simp_all add: CRLF_def)
  with RespInteger show ?case by (simp add: FormatInt_no_newline ParseInt_FormatInt)
next
  case (SimpleString s)
  then obtain g where "f = Suc g" by (cases f) (simp_all add: CRLF_def)
  with SimpleString show ?case by simp
next
  case (RespError s)
  then obtain g where "f = Suc g" by (cases f) (simp_all add: CRLF_def)
  with RespError show ?case by simp
qed

lemma Read_Write: "encodable v \<Longrightarrow> Read (Write v @ rest) = (Inr v, rest)"
  unfolding Read_def by (rule readValue_Write) simp_all

section \<open>Progress\<close>

lemma readBulk_suffix: "suffix (snd (readBulk n r)) r \<and> fst (readBulk n r) \<noteq> Inl NoFuel"
  by (auto simp: readBulk_def Let_def suffix_drop)

lemma readInline_suffix: "suffix (snd (readInline r)) r \<and> fst (readInline r) \<noteq> Inl NoFuel"
  using readLine_suffix [of r] by (auto simp: readInline_def split: prod.splits sum.splits)

lemma readInline_progress: "fst (readInline r) = Inr v \<Longrightarrow> length (snd (readInline r)) < length r"
  using readLine_progress [of r] by (auto simp: readInline_def split: prod.splits sum.splits if_splits)

lemma suffix_shorter: "suffix xs ys \<Longrightarrow> length xs \<le> length ys"
  by (auto simp: suffix_def)

text \<open>
  A reader consumes a prefix of the input, at least one byte when it succeeds, and the fuel
  \<^verbatim>\<open>2 n + 1\<close> is enough for an input of \<open>n\<close> bytes, whatever lengths it announces.
\<close>

definition readerOK :: "nat \<Rightarrow> string \<Rightarrow> bool" where
  "readerOK f r \<longleftrightarrow> suffix (snd (readValue f r)) r \<and>
     (\<forall>v. fst (readValue f r) = Inr v \<longrightarrow> length (snd (readValue f r)) < length r) \<and>
     (2 * length r + 1 \<le> f \<longrightarrow> fst (readValue f r) \<noteq> Inl NoFuel)"

definition elemsOK :: "nat \<Rightarrow> nat \<Rightarrow> string \<Rightarrow> bool" where
  "elemsOK f n r \<longleftrightarrow> suffix (snd (readElems f n r)) r \<and> (2 * length r + 2 \<le> f \<longrightarrow> fst (readElems f n r) \<noteq> Inl NoFuel)"

lemma elems_step:
  assumes v: "\<And>r. readerOK f r" and e: "\<And>n r. elemsOK f n r"
  shows "elemsOK (Suc f) n r"
proof (cases "n = 0")
  case True
  then show ?thesis by (simp add: elemsOK_def)
next
  case False
  obtain x r1 where x: "readValue f r = (x, r1)" by fastforce
  have X: "suffix r1 r" "\<And>w. x = Inr w \<Longrightarrow> length r1 < length r" "2 * length r + 1 \<le> f \<Longrightarrow> x \<noteq> Inl NoFuel"
    using v [of r] x by (auto simp: readerOK_def)
  show ?thesis
  proof (cases x)
    case (Inl err)
    then show ?thesis using X(1,3) x False by (simp add: elemsOK_def)
  next
    case (Inr w)
    obtain y r2 where y: "readElems f (n - 1) r1 = (y, r2)" by fastforce
    have Y: "suffix r2 r1" "2 * length r1 + 2 \<le> f \<Longrightarrow> y \<noteq> Inl NoFuel" using e [of "n - 1" r1] y by (auto simp: elemsOK_def)
    have "2 * length r + 2 \<le> Suc f \<Longrightarrow> 2 * length r1 + 2 \<le> f" using X(2) [OF Inr] by simp
    moreover have "suffix r2 r" using X(1) Y(1) suffix_order.trans by blast
    ultimately show ?thesis using Y(2) x y Inr False by (auto simp: elemsOK_def split: sum.splits)
  qed
qed

lemma value_step:
  assumes e: "\<And>n r. elemsOK f n r"
  shows "readerOK (Suc f) r"
proof (cases r)
  case Nil
  then show ?thesis by (simp add: readerOK_def)
next
  case (Cons tag r0)
  obtain x r1 where l: "readLine r0 = (x, r1)" by fastforce
  have s1: "suffix r1 r" "x \<noteq> Inl NoFuel" "length r1 \<le> length r0"
    using readLine_suffix [of r0] l Cons suffix_ConsI suffix_shorter by auto
  have bulk: "suffix (snd (readBulk n r1)) r" "length (snd (readBulk n r1)) < length r" "fst (readBulk n r1) \<noteq> Inl NoFuel" for n
    using readBulk_suffix [of n r1] s1(1,3) suffix_order.trans suffix_shorter [of "snd (readBulk n r1)" r1] Cons by fastforce+
  have elems: "suffix (snd (readElems f n r1)) r" "length (snd (readElems f n r1)) < length r"
      "2 * length r + 1 \<le> Suc f \<Longrightarrow> fst (readElems f n r1) \<noteq> Inl NoFuel" for n
    using e [of n r1] s1(1,3) suffix_order.trans suffix_shorter [of "snd (readElems f n r1)" r1] Cons
    by (fastforce simp: elemsOK_def)+
  have line: "length r1 < length r" using s1(3) Cons by simp
  consider (inline) "tag \<notin> {CHR ''+'', CHR ''-'', CHR '':'', CHR ''$'', CHR ''*''}" | (plus) "tag = CHR ''+''" | (minus) "tag = CHR ''-''"
    | (int) "tag = CHR '':''" | (bulk) "tag = CHR ''$''" | (array) "tag = CHR ''*''" by blast
  then show ?thesis
  proof cases
    case inline
    then have "readValue (Suc f) r = readInline r" using Cons by simp
    then show ?thesis using readInline_suffix [of r] readInline_progress [of r] unfolding readerOK_def by simp
  next
    case plus
    then have "readValue (Suc f) r = (case x of Inl e \<Rightarrow> (Inl e, r1) | Inr line \<Rightarrow> (Inr (SimpleString line), r1))"
      using Cons l by (simp split: sum.splits)
    then show ?thesis using s1 line unfolding readerOK_def by (cases x) simp_all
  next
    case minus
    then have "readValue (Suc f) r = (case x of Inl e \<Rightarrow> (Inl e, r1) | Inr line \<Rightarrow> (Inr (RespError line), r1))"
      using Cons l by (simp split: sum.splits)
    then show ?thesis using s1 line unfolding readerOK_def by (cases x) simp_all
  next
    case int
    then have "readValue (Suc f) r = (case x of Inl e \<Rightarrow> (Inl e, r1) | Inr line \<Rightarrow>
        (case ParseInt line of Inl e \<Rightarrow> (Inl (BadInteger line e), r1) | Inr n \<Rightarrow> (Inr (RespInteger n), r1)))"
      using Cons l by (simp split: sum.splits)
    then show ?thesis using s1 line unfolding readerOK_def by (cases x) (simp_all split: sum.splits)
  next
    case bulk
    then have "readValue (Suc f) r = (case x of Inl e \<Rightarrow> (Inl e, r1) | Inr line \<Rightarrow>
        (case ParseInt line of Inl e \<Rightarrow> (Inl (BadBulkLength line e), r1) | Inr n \<Rightarrow> readBulk n r1))"
      using Cons l by (simp split: sum.splits)
    then show ?thesis using s1 line \<open>\<And>n. suffix (snd (readBulk n r1)) r\<close>
      \<open>\<And>n. length (snd (readBulk n r1)) < length r\<close> \<open>\<And>n. fst (readBulk n r1) \<noteq> Inl NoFuel\<close>
      unfolding readerOK_def by (cases x) (simp_all split: sum.splits)
  next
    case array
    then have R: "readValue (Suc f) r = (case x of Inl e \<Rightarrow> (Inl e, r1) | Inr line \<Rightarrow>
        (case ParseInt line of Inl e \<Rightarrow> (Inl (BadArrayLength line e), r1)
         | Inr n \<Rightarrow> if n = -1 then (Inr Null, r1) else if n < 0 then (Inl (NegativeArrayLength n), r1)
             else if \<not> makeslice sizeofValue n then (Inl Panic, r1)
             else (case readElems f (nat n) r1 of (Inl e, r2) \<Rightarrow> (Inl e, r2) | (Inr vs, r2) \<Rightarrow> (Inr (Array vs), r2))))"
      using Cons l by (simp split: sum.splits)
    show ?thesis
    proof (cases x)
      case (Inl err)
      then show ?thesis using s1 line R unfolding readerOK_def by simp
    next
      case (Inr ln)
      obtain y r2 where y: "readElems f n r1 = (y n, r2 n)" for n
        using that [of "\<lambda>n. fst (readElems f n r1)" "\<lambda>n. snd (readElems f n r1)"] by simp
      have E: "suffix (r2 n) r" "length (r2 n) < length r" "2 * length r + 1 \<le> Suc f \<Longrightarrow> y n \<noteq> Inl NoFuel" for n
        using elems [of n] y [of n] by simp_all
      show ?thesis
      proof (cases "ParseInt ln")
        case (Inl err)
        then show ?thesis using s1 line R \<open>x = Inr ln\<close> unfolding readerOK_def by simp
      next
        case n: (Inr n)
        show ?thesis
          using s1(1,2) line R Inr n y [of "nat n"] E [of "nat n"] unfolding readerOK_def
          by (cases "y (nat n)") auto
      qed
    qed
  qed
qed

lemma reader_progress: "(\<forall>r. readerOK f r) \<and> (\<forall>n r. elemsOK f n r)"
proof (induction f)
  case 0
  show ?case by (simp add: readerOK_def elemsOK_def)
next
  case (Suc f)
  then show ?case using value_step [of f] elems_step [of f] by blast
qed

section \<open>Inline commands\<close>

definition blank :: "char \<Rightarrow> bool" where
  "blank c \<longleftrightarrow> c = CHR '' '' \<or> c = CHR 0x09"

definition word :: "string \<Rightarrow> bool" where
  "word w \<longleftrightarrow> w \<noteq> [] \<and> list_all (\<lambda>c. \<not> blank c) w"

lemma splitLoop_blanks: "list_all blank s \<Longrightarrow> splitLoop parts [] True (s @ x) = splitLoop parts [] True x"
  by (induction s) (auto simp: blank_def)

lemma splitLoop_letters:
  "list_all (\<lambda>c. \<not> blank c) w \<Longrightarrow> splitLoop parts cur b (w @ x) = splitLoop parts (cur @ w) (b \<and> w = []) x"
  by (induction w arbitrary: cur b) (auto simp: blank_def)

text \<open>A line as blanks and words: \<open>ps\<close> pairs each word with the blanks before it.\<close>

definition lineOf :: "(string \<times> string) list \<Rightarrow> string" where
  "lineOf ps = concat (map (\<lambda>(s, w). s @ w) ps)"

lemma splitLoop_words:
  assumes "\<forall>(s, w) \<in> set ps. s \<noteq> [] \<and> list_all blank s \<and> word w" "list_all blank t"
  shows "splitLoop parts w False (lineOf ps @ t) = parts @ w # map snd ps"
  using assms
proof (induction ps arbitrary: parts w)
  case Nil
  show ?case
  proof (cases t)
    case (Cons c t')
    with Nil have "blank c" "list_all blank t'" by simp_all
    then show ?thesis using Cons splitLoop_blanks [of t' "parts @ [w]" "[]"] by (auto simp: lineOf_def blank_def)
  qed (simp add: lineOf_def)
next
  case (Cons p ps)
  obtain s v where p: "p = (s, v)" by fastforce
  then obtain c s' where s: "s = c # s'" "blank c" "list_all blank s'" and v: "word v"
    using Cons.prems(1) by (cases s) auto
  have "splitLoop parts w False (lineOf (p # ps) @ t) = splitLoop (parts @ [w]) [] True (s' @ v @ lineOf ps @ t)"
    using p s by (auto simp: lineOf_def blank_def)
  also have "\<dots> = splitLoop (parts @ [w]) v False (lineOf ps @ t)"
    using s(3) v by (simp add: splitLoop_blanks splitLoop_letters word_def)
  also have "\<dots> = parts @ w # map snd (p # ps)" using Cons p by simp
  finally show ?case .
qed

lemma splitArgs_words:
  assumes "list_all blank s" "word w" "\<forall>(s, w) \<in> set ps. s \<noteq> [] \<and> list_all blank s \<and> word w" "list_all blank t"
  shows "splitArgs (s @ w @ lineOf ps @ t) = w # map snd ps"
  using splitLoop_words [OF assms(3,4), of "[]" w] assms(1,2)
  by (simp add: splitArgs_def splitLoop_blanks splitLoop_letters word_def)

lemma commandArgs_bulk: "commandArgs i (map BulkString as) = Inr as"
  by (induction as arbitrary: i) simp_all

section \<open>Properties of the codec\<close>

text \<open>C29: reading what was written gives the value back and leaves the following bytes untouched, for
  every value the format can carry: bulk strings are binary safe, arrays nest to any depth.\<close>

theorem Read_Write_roundtrip:
  assumes "encodable v"
  shows "Read (Write v @ rest) = (Inr v, rest)"
  by (rule Read_Write [OF assms])

theorem Read_Write_roundtrip_witness:
  "Read (Write (Array [BulkString [CHR 0x0D, CHR 0x0A], RespInteger (-7), Null, Array []]) @ ''+OK'') =
     (Inr (Array [BulkString [CHR 0x0D, CHR 0x0A], RespInteger (-7), Null, Array []]), ''+OK'')"
  by (rule Read_Write_roundtrip) (simp add: is_int64_def maxAlloc_def sizeofValue_def)

text \<open>A command sent as an array of bulk strings is received as exactly its arguments, whatever
  bytes they contain, and pipelined commands are received one after the other.\<close>

theorem ReadCommand_roundtrip:
  assumes "args \<noteq> []" "\<forall>a \<in> set args. int (length a) + 2 \<le> maxAlloc" "int (length args) * sizeofValue \<le> maxAlloc"
  shows "ReadCommand (Write (Array (map BulkString args)) @ rest) = (Inr args, rest)"
proof -
  have "encodable (Array (map BulkString args))" using assms(2,3) by (simp add: list_all_iff)
  then show ?thesis using assms(1) by (simp add: ReadCommand_def Read_Write commandArgs_bulk del: Write.simps)
qed

theorem ReadCommand_roundtrip_witness:
  "ReadCommand (Write (Array (map BulkString [''SET'', ''k'', [CHR 0x0A]])) @ ''PING'') = (Inr [''SET'', ''k'', [CHR 0x0A]], ''PING'')"
  by (rule ReadCommand_roundtrip) (simp_all add: maxAlloc_def sizeofValue_def)

text \<open>An inline command line, with any blanks around and between its words, is received as its
  words.\<close>

theorem ReadCommand_inline:
  assumes "list_all blank s" "word w" "\<forall>(s, w) \<in> set ps. s \<noteq> [] \<and> list_all blank s \<and> word w" "list_all blank t"
    and "CHR 0x0A \<notin> set (w @ lineOf ps)" "hd (s @ w) \<notin> {CHR ''+'', CHR ''-'', CHR '':'', CHR ''$'', CHR ''*''}"
  shows "ReadCommand ((s @ w @ lineOf ps @ t) @ CRLF @ rest) = (Inr (w # map snd ps), rest)"
proof -
  let ?line = "s @ w @ lineOf ps @ t"
  have nb: "\<not> blank (CHR 0x0A)" by (simp add: blank_def)
  have "CHR 0x0A \<notin> set s" using assms(1) nb unfolding list_all_iff by blast
  moreover have "CHR 0x0A \<notin> set t" using assms(4) nb unfolding list_all_iff by blast
  ultimately have "CHR 0x0A \<notin> set ?line" using assms(5) by (simp only: set_append Un_iff) simp
  then have l: "readLine (?line @ CRLF @ rest) = (Inr ?line, rest)" by (rule readLine_CRLF)
  have ne: "?line \<noteq> []" using assms(2) by (simp add: word_def)
  then have i: "readInline (?line @ CRLF @ rest) = (Inr (Array (map BulkString (w # map snd ps))), rest)"
    unfolding readInline_def l using splitArgs_words [OF assms(1-4)] by simp
  obtain c x where c: "?line @ CRLF @ rest = c # x" "c \<notin> {CHR ''+'', CHR ''-'', CHR '':'', CHR ''$'', CHR ''*''}"
    using assms(2,6) by (cases s; cases w) (auto simp: word_def)
  have "Read (c # x) = readInline (c # x)" using c(2) by (simp add: Read_def)
  then have "Read (?line @ CRLF @ rest) = (Inr (Array (map BulkString (w # map snd ps))), rest)" using i c(1) by simp
  then show ?thesis
    unfolding ReadCommand_def using commandArgs_bulk [of 0 "w # map snd ps"] by (simp del: list.map append_assoc)
qed

theorem ReadCommand_inline_witness:
  "ReadCommand (('' '' @ ''SET'' @ lineOf [('' '', ''k''), ([CHR 0x09, CHR '' ''], ''v'')] @ '' '') @ CRLF @ ''PING'') =
     (Inr [''SET'', ''k'', ''v''], ''PING'')"
  using ReadCommand_inline [of "'' ''" "''SET''" "[('' '', ''k''), ([CHR 0x09, CHR '' ''], ''v'')]" "'' ''" "''PING''"]
  by (simp add: blank_def word_def lineOf_def)

text \<open>C30: reading a value ends on every input, however deep the announced nesting and however large
  the announced lengths: it consumes a prefix of the input, at least one byte when it succeeds.\<close>

theorem Read_returns:
  "fst (Read r) \<noteq> Inl NoFuel \<and> suffix (snd (Read r)) r \<and>
   (case fst (Read r) of Inr v \<Rightarrow> length (snd (Read r)) < length r | Inl e \<Rightarrow> True)"
  using reader_progress [of "2 * length r + 1"] by (auto simp: readerOK_def Read_def split: sum.splits)



end
