(* ===== verification/PathMatch.thy ===== *)
theory PathMatch
  imports GoStrings
begin

text \<open>
  Standard library code the pub/sub hub and the persistence engine rest on: decoding of the first
  UTF-8 sequence of a string (\<^verbatim>\<open>utf8.DecodeRuneInString\<close>) and the shell patterns of
  \<^verbatim>\<open>path.Match\<close>, in the structure of its implementation: the pattern is cut into chunks at
  the stars, each chunk is matched at the earliest position, and a star never skips a slash.
\<close>

section \<open>UTF-8\<close>

definition byte :: "char \<Rightarrow> nat" where
  "byte c = of_char c"

definition cont :: "char \<Rightarrow> bool" where
  "cont c \<longleftrightarrow> 0x80 \<le> byte c \<and> byte c \<le> 0xBF"

definition RuneError :: nat where "RuneError = 0xFFFD"

text \<open>The rune and the number of its bytes; \<open>(RuneError, 1)\<close> for an invalid sequence.\<close>

fun decodeRune :: "string \<Rightarrow> nat \<times> nat" where
  "decodeRune [] = (RuneError, 0)"
| "decodeRune (c # s) =
     (let b = byte c in
      if b < 0x80 then (b, 1)
      else if 0xC2 \<le> b \<and> b \<le> 0xDF then
        (case s of
           c1 # _ \<Rightarrow> if cont c1 then ((b - 0xC0) * 64 + (byte c1 - 0x80), 2) else (RuneError, 1)
         | _ \<Rightarrow> (RuneError, 1))
      else if 0xE0 \<le> b \<and> b \<le> 0xEF then
        (case s of
           c1 # c2 # _ \<Rightarrow>
             if cont c1 \<and> cont c2 \<and> (b = 0xE0 \<longrightarrow> 0xA0 \<le> byte c1) \<and> (b = 0xED \<longrightarrow> byte c1 \<le> 0x9F)
             then ((b - 0xE0) * 4096 + (byte c1 - 0x80) * 64 + (byte c2 - 0x80), 3) else (RuneError, 1)
         | _ \<Rightarrow> (RuneError, 1))
      else if 0xF0 \<le> b \<and> b \<le> 0xF4 then
        (case s of
           c1 # c2 # c3 # _ \<Rightarrow>
             if cont c1 \<and> cont c2 \<and> cont c3 \<and> (b = 0xF0 \<longrightarrow> 0x90 \<le> byte c1) \<and> (b = 0xF4 \<longrightarrow> byte c1 \<le> 0x8F)
             then ((b - 0xF0) * 262144 + (byte c1 - 0x80) * 4096 + (byte c2 - 0x80) * 64 + (byte c3 - 0x80), 4)
             else (RuneError, 1)
         | _ \<Rightarrow> (RuneError, 1))
      else (RuneError, 1))"

lemma decodeRune_size: "s \<noteq> [] \<Longrightarrow> 1 \<le> snd (decodeRune s) \<and> snd (decodeRune s) \<le> length s"
  by (cases s) (auto simp: Let_def split: list.splits)

lemma decodeRune_ascii: "byte c < 0x80 \<Longrightarrow> decodeRune (c # s) = (byte c, 1)"
  by simp

declare decodeRune.simps [simp del]

section \<open>Matching\<close>

text \<open>\<open>None\<close> is \<^verbatim>\<open>ErrBadPattern\<close>.\<close>

definition getEsc :: "string \<Rightarrow> (nat \<times> string) option" where
  "getEsc chunk =
     (if chunk = [] \<or> hd chunk = CHR ''-'' \<or> hd chunk = CHR '']'' then None
      else let chunk1 = (if hd chunk = CHR 0x5C then tl chunk else chunk) in
        if chunk1 = [] then None
        else let (r, n) = decodeRune chunk1; rest = drop n chunk1
             in if r = RuneError \<and> n = 1 \<or> rest = [] then None else Some (r, rest))"

lemma getEsc_shorter: "getEsc chunk = Some (r, rest) \<Longrightarrow> rest \<noteq> [] \<and> length rest < length chunk"
proof -
  assume a: "getEsc chunk = Some (r, rest)"
  define chunk1 where "chunk1 = (if hd chunk = CHR 0x5C then tl chunk else chunk)"
  have "chunk1 \<noteq> []" "rest = drop (snd (decodeRune chunk1)) chunk1" "rest \<noteq> []" "chunk \<noteq> []"
    using a by (auto simp: getEsc_def Let_def chunk1_def split: if_splits prod.splits)
  moreover have "length chunk1 \<le> length chunk" by (simp add: chunk1_def)
  ultimately show ?thesis using decodeRune_size [of chunk1] by simp
qed

function classRanges :: "nat \<Rightarrow> nat \<Rightarrow> bool \<Rightarrow> string \<Rightarrow> (bool \<times> string) option" where
  "classRanges nrange r match chunk =
     (if chunk \<noteq> [] \<and> hd chunk = CHR '']'' \<and> 0 < nrange then Some (match, tl chunk)
      else case getEsc chunk of
        None \<Rightarrow> None
      | Some (lo, chunk1) \<Rightarrow>
          if hd chunk1 = CHR ''-'' then
            (case getEsc (tl chunk1) of
               None \<Rightarrow> None
             | Some (hi, chunk2) \<Rightarrow> classRanges (nrange + 1) r (match \<or> lo \<le> r \<and> r \<le> hi) chunk2)
          else classRanges (nrange + 1) r (match \<or> lo = r) chunk1)"
  by pat_completeness auto
termination
  by (relation "measure (\<lambda>(n, r, m, chunk). length chunk)")
    (auto dest!: getEsc_shorter)

declare classRanges.simps [simp del]

lemma classRanges_shorter: "classRanges n r m chunk = Some (b, rest) \<Longrightarrow> length rest < length chunk"
proof (induction n r m chunk rule: classRanges.induct)
  case (1 n r m chunk)
  show ?case
  proof (cases "chunk \<noteq> [] \<and> hd chunk = CHR '']'' \<and> 0 < n")
    case True
    then have "rest = tl chunk" using 1(3) by (subst (asm) classRanges.simps) simp
    then show ?thesis using True by (cases chunk) simp_all
  next
    case False
    then obtain lo chunk1 where g: "getEsc chunk = Some (lo, chunk1)"
      using 1(3) by (subst (asm) classRanges.simps) (auto split: option.splits)
    note s1 = getEsc_shorter [OF g]
    show ?thesis
    proof (cases "hd chunk1 = CHR ''-''")
      case True
      then obtain hi chunk2 where h: "getEsc (tl chunk1) = Some (hi, chunk2)"
        and c: "classRanges (n + 1) r (m \<or> lo \<le> r \<and> r \<le> hi) chunk2 = Some (b, rest)"
        using 1(3) False g by (subst (asm) classRanges.simps) (auto split: option.splits)
      have "length rest < length chunk2" by (rule 1(1) [OF False g refl True h refl c])
      then show ?thesis using s1 getEsc_shorter [OF h] by (simp only: length_tl) linarith
    next
      case F: False
      then have c: "classRanges (n + 1) r (m \<or> lo = r) chunk1 = Some (b, rest)"
        using 1(3) False g by (subst (asm) classRanges.simps) (simp split: if_splits)
      have "length rest < length chunk1" by (rule 1(2) [OF False g refl F c])
      then show ?thesis using s1 by simp
    qed
  qed
qed

text \<open>
  \<open>Some None\<close>: no match; \<open>Some (Some t)\<close>: \<open>t\<close> is left of the name. Once the match has failed the
  rest of the chunk is still checked.
\<close>

function matchChunk :: "bool \<Rightarrow> string \<Rightarrow> string \<Rightarrow> string option option" where
  "matchChunk failed0 chunk s =
     (case chunk of
        [] \<Rightarrow> if failed0 then Some None else Some (Some s)
      | c # chunk1 \<Rightarrow>
          let failed = (failed0 \<or> s = []) in
          if c = CHR ''['' then
            let (r, n) = (if failed then (0, 0) else decodeRune s);
                s1 = drop n s;
                negated = (chunk1 \<noteq> [] \<and> hd chunk1 = CHR ''^'');
                chunk2 = (if negated then tl chunk1 else chunk1)
            in (case classRanges 0 r False chunk2 of
                  None \<Rightarrow> None
                | Some (match, rest) \<Rightarrow> matchChunk (failed \<or> match = negated) rest s1)
          else if c = CHR ''?'' then
            (if failed then matchChunk True chunk1 s
             else matchChunk (hd s = CHR ''/'') chunk1 (drop (snd (decodeRune s)) s))
          else if c = CHR 0x5C then
            (case chunk1 of
               [] \<Rightarrow> None
             | c1 # chunk2 \<Rightarrow>
                 if failed then matchChunk True chunk2 s else matchChunk (c1 \<noteq> hd s) chunk2 (tl s))
          else if failed then matchChunk True chunk1 s else matchChunk (c \<noteq> hd s) chunk1 (tl s))"
  by pat_completeness auto
termination
  by (relation "measure (\<lambda>(f, chunk, s). length chunk)") (auto dest!: classRanges_shorter split: if_splits)

declare matchChunk.simps [simp del]

fun scanLen :: "bool \<Rightarrow> string \<Rightarrow> nat" where
  "scanLen inrange [] = 0"
| "scanLen inrange (c # p) =
     (if c = CHR 0x5C then (case p of [] \<Rightarrow> 1 | _ # p1 \<Rightarrow> 2 + scanLen inrange p1)
      else if c = CHR ''['' then Suc (scanLen True p)
      else if c = CHR '']'' then Suc (scanLen False p)
      else if c = CHR ''*'' \<and> \<not> inrange then 0
      else Suc (scanLen inrange p))"

definition scanChunk :: "string \<Rightarrow> bool \<times> string \<times> string" where
  "scanChunk pattern =
     (let p = dropWhile (\<lambda>c. c = CHR ''*'') pattern; i = scanLen False p
      in (pattern \<noteq> [] \<and> hd pattern = CHR ''*'', take i p, drop i p))"

lemma scanChunk_shorter:
  assumes "scanChunk pattern = (star, chunk, rest)" "pattern \<noteq> []"
  shows "length rest < length pattern"
proof (cases "hd pattern = CHR ''*''")
  case True
  then have "length (dropWhile (\<lambda>c. c = CHR ''*'') pattern) < length pattern"
    using assms(2) by (cases pattern) (simp_all add: length_dropWhile_le less_Suc_eq_le)
  then show ?thesis using assms(1) by (auto simp: scanChunk_def Let_def)
next
  case False
  then obtain c p where p: "pattern = c # p" "c \<noteq> CHR ''*''" using assms(2) by (cases pattern) simp_all
  then have "0 < scanLen False pattern" by (auto split: list.splits)
  then show ?thesis using assms p by (auto simp: scanChunk_def Let_def)
qed

text \<open>The attempts \<^verbatim>\<open>name[i+1:]\<close> for a chunk after a star.\<close>

fun starLoop :: "string \<Rightarrow> bool \<Rightarrow> string \<Rightarrow> string option option" where
  "starLoop chunk lastOne [] = Some None"
| "starLoop chunk lastOne (c # name) =
     (if c = CHR ''/'' then Some None
      else case matchChunk False chunk name of
        None \<Rightarrow> None
      | Some None \<Rightarrow> starLoop chunk lastOne name
      | Some (Some t) \<Rightarrow> if lastOne \<and> t \<noteq> [] then starLoop chunk lastOne name else Some (Some t))"

text \<open>Before a plain failure the rest of the pattern is checked for well-formedness.\<close>

function checkRest :: "string \<Rightarrow> bool option" where
  "checkRest pattern =
     (if pattern = [] then Some False
      else let (star, chunk, rest) = scanChunk pattern
           in case matchChunk False chunk [] of None \<Rightarrow> None | Some _ \<Rightarrow> checkRest rest)"
  by pat_completeness auto
termination
  by (relation "measure length") (auto dest!: scanChunk_shorter [OF sym])

declare checkRest.simps [simp del]

function Match :: "string \<Rightarrow> string \<Rightarrow> bool option" where
  "Match pattern name =
     (if pattern = [] then Some (name = [])
      else let (star, chunk, rest) = scanChunk pattern in
        if star \<and> chunk = [] then Some (CHR ''/'' \<notin> set name)
        else case matchChunk False chunk name of
          None \<Rightarrow> None
        | Some m \<Rightarrow>
            (case m of
               Some t \<Rightarrow>
                 if t = [] \<or> rest \<noteq> [] then Match rest t
                 else if star
                 then (case starLoop chunk (rest = []) name of
                         None \<Rightarrow> None | Some None \<Rightarrow> checkRest rest | Some (Some t1) \<Rightarrow> Match rest t1)
                 else checkRest rest
             | None \<Rightarrow>
                 if star
                 then (case starLoop chunk (rest = []) name of
                         None \<Rightarrow> None | Some None \<Rightarrow> checkRest rest | Some (Some t1) \<Rightarrow> Match rest t1)
                 else checkRest rest))"
  by pat_completeness auto
termination
  by (relation "measure (\<lambda>(p, n). length p)") (auto dest!: scanChunk_shorter [OF sym])

declare Match.simps [simp del]

section \<open>Plain patterns\<close>

definition plain :: "string \<Rightarrow> bool" where
  "plain p \<longleftrightarrow> list_all (\<lambda>c. c \<noteq> CHR ''*'' \<and> c \<noteq> CHR ''?'' \<and> c \<noteq> CHR ''['' \<and> c \<noteq> CHR '']'' \<and> c \<noteq> CHR 0x5C) p"

lemma matchChunk_failed: "plain p \<Longrightarrow> matchChunk True p s = Some None"
proof (induction p)
  case Nil
  show ?case by (subst matchChunk.simps) simp
next
  case (Cons c p)
  then have "matchChunk True p s = Some None" by (simp add: plain_def)
  then show ?case using Cons.prems by (subst matchChunk.simps) (simp add: plain_def Let_def)
qed

lemma matchChunk_plain: "plain p \<Longrightarrow> matchChunk False p s = Some (if prefix p s then Some (drop (length p) s) else None)"
proof (induction p arbitrary: s)
  case Nil
  show ?case by (subst matchChunk.simps) simp
next
  case (Cons c p)
  have p: "plain p" and c: "c \<noteq> CHR ''*''" "c \<noteq> CHR ''?''" "c \<noteq> CHR ''[''" "c \<noteq> CHR 0x5C"
    using Cons.prems by (simp_all add: plain_def)
  show ?case
  proof (cases s)
    case Nil
    then show ?thesis using c matchChunk_failed [OF p] by (subst matchChunk.simps) (simp add: Let_def)
  next
    case (Cons d s')
    have step: "matchChunk False (c # p) s = matchChunk (c \<noteq> d) p s'"
      using c Cons by (subst matchChunk.simps) (simp add: Let_def)
    show ?thesis
    proof (cases "c = d")
      case True
      then show ?thesis unfolding step using Cons.IH [OF p, of s'] \<open>s = d # s'\<close> by simp
    next
      case False
      then show ?thesis unfolding step using matchChunk_failed [OF p] \<open>s = d # s'\<close> by simp
    qed
  qed
qed

lemma scanLen_plain: "plain p \<Longrightarrow> scanLen False (p @ q) = length p + scanLen False q"
  by (induction p) (auto simp: plain_def)

lemma dropWhile_plain: "plain p \<Longrightarrow> p \<noteq> [] \<Longrightarrow> dropWhile (\<lambda>c. c = CHR ''*'') (p @ q) = p @ q \<and> hd (p @ q) \<noteq> CHR ''*''"
  by (cases p) (auto simp: plain_def)

text \<open>A pattern without special characters matches exactly itself.\<close>

lemma Match_plain: "plain p \<Longrightarrow> Match p name = Some (name = p)"
proof (cases "p = []")
  case True
  then show ?thesis by (subst Match.simps) simp
next
  case False
  assume p: "plain p"
  have sc: "scanChunk p = (False, p, [])"
    using scanLen_plain [OF p, of "[]"] dropWhile_plain [OF p False, of "[]"] by (simp add: scanChunk_def Let_def)
  have n: "Match [] t = Some (t = [])" "checkRest [] = Some False" for t
    by (subst Match.simps, simp) (subst checkRest.simps, simp)
  have "prefix p name \<Longrightarrow> (drop (length p) name = []) = (name = p)"
    by (auto simp: prefix_def)
  then show ?thesis
    using False by (subst Match.simps) (auto simp: sc matchChunk_plain [OF p] n prefix_def)
qed

text \<open>A plain prefix followed by a star: any continuation without a slash.\<close>

lemma Match_prefix_star: "plain p \<Longrightarrow> Match (p @ ''*'') name = Some (\<exists>t. name = p @ t \<and> CHR ''/'' \<notin> set t)"
proof -
  assume p: "plain p"
  have star: "Match ''*'' t = Some (CHR ''/'' \<notin> set t)" for t
    by (subst Match.simps) (simp add: scanChunk_def Let_def)
  show ?thesis
  proof (cases "p = []")
    case True
    then show ?thesis using star by simp
  next
    case False
    have sc: "scanChunk (p @ ''*'') = (False, p, ''*'')"
      using scanLen_plain [OF p, of "''*''"] dropWhile_plain [OF p False, of "''*''"] by (simp add: scanChunk_def Let_def)
    have cr: "checkRest ''*'' = Some False"
      by (subst checkRest.simps) (simp add: scanChunk_def Let_def matchChunk_plain [of "[]"] plain_def, subst checkRest.simps, simp)
    show ?thesis
    proof (cases "prefix p name")
      case True
      then obtain t where t: "name = p @ t" by (auto simp: prefix_def)
      show ?thesis using False by (subst Match.simps) (simp add: sc matchChunk_plain [OF p] t star)
    next
      case F: False
      then have "\<not> (\<exists>t. name = p @ t)" by (auto simp: prefix_def)
      then show ?thesis using False F by (subst Match.simps) (auto simp: sc matchChunk_plain [OF p] cr)
    qed
  qed
qed

end
