(* ===== verification/PubSub.thy ===== *)
theory PubSub
  imports Resp PathMatch "HOL-Library.AList"
begin

text \<open>
  \<^verbatim>\<open>internal/pubsub/hub.go\<close>: the publish/subscribe hub of a tenant. A \<^verbatim>\<open>*Client\<close> is a number into the
  heap of client records of the hub; a deliverer is the number of the connection it writes to.
  The maps from channel or pattern to a set of clients are association lists; the order in which
  Go visits a map is the order of the list, which no lemma fixes. Whether a write to a
  connection succeeds is the argument \<open>up\<close>.
\<close>

type_synonym client = nat
type_synonym conn = nat

record Client =
  clDeliver :: conn
  clChannels :: "string list"
  clPatterns :: "string list"
  clClosed :: bool

type_synonym submap = "(string \<times> client list) list"

record Hub =
  byChannel :: submap
  byPattern :: submap
  clients :: "client \<Rightarrow> Client"
  nextClient :: nat

definition noClient :: Client where
  "noClient = \<lparr>clDeliver = 0, clChannels = [], clPatterns = [], clClosed = False\<rparr>"

definition NewHub :: Hub where
  "NewHub = \<lparr>byChannel = [], byPattern = [], clients = (\<lambda>_. noClient), nextClient = 0\<rparr>"

definition NewClient :: "conn \<Rightarrow> Hub \<Rightarrow> client \<times> Hub" where
  "NewClient d h =
     (nextClient h, h\<lparr>clients := (clients h)(nextClient h := noClient\<lparr>clDeliver := d\<rparr>), nextClient := Suc (nextClient h)\<rparr>)"

definition SubCount :: "client \<Rightarrow> Hub \<Rightarrow> nat" where
  "SubCount c h = length (clChannels (clients h c)) + length (clPatterns (clients h c))"

definition InSubscribeMode :: "client \<Rightarrow> Hub \<Rightarrow> bool" where
  "InSubscribeMode c h \<longleftrightarrow> 0 < SubCount c h"

section \<open>The subscriber maps\<close>

definition addSub :: "client \<Rightarrow> string \<Rightarrow> submap \<Rightarrow> submap" where
  "addSub c ch m = AList.update ch (List.insert c (case map_of m ch of Some s \<Rightarrow> s | None \<Rightarrow> [])) m"

definition delSub :: "client \<Rightarrow> string \<Rightarrow> submap \<Rightarrow> submap" where
  "delSub c ch m =
     (case map_of m ch of
        None \<Rightarrow> m
      | Some s \<Rightarrow> let s1 = removeAll c s in if s1 = [] then AList.delete ch m else AList.update ch s1 m)"

definition subscribeChannel :: "client \<Rightarrow> string \<Rightarrow> Hub \<Rightarrow> Hub" where
  "subscribeChannel c ch h = h\<lparr>byChannel := addSub c ch (byChannel h)\<rparr>"

definition unsubscribeChannels :: "client \<Rightarrow> string list \<Rightarrow> Hub \<Rightarrow> Hub" where
  "unsubscribeChannels c chs h = h\<lparr>byChannel := fold (delSub c) chs (byChannel h)\<rparr>"

definition psubscribePattern :: "client \<Rightarrow> string \<Rightarrow> Hub \<Rightarrow> Hub" where
  "psubscribePattern c pat h = h\<lparr>byPattern := addSub c pat (byPattern h)\<rparr>"

definition punsubscribePatterns :: "client \<Rightarrow> string list \<Rightarrow> Hub \<Rightarrow> Hub" where
  "punsubscribePatterns c pats h = h\<lparr>byPattern := fold (delSub c) pats (byPattern h)\<rparr>"

definition setClient :: "client \<Rightarrow> (Client \<Rightarrow> Client) \<Rightarrow> Hub \<Rightarrow> Hub" where
  "setClient c f h = h\<lparr>clients := (clients h)(c := f (clients h c))\<rparr>"

section \<open>The operations of a client\<close>

record SubConfirm =
  scKind :: string
  scName :: string
  scCount :: nat

definition ToValue :: "SubConfirm \<Rightarrow> Value" where
  "ToValue s = Array [BulkString (scKind s), BulkString (scName s), RespInteger (int (scCount s))]"

fun Subscribe :: "client \<Rightarrow> string list \<Rightarrow> Hub \<Rightarrow> SubConfirm list \<times> Hub" where
  "Subscribe c [] h = ([], h)"
| "Subscribe c (ch # chs) h =
     (if ch = [] then Subscribe c chs h
      else
        let h1 = setClient c (\<lambda>x. x\<lparr>clChannels := List.insert ch (clChannels x)\<rparr>) (subscribeChannel c ch h);
            (out, h2) = Subscribe c chs h1
        in (\<lparr>scKind = ''subscribe'', scName = ch, scCount = SubCount c h1\<rparr> # out, h2))"

fun unsubLoop :: "client \<Rightarrow> string list \<Rightarrow> Hub \<Rightarrow> SubConfirm list \<times> Hub" where
  "unsubLoop c [] h = ([], h)"
| "unsubLoop c (ch # chs) h =
     (let h1 = setClient c (\<lambda>x. x\<lparr>clChannels := removeAll ch (clChannels x)\<rparr>) (unsubscribeChannels c [ch] h);
          (out, h2) = unsubLoop c chs h1
      in (\<lparr>scKind = ''unsubscribe'', scName = ch, scCount = SubCount c h1\<rparr> # out, h2))"

definition Unsubscribe :: "client \<Rightarrow> string list \<Rightarrow> Hub \<Rightarrow> SubConfirm list \<times> Hub" where
  "Unsubscribe c chs h = unsubLoop c (if chs = [] then clChannels (clients h c) else chs) h"

fun PSubscribe :: "client \<Rightarrow> string list \<Rightarrow> Hub \<Rightarrow> SubConfirm list \<times> Hub" where
  "PSubscribe c [] h = ([], h)"
| "PSubscribe c (p # ps) h =
     (if p = [] then PSubscribe c ps h
      else
        let h1 = setClient c (\<lambda>x. x\<lparr>clPatterns := List.insert p (clPatterns x)\<rparr>) (psubscribePattern c p h);
            (out, h2) = PSubscribe c ps h1
        in (\<lparr>scKind = ''psubscribe'', scName = p, scCount = SubCount c h1\<rparr> # out, h2))"

fun punsubLoop :: "client \<Rightarrow> string list \<Rightarrow> Hub \<Rightarrow> SubConfirm list \<times> Hub" where
  "punsubLoop c [] h = ([], h)"
| "punsubLoop c (p # ps) h =
     (let h1 = setClient c (\<lambda>x. x\<lparr>clPatterns := removeAll p (clPatterns x)\<rparr>) (punsubscribePatterns c [p] h);
          (out, h2) = punsubLoop c ps h1
      in (\<lparr>scKind = ''punsubscribe'', scName = p, scCount = SubCount c h1\<rparr> # out, h2))"

definition PUnsubscribe :: "client \<Rightarrow> string list \<Rightarrow> Hub \<Rightarrow> SubConfirm list \<times> Hub" where
  "PUnsubscribe c ps h = punsubLoop c (if ps = [] then clPatterns (clients h c) else ps) h"

definition Close :: "client \<Rightarrow> Hub \<Rightarrow> Hub" where
  "Close c h =
     (if clClosed (clients h c) then h
      else
        let chans = clChannels (clients h c); pats = clPatterns (clients h c);
            h1 = setClient c (\<lambda>x. x\<lparr>clClosed := True, clChannels := [], clPatterns := []\<rparr>) h
        in punsubscribePatterns c pats (unsubscribeChannels c chans h1))"

section \<open>Publishing\<close>

definition matchPattern :: "string \<Rightarrow> string \<Rightarrow> bool" where
  "matchPattern pattern channel \<longleftrightarrow> (case Match pattern channel of Some ok \<Rightarrow> ok | None \<Rightarrow> False)"

text \<open>The recipients, with the empty pattern for a plain message.\<close>

definition targets :: "string \<Rightarrow> Hub \<Rightarrow> (client \<times> string) list" where
  "targets channel h =
     (case map_of (byChannel h) channel of Some s \<Rightarrow> map (\<lambda>c. (c, [])) s | None \<Rightarrow> []) @
     concat (map (\<lambda>(pat, s). if matchPattern pat channel then map (\<lambda>c. (c, pat)) s else []) (byPattern h))"

definition pushValue :: "string \<Rightarrow> string \<Rightarrow> string \<Rightarrow> Value" where
  "pushValue pattern channel message =
     (if pattern = [] then Array [BulkString ''message'', BulkString channel, BulkString message]
      else Array [BulkString ''pmessage'', BulkString pattern, BulkString channel, BulkString message])"

type_synonym wire = "conn \<Rightarrow> Value list"

definition deliver :: "(conn \<Rightarrow> bool) \<Rightarrow> Hub \<Rightarrow> client \<Rightarrow> Value \<Rightarrow> wire \<Rightarrow> bool \<times> wire" where
  "deliver up h c v out =
     (let x = clients h c; k = clDeliver x in
      if clClosed x \<or> \<not> up k then (False, out) else (True, out(k := out k @ [v])))"

fun publishLoop :: "(conn \<Rightarrow> bool) \<Rightarrow> Hub \<Rightarrow> string \<Rightarrow> string \<Rightarrow> (client \<times> string) list \<Rightarrow> wire \<Rightarrow> nat \<times> wire" where
  "publishLoop up h channel message [] out = (0, out)"
| "publishLoop up h channel message ((c, pat) # ts) out =
     (let (ok, out1) = deliver up h c (pushValue pat channel message) out;
          (n, out2) = publishLoop up h channel message ts out1
      in ((if ok then 1 else 0) + n, out2))"

definition Publish :: "(conn \<Rightarrow> bool) \<Rightarrow> string \<Rightarrow> string \<Rightarrow> Hub \<Rightarrow> wire \<Rightarrow> nat \<times> wire" where
  "Publish up channel message h out = publishLoop up h channel message (targets channel h) out"

definition Channels :: "string \<Rightarrow> Hub \<Rightarrow> string list" where
  "Channels pattern h = filter (\<lambda>ch. pattern = [] \<or> matchPattern pattern ch) (map fst (byChannel h))"

definition NumSub :: "string list \<Rightarrow> Hub \<Rightarrow> nat list" where
  "NumSub chs h = map (\<lambda>ch. case map_of (byChannel h) ch of Some s \<Rightarrow> length s | None \<Rightarrow> 0) chs"

definition NumPat :: "Hub \<Rightarrow> nat" where
  "NumPat h = sum_list (map (\<lambda>(pat, s). length s) (byPattern h))"

section \<open>The contract of a subscriber map\<close>

text \<open>
  Both maps of the hub promise the same: a set of clients per name, extended and shrunk by one
  client at a time.
\<close>

locale subscriptions =
  fixes inv :: "'m \<Rightarrow> bool"
    and subs :: "'m \<Rightarrow> string \<Rightarrow> client set"
    and sub :: "client \<Rightarrow> string \<Rightarrow> 'm \<Rightarrow> 'm"
    and unsub :: "client \<Rightarrow> string \<Rightarrow> 'm \<Rightarrow> 'm"
  assumes inv_sub: "inv m \<Longrightarrow> inv (sub c n m)"
    and subs_sub: "inv m \<Longrightarrow> subs (sub c n m) = (subs m)(n := insert c (subs m n))"
    and inv_unsub: "inv m \<Longrightarrow> inv (unsub c n m)"
    and subs_unsub: "inv m \<Longrightarrow> subs (unsub c n m) = (subs m)(n := subs m n - {c})"
begin

lemma inv_unsub_all: "inv m \<Longrightarrow> inv (fold (unsub c) ns m)"
  by (induction ns arbitrary: m) (simp_all add: inv_unsub)

lemma subs_unsub_all:
  "inv m \<Longrightarrow> subs (fold (unsub c) ns m) = (\<lambda>n. if n \<in> set ns then subs m n - {c} else subs m n)"
  by (induction ns arbitrary: m) (auto simp: inv_unsub subs_unsub fun_eq_iff)

end

definition submap_ok :: "submap \<Rightarrow> bool" where
  "submap_ok m \<longleftrightarrow> distinct (map fst m) \<and> (\<forall>(ch, s) \<in> set m. distinct s \<and> s \<noteq> [])"

definition subsOf :: "submap \<Rightarrow> string \<Rightarrow> client set" where
  "subsOf m ch = (case map_of m ch of Some s \<Rightarrow> set s | None \<Rightarrow> {})"

lemma submap_ok_iff:
  "submap_ok m \<longleftrightarrow> distinct (map fst m) \<and> (\<forall>ch s. map_of m ch = Some s \<longrightarrow> distinct s \<and> s \<noteq> [])"
proof (cases "distinct (map fst m)")
  case True
  then have "map_of m ch = Some s \<longleftrightarrow> (ch, s) \<in> set m" for ch s by (rule map_of_eq_Some_iff)
  then show ?thesis by (auto simp: submap_ok_def)
qed (simp add: submap_ok_def)

lemma submap_ok_get: "submap_ok m \<Longrightarrow> map_of m ch = Some s \<Longrightarrow> distinct s \<and> s \<noteq> []"
  by (simp add: submap_ok_iff)

lemma subsOf_iff: "c \<in> subsOf m ch \<longleftrightarrow> (\<exists>s. map_of m ch = Some s \<and> c \<in> set s)"
  by (auto simp: subsOf_def split: option.splits)

lemma map_of_delSub:
  "map_of m n = Some s \<Longrightarrow>
     map_of (delSub c n m) = (if removeAll c s = [] then (map_of m)(n := None) else (map_of m)(n \<mapsto> removeAll c s))"
  by (simp add: delSub_def Let_def update_conv' delete_conv')

lemma delSub_ok: "submap_ok m \<Longrightarrow> submap_ok (delSub c n m)"
proof (cases "map_of m n")
  case (Some s)
  assume ok: "submap_ok m"
  have "distinct (map fst (delSub c n m))"
    using ok Some by (simp add: submap_ok_def delSub_def Let_def distinct_update distinct_delete)
  moreover have "distinct t \<and> t \<noteq> []" if "map_of (delSub c n m) ch = Some t" for ch t
    using that submap_ok_get [OF ok] submap_ok_get [OF ok Some] unfolding map_of_delSub [OF Some]
    by (auto simp only: fun_upd_apply distinct_removeAll option.inject split: if_splits)
  ultimately show ?thesis unfolding submap_ok_iff by blast
qed (simp add: delSub_def)

interpretation sm: subscriptions submap_ok subsOf addSub delSub
proof
  fix m c n assume ok: "submap_ok m"
  have d: "distinct (map fst m)" using ok by (simp add: submap_ok_def)
  show "submap_ok (addSub c n m)"
    using ok d
    by (auto simp: submap_ok_iff addSub_def update_conv' distinct_update List.insert_def split: option.splits if_splits)
  show "subsOf (addSub c n m) = (subsOf m)(n := insert c (subsOf m n))"
    by (auto simp: subsOf_def addSub_def update_conv' fun_eq_iff split: option.splits)
  show "submap_ok (delSub c n m)" by (rule delSub_ok [OF ok])
  show "subsOf (delSub c n m) = (subsOf m)(n := subsOf m n - {c})"
  proof (cases "map_of m n")
    case None
    then show ?thesis by (simp add: subsOf_def delSub_def fun_eq_iff)
  next
    case (Some s)
    show ?thesis
    proof (cases "removeAll c s = []")
      case True
      then have "set s - {c} = {}" using set_removeAll [of c s] by simp
      with True Some show ?thesis by (simp add: subsOf_def delSub_def fun_eq_iff delete_conv')
    next
      case False
      with Some show ?thesis by (simp add: subsOf_def delSub_def fun_eq_iff update_conv' Let_def)
    qed
  qed
qed

section \<open>Invariant\<close>

text \<open>
  The client's own record and the maps of the hub agree, no set is empty, no pattern is the
  empty string (which marks plain messages), and clients not yet created have no subscription.
\<close>

definition hub_ok :: "Hub \<Rightarrow> bool" where
  "hub_ok h \<longleftrightarrow> submap_ok (byChannel h) \<and> submap_ok (byPattern h) \<and>
     (\<forall>c. distinct (clChannels (clients h c)) \<and> distinct (clPatterns (clients h c))) \<and>
     (\<forall>c ch. ch \<in> set (clChannels (clients h c)) \<longleftrightarrow> c \<in> subsOf (byChannel h) ch) \<and>
     (\<forall>c p. p \<in> set (clPatterns (clients h c)) \<longleftrightarrow> c \<in> subsOf (byPattern h) p) \<and>
     (\<forall>c. [] \<notin> set (clPatterns (clients h c))) \<and>
     (\<forall>c \<ge> nextClient h. clChannels (clients h c) = [] \<and> clPatterns (clients h c) = [])"

lemma hub_okD:
  assumes "hub_ok h"
  shows "submap_ok (byChannel h)" "submap_ok (byPattern h)"
    "\<And>c. distinct (clChannels (clients h c))" "\<And>c. distinct (clPatterns (clients h c))"
    "\<And>c ch. c \<in> subsOf (byChannel h) ch \<longleftrightarrow> ch \<in> set (clChannels (clients h c))"
    "\<And>c p. c \<in> subsOf (byPattern h) p \<longleftrightarrow> p \<in> set (clPatterns (clients h c))"
    "\<And>c. [] \<notin> set (clPatterns (clients h c))"
    "\<And>c. nextClient h \<le> c \<Longrightarrow> clChannels (clients h c) = [] \<and> clPatterns (clients h c) = []"
  using assms unfolding hub_ok_def by blast+

lemma NewHub_ok: "hub_ok NewHub"
  by (simp add: hub_ok_def NewHub_def noClient_def submap_ok_def subsOf_def)

lemma NewClient_ok: "hub_ok h \<Longrightarrow> hub_ok (snd (NewClient d h))"
proof -
  assume ok: "hub_ok h"
  note d = hub_okD [OF ok]
  have "nextClient h \<notin> subsOf (byChannel h) ch" "nextClient h \<notin> subsOf (byPattern h) ch" for ch
    using d(8) [of "nextClient h"] d(5) [of "nextClient h"] d(6) [of "nextClient h"] by auto
  with d show "hub_ok (snd (NewClient d h))" unfolding hub_ok_def NewClient_def noClient_def by auto
qed

text \<open>One subscription more or less, in the record and in the map.\<close>

lemma subscribe_one_ok:
  assumes ok: "hub_ok h" and c: "c < nextClient h"
  shows "hub_ok (setClient c (\<lambda>x. x\<lparr>clChannels := List.insert ch (clChannels x)\<rparr>) (subscribeChannel c ch h))"
  using hub_okD [OF ok] c
  by (auto simp: hub_ok_def setClient_def subscribeChannel_def sm.inv_sub sm.subs_sub)

lemma psubscribe_one_ok:
  assumes ok: "hub_ok h" and c: "c < nextClient h" and p: "p \<noteq> []"
  shows "hub_ok (setClient c (\<lambda>x. x\<lparr>clPatterns := List.insert p (clPatterns x)\<rparr>) (psubscribePattern c p h))"
  using hub_okD [OF ok] c p
  by (auto simp: hub_ok_def setClient_def psubscribePattern_def sm.inv_sub sm.subs_sub)

lemma unsubscribe_one_ok:
  assumes ok: "hub_ok h"
  shows "hub_ok (setClient c (\<lambda>x. x\<lparr>clChannels := removeAll ch (clChannels x)\<rparr>) (unsubscribeChannels c [ch] h))"
  using hub_okD [OF ok]
  by (auto simp: hub_ok_def setClient_def unsubscribeChannels_def sm.inv_unsub sm.subs_unsub distinct_removeAll)

lemma punsubscribe_one_ok:
  assumes ok: "hub_ok h"
  shows "hub_ok (setClient c (\<lambda>x. x\<lparr>clPatterns := removeAll p (clPatterns x)\<rparr>) (punsubscribePatterns c [p] h))"
  using hub_okD [OF ok]
  by (auto simp: hub_ok_def setClient_def punsubscribePatterns_def sm.inv_unsub sm.subs_unsub distinct_removeAll)

lemma nextClient_frame [simp]:
  "nextClient (setClient c f h) = nextClient h" "nextClient (subscribeChannel c ch h) = nextClient h"
  "nextClient (psubscribePattern c p h) = nextClient h" "nextClient (unsubscribeChannels c chs h) = nextClient h"
  "nextClient (punsubscribePatterns c ps h) = nextClient h"
  by (simp_all add: setClient_def subscribeChannel_def psubscribePattern_def unsubscribeChannels_def punsubscribePatterns_def)

lemma clients_frame [simp]:
  "clients (subscribeChannel c ch h) = clients h" "clients (psubscribePattern c p h) = clients h"
  "clients (unsubscribeChannels c chs h) = clients h" "clients (punsubscribePatterns c ps h) = clients h"
  "clients (setClient c f h) = (clients h)(c := f (clients h c))"
  by (simp_all add: setClient_def subscribeChannel_def psubscribePattern_def unsubscribeChannels_def punsubscribePatterns_def)

lemma Subscribe_ok: "hub_ok h \<Longrightarrow> c < nextClient h \<Longrightarrow> hub_ok (snd (Subscribe c chs h)) \<and> nextClient (snd (Subscribe c chs h)) = nextClient h"
  by (induction chs arbitrary: h) (auto simp: Let_def split_beta subscribe_one_ok)

lemma PSubscribe_ok: "hub_ok h \<Longrightarrow> c < nextClient h \<Longrightarrow> hub_ok (snd (PSubscribe c ps h)) \<and> nextClient (snd (PSubscribe c ps h)) = nextClient h"
  by (induction ps arbitrary: h) (auto simp: Let_def split_beta psubscribe_one_ok)

lemma unsubLoop_ok: "hub_ok h \<Longrightarrow> hub_ok (snd (unsubLoop c chs h)) \<and> nextClient (snd (unsubLoop c chs h)) = nextClient h"
  by (induction chs arbitrary: h) (auto simp: Let_def split_beta unsubscribe_one_ok)

lemma punsubLoop_ok: "hub_ok h \<Longrightarrow> hub_ok (snd (punsubLoop c ps h)) \<and> nextClient (snd (punsubLoop c ps h)) = nextClient h"
  by (induction ps arbitrary: h) (auto simp: Let_def split_beta punsubscribe_one_ok)

lemma Close_effect:
  assumes ok: "hub_ok h" and c: "\<not> clClosed (clients h c)"
  shows "hub_ok (Close c h)" "nextClient (Close c h) = nextClient h"
    "clients (Close c h) = (clients h)(c := (clients h c)\<lparr>clClosed := True, clChannels := [], clPatterns := []\<rparr>)"
    "subsOf (byChannel (Close c h)) ch = subsOf (byChannel h) ch - {c}"
    "subsOf (byPattern (Close c h)) p = subsOf (byPattern h) p - {c}"
proof -
  let ?cs = "clChannels (clients h c)" and ?ps = "clPatterns (clients h c)"
  note d = hub_okD [OF ok]
  have C: "Close c h = punsubscribePatterns c ?ps (unsubscribeChannels c ?cs
      (setClient c (\<lambda>x. x\<lparr>clClosed := True, clChannels := [], clPatterns := []\<rparr>) h))"
    using c by (simp add: Close_def Let_def)
  show cl: "clients (Close c h) = (clients h)(c := (clients h c)\<lparr>clClosed := True, clChannels := [], clPatterns := []\<rparr>)"
    and n: "nextClient (Close c h) = nextClient h" by (simp_all add: C)
  have b: "byChannel (Close c h) = fold (delSub c) ?cs (byChannel h)" "byPattern (Close c h) = fold (delSub c) ?ps (byPattern h)"
    by (simp_all add: C punsubscribePatterns_def unsubscribeChannels_def setClient_def)
  show s1: "subsOf (byChannel (Close c h)) ch = subsOf (byChannel h) ch - {c}" for ch
    using d(5) unfolding b sm.subs_unsub_all [OF d(1)] by auto
  show s2: "subsOf (byPattern (Close c h)) p = subsOf (byPattern h) p - {c}" for p
    using d(6) unfolding b sm.subs_unsub_all [OF d(2)] by auto
  have "submap_ok (byChannel (Close c h))" "submap_ok (byPattern (Close c h))"
    unfolding b using d(1,2) by (simp_all add: sm.inv_unsub_all)
  then show "hub_ok (Close c h)" using d(3-8) unfolding hub_ok_def s1 s2 cl n by auto
qed

lemma Close_ok: "hub_ok h \<Longrightarrow> hub_ok (Close c h) \<and> nextClient (Close c h) = nextClient h"
  using Close_effect(1,2) [of h c] by (cases "clClosed (clients h c)") (auto simp: Close_def)

section \<open>Recipients\<close>

lemma targets_set:
  assumes ok: "hub_ok h"
  shows "set (targets channel h) = {(c, []) |c. channel \<in> set (clChannels (clients h c))} \<union>
    {(c, p) |c p. p \<in> set (clPatterns (clients h c)) \<and> matchPattern p channel}"
proof -
  note d = hub_okD [OF ok]
  have "(case map_of (byChannel h) channel of Some s \<Rightarrow> set s | None \<Rightarrow> {}) = {c. channel \<in> set (clChannels (clients h c))}"
    using d(5) unfolding subsOf_def by auto
  then have A: "set (case map_of (byChannel h) channel of Some s \<Rightarrow> map (\<lambda>c. (c, [])) s | None \<Rightarrow> []) =
      {(c, []) |c. channel \<in> set (clChannels (clients h c))}" by (auto split: option.splits)
  have dk: "distinct (map fst (byPattern h))" using d(2) by (simp add: submap_ok_def)
  have "p \<in> set (clPatterns (clients h c)) \<longleftrightarrow> (\<exists>s. (p, s) \<in> set (byPattern h) \<and> c \<in> set s)" for c p
    unfolding d(6) [symmetric] subsOf_iff map_of_eq_Some_iff [OF dk] ..
  then have B: "set (concat (map (\<lambda>(pat, s). if matchPattern pat channel then map (\<lambda>c. (c, pat)) s else []) (byPattern h))) =
      {(c, p) |c p. p \<in> set (clPatterns (clients h c)) \<and> matchPattern p channel}"
    by (fastforce split: if_splits)
  show ?thesis unfolding targets_def set_append by (rule arg_cong2 [OF A B])
qed

lemma distinct_pattern_targets:
  "distinct (map fst m) \<Longrightarrow> (\<forall>(ch, s) \<in> set m. distinct s) \<Longrightarrow>
     distinct (concat (map (\<lambda>(pat, s). if P pat then map (\<lambda>c. (c, pat)) s else []) m))"
proof (induction m)
  case (Cons x m)
  obtain pat s where x: "x = (pat, s)" by fastforce
  have "snd ` set (concat (map (\<lambda>(pat, s). if P pat then map (\<lambda>c. (c, pat)) s else []) m)) \<subseteq> fst ` set m"
    by (force split: if_splits)
  then have "set (map (\<lambda>c. (c, pat)) s) \<inter> set (concat (map (\<lambda>(pat, s). if P pat then map (\<lambda>c. (c, pat)) s else []) m)) = {}"
    using Cons.prems(1) x by force
  then show ?case using Cons x by (auto simp: distinct_map inj_on_def)
qed simp

lemma targets_distinct:
  assumes ok: "hub_ok h"
  shows "distinct (targets channel h)"
proof -
  note d = hub_okD [OF ok]
  have p: "distinct (concat (map (\<lambda>(pat, s). if matchPattern pat channel then map (\<lambda>c. (c, pat)) s else []) (byPattern h)))"
    using d(2) by (intro distinct_pattern_targets) (auto simp: submap_ok_def)
  have c: "distinct (case map_of (byChannel h) channel of Some s \<Rightarrow> map (\<lambda>c. (c, [])) s | None \<Rightarrow> [])"
    using submap_ok_get [OF d(1)] by (auto simp: distinct_map inj_on_def split: option.splits)
  have "[] \<notin> fst ` set (byPattern h)"
  proof
    assume "[] \<in> fst ` set (byPattern h)"
    then obtain s where s: "([], s) \<in> set (byPattern h)" by force
    then have m: "map_of (byPattern h) [] = Some s" using d(2) by (simp add: submap_ok_def)
    then obtain c where "c \<in> set s" using submap_ok_get [OF d(2) m] by (cases s) auto
    then have "[] \<in> set (clPatterns (clients h c))" using m d(6) [of c "[]"] by (simp add: subsOf_def)
    with d(7) show False by blast
  qed
  then have "(c, []) \<notin> set (concat (map (\<lambda>(pat, s). if matchPattern pat channel then map (\<lambda>c. (c, pat)) s else []) (byPattern h)))" for c
    by (force split: if_splits)
  moreover have "set (case map_of (byChannel h) channel of Some s \<Rightarrow> map (\<lambda>c. (c, [])) s | None \<Rightarrow> []) \<subseteq> range (\<lambda>c. (c, []))"
    by (auto split: option.splits)
  ultimately have "set (case map_of (byChannel h) channel of Some s \<Rightarrow> map (\<lambda>c. (c, [])) s | None \<Rightarrow> []) \<inter>
      set (concat (map (\<lambda>(pat, s). if matchPattern pat channel then map (\<lambda>c. (c, pat)) s else []) (byPattern h))) = {}"
    by blast
  with p c show ?thesis unfolding targets_def distinct_append by blast
qed

definition reaches :: "(conn \<Rightarrow> bool) \<Rightarrow> Hub \<Rightarrow> client \<Rightarrow> bool" where
  "reaches up h c \<longleftrightarrow> \<not> clClosed (clients h c) \<and> up (clDeliver (clients h c))"

lemma publishLoop_spec:
  "publishLoop up h channel message ts out =
     (length (filter (\<lambda>(c, p). reaches up h c) ts),
      \<lambda>k. out k @ map (\<lambda>(c, p). pushValue p channel message)
        (filter (\<lambda>(c, p). reaches up h c \<and> clDeliver (clients h c) = k) ts))"
proof (induction ts arbitrary: out)
  case (Cons t ts)
  obtain c p where t: "t = (c, p)" by fastforce
  show ?case by (simp add: t deliver_def Let_def Cons reaches_def fun_eq_iff)
qed (simp add: fun_eq_iff)

section \<open>Properties of the hub\<close>

text \<open>The hub as a state machine: clients come, subscribe, unsubscribe and leave in any order.\<close>

inductive hub_reachable :: "Hub \<Rightarrow> bool" where
  hub_new: "hub_reachable NewHub"
| hub_client: "hub_reachable h \<Longrightarrow> hub_reachable (snd (NewClient d h))"
| hub_sub: "hub_reachable h \<Longrightarrow> c < nextClient h \<Longrightarrow> hub_reachable (snd (Subscribe c chs h))"
| hub_psub: "hub_reachable h \<Longrightarrow> c < nextClient h \<Longrightarrow> hub_reachable (snd (PSubscribe c ps h))"
| hub_unsub: "hub_reachable h \<Longrightarrow> hub_reachable (snd (Unsubscribe c chs h))"
| hub_punsub: "hub_reachable h \<Longrightarrow> hub_reachable (snd (PUnsubscribe c ps h))"
| hub_close: "hub_reachable h \<Longrightarrow> hub_reachable (Close c h)"

lemma hub_reachable_inv: "hub_reachable h \<Longrightarrow> hub_ok h"
  by (induction rule: hub_reachable.induct)
    (simp_all add: NewHub_ok NewClient_ok Subscribe_ok PSubscribe_ok unsubLoop_ok punsubLoop_ok Close_ok
      Unsubscribe_def PUnsubscribe_def)

text \<open>C32: after any sequence of client operations the two views of the subscriptions agree: a name is
  in a client's record exactly if the client is in the hub's set for it, the hub keeps no empty
  set, and a plain message cannot be confused with a pattern message.\<close>

theorem hub_invariant:
  assumes "hub_reachable h"
  shows "hub_ok h"
  using assms hub_reachable_inv by blast

definition sampleHub :: Hub where
  "sampleHub = snd (PSubscribe 0 [''n*''] (snd (Subscribe 0 [''news'', [], ''news''] (snd (NewClient 7 NewHub)))))"

lemma sampleHub_reachable: "hub_reachable sampleHub"
proof -
  have h1: "hub_reachable (snd (NewClient 7 NewHub))" by (intro hub_client hub_new)
  have n1: "nextClient (snd (NewClient 7 NewHub)) = 1" by (simp add: NewClient_def NewHub_def)
  have h2: "hub_reachable (snd (Subscribe 0 [''news'', [], ''news''] (snd (NewClient 7 NewHub))))"
    using n1 by (intro hub_sub h1) simp
  have "nextClient (snd (Subscribe 0 [''news'', [], ''news''] (snd (NewClient 7 NewHub)))) = 1"
    using Subscribe_ok [OF hub_reachable_inv [OF h1], of 0 "[''news'', [], ''news'']"] n1 by (simp del: Subscribe.simps)
  then show ?thesis unfolding sampleHub_def by (intro hub_psub h2) simp
qed

theorem hub_invariant_witness: "hub_ok sampleHub"
  by (rule hub_invariant [OF sampleHub_reachable])

text \<open>C33: publishing to a channel writes to a connection one message for each of its clients
  subscribed to the channel and one pattern message for each matching pattern of each of its clients,
  to nobody else, and answers the number of messages written.\<close>

theorem Publish_exact:
  assumes ok: "hub_ok h"
  shows "\<exists>ts. distinct ts \<and>
    set ts = {(c, p). reaches up h c \<and> (p = [] \<and> channel \<in> set (clChannels (clients h c)) \<or>
      p \<in> set (clPatterns (clients h c)) \<and> matchPattern p channel)} \<and>
    fst (Publish up channel message h out) = length ts \<and>
    snd (Publish up channel message h out) k =
      out k @ map (\<lambda>(c, p). pushValue p channel message) (filter (\<lambda>(c, p). clDeliver (clients h c) = k) ts)"
proof (intro exI conjI)
  let ?ts = "filter (\<lambda>(c, p). reaches up h c) (targets channel h)"
  show "distinct ?ts" by (simp add: targets_distinct [OF ok])
  show "set ?ts = {(c, p). reaches up h c \<and> (p = [] \<and> channel \<in> set (clChannels (clients h c)) \<or>
      p \<in> set (clPatterns (clients h c)) \<and> matchPattern p channel)}"
    unfolding set_filter targets_set [OF ok] by auto
  show "fst (Publish up channel message h out) = length ?ts" by (simp add: Publish_def publishLoop_spec)
  show "snd (Publish up channel message h out) k =
      out k @ map (\<lambda>(c, p). pushValue p channel message) (filter (\<lambda>(c, p). clDeliver (clients h c) = k) ?ts)"
  proof -
    have "filter (\<lambda>(c, p). reaches up h c \<and> clDeliver (clients h c) = k) (targets channel h) =
        filter (\<lambda>(c, p). clDeliver (clients h c) = k) ?ts"
      unfolding filter_filter by (rule filter_cong) auto
    then show ?thesis by (simp only: Publish_def publishLoop_spec snd_conv)
  qed
qed

lemma sampleHub_facts:
  "clChannels (clients sampleHub 0) = [''news'']" "clPatterns (clients sampleHub 0) = [''n*'']"
  "clDeliver (clients sampleHub 0) = 7" "\<not> clClosed (clients sampleHub 0)" "nextClient sampleHub = 1"
  by (simp_all add: sampleHub_def NewClient_def NewHub_def noClient_def Let_def split_beta List.insert_def)

lemma match_n: "matchPattern ''n*'' ''news''"
  using Match_prefix_star [of "''n''" "''news''"] by (simp add: matchPattern_def plain_def)

theorem Publish_exact_witness: "fst (Publish (\<lambda>_. True) ''news'' ''hi'' sampleHub (\<lambda>_. [])) = 2"
proof -
  have ok: "hub_ok sampleHub" by (rule hub_reachable_inv [OF sampleHub_reachable])
  obtain ts where d: "distinct ts" and s: "set ts = {(c, p). reaches (\<lambda>_. True) sampleHub c \<and>
      (p = [] \<and> ''news'' \<in> set (clChannels (clients sampleHub c)) \<or>
       p \<in> set (clPatterns (clients sampleHub c)) \<and> matchPattern p ''news'')}"
    and n: "fst (Publish (\<lambda>_. True) ''news'' ''hi'' sampleHub (\<lambda>_. [])) = length ts"
    using Publish_exact [OF ok, of "\<lambda>_. True" "''news''" "''hi''" "\<lambda>_. []"] by blast
  have other: "clChannels (clients sampleHub c) = [] \<and> clPatterns (clients sampleHub c) = []" if "c \<noteq> 0" for c
    using hub_okD(8) [OF ok, of c] that by (simp add: sampleHub_facts)
  have "set ts = {(0, []), (0, ''n*'')}"
  proof (rule set_eqI)
    fix x :: "client \<times> string"
    obtain c p where x: "x = (c, p)" by fastforce
    show "x \<in> set ts \<longleftrightarrow> x \<in> {(0, []), (0, ''n*'')}"
      unfolding s x using other [of c] match_n by (cases "c = 0") (auto simp: sampleHub_facts reaches_def)
  qed
  then have "card (set ts) = 2" by simp
  then show ?thesis using n distinct_card [OF d] by simp
qed

text \<open>A client that has been closed is gone from the hub: it is in no subscriber set, nothing
  published afterwards is written for it, and the other clients' subscriptions are as before.\<close>

theorem Close_forgets:
  assumes ok: "hub_ok h" and c: "\<not> clClosed (clients h c)"
  shows "\<not> InSubscribeMode c (Close c h) \<and> (\<forall>p. (c, p) \<notin> set (targets channel (Close c h))) \<and>
    (\<forall>c' p. c' = c \<or> ((c', p) \<in> set (targets channel (Close c h)) \<longleftrightarrow> (c', p) \<in> set (targets channel h)))"
proof -
  note e = Close_effect [OF ok c]
  show ?thesis
    unfolding targets_set [OF e(1)] targets_set [OF ok] using e(3) by (auto simp: InSubscribeMode_def SubCount_def)
qed

theorem Close_forgets_witness: "(0, []) \<notin> set (targets ''news'' (Close 0 sampleHub))"
  using Close_forgets [OF hub_reachable_inv [OF sampleHub_reachable] sampleHub_facts(4), of "''news''"] by blast

end
