(* ===== verification/TenantReg.thy ===== *)
theory TenantReg
  imports StoreRun PubSub
begin

text \<open>
  \<^verbatim>\<open>internal/tenant/registry.go\<close>: tenants with their store, hub and connection counter, and the
  registry built from the configuration. A \<^verbatim>\<open>*Tenant\<close> is its position in the registry's list; a
  nil pointer is \<open>None\<close>. \<^verbatim>\<open>Registry.Close\<close> only stops the tickers of the stores and is not
  modelled.
\<close>

section \<open>Connection slots\<close>

text \<open>
  What the tenants' counters and the server's global counter promise: a slot is granted
  exactly below the cap (no cap when it is not positive), and counted until it is returned.
\<close>

locale slots =
  fixes cnt :: "'s \<Rightarrow> int"
    and cap :: "'s \<Rightarrow> int"
    and acquire :: "'s \<Rightarrow> bool \<times> 's"
    and release :: "'s \<Rightarrow> 's"
  assumes acquire_granted: "fst (acquire s) \<longleftrightarrow> cap s \<le> 0 \<or> cnt s < cap s"
    and acquire_cnt: "cnt (snd (acquire s)) = (if fst (acquire s) then cnt s + 1 else cnt s)"
    and acquire_cap: "cap (snd (acquire s)) = cap s"
    and release_cnt: "0 < cnt s \<Longrightarrow> cnt (release s) = cnt s - 1"
    and release_cap: "cap (release s) = cap s"
begin

definition agrees :: "'c set \<Rightarrow> 's \<Rightarrow> bool" where
  "agrees H s \<longleftrightarrow> finite H \<and> cnt s = int (card H) \<and> (0 < cap s \<longrightarrow> int (card H) \<le> cap s)"

lemma agrees_acquire:
  "agrees H s \<Longrightarrow> c \<notin> H \<Longrightarrow> agrees (if fst (acquire s) then insert c H else H) (snd (acquire s))"
  unfolding agrees_def acquire_cap acquire_cnt acquire_granted by auto

lemma agrees_release: "agrees H s \<Longrightarrow> c \<in> H \<Longrightarrow> agrees (H - {c}) (release s)"
proof -
  assume a: "agrees H s" "c \<in> H"
  then have p: "0 < card H" by (auto simp: agrees_def card_gt_0_iff)
  then have "0 < cnt s" using a by (simp add: agrees_def)
  with a p show ?thesis unfolding agrees_def release_cap by (auto simp: release_cnt of_nat_diff)
qed

lemma agrees_refused: "agrees H s \<Longrightarrow> \<not> fst (acquire s) \<Longrightarrow> 0 < cap s \<and> int (card H) = cap s"
  unfolding agrees_def acquire_granted by auto

end

section \<open>State\<close>

datatype Status = StatusActive | StatusDisabled

record tenConfig =
  cName :: string
  cPassword :: string
  cAppID :: u64
  cMaxMemory :: u64
  cMaxTTL :: duration
  cShardCount :: int
  cStrategy :: int
  cPolicy :: string
  cMaxClients :: int
  cDisabled :: bool

record Tenant =
  tName :: string
  tAppID :: u64
  tPassword :: string
  tStatus :: Status
  tDB :: DB
  tPubSub :: Hub
  tMaxMemory :: u64
  tStrategy :: int
  tPolicy :: string
  tShards :: int
  tMaxClients :: int
  connCount :: int

type_synonym tref = nat

record tenRegistry =
  byName :: "(string \<times> tref) list"
  order :: "Tenant list"

datatype tenantErr = NoTenants | NameRequired | DuplicateName string | PasswordRequired string

section \<open>Construction\<close>

definition storeConfig :: "tenConfig \<Rightarrow> Config" where
  "storeConfig c =
     \<lparr>MaxMemory = cMaxMemory c,
      ShardCount = (if cShardCount c < 1 then 4 else cShardCount c),
      Strategy = (if cStrategy c < StrategyGlobalTrack \<or> StrategyShardBudget < cStrategy c
                  then StrategyGlobalTrack else cStrategy c),
      Policy = (if cPolicy c = [] then PolicyAllKeysLRU else cPolicy c),
      MaxTTL = cMaxTTL c, ExpiryInterval = second\<rparr>"

definition newTenant :: "tenConfig \<Rightarrow> rng \<Rightarrow> Tenant" where
  "newTenant c g =
     (let sc = storeConfig c in
      \<lparr>tName = cName c, tAppID = cAppID c, tPassword = cPassword c,
       tStatus = (if cDisabled c then StatusDisabled else StatusActive),
       tDB = New sc g, tPubSub = NewHub, tMaxMemory = cMaxMemory c, tStrategy = Strategy sc,
       tPolicy = Policy sc, tShards = ShardCount sc, tMaxClients = cMaxClients c, connCount = 0\<rparr>)"

text \<open>\<open>gs i\<close> is the source of random draws of the \<open>i\<close>-th store.\<close>

fun buildTenants :: "(nat \<Rightarrow> rng) \<Rightarrow> string list \<Rightarrow> tenConfig list \<Rightarrow> tenRegistry \<Rightarrow> tenantErr + tenRegistry" where
  "buildTenants gs seen [] r = Inr r"
| "buildTenants gs seen (c # cs) r =
     (if cName c = [] then Inl NameRequired
      else if cName c \<in> set seen then Inl (DuplicateName (cName c))
      else if cPassword c = [] then Inl (PasswordRequired (cName c))
      else
        let i = length (order r); t = newTenant c (gs i)
        in buildTenants gs (cName c # seen) cs
             \<lparr>byName = AList.update (cName c) i (byName r), order = order r @ [t]\<rparr>)"

definition NewRegistry :: "(nat \<Rightarrow> rng) \<Rightarrow> tenConfig list \<Rightarrow> tenantErr + tenRegistry" where
  "NewRegistry gs cfgs =
     (if cfgs = [] then Inl NoTenants else buildTenants gs [] cfgs \<lparr>byName = [], order = []\<rparr>)"

section \<open>Access\<close>

definition theTenant :: "tref \<Rightarrow> tenRegistry \<Rightarrow> Tenant" where
  "theTenant t r = order r ! t"

definition setTenant :: "tref \<Rightarrow> (Tenant \<Rightarrow> Tenant) \<Rightarrow> tenRegistry \<Rightarrow> tenRegistry" where
  "setTenant t f r = r\<lparr>order := (order r)[t := f (order r ! t)]\<rparr>"

datatype authErr = WrongPass | Disabled

definition authMessage :: "authErr \<Rightarrow> string" where
  "authMessage e = (case e of
     WrongPass \<Rightarrow> ''WRONGPASS invalid username-password pair''
   | Disabled \<Rightarrow> ''ERR tenant is disabled'')"

definition Authenticate :: "string \<Rightarrow> string \<Rightarrow> tenRegistry \<Rightarrow> authErr + tref" where
  "Authenticate username password r =
     (case map_of (byName r) username of
        None \<Rightarrow> Inl WrongPass
      | Some t \<Rightarrow>
          if tStatus (theTenant t r) = StatusDisabled then Inl Disabled
          else if tPassword (theTenant t r) \<noteq> password then Inl WrongPass
          else Inr t)"

definition getTenant :: "string \<Rightarrow> tenRegistry \<Rightarrow> tref option" where
  "getTenant name r = map_of (byName r) name"

definition All :: "tenRegistry \<Rightarrow> tref list" where
  "All r = [0..<length (order r)]"

definition Len :: "tenRegistry \<Rightarrow> nat" where
  "Len r = length (order r)"

text \<open>The critical sections of \<^verbatim>\<open>AcquireConn\<close> and \<^verbatim>\<open>ReleaseConn\<close>, then the methods on a pointer.\<close>

definition acquireSlot :: "Tenant \<Rightarrow> bool \<times> Tenant" where
  "acquireSlot x =
     (if 0 < tMaxClients x \<and> tMaxClients x \<le> connCount x then (False, x)
      else (True, x\<lparr>connCount := connCount x + 1\<rparr>))"

definition releaseSlot :: "Tenant \<Rightarrow> Tenant" where
  "releaseSlot x = (if 0 < connCount x then x\<lparr>connCount := connCount x - 1\<rparr> else x)"

definition AcquireConn :: "tref option \<Rightarrow> tenRegistry \<Rightarrow> bool \<times> tenRegistry" where
  "AcquireConn p r =
     (case p of
        None \<Rightarrow> (False, r)
      | Some t \<Rightarrow> (fst (acquireSlot (theTenant t r)), setTenant t (snd \<circ> acquireSlot) r))"

definition ReleaseConn :: "tref option \<Rightarrow> tenRegistry \<Rightarrow> tenRegistry" where
  "ReleaseConn p r = (case p of None \<Rightarrow> r | Some t \<Rightarrow> setTenant t releaseSlot r)"

definition ConnCount :: "tref option \<Rightarrow> tenRegistry \<Rightarrow> int" where
  "ConnCount p r = (case p of None \<Rightarrow> 0 | Some t \<Rightarrow> connCount (theTenant t r))"

section \<open>Basic facts\<close>

lemma theTenant_set [simp]:
  "t < length (order r) \<Longrightarrow> theTenant t' (setTenant t f r) = (if t' = t then f (theTenant t r) else theTenant t' r)"
  by (simp add: theTenant_def setTenant_def nth_list_update)

lemma setTenant_frame [simp]: "byName (setTenant t f r) = byName r" "length (order (setTenant t f r)) = length (order r)"
  by (simp_all add: setTenant_def)

interpretation ts: slots connCount tMaxClients acquireSlot releaseSlot
  by unfold_locales (auto simp: acquireSlot_def releaseSlot_def)

lemma slot_frame [simp]:
  "tDB (snd (acquireSlot x)) = tDB x" "tPubSub (snd (acquireSlot x)) = tPubSub x"
  "tName (snd (acquireSlot x)) = tName x" "tPassword (snd (acquireSlot x)) = tPassword x"
  "tStatus (snd (acquireSlot x)) = tStatus x"
  "tDB (releaseSlot x) = tDB x" "tPubSub (releaseSlot x) = tPubSub x" "tName (releaseSlot x) = tName x"
  "tPassword (releaseSlot x) = tPassword x" "tStatus (releaseSlot x) = tStatus x"
  by (simp_all add: acquireSlot_def releaseSlot_def)

section \<open>Invariant\<close>

text \<open>Names are unique and the index is exact; every store and every hub satisfies its invariant.\<close>

definition reg_ok :: "tenRegistry \<Rightarrow> bool" where
  "reg_ok r \<longleftrightarrow> distinct (map tName (order r)) \<and>
     (\<forall>n t. map_of (byName r) n = Some t \<longleftrightarrow> t < length (order r) \<and> tName (theTenant t r) = n) \<and>
     (\<forall>t < length (order r). db_ok (tDB (theTenant t r)) \<and> hub_ok (tPubSub (theTenant t r)))"

lemma reg_okD:
  assumes "reg_ok r"
  shows "distinct (map tName (order r))"
    "\<And>n t. map_of (byName r) n = Some t \<longleftrightarrow> t < length (order r) \<and> tName (theTenant t r) = n"
    "\<And>t. t < length (order r) \<Longrightarrow> db_ok (tDB (theTenant t r))"
    "\<And>t. t < length (order r) \<Longrightarrow> hub_ok (tPubSub (theTenant t r))"
  using assms unfolding reg_ok_def by blast+

lemma reg_ok_set:
  assumes ok: "reg_ok r" and t: "t < length (order r)"
    and n: "tName (f (theTenant t r)) = tName (theTenant t r)"
    and d: "db_ok (tDB (f (theTenant t r)))" and h: "hub_ok (tPubSub (f (theTenant t r)))"
  shows "reg_ok (setTenant t f r)"
proof -
  have "map tName (order (setTenant t f r)) = map tName (order r)"
    using n by (simp add: setTenant_def theTenant_def map_update_same)
  moreover have "tName (theTenant t' (setTenant t f r)) = tName (theTenant t' r)" for t' using n t by simp
  ultimately show ?thesis using ok t d h unfolding reg_ok_def by simp
qed

lemma newTenant_ok: "sane (storeConfig c) \<Longrightarrow> db_ok (tDB (newTenant c g)) \<and> hub_ok (tPubSub (newTenant c g))"
  by (simp add: newTenant_def Let_def New_db_ok NewHub_ok)

lemma buildTenants_spec:
  assumes "buildTenants gs seen cs r = Inr r'" "reg_ok r" "set seen = tName ` set (order r)"
    and "\<forall>c \<in> set cs. sane (storeConfig c)"
  shows "reg_ok r' \<and> (\<exists>ts. order r' = order r @ ts \<and> length ts = length cs \<and>
    (\<forall>i < length cs. ts ! i = newTenant (cs ! i) (gs (length (order r) + i))))"
  using assms
proof (induction cs arbitrary: seen r)
  case (Cons c cs)
  let ?i = "length (order r)"
  let ?t = "newTenant c (gs ?i)"
  let ?r = "\<lparr>byName = AList.update (cName c) ?i (byName r), order = order r @ [?t]\<rparr>"
  have c: "cName c \<notin> set seen" "buildTenants gs (cName c # seen) cs ?r = Inr r'"
    using Cons.prems(1) by (auto simp: Let_def split: if_splits)
  have n: "tName ?t = cName c" by (simp add: newTenant_def Let_def)
  have th: "theTenant t ?r = (if t < ?i then theTenant t r else ?t)" if "t < Suc ?i" for t
    using that by (auto simp: theTenant_def nth_append less_Suc_eq)
  have new: "cName c \<noteq> tName (theTenant t r)" if "t < ?i" for t
    using c(1) that unfolding Cons.prems(3) theTenant_def by (metis image_eqI nth_mem)
  have "reg_ok ?r"
    unfolding reg_ok_def
  proof (intro conjI allI impI)
    show "distinct (map tName (order ?r))"
      using reg_okD(1) [OF Cons.prems(2)] c(1) n by (simp add: Cons.prems(3))
    show "map_of (byName ?r) m = Some t \<longleftrightarrow> t < length (order ?r) \<and> tName (theTenant t ?r) = m" for m t
      using reg_okD(2) [OF Cons.prems(2), of m t] new [of t] n th [of t]
      by (auto simp: update_conv' less_Suc_eq)
    show "db_ok (tDB (theTenant t ?r))" "hub_ok (tPubSub (theTenant t ?r))" if "t < length (order ?r)" for t
      using that reg_okD(3,4) [OF Cons.prems(2), of t] newTenant_ok [of c "gs ?i"] Cons.prems(4) th [of t] by auto
  qed
  moreover have "set (cName c # seen) = tName ` set (order ?r)" using n Cons.prems(3) by auto
  ultimately obtain ts where ts: "reg_ok r'" "order r' = order ?r @ ts" "length ts = length cs"
    "\<And>i. i < length cs \<Longrightarrow> ts ! i = newTenant (cs ! i) (gs (Suc (length (order r)) + i))"
    using Cons.IH [OF c(2)] Cons.prems(4) by auto
  have "(?t # ts) ! i = newTenant ((c # cs) ! i) (gs (?i + i))" if "i < length (c # cs)" for i
    using that ts(4) by (cases i) auto
  then show ?case using ts by (intro conjI exI [of _ "?t # ts"]) auto
qed (simp add: exI [of _ "[]"])

lemma buildTenants_accepts:
  "(\<exists>r'. buildTenants gs seen cs r = Inr r') \<longleftrightarrow>
     distinct (map cName cs) \<and> set (map cName cs) \<inter> set seen = {} \<and> (\<forall>c \<in> set cs. cName c \<noteq> [] \<and> cPassword c \<noteq> [])"
proof (induction cs arbitrary: seen r)
  case (Cons c cs)
  show ?case
  proof (cases "cName c = [] \<or> cName c \<in> set seen \<or> cPassword c = []")
    case False
    then show ?thesis by (simp add: Let_def Cons) blast
  qed auto
qed simp

definition acceptable :: "tenConfig list \<Rightarrow> bool" where
  "acceptable cfgs \<longleftrightarrow> cfgs \<noteq> [] \<and> distinct (map cName cfgs) \<and> (\<forall>c \<in> set cfgs. cName c \<noteq> [] \<and> cPassword c \<noteq> [])"

lemma NewRegistry_tenants:
  assumes "NewRegistry gs cfgs = Inr r" "\<forall>c \<in> set cfgs. sane (storeConfig c)"
  shows "reg_ok r" "length (order r) = length cfgs" "t < length cfgs \<Longrightarrow> theTenant t r = newTenant (cfgs ! t) (gs t)"
proof -
  let ?r0 = "\<lparr>byName = [], order = []\<rparr>"
  have "buildTenants gs [] cfgs ?r0 = Inr r" using assms(1) by (simp add: NewRegistry_def split: if_splits)
  moreover have "reg_ok ?r0" by (simp add: reg_ok_def)
  ultimately show "reg_ok r" "length (order r) = length cfgs" "t < length cfgs \<Longrightarrow> theTenant t r = newTenant (cfgs ! t) (gs t)"
    using buildTenants_spec [of gs "[]" cfgs ?r0 r] assms(2) by (auto simp: theTenant_def)
qed

lemma NewRegistry_spec:
  assumes "\<forall>c \<in> set cfgs. sane (storeConfig c)"
  shows "case NewRegistry gs cfgs of
      Inl e \<Rightarrow> \<not> acceptable cfgs
    | Inr r \<Rightarrow> acceptable cfgs \<and> reg_ok r \<and> Len r = length cfgs \<and>
        (\<forall>t u p. Authenticate u p r = Inr t \<longleftrightarrow>
           t < length cfgs \<and> \<not> cDisabled (cfgs ! t) \<and> u = cName (cfgs ! t) \<and> p = cPassword (cfgs ! t)) \<and>
        (\<forall>t < Len r. ConnCount (Some t) r = 0)"
proof -
  let ?r0 = "\<lparr>byName = [], order = []\<rparr>"
  have acc: "(\<exists>r. NewRegistry gs cfgs = Inr r) \<longleftrightarrow> acceptable cfgs"
    using buildTenants_accepts [of gs "[]" cfgs ?r0] by (auto simp: NewRegistry_def acceptable_def)
  show ?thesis
  proof (cases "NewRegistry gs cfgs")
    case (Inl e)
    with acc show ?thesis by auto
  next
    case (Inr r)
    note ok = NewRegistry_tenants(1) [OF Inr assms] and l = NewRegistry_tenants(2) [OF Inr assms] and th = NewRegistry_tenants(3) [OF Inr assms]
    have A: "Authenticate u p r = Inr t \<longleftrightarrow>
        t < length cfgs \<and> \<not> cDisabled (cfgs ! t) \<and> u = cName (cfgs ! t) \<and> p = cPassword (cfgs ! t)" for u p t
    proof -
      have "Authenticate u p r = Inr t \<longleftrightarrow> map_of (byName r) u = Some t \<and>
          tStatus (theTenant t r) \<noteq> StatusDisabled \<and> tPassword (theTenant t r) = p"
        by (auto simp: Authenticate_def split: option.splits if_splits)
      also have "\<dots> \<longleftrightarrow> t < length cfgs \<and> \<not> cDisabled (cfgs ! t) \<and> u = cName (cfgs ! t) \<and> p = cPassword (cfgs ! t)"
        unfolding reg_okD(2) [OF ok] l using th [of t] by (auto simp: newTenant_def Let_def)
      finally show ?thesis .
    qed
    then show ?thesis using Inr acc ok l th by (auto simp: Len_def ConnCount_def newTenant_def Let_def)
  qed
qed

text \<open>C34: a registry is built exactly from a non-empty list of tenants with distinct non-empty names and
  non-empty passwords. It satisfies the invariant, no connection is counted yet, and AUTH succeeds on
  it exactly for the name and password of a configured tenant that is not disabled, giving that tenant.\<close>

theorem NewRegistry_authenticates:
  assumes "\<forall>c \<in> set cfgs. sane (storeConfig c)"
  shows "case NewRegistry gs cfgs of
      Inl e \<Rightarrow> \<not> acceptable cfgs
    | Inr r \<Rightarrow> acceptable cfgs \<and> reg_ok r \<and> Len r = length cfgs \<and>
        (\<forall>t u p. Authenticate u p r = Inr t \<longleftrightarrow>
           t < length cfgs \<and> \<not> cDisabled (cfgs ! t) \<and> u = cName (cfgs ! t) \<and> p = cPassword (cfgs ! t)) \<and>
        (\<forall>t < Len r. ConnCount (Some t) r = 0)"
  by (rule NewRegistry_spec [OF assms])

definition plainRng :: rng where
  "plainRng = \<lparr>rsrc = (\<lambda>_. 0), rpos = 0\<rparr>"

definition sampleTenant :: "string \<Rightarrow> string \<Rightarrow> tenConfig" where
  "sampleTenant n p = \<lparr>cName = n, cPassword = p, cAppID = 1, cMaxMemory = 1000, cMaxTTL = 0, cShardCount = 2,
     cStrategy = 1, cPolicy = PolicyAllKeysLRU, cMaxClients = 1, cDisabled = False\<rparr>"

lemma sampleTenant_sane: "sane (storeConfig (sampleTenant n p))"
  by (simp add: sampleTenant_def storeConfig_def sane_def strategy_defs)

theorem NewRegistry_authenticates_witness:
  "\<exists>r. NewRegistry (\<lambda>_. plainRng) [sampleTenant ''a'' ''s'', sampleTenant ''b'' ''t''] = Inr r \<and>
     Authenticate ''b'' ''t'' r = Inr 1 \<and> Authenticate ''a'' ''t'' r \<noteq> Inr 0"
proof -
  let ?c = "[sampleTenant ''a'' ''s'', sampleTenant ''b'' ''t'']"
  have "acceptable ?c" by (simp add: acceptable_def sampleTenant_def)
  then show ?thesis using NewRegistry_authenticates [of ?c "\<lambda>_. plainRng"] sampleTenant_sane
    by (cases "NewRegistry (\<lambda>_. plainRng) ?c") (auto simp: sampleTenant_def)
qed

definition sampleReg :: tenRegistry where
  "sampleReg = (case NewRegistry (\<lambda>_. plainRng) [sampleTenant ''a'' ''s'', sampleTenant ''b'' ''t''] of
     Inr r \<Rightarrow> r | Inl e \<Rightarrow> \<lparr>byName = [], order = []\<rparr>)"

lemma sampleReg_facts:
  "reg_ok sampleReg" "length (order sampleReg) = 2" "Authenticate ''a'' ''s'' sampleReg = Inr 0"
  "Authenticate ''b'' ''t'' sampleReg = Inr 1"
  "theTenant 0 sampleReg = newTenant (sampleTenant ''a'' ''s'') plainRng"
  "theTenant 1 sampleReg = newTenant (sampleTenant ''b'' ''t'') plainRng"
proof -
  let ?c = "[sampleTenant ''a'' ''s'', sampleTenant ''b'' ''t'']"
  have acc: "acceptable ?c" by (simp add: acceptable_def sampleTenant_def)
  then obtain r where r: "NewRegistry (\<lambda>_. plainRng) ?c = Inr r"
    using NewRegistry_spec [of ?c "\<lambda>_. plainRng"] sampleTenant_sane by (cases "NewRegistry (\<lambda>_. plainRng) ?c") auto
  then have s: "sampleReg = r" by (simp add: sampleReg_def)
  show "reg_ok sampleReg" "length (order sampleReg) = 2" "Authenticate ''a'' ''s'' sampleReg = Inr 0"
    "Authenticate ''b'' ''t'' sampleReg = Inr 1"
    using NewRegistry_spec [of ?c "\<lambda>_. plainRng"] sampleTenant_sane r s by (simp_all add: Len_def sampleTenant_def)
  have "order r = [newTenant (sampleTenant ''a'' ''s'') plainRng, newTenant (sampleTenant ''b'' ''t'') plainRng]"
    using r by (auto simp: NewRegistry_def Let_def sampleTenant_def)
  then show "theTenant 0 sampleReg = newTenant (sampleTenant ''a'' ''s'') plainRng"
    "theTenant 1 sampleReg = newTenant (sampleTenant ''b'' ''t'') plainRng" by (simp_all add: s theTenant_def)
qed

end
