(* ===== verification/Json.thy ===== *)
theory Json
  imports GoStrings PathMatch
begin

text \<open>
  What \<^verbatim>\<open>encoding/json\<close> does to the strings that the sources store with it. Encoding escapes quotes,
  backslashes, control characters, the characters special to HTML and the two Unicode line
  separators, and writes the replacement character for each byte that is not part of a valid UTF-8
  sequence; decoding undoes the escapes. The two together are \<open>sanitize\<close>: the identity on valid UTF-8
  and lossy on anything else.
\<close>

definition replacement :: string where
  "replacement = [CHR 0xEF, CHR 0xBF, CHR 0xBD]"

function sanitize :: "string \<Rightarrow> string" where
  "sanitize s =
     (if s = [] then []
      else let (r, n) = decodeRune s in
        (if r = RuneError \<and> n = 1 then replacement else take n s) @ sanitize (drop n s))"
  by auto
termination
  by (relation "measure length") (auto dest: decodeRune_size simp: prod_eq_iff)

declare sanitize.simps [simp del]

definition hexDigit :: "nat \<Rightarrow> char" where
  "hexDigit n = (if n < 10 then char_of (48 + n) else char_of (87 + n))"

definition escapeByte :: "char \<Rightarrow> string" where
  "escapeByte c =
     (let b = byte c in
      if c = CHR 0x5C \<or> c = CHR 0x22 then [CHR 0x5C, c]
      else if b = 8 then [CHR 0x5C, CHR ''b''] else if b = 12 then [CHR 0x5C, CHR ''f'']
      else if b = 10 then [CHR 0x5C, CHR ''n''] else if b = 13 then [CHR 0x5C, CHR ''r'']
      else if b = 9 then [CHR 0x5C, CHR ''t'']
      else if b < 32 \<or> c = CHR ''<'' \<or> c = CHR ''>'' \<or> c = CHR ''&''
      then [CHR 0x5C, CHR ''u'', CHR ''0'', CHR ''0'', hexDigit (b div 16), hexDigit (b mod 16)]
      else [c])"

function jsonEscape :: "string \<Rightarrow> string" where
  "jsonEscape s =
     (if s = [] then []
      else let (r, n) = decodeRune s in
        (if r = RuneError \<and> n = 1 then [CHR 0x5C] @ ''ufffd''
         else if n = 1 then escapeByte (hd s)
         else if r = 0x2028 then [CHR 0x5C] @ ''u2028''
         else if r = 0x2029 then [CHR 0x5C] @ ''u2029''
         else take n s) @ jsonEscape (drop n s))"
  by auto
termination
  by (relation "measure length") (auto dest: decodeRune_size simp: prod_eq_iff)

declare jsonEscape.simps [simp del]

definition jsonString :: "string \<Rightarrow> string" where
  "jsonString s = [CHR 0x22] @ jsonEscape s @ [CHR 0x22]"

section \<open>Valid UTF-8 survives\<close>

function validUTF8 :: "string \<Rightarrow> bool" where
  "validUTF8 s =
     (if s = [] then True
      else let (r, n) = decodeRune s in \<not> (r = RuneError \<and> n = 1) \<and> validUTF8 (drop n s))"
  by auto
termination
  by (relation "measure length") (auto dest: decodeRune_size simp: prod_eq_iff)

declare validUTF8.simps [simp del]

lemma sanitize_id: "validUTF8 s \<Longrightarrow> sanitize s = s"
proof (induction s rule: sanitize.induct)
  case (1 s)
  show ?case
  proof (cases "s = []")
    case False
    obtain r n where d: "decodeRune s = (r, n)" by fastforce
    then have "\<not> (r = RuneError \<and> n = 1)" "validUTF8 (drop n s)"
      using 1(2) False by (auto simp: validUTF8.simps [of s])
    moreover from this have "sanitize (drop n s) = drop n s" using 1(1) [OF False] d by simp
    ultimately show ?thesis using False d by (auto simp: sanitize.simps [of s])
  qed (simp add: sanitize.simps)
qed

lemma validUTF8_ascii: "list_all (\<lambda>c. byte c < 0x80) s \<Longrightarrow> validUTF8 s"
proof (induction s)
  case (Cons c s)
  then show ?case by (subst validUTF8.simps) (auto simp: decodeRune_ascii RuneError_def)
qed (simp add: validUTF8.simps)


text \<open>An escaped string is at most six times as long.\<close>

lemma jsonEscape_length: "length (jsonEscape s) \<le> 6 * length s"
proof (induction s rule: jsonEscape.induct)
  case (1 s)
  show ?case
  proof (cases "s = []")
    case False
    obtain r n where d: "decodeRune s = (r, n)" by fastforce
    have n: "0 < n" "n \<le> length s" using decodeRune_size [OF False] d by auto
    have e: "length (escapeByte c) \<le> 6" for c by (simp add: escapeByte_def Let_def)
    have "length (jsonEscape (drop n s)) \<le> 6 * length (drop n s)" using 1 [OF False] d by simp
    moreover have "length (jsonEscape s) \<le> 6 * n + length (jsonEscape (drop n s))"
      using False d n e [of "hd s"] by (subst jsonEscape.simps) (auto simp: min_def)
    ultimately show ?thesis using n by simp
  qed (simp add: jsonEscape.simps)
qed

lemma jsonString_length: "length (jsonString s) \<le> 6 * length s + 2"
  using jsonEscape_length [of s] by (simp add: jsonString_def)

end
