(* ===== verification/Persist.thy ===== *)
theory Persist
  imports TenantReg Json
begin

text \<open>
  \<^verbatim>\<open>internal/persist\<close>: the append-only file, snapshots, and loading. The state is the engine
  and the disk with its two files. A line of the append-only file is a record, or \<open>Garbled\<close> when it is
  no JSON object of the right shape; a snapshot file is described by what its reader meets, from the
  header to the decoded payload. Every file-system call may fail: \<open>IO\<close> fixes the outcomes of one
  operation and the text of the error. \<^verbatim>\<open>os.Remove\<close> of a temporary file and \<^verbatim>\<open>Sync\<close> in the background leave no trace in the model.
\<close>

section \<open>Modes (mode.go)\<close>

definition ModeNone :: string where "ModeNone = ''none''"
definition ModeSnapshot :: string where "ModeSnapshot = ''snapshot''"
definition ModeAOF :: string where "ModeAOF = ''aof''"
definition ModeSnapshotAndAOF :: string where "ModeSnapshotAndAOF = ''snapshot+aof''"

lemmas mode_defs = ModeNone_def ModeSnapshot_def ModeAOF_def ModeSnapshotAndAOF_def

definition ParseMode :: "string \<Rightarrow> string \<times> bool" where
  "ParseMode s =
     (let m = ToLower (TrimSpace s) in
      if m \<in> {ModeNone, ModeSnapshot, ModeAOF, ModeSnapshotAndAOF, []}
      then (if m = [] then (ModeNone, True) else (m, True))
      else ([], False))"

definition FsyncAlways :: string where "FsyncAlways = ''always''"
definition FsyncEverySec :: string where "FsyncEverySec = ''everysec''"
definition FsyncNo :: string where "FsyncNo = ''no''"

definition ParseFsync :: "string \<Rightarrow> string" where
  "ParseFsync s =
     (let f = ToLower (TrimSpace s) in
      if f = ''always'' then FsyncAlways else if f = ''no'' then FsyncNo else FsyncEverySec)"

section \<open>State\<close>

record persistConfig =
  pMode :: string
  pDir :: string
  pFsync :: string
  SnapshotInterval :: duration

record aofLine =
  aOp :: string
  aTenant :: string
  aKey :: string
  aValue :: string
  aKeys :: "string list"
  aExp :: int

datatype aofEntry = Line aofLine | Garbled

record snapTenant =
  stName :: string
  stKeys :: "Record list"

datatype snapBody = HugeLength | ShortBody | BadCRC | Body "snapTenant list option"
datatype snapImage = ShortHeader | Image string nat snapBody

record Disk =
  dAof :: "aofEntry list option"
  dSnap :: "snapImage option"
  dSnapTime :: gotime

text \<open>The handle \<^verbatim>\<open>aof\<close> is nil or refers to the file under its path: no path renames over an open handle.\<close>

record Engine =
  pcfg :: persistConfig
  aof :: bool
  lastSave :: int
  saving :: bool
  catchingUp :: bool
  catchup :: "aofLine list"

record IO =
  ioMkdir :: bool
  ioOpen :: bool
  ioCreate :: bool
  ioWrite :: bool
  ioTorn :: bool
  ioSync :: bool
  ioClose :: bool
  ioRename :: bool
  ioReopen :: bool
  ioNow :: gotime
  ioText :: string

definition ioFine :: "gotime \<Rightarrow> IO" where
  "ioFine now = \<lparr>ioMkdir = True, ioOpen = True, ioCreate = True, ioWrite = True, ioTorn = False, ioSync = True, ioClose = True,
     ioRename = True, ioReopen = True, ioNow = now, ioText = []\<rparr>"

type_synonym pstate = "Engine \<times> Disk"

datatype persistErr =
    IOFailed string | SaveInProgress | PersistenceDisabled
  | NotExist | BadHeader | BadMagic | BadVersion nat | BadBody | CRCMismatch | BadPayload | LoadPanic
  | LoadTenant string storeErr | CorruptLine | LineTooLong | UnknownOp string | ReplayFailed storeErr

definition snapMagic :: string where "snapMagic = ''CCSN''"
definition snapVersion :: nat where "snapVersion = 1"

definition NewEngine :: "persistConfig \<Rightarrow> Engine" where
  "NewEngine c =
     (let c1 = (if pDir c = [] then c\<lparr>pDir := ''data''\<rparr> else c);
          c2 = (if pMode c1 = [] then c1\<lparr>pMode := ModeNone\<rparr> else c1);
          c3 = (if pFsync c2 = [] then c2\<lparr>pFsync := FsyncEverySec\<rparr> else c2)
      in \<lparr>pcfg = c3, aof = False, lastSave = 0, saving = False, catchingUp = False, catchup = []\<rparr>)"

definition Mode :: "Engine \<Rightarrow> string" where
  "Mode e = pMode (pcfg e)"

definition LastSaveUnix :: "Engine \<Rightarrow> int" where
  "LastSaveUnix e = lastSave e"

definition hasAOF :: "Engine \<Rightarrow> bool" where
  "hasAOF e \<longleftrightarrow> Mode e = ModeAOF \<or> Mode e = ModeSnapshotAndAOF"

text \<open>Opening creates the file when it does not exist.\<close>

definition Open :: "IO \<Rightarrow> pstate \<Rightarrow> persistErr option \<times> pstate" where
  "Open io s =
     (let (e, d) = s in
      if Mode e = ModeNone then (None, s)
      else if \<not> ioMkdir io then (Some (IOFailed (ioText io)), s)
      else if hasAOF e
      then (if \<not> ioOpen io then (Some (IOFailed (ioText io)), s)
            else (None, (e\<lparr>aof := True\<rparr>, d\<lparr>dAof := Some (case dAof d of Some f \<Rightarrow> f | None \<Rightarrow> [])\<rparr>)))
      else (None, s))"

definition CloseEngine :: "IO \<Rightarrow> Engine \<Rightarrow> persistErr option \<times> Engine" where
  "CloseEngine io e =
     (if aof e then (if ioClose io then None else Some (IOFailed (ioText io)), e\<lparr>aof := False\<rparr>) else (None, e))"

section \<open>Time stamps\<close>

text \<open>The Unix epoch on the scale of \<open>gotime\<close>; \<^verbatim>\<open>UnixNano\<close> wraps outside the years 1678 to 2262.\<close>

definition unixEpoch :: gotime where
  "unixEpoch = 62135596800 * second"

definition UnixNano :: "gotime \<Rightarrow> int" where
  "UnixNano t = wrap64 (t - unixEpoch)"

definition UnixSec :: "gotime \<Rightarrow> int" where
  "UnixSec t = (t - unixEpoch) div second"

definition timeUnix :: "int \<Rightarrow> gotime" where
  "timeUnix ns = unixEpoch + ns"

section \<open>Appending\<close>

definition mkLine :: "string \<Rightarrow> Mutation \<Rightarrow> aofLine" where
  "mkLine tenantName m =
     \<lparr>aOp = mOp m, aTenant = tenantName, aKey = mKey m, aValue = mValue m, aKeys = mKeys m,
      aExp = (if IsZero (mExpiresAt m) then 0 else UnixNano (mExpiresAt m))\<rparr>"

definition addLine :: "aofLine \<Rightarrow> Disk \<Rightarrow> Disk" where
  "addLine l d = d\<lparr>dAof := map_option (\<lambda>f. f @ [Line l]) (dAof d)\<rparr>"

text \<open>A failing write may leave a part of the line behind (\<open>ioTorn\<close>).\<close>

definition appendAOF :: "IO \<Rightarrow> string \<Rightarrow> Mutation \<Rightarrow> pstate \<Rightarrow> persistErr option \<times> pstate" where
  "appendAOF io tenantName m s =
     (let (e, d) = s; l = mkLine tenantName m;
          e1 = (if catchingUp e then e\<lparr>catchup := catchup e @ [l]\<rparr> else e)
      in if aof e
         then (if \<not> ioWrite io then 
                 (Some (IOFailed (ioText io)),
                  (e, if ioTorn io then d\<lparr>dAof := map_option (\<lambda>f. f @ [Garbled]) (dAof d)\<rparr> else d))
               else if pFsync (pcfg e) = FsyncAlways \<and> \<not> ioSync io then (Some (IOFailed (ioText io)), (e, addLine l d))
               else (None, (e1, addLine l d)))
         else (None, (e1, d)))"

definition OnMutation :: "IO \<Rightarrow> string \<Rightarrow> Mutation \<Rightarrow> pstate \<Rightarrow> pstate" where
  "OnMutation io tenantName m s =
     (if Mode (fst s) = ModeNone \<or> Mode (fst s) = ModeSnapshot then s
      else snd (appendAOF io tenantName m s))"

section \<open>Saving\<close>

definition beginCatchup :: "Engine \<Rightarrow> Engine" where
  "beginCatchup e = e\<lparr>catchingUp := True, catchup := []\<rparr>"

definition abortCatchup :: "Engine \<Rightarrow> Engine" where
  "abortCatchup e = e\<lparr>catchingUp := False, catchup := []\<rparr>"

definition installCatchupAsAOF :: "IO \<Rightarrow> pstate \<Rightarrow> persistErr option \<times> pstate" where
  "installCatchupAsAOF io s =
     (let (e, d) = s; delta = map Line (catchup e); e1 = (abortCatchup e)\<lparr>aof := False\<rparr>
      in if \<not> ioWrite io \<or> \<not> ioRename io then (Some (IOFailed (ioText io)), (e1, d))
         else
           let d1 = d\<lparr>dAof := Some delta\<rparr> in
           if \<not> ioReopen io then (Some (IOFailed (ioText io)), (e1, d1))
           else (if pFsync (pcfg e) = FsyncAlways \<and> \<not> ioSync io then Some (IOFailed (ioText io)) else None, (e1\<lparr>aof := True\<rparr>, d1)))"

text \<open>The lines that rebuild the live data set, tenant by tenant.\<close>

definition recordLine :: "string \<Rightarrow> Record \<Rightarrow> aofLine" where
  "recordLine tenantName r =
     \<lparr>aOp = ''SET'', aTenant = tenantName, aKey = rKey r, aValue = rValue r, aKeys = [],
      aExp = (if IsZero (rExpiresAt r) then 0 else UnixNano (rExpiresAt r))\<rparr>"

definition payloadLines :: "snapTenant list \<Rightarrow> aofLine list" where
  "payloadLines payload = concat (map (\<lambda>st. map (recordLine (stName st)) (stKeys st)) payload)"

definition rewriteAOF :: "IO \<Rightarrow> snapTenant list \<Rightarrow> pstate \<Rightarrow> persistErr option \<times> pstate" where
  "rewriteAOF io payload s =
     (let (e, d) = s in
      if \<not> ioCreate io \<or> \<not> ioWrite io \<or> \<not> ioSync io \<or> \<not> ioClose io then (Some (IOFailed (ioText io)), (abortCatchup e, d))
      else
        let content = map Line (payloadLines payload @ catchup e); e1 = (abortCatchup e)\<lparr>aof := False\<rparr> in
        if \<not> ioRename io then (Some (IOFailed (ioText io)), (e1, d))
        else
          let d1 = d\<lparr>dAof := Some content\<rparr> in
          if \<not> ioReopen io then (Some (IOFailed (ioText io)), (e1, d1))
          else (None, (e1\<lparr>aof := True, lastSave := UnixSec (ioNow io)\<rparr>, d1)))"

definition writeSnapshot :: "IO \<Rightarrow> snapTenant list \<Rightarrow> pstate \<Rightarrow> persistErr option \<times> pstate" where
  "writeSnapshot io payload s =
     (let (e, d) = s in
      if \<not> ioMkdir io \<or> \<not> ioCreate io \<or> \<not> ioWrite io \<or> \<not> ioSync io \<or> \<not> ioClose io \<or> \<not> ioRename io
      then (Some (IOFailed (ioText io)), (abortCatchup e, d))
      else
        let s1 = (e\<lparr>lastSave := UnixSec (ioNow io)\<rparr>,
                  d\<lparr>dSnap := Some (Image snapMagic snapVersion (Body (Some payload))), dSnapTime := ioNow io\<rparr>)
        in if Mode e = ModeSnapshotAndAOF then installCatchupAsAOF io s1 else (None, s1))"

text \<open>
  \<^verbatim>\<open>SaveSnapshot\<close> runs beside the data plane. It starts with the claim of \<^verbatim>\<open>saving\<close> and the catch-up window,
  exports the tenants one after the other, and ends with the files and the release of the claim;
  mutations may come between.
\<close>

definition saveBegin :: "Engine \<Rightarrow> persistErr option \<times> Engine" where
  "saveBegin e =
     (if saving e then (Some SaveInProgress, e)
      else let e1 = e\<lparr>saving := True\<rparr> in (None, if hasAOF e1 then beginCatchup e1 else e1))"

definition saveFinish :: "IO \<Rightarrow> snapTenant list \<Rightarrow> pstate \<Rightarrow> persistErr option \<times> pstate" where
  "saveFinish io payload s =
     (let (r, (e, d)) = (if Mode (fst s) = ModeAOF then rewriteAOF io payload s else writeSnapshot io payload s)
      in (r, (e\<lparr>saving := False\<rparr>, d)))"

definition exportTenant :: "(string list \<Rightarrow> string list) \<Rightarrow> gotime \<Rightarrow> Tenant \<Rightarrow> snapTenant" where
  "exportTenant perm now t = \<lparr>stName = tName t, stKeys = ExportAll perm now (tDB t)\<rparr>"

definition exportPayload :: "(string list \<Rightarrow> string list) \<Rightarrow> (nat \<Rightarrow> gotime) \<Rightarrow> tenRegistry \<Rightarrow> snapTenant list" where
  "exportPayload perm nows r = map (\<lambda>t. exportTenant perm (nows t) (theTenant t r)) (All r)"

definition SaveSnapshot ::
  "IO \<Rightarrow> (string list \<Rightarrow> string list) \<Rightarrow> (nat \<Rightarrow> gotime) \<Rightarrow> tenRegistry \<Rightarrow> pstate \<Rightarrow> persistErr option \<times> pstate" where
  "SaveSnapshot io perm nows r s =
     (let (e, d) = s in
      if Mode e = ModeNone then (None, s)
      else case saveBegin e of
        (Some err, e1) \<Rightarrow> (Some err, (e1, d))
      | (None, e1) \<Rightarrow> saveFinish io (exportPayload perm nows r) (e1, d))"

text \<open>\<^verbatim>\<open>BGSave\<close> only checks and starts a goroutine; the result tells whether one was started.\<close>

definition BGSave :: "Engine \<Rightarrow> persistErr option" where
  "BGSave e =
     (if Mode e = ModeNone then Some PersistenceDisabled
      else if saving e then Some SaveInProgress else None)"

section \<open>Loading\<close>

text \<open>The clock readings of one operation on a store.\<close>

record Readings =
  rdA :: gotime
  rdB :: gotime
  rdC :: gotime
  rdClock :: "nat \<Rightarrow> nat \<Rightarrow> gotime"

record LoadEnv =
  lePerm :: "string list \<Rightarrow> string list"
  leSnap :: "nat \<Rightarrow> gotime \<times> (nat \<Rightarrow> gotime) \<times> (nat \<Rightarrow> nat \<Rightarrow> nat \<Rightarrow> gotime)"
  leLine :: "nat \<Rightarrow> Readings"

definition decodeRecord :: "Record \<Rightarrow> Record" where
  "decodeRecord r = r\<lparr>rKey := sanitize (rKey r), rValue := sanitize (rValue r)\<rparr>"

definition setDB :: "tref \<Rightarrow> DB \<Rightarrow> tenRegistry \<Rightarrow> tenRegistry" where
  "setDB t db r = setTenant t (\<lambda>x. x\<lparr>tDB := db\<rparr>) r"

fun loadTenants :: "LoadEnv \<Rightarrow> nat \<Rightarrow> snapTenant list \<Rightarrow> tenRegistry \<Rightarrow> persistErr option \<times> tenRegistry" where
  "loadTenants env i [] r = (None, r)"
| "loadTenants env i (st # sts) r =
     (case getTenant (sanitize (stName st)) r of
        None \<Rightarrow> loadTenants env (Suc i) sts r
      | Some t \<Rightarrow>
          (let (now, nows, clocks) = leSnap env i in
           case LoadRecords (lePerm env) (map decodeRecord (stKeys st)) now nows clocks (tDB (theTenant t r)) of
             (Some err, db) \<Rightarrow> (Some (LoadTenant (sanitize (stName st)) err), setDB t db r)
           | (None, db) \<Rightarrow> loadTenants env (Suc i) sts (setDB t db r)))"

definition loadSnapshot :: "LoadEnv \<Rightarrow> Disk \<Rightarrow> Engine \<Rightarrow> tenRegistry \<Rightarrow> persistErr option \<times> Engine \<times> tenRegistry" where
  "loadSnapshot env d e r =
     (case dSnap d of
        None \<Rightarrow> (Some NotExist, e, r)
      | Some ShortHeader \<Rightarrow> (Some BadHeader, e, r)
      | Some (Image magic ver body) \<Rightarrow>
          if magic \<noteq> snapMagic then (Some BadMagic, e, r)
          else if ver \<noteq> snapVersion then (Some (BadVersion ver), e, r)
          else (case body of
             HugeLength \<Rightarrow> (Some LoadPanic, e, r)
           | ShortBody \<Rightarrow> (Some BadBody, e, r)
           | BadCRC \<Rightarrow> (Some CRCMismatch, e, r)
           | Body None \<Rightarrow> (Some BadPayload, e, r)
           | Body (Some payload) \<Rightarrow>
               (case loadTenants env 0 payload r of
                  (Some err, r1) \<Rightarrow> (Some err, e, r1)
                | (None, r1) \<Rightarrow> (None, e\<lparr>lastSave := UnixSec (dSnapTime d)\<rparr>, r1))))"

definition decodeLine :: "aofLine \<Rightarrow> aofLine" where
  "decodeLine l = l\<lparr>aOp := sanitize (aOp l), aTenant := sanitize (aTenant l), aKey := sanitize (aKey l),
     aValue := sanitize (aValue l), aKeys := map sanitize (aKeys l)\<rparr>"

text \<open>The encoded line, of which only the length matters here: the scanner refuses a longer one.\<close>

fun jsonList :: "string list \<Rightarrow> string" where
  "jsonList [] = []"
| "jsonList [s] = jsonString s"
| "jsonList (s # ss) = jsonString s @ '','' @ jsonList ss"

definition encodeLine :: "aofLine \<Rightarrow> string" where
  "encodeLine l =
     ''{'' @ jsonString ''op'' @ '':'' @ jsonString (aOp l) @ '','' @ jsonString ''tenant'' @ '':'' @ jsonString (aTenant l) @
     (if aKey l = [] then [] else '','' @ jsonString ''key'' @ '':'' @ jsonString (aKey l)) @
     (if aValue l = [] then [] else '','' @ jsonString ''value'' @ '':'' @ jsonString (aValue l)) @
     (if aKeys l = [] then [] else '','' @ jsonString ''keys'' @ '':['' @ jsonList (aKeys l) @ '']'') @
     (if aExp l = 0 then [] else '','' @ jsonString ''exp'' @ '':'' @ FormatInt (aExp l)) @ ''}''"

definition maxLine :: nat where "maxLine = 16 * 1024 * 1024"

definition applyAOF :: "(string list \<Rightarrow> string list) \<Rightarrow> Readings \<Rightarrow> aofLine \<Rightarrow> DB \<Rightarrow> persistErr option \<times> DB" where
  "applyAOF perm rd rec db =
     (if aOp rec = ''SET'' then
        let opt = (if 0 < aExp rec then noOptions\<lparr>HasExpireAt := True, ExpireAt := timeUnix (aExp rec)\<rparr> else noOptions)
        in (case Set (aKey rec) (aValue rec) opt (rdA rd) (rdClock rd) db of
              (Inl err, db1) \<Rightarrow> (Some (ReplayFailed err), db1)
            | (Inr _, db1) \<Rightarrow> (None, db1))
      else if aOp rec = ''DEL'' then
        (None, if aKeys rec \<noteq> [] then snd (Del (aKeys rec) (rdA rd) db)
               else if aKey rec \<noteq> [] then snd (Del [aKey rec] (rdA rd) db) else db)
      else if aOp rec = ''EXPIRE'' then
        (None, if 0 < aExp rec
               then let dur = timeSub (timeUnix (aExp rec)) (rdA rd) in
                 if 0 < dur then snd (Expire (aKey rec) dur (rdB rd) (rdC rd) db)
                 else snd (Del [aKey rec] (rdB rd) db)
               else db)
      else if aOp rec = ''PERSIST'' then (None, snd (Persist (aKey rec) (rdA rd) db))
      else if aOp rec = ''FLUSHDB'' then (None, snd (FlushDB perm db))
      else (Some (UnknownOp (aOp rec)), db))"

fun loadLines :: "LoadEnv \<Rightarrow> nat \<Rightarrow> aofEntry list \<Rightarrow> tenRegistry \<Rightarrow> persistErr option \<times> tenRegistry" where
  "loadLines env i [] r = (None, r)"
| "loadLines env i (Garbled # es) r = (Some CorruptLine, r)"
| "loadLines env i (Line l # es) r =
     (if maxLine < length (encodeLine l) + 1 then (Some LineTooLong, r)
      else
        let rec = decodeLine l in
        case getTenant (aTenant rec) r of
          None \<Rightarrow> loadLines env (Suc i) es r
        | Some t \<Rightarrow>
            (case applyAOF (lePerm env) (leLine env i) rec (tDB (theTenant t r)) of
               (Some err, db) \<Rightarrow> (Some err, setDB t db r)
             | (None, db) \<Rightarrow> loadLines env (Suc i) es (setDB t db r)))"

definition loadAOF :: "LoadEnv \<Rightarrow> Disk \<Rightarrow> tenRegistry \<Rightarrow> persistErr option \<times> tenRegistry" where
  "loadAOF env d r =
     (case dAof d of None \<Rightarrow> (Some NotExist, r) | Some f \<Rightarrow> loadLines env 0 f r)"

definition notExist :: "persistErr option \<Rightarrow> persistErr option" where
  "notExist err = (if err = Some NotExist then None else err)"

definition Load :: "LoadEnv \<Rightarrow> Disk \<Rightarrow> Engine \<Rightarrow> tenRegistry \<Rightarrow> persistErr option \<times> Engine \<times> tenRegistry" where
  "Load env d e r =
     (if Mode e = ModeNone then (None, e, r)
      else if Mode e = ModeSnapshot then
        (let (err, e1, r1) = loadSnapshot env d e r in (notExist err, e1, r1))
      else if Mode e = ModeAOF then
        (let (err, r1) = loadAOF env d r in (notExist err, e, r1))
      else if Mode e = ModeSnapshotAndAOF then
        (let (err, e1, r1) = loadSnapshot env d e r in
         if notExist err \<noteq> None then (err, e1, r1)
         else let (err2, r2) = loadAOF env d r1 in (notExist err2, e1, r2))
      else (None, e, r))"

text \<open>A sink is attached by making the store record its mutations.\<close>

definition AttachSinks :: "Engine \<Rightarrow> tenRegistry \<Rightarrow> tenRegistry" where
  "AttachSinks e r =
     (if hasAOF e then r\<lparr>order := map (\<lambda>x. x\<lparr>tDB := SetMutationSink (Some []) (tDB x)\<rparr>) (order r)\<rparr> else r)"

text \<open>
  The store calls its sink once per mutation. After an operation of tenant \<open>t\<close> the mutations it
  recorded are handed to the engine in their order.
\<close>

fun deliverAll :: "(nat \<Rightarrow> IO) \<Rightarrow> string \<Rightarrow> Mutation list \<Rightarrow> pstate \<Rightarrow> pstate" where
  "deliverAll ios n [] s = s"
| "deliverAll ios n (m # ms) s = deliverAll (\<lambda>i. ios (Suc i)) n ms (OnMutation (ios 0) n m s)"

definition drainSink :: "(nat \<Rightarrow> IO) \<Rightarrow> tref \<Rightarrow> tenRegistry \<Rightarrow> pstate \<Rightarrow> tenRegistry \<times> pstate" where
  "drainSink ios t r s =
     (case sink (tDB (theTenant t r)) of
        None \<Rightarrow> (r, s)
      | Some ms \<Rightarrow> (setTenant t (\<lambda>x. x\<lparr>tDB := SetMutationSink (Some []) (tDB x)\<rparr>) r,
                    deliverAll ios (tName (theTenant t r)) ms s))"

end
