(* ===== verification/Metrics.thy ===== *)
theory Metrics
  imports GoStrings PathMatch
begin

text \<open>
  \<^verbatim>\<open>internal/metrics/metrics.go\<close>: the counters and their two renderings. A nil collector is handled by its
  callers. The seconds since the start, a reading of the clock, are an argument. Ratios are Go's
  \<^verbatim>\<open>float64\<close>: a quotient is rounded to 53 bits before it is printed.
\<close>

section \<open>Floating-point quotients\<close>

text \<open>\<open>roundDiv a b\<close> is \<open>a / b\<close> rounded to the nearest integer, ties to even.\<close>

definition roundDiv :: "nat \<Rightarrow> nat \<Rightarrow> nat" where
  "roundDiv a b =
     (let q = a div b; r = a mod b in
      if b < 2 * r \<or> 2 * r = b \<and> odd q then q + 1 else q)"

text \<open>\<^verbatim>\<open>float64(n)\<close>: the nearest multiple of a power of two with a 53-bit mantissa.\<close>

fun bitLength :: "nat \<Rightarrow> nat" where
  "bitLength n = (if n = 0 then 0 else 1 + bitLength (n div 2))"

declare bitLength.simps [simp del]

definition toFloat :: "nat \<Rightarrow> nat" where
  "toFloat n = (let k = bitLength n - 53 in roundDiv n (2 ^ k) * 2 ^ k)"

text \<open>
  The quotient of two integers below \<open>2 ^ 64\<close> with quotient at most one, as a numerator and the exponent of
  its power-of-two denominator: 53 significant bits.
\<close>

definition floatDiv :: "nat \<Rightarrow> nat \<Rightarrow> nat \<times> nat" where
  "floatDiv a b =
     (if a = 0 then (0, 0)
      else let s = 53 + bitLength b - bitLength a;
               s1 = (if a * 2 ^ s div b < 2 ^ 53 then s else s - 1)
           in (roundDiv (a * 2 ^ s1) b, s1))"

text \<open>\<^verbatim>\<open>%.kf\<close> prints the exact binary value, rounded to \<open>k\<close> decimals, ties to even.\<close>

definition padLeft :: "nat \<Rightarrow> string \<Rightarrow> string" where
  "padLeft k s = replicate (k - length s) (CHR ''0'') @ s"

definition formatFixed :: "nat \<Rightarrow> nat \<times> nat \<Rightarrow> string" where
  "formatFixed k f =
     (let (m, s) = f; v = roundDiv (m * 10 ^ k) (2 ^ s)
      in natDigits (v div 10 ^ k) @ ''.'' @ padLeft k (natDigits (v mod 10 ^ k)))"

definition ratio :: "u64 \<Rightarrow> u64 \<Rightarrow> nat \<times> nat" where
  "ratio hits misses =
     (let den = add64 hits misses in if 0 < den then floatDiv (toFloat hits) (toFloat den) else (0, 0))"

section \<open>The collector\<close>

record tenantCounters =
  tcCommands :: u64
  tcErrors :: u64
  latencySum :: u64
  latencyN :: u64

record Collector =
  startTime :: gotime
  commandsTotal :: u64
  errorsTotal :: u64
  latencySumNs :: u64
  latencyCount :: u64
  connsAccepted :: u64
  connsClosed :: u64
  mTenants :: "(string \<times> tenantCounters) list"

definition NewCollector :: "gotime \<Rightarrow> Collector" where
  "NewCollector now = \<lparr>startTime = now, commandsTotal = 0, errorsTotal = 0, latencySumNs = 0, latencyCount = 0,
     connsAccepted = 0, connsClosed = 0, mTenants = []\<rparr>"

definition tenantCounter :: "string \<Rightarrow> Collector \<Rightarrow> tenantCounters" where
  "tenantCounter name c =
     (case map_of (mTenants c) name of
        Some tc \<Rightarrow> tc
      | None \<Rightarrow> \<lparr>tcCommands = 0, tcErrors = 0, latencySum = 0, latencyN = 0\<rparr>)"

definition observeGlobal :: "u64 \<Rightarrow> bool \<Rightarrow> Collector \<Rightarrow> Collector" where
  "observeGlobal ns isError c =
     c\<lparr>commandsTotal := add64 (commandsTotal c) 1,
       latencySumNs := (if 0 < ns then add64 (latencySumNs c) ns else latencySumNs c),
       latencyCount := (if 0 < ns then add64 (latencyCount c) 1 else latencyCount c),
       errorsTotal := (if isError then add64 (errorsTotal c) 1 else errorsTotal c)\<rparr>"

definition observeTenant :: "u64 \<Rightarrow> bool \<Rightarrow> tenantCounters \<Rightarrow> tenantCounters" where
  "observeTenant ns isError tc =
     tc\<lparr>tcCommands := add64 (tcCommands tc) 1,
        latencySum := (if 0 < ns then add64 (latencySum tc) ns else latencySum tc),
        latencyN := (if 0 < ns then add64 (latencyN tc) 1 else latencyN tc),
        tcErrors := (if isError then add64 (tcErrors tc) 1 else tcErrors tc)\<rparr>"

definition ObserveCommand :: "string \<Rightarrow> string \<Rightarrow> duration \<Rightarrow> bool \<Rightarrow> Collector \<Rightarrow> Collector" where
  "ObserveCommand tenant command dur isError c =
     (let ns = nat (dur mod 2 ^ 64);
          c1 = observeGlobal ns isError c;
          key = (if tenant = [] then ''_none'' else tenant)
      in c1\<lparr>mTenants := AList.update key (observeTenant ns isError (tenantCounter key c1)) (mTenants c1)\<rparr>)"

definition ConnAccepted :: "Collector \<Rightarrow> Collector" where
  "ConnAccepted c = c\<lparr>connsAccepted := add64 (connsAccepted c) 1\<rparr>"

definition ConnClosed :: "Collector \<Rightarrow> Collector" where
  "ConnClosed c = c\<lparr>connsClosed := add64 (connsClosed c) 1\<rparr>"

record MSnapshot =
  UptimeSec :: int
  CommandsTotal :: u64
  ErrorsTotal :: u64
  MeanLatencyMicros :: u64
  ConnsAccepted :: u64
  ConnsClosed :: u64
  TenantCommands :: "(string \<times> u64) list"
  TenantErrors :: "(string \<times> u64) list"

definition Snapshot :: "int \<Rightarrow> Collector \<Rightarrow> MSnapshot" where
  "Snapshot up c =
     \<lparr>UptimeSec = up, CommandsTotal = commandsTotal c, ErrorsTotal = errorsTotal c,
      MeanLatencyMicros = (if 0 < latencyCount c then latencySumNs c div latencyCount c div 1000 else 0),
      ConnsAccepted = connsAccepted c, ConnsClosed = connsClosed c,
      TenantCommands = map (\<lambda>(n, tc). (n, tcCommands tc)) (mTenants c),
      TenantErrors = map (\<lambda>(n, tc). (n, tcErrors tc)) (mTenants c)\<rparr>"

text \<open>Reading a key that a Go map does not have gives zero.\<close>

definition countOf :: "(string \<times> u64) list \<Rightarrow> string \<Rightarrow> u64" where
  "countOf m n = (case map_of m n of Some v \<Rightarrow> v | None \<Rightarrow> 0)"

section \<open>Prometheus exposition\<close>

record TenantStat =
  tsName :: string
  tsUsedMemory :: u64
  tsMaxMemory :: u64
  tsKeys :: u64
  tsHits :: u64
  tsMisses :: u64
  tsEvictions :: u64
  tsConnCount :: int

definition promLabel :: "string \<Rightarrow> string" where
  "promLabel s =
     (let s1 = concat (map (\<lambda>c. if c = CHR 0x5C then [CHR 0x5C, CHR 0x5C] else [c]) s)
      in concat (map (\<lambda>c. if c = CHR 0x22 then [CHR 0x5C, CHR 0x22] else [c]) s1))"

text \<open>
  \<^verbatim>\<open>%q\<close>, which is \<^verbatim>\<open>strconv.Quote\<close>. Whether a rune outside ASCII is printable is looked up in the Unicode
  tables: the argument \<open>pr\<close>.
\<close>

definition hexLower :: "nat \<Rightarrow> char" where
  "hexLower n = (if n < 10 then char_of (48 + n) else char_of (87 + n))"

fun hexPad :: "nat \<Rightarrow> nat \<Rightarrow> string" where
  "hexPad 0 n = []"
| "hexPad (Suc k) n = hexPad k (n div 16) @ [hexLower (n mod 16)]"

definition quoteRune :: "(nat \<Rightarrow> bool) \<Rightarrow> nat \<Rightarrow> string \<Rightarrow> string" where
  "quoteRune pr r bytes =
     (if r = 0x22 \<or> r = 0x5C then CHR 0x5C # bytes
      else if (if r < 0x80 then 0x20 \<le> r \<and> r < 0x7F else pr r) then bytes
      else if r = 7 then [CHR 0x5C, CHR ''a''] else if r = 8 then [CHR 0x5C, CHR ''b'']
      else if r = 12 then [CHR 0x5C, CHR ''f''] else if r = 10 then [CHR 0x5C, CHR ''n'']
      else if r = 13 then [CHR 0x5C, CHR ''r''] else if r = 9 then [CHR 0x5C, CHR ''t'']
      else if r = 11 then [CHR 0x5C, CHR ''v'']
      else if r < 0x20 \<or> r = 0x7F then [CHR 0x5C, CHR ''x''] @ hexPad 2 r
      else if r < 0x10000 then [CHR 0x5C, CHR ''u''] @ hexPad 4 r
      else [CHR 0x5C, CHR ''U''] @ hexPad 8 r)"

function quoteBody :: "(nat \<Rightarrow> bool) \<Rightarrow> string \<Rightarrow> string" where
  "quoteBody pr s =
     (if s = [] then []
      else let (r, n) = decodeRune s in
        (if r = RuneError \<and> n = 1 then [CHR 0x5C, CHR ''x''] @ hexPad 2 (byte (hd s))
         else quoteRune pr r (take n s)) @ quoteBody pr (drop n s))"
  by auto
termination
  by (relation "measure (\<lambda>(_, s). length s)") (auto dest: decodeRune_size simp: prod_eq_iff)

declare quoteBody.simps [simp del]

definition Quote :: "(nat \<Rightarrow> bool) \<Rightarrow> string \<Rightarrow> string" where
  "Quote pr s = [CHR 0x22] @ quoteBody pr s @ [CHR 0x22]"

definition LF :: string where "LF = [CHR 0x0A]"

definition writeHelp :: "string \<Rightarrow> string \<Rightarrow> string \<Rightarrow> string" where
  "writeHelp name typ help = ''# HELP '' @ name @ '' '' @ help @ LF @ ''# TYPE '' @ name @ '' '' @ typ @ LF"

definition promSample :: "string \<Rightarrow> string \<Rightarrow> string" where
  "promSample name v = name @ '' '' @ v @ LF"

definition labelled :: "(nat \<Rightarrow> bool) \<Rightarrow> string \<Rightarrow> string \<Rightarrow> string \<Rightarrow> string" where
  "labelled pr name tenant v = name @ ''{tenant='' @ Quote pr (promLabel tenant) @ ''} '' @ v @ LF"

definition fmtU :: "u64 \<Rightarrow> string" where
  "fmtU n = natDigits n"

definition tenantSamples :: "(nat \<Rightarrow> bool) \<Rightarrow> TenantStat \<Rightarrow> string" where
  "tenantSamples pr t =
     labelled pr ''cache_memory_used_bytes'' (tsName t) (fmtU (tsUsedMemory t)) @
     labelled pr ''cache_memory_max_bytes'' (tsName t) (fmtU (tsMaxMemory t)) @
     labelled pr ''cache_keys'' (tsName t) (fmtU (tsKeys t)) @
     labelled pr ''cache_hits_total'' (tsName t) (fmtU (tsHits t)) @
     labelled pr ''cache_misses_total'' (tsName t) (fmtU (tsMisses t)) @
     labelled pr ''cache_evictions_total'' (tsName t) (fmtU (tsEvictions t)) @
     labelled pr ''cache_tenant_connections'' (tsName t) (FormatInt (tsConnCount t)) @
     labelled pr ''cache_hit_ratio'' (tsName t) (formatFixed 6 (ratio (tsHits t) (tsMisses t)))"

definition WritePrometheus :: "(nat \<Rightarrow> bool) \<Rightarrow> int \<Rightarrow> int \<Rightarrow> int \<Rightarrow> TenantStat list \<Rightarrow> Collector \<Rightarrow> string" where
  "WritePrometheus pr up connected maxClients tenants c =
     (let snap = Snapshot up c; names = sort (map fst (TenantCommands snap)) in
      writeHelp ''cache_uptime_seconds'' ''gauge'' ''Seconds since process metrics started'' @
      promSample ''cache_uptime_seconds'' (FormatInt (UptimeSec snap)) @
      writeHelp ''cache_commands_total'' ''counter'' ''Total RESP commands processed'' @
      promSample ''cache_commands_total'' (fmtU (CommandsTotal snap)) @
      writeHelp ''cache_command_errors_total'' ''counter'' ''Commands that returned a RESP error'' @
      promSample ''cache_command_errors_total'' (fmtU (ErrorsTotal snap)) @
      writeHelp ''cache_command_duration_mean_microseconds'' ''gauge'' ''Mean command latency in microseconds'' @
      promSample ''cache_command_duration_mean_microseconds'' (fmtU (MeanLatencyMicros snap)) @
      writeHelp ''cache_connections'' ''gauge'' ''Currently open client connections'' @
      promSample ''cache_connections'' (FormatInt connected) @
      writeHelp ''cache_connections_max'' ''gauge'' ''Configured global max clients (0=unlimited)'' @
      promSample ''cache_connections_max'' (FormatInt maxClients) @
      writeHelp ''cache_connections_accepted_total'' ''counter'' ''TCP connections accepted'' @
      promSample ''cache_connections_accepted_total'' (fmtU (ConnsAccepted snap)) @
      writeHelp ''cache_connections_closed_total'' ''counter'' ''TCP connections closed'' @
      promSample ''cache_connections_closed_total'' (fmtU (ConnsClosed snap)) @
      writeHelp ''cache_tenant_commands_total'' ''counter'' ''Commands executed while bound to tenant'' @
      concat (map (\<lambda>n. labelled pr ''cache_tenant_commands_total'' n (fmtU (countOf (TenantCommands snap) n))) names) @
      writeHelp ''cache_tenant_command_errors_total'' ''counter'' ''Error replies while bound to tenant'' @
      concat (map (\<lambda>n. labelled pr ''cache_tenant_command_errors_total'' n (fmtU (countOf (TenantErrors snap) n))) names) @
      writeHelp ''cache_memory_used_bytes'' ''gauge'' ''Tenant used memory bytes'' @
      writeHelp ''cache_memory_max_bytes'' ''gauge'' ''Tenant maxmemory bytes'' @
      writeHelp ''cache_keys'' ''gauge'' ''Approximate key count'' @
      writeHelp ''cache_hits_total'' ''counter'' ''Keyspace hits'' @
      writeHelp ''cache_misses_total'' ''counter'' ''Keyspace misses'' @
      writeHelp ''cache_evictions_total'' ''counter'' ''Keys evicted under maxmemory'' @
      writeHelp ''cache_tenant_connections'' ''gauge'' ''AUTH-bound connections for tenant'' @
      writeHelp ''cache_hit_ratio'' ''gauge'' ''hits/(hits+misses); 0 if no samples'' @
      concat (map (tenantSamples pr) (sort_key tsName tenants)))"

section \<open>Consistency\<close>

definition tenantSum :: "(tenantCounters \<Rightarrow> u64) \<Rightarrow> Collector \<Rightarrow> nat" where
  "tenantSum f c = sum_list (map (\<lambda>(n, tc). f tc) (mTenants c))"

text \<open>The sums over the tenants are the totals, on the 64-bit circle.\<close>

definition metrics_ok :: "Collector \<Rightarrow> bool" where
  "metrics_ok c \<longleftrightarrow> distinct (map fst (mTenants c)) \<and>
     commandsTotal c = tenantSum tcCommands c mod 2 ^ 64 \<and> errorsTotal c = tenantSum tcErrors c mod 2 ^ 64"

inductive observed :: "Collector \<Rightarrow> bool" where
  observed_new: "observed (NewCollector now)"
| observed_command: "observed c \<Longrightarrow> observed (ObserveCommand tenant cmd dur isErr c)"
| observed_accepted: "observed c \<Longrightarrow> observed (ConnAccepted c)"
| observed_closed: "observed c \<Longrightarrow> observed (ConnClosed c)"

lemma bump_mod: "S' + f = S + add64 f b \<Longrightarrow> S' mod 2 ^ 64 = (S + b) mod (2 ^ 64 :: nat)"
proof -
  assume a: "S' + f = S + add64 f b"
  have "f + b = 2 ^ 64 * ((f + b) div 2 ^ 64) + add64 f b" by (simp add: add64_def)
  with a have "S' + 2 ^ 64 * ((f + b) div 2 ^ 64) = S + b" by linarith
  then show ?thesis by (metis mod_mult_self2)
qed

lemma tenantSum_update:
  assumes d: "distinct (map fst (mTenants c))" and f: "f tc = add64 (f (tenantCounter k c)) b"
    and z: "f \<lparr>tcCommands = 0, tcErrors = 0, latencySum = 0, latencyN = 0\<rparr> = 0" and b: "b < 2 ^ 64"
  shows "tenantSum f (c\<lparr>mTenants := AList.update k tc (mTenants c)\<rparr>) mod 2 ^ 64 = (tenantSum f c + b) mod 2 ^ 64"
proof (cases "map_of (mTenants c) k")
  case None
  then have "f tc = b" using f z b by (simp add: tenantCounter_def)
  then show ?thesis using sum_update_new [OF None, of "\<lambda>(n, tc). f tc" tc] by (simp add: tenantSum_def)
next
  case (Some old)
  then have "f tc = add64 (f old) b" using f by (simp add: tenantCounter_def)
  then show ?thesis
    using sum_update_old [OF d Some, of "\<lambda>(n, tc). f tc" tc] by (intro bump_mod [of _ "f old"]) (simp add: tenantSum_def)
qed

lemma ObserveCommand_ok:
  assumes ok: "metrics_ok c"
  shows "metrics_ok (ObserveCommand tenant cmd dur isErr c)"
proof -
  define ns where "ns = nat (dur mod 2 ^ 64)"
  define key where "key = (if tenant = [] then ''_none'' else tenant)"
  define c1 where "c1 = observeGlobal ns isErr c"
  define tc where "tc = observeTenant ns isErr (tenantCounter key c1)"
  have O: "ObserveCommand tenant cmd dur isErr c = c1\<lparr>mTenants := AList.update key tc (mTenants c1)\<rparr>"
    unfolding ObserveCommand_def Let_def tc_def c1_def key_def ns_def ..
  have c1: "mTenants c1 = mTenants c" "tenantSum f c1 = tenantSum f c"
    "commandsTotal c1 = add64 (commandsTotal c) 1" "errorsTotal c1 = (if isErr then add64 (errorsTotal c) 1 else errorsTotal c)"
    for f by (simp_all add: c1_def observeGlobal_def tenantSum_def)
  have d: "distinct (map fst (mTenants c1))" using ok by (simp add: metrics_ok_def c1)
  have C: "tenantSum tcCommands (c1\<lparr>mTenants := AList.update key tc (mTenants c1)\<rparr>) mod 2 ^ 64 = (tenantSum tcCommands c1 + 1) mod 2 ^ 64"
    by (rule tenantSum_update [OF d]) (simp_all add: tc_def observeTenant_def)
  have E: "tenantSum tcErrors (c1\<lparr>mTenants := AList.update key tc (mTenants c1)\<rparr>) mod 2 ^ 64 =
      (tenantSum tcErrors c1 + 1) mod 2 ^ 64" if isErr
    using that by (intro tenantSum_update [OF d]) (simp_all add: tc_def observeTenant_def)
  show ?thesis
  proof (cases isErr)
    case True
    then show ?thesis using ok C E d unfolding O
      by (simp add: metrics_ok_def c1 distinct_update add64_def mod_Suc_eq)
  next
    case False
    have "tenantSum tcErrors (c1\<lparr>mTenants := AList.update key tc (mTenants c1)\<rparr>) = tenantSum tcErrors c1"
    proof (cases "map_of (mTenants c1) key")
      case None
      then show ?thesis
        using sum_update_new [OF None, of "\<lambda>(n, tc). tcErrors tc" tc] False
        by (simp add: tenantSum_def tc_def observeTenant_def tenantCounter_def)
    next
      case (Some old)
      then show ?thesis
        using sum_update_old [OF d Some, of "\<lambda>(n, tc). tcErrors tc" tc] False
        by (simp add: tenantSum_def tc_def observeTenant_def tenantCounter_def)
    qed
    then show ?thesis using ok C d False unfolding O
      by (simp add: metrics_ok_def c1 distinct_update add64_def mod_Suc_eq)
  qed
qed



end
