(* ===== verification/ConfigFile.thy ===== *)
theory ConfigFile
  imports Persist Metrics
begin

text \<open>
  \<^verbatim>\<open>cmd/cache-custom/config.go\<close>: the configuration file. Decoding JSON into the two accepted shapes is
  the standard library's; its outcomes are arguments of \<open>readConfig\<close>. So are the outcomes of reading
  certificates, whose content the program does not look at.
\<close>

section \<open>Data\<close>

record TenantConfig =
  tcName :: string
  tcPassword :: string
  tcAppId :: u64
  tcMaxMemory :: u64
  tcEvictionPolicy :: string
  tcMaxTTL :: int
  tcShardCount :: int
  tcShardingStrategy :: int
  tcMaxClients :: int
  tcDisabled :: bool

record PersistConfig =
  pcMode :: string
  pcDir :: string
  pcAOFFsync :: string
  SnapshotIntervalSec :: int

record SecurityConfig =
  Profile :: string
  scRequireAuth :: "bool option"
  scMaxClients :: int
  IdleTimeoutSec :: int
  DenyCommands :: "string list"
  TLSCertFile :: string
  TLSKeyFile :: string
  TLSClientCA :: string
  TLSMinVersion :: string

record ObservabilityConfig =
  MetricsAddr :: string
  LogJSON :: bool
  LogLevel :: string
  obLogCommands :: bool

record ServerConfig =
  Security :: SecurityConfig
  Persistence :: PersistConfig
  Observability :: ObservabilityConfig
  Tenants :: "TenantConfig list"

datatype configErr =
    ReadFailed string | DecodeFailed string
  | NoTenantsConfigured | InvalidMode | InvalidProfile | CertKeyMismatch | NegativeMaxClients | NegativeIdleTimeout
  | InvalidLogLevel string | TenantNameRequired | TenantPasswordRequired | InvalidPolicy string | NegativeShardCount
  | InvalidStrategy | NegativeTenantMaxClients string
  | LoadKeyPair string | UnsupportedTLSVersion string | ReadClientCA string | NoCertificates

section \<open>Validation\<close>

datatype slogLevel = LevelDebug | LevelInfo | LevelWarn | LevelError

definition parseLogLevel :: "string \<Rightarrow> configErr + slogLevel" where
  "parseLogLevel s =
     (let l = ToLower (TrimSpace s) in
      if l \<in> {[], ''info''} then Inr LevelInfo
      else if l = ''debug'' then Inr LevelDebug
      else if l \<in> {''warn'', ''warning''} then Inr LevelWarn
      else if l = ''error'' then Inr LevelError
      else Inl (InvalidLogLevel s))"

definition validateTenant :: "TenantConfig \<Rightarrow> configErr option" where
  "validateTenant c =
     (if tcName c = [] then Some TenantNameRequired
      else if tcPassword c = [] then Some TenantPasswordRequired
      else if tcEvictionPolicy c \<noteq> [] \<and> \<not> snd (ParseEvictionPolicy (tcEvictionPolicy c)) then Some (InvalidPolicy (tcName c))
      else if tcShardCount c < 0 then Some NegativeShardCount
      else if tcShardingStrategy c \<noteq> 0 \<and> (tcShardingStrategy c < 1 \<or> 3 < tcShardingStrategy c) then Some InvalidStrategy
      else if tcMaxClients c < 0 then Some (NegativeTenantMaxClients (tcName c))
      else None)"

fun validateTenants :: "TenantConfig list \<Rightarrow> configErr option" where
  "validateTenants [] = None"
| "validateTenants (c # cs) = (case validateTenant c of Some e \<Rightarrow> Some e | None \<Rightarrow> validateTenants cs)"

definition validate :: "ServerConfig \<Rightarrow> configErr option" where
  "validate sc =
     (let sec = Security sc; prof = ToLower (Profile sec) in
      if Tenants sc = [] then Some NoTenantsConfigured
      else if pcMode (Persistence sc) \<noteq> [] \<and> \<not> snd (ParseMode (pcMode (Persistence sc))) then Some InvalidMode
      else if prof \<noteq> [] \<and> prof \<noteq> ''local'' \<and> prof \<noteq> ''protected'' then Some InvalidProfile
      else if (TLSCertFile sec = []) \<noteq> (TLSKeyFile sec = []) then Some CertKeyMismatch
      else if scMaxClients sec < 0 then Some NegativeMaxClients
      else if IdleTimeoutSec sec < 0 then Some NegativeIdleTimeout
      else case parseLogLevel (LogLevel (Observability sc)) of
        Inl e \<Rightarrow> Some e
      | Inr _ \<Rightarrow> validateTenants (Tenants sc))"

definition bareConfig :: "TenantConfig list \<Rightarrow> ServerConfig" where
  "bareConfig arr =
     \<lparr>Security = \<lparr>Profile = ''local'', scRequireAuth = Some True, scMaxClients = 0, IdleTimeoutSec = 0, DenyCommands = [],
        TLSCertFile = [], TLSKeyFile = [], TLSClientCA = [], TLSMinVersion = []\<rparr>,
      Persistence = \<lparr>pcMode = ''none'', pcDir = [], pcAOFFsync = [], SnapshotIntervalSec = 0\<rparr>,
      Observability = \<lparr>MetricsAddr = [], LogJSON = False, LogLevel = [], obLogCommands = False\<rparr>,
      Tenants = arr\<rparr>"

text \<open>\<open>raw\<close> is the error of reading the file, \<open>asArray\<close> and \<open>asObject\<close> what decoding it into the two shapes gives.\<close>

definition readConfig :: "string option \<Rightarrow> TenantConfig list option \<Rightarrow> string + ServerConfig \<Rightarrow> configErr + ServerConfig" where
  "readConfig raw asArray asObject =
     (case raw of
        Some err \<Rightarrow> Inl (ReadFailed err)
      | None \<Rightarrow>
          if asArray \<noteq> None \<and> asArray \<noteq> Some []
          then (let sc = bareConfig (the asArray) in case validate sc of Some e \<Rightarrow> Inl e | None \<Rightarrow> Inr sc)
          else (case asObject of
             Inl err \<Rightarrow> Inl (DecodeFailed err)
           | Inr sc0 \<Rightarrow>
               let sc = (if Profile (Security sc0) = [] then sc0\<lparr>Security := (Security sc0)\<lparr>Profile := ''protected''\<rparr>\<rparr> else sc0)
               in case validate sc of Some e \<Rightarrow> Inl e | None \<Rightarrow> Inr sc))"

section \<open>Derived settings\<close>

definition capWarning :: "(nat \<Rightarrow> bool) \<Rightarrow> int \<Rightarrow> TenantConfig \<Rightarrow> string" where
  "capWarning pr global t =
     ''tenant '' @ Quote pr (tcName t) @ '' MaxClients='' @ FormatInt (tcMaxClients t) @ '' exceeds Security.MaxClients='' @ FormatInt global @
     ''; capping tenant MaxClients to '' @ FormatInt global @ '' (tenant connections cannot exceed the global limit)''"

definition capTenantMaxClients :: "(nat \<Rightarrow> bool) \<Rightarrow> ServerConfig \<Rightarrow> string list \<times> ServerConfig" where
  "capTenantMaxClients pr sc =
     (let global = scMaxClients (Security sc); over = (\<lambda>t. 0 < tcMaxClients t \<and> global < tcMaxClients t) in
      if global \<le> 0 then ([], sc)
      else (map (capWarning pr global) (filter over (Tenants sc)),
            sc\<lparr>Tenants := map (\<lambda>t. if over t then t\<lparr>tcMaxClients := global\<rparr> else t) (Tenants sc)\<rparr>))"

definition evictionFromConfig :: "TenantConfig \<Rightarrow> string" where
  "evictionFromConfig c = fst (ParseEvictionPolicy (tcEvictionPolicy c))"

definition persistConfigFrom :: "PersistConfig \<Rightarrow> persistConfig" where
  "persistConfigFrom pc =
     \<lparr>pMode = fst (ParseMode (pcMode pc)), pDir = pcDir pc, pFsync = ParseFsync (pcAOFFsync pc),
      SnapshotInterval = (if 0 < SnapshotIntervalSec pc then wrap64 (SnapshotIntervalSec pc * second) else 0)\<rparr>"

definition resolveRequireAuth :: "SecurityConfig \<Rightarrow> bool" where
  "resolveRequireAuth sec = (case scRequireAuth sec of Some b \<Rightarrow> b | None \<Rightarrow> ToLower (Profile sec) \<noteq> ''local'')"

record TLSConfig =
  tlsMinVersion :: nat
  tlsVerifiesClients :: bool

text \<open>The outcomes of loading the key pair, reading the CA file and parsing its certificates.\<close>

record TLSFiles =
  keyPair :: "string option"
  caRead :: "string option"
  caParsed :: bool

definition loadTLSConfig :: "TLSFiles \<Rightarrow> SecurityConfig \<Rightarrow> configErr + TLSConfig option" where
  "loadTLSConfig fs sec =
     (if TLSCertFile sec = [] \<or> TLSKeyFile sec = [] then Inr None
      else case keyPair fs of
        Some err \<Rightarrow> Inl (LoadKeyPair err)
      | None \<Rightarrow>
          let v = TrimSpace (TLSMinVersion sec);
              minVer = (if v \<in> {[], ''1.2'', ''TLS1.2'', ''tls1.2''} then Some 0x0303
                        else if v \<in> {''1.3'', ''TLS1.3'', ''tls1.3''} then Some 0x0304 else None)
          in case minVer of
            None \<Rightarrow> Inl (UnsupportedTLSVersion (TLSMinVersion sec))
          | Some mv \<Rightarrow>
              if TLSClientCA sec \<noteq> []
              then (case caRead fs of
                 Some err \<Rightarrow> Inl (ReadClientCA err)
               | None \<Rightarrow> if \<not> caParsed fs then Inl NoCertificates else Inr (Some \<lparr>tlsMinVersion = mv, tlsVerifiesClients = True\<rparr>))
              else Inr (Some \<lparr>tlsMinVersion = mv, tlsVerifiesClients = False\<rparr>))"

text \<open>\<^verbatim>\<open>toTenantConfigs\<close> of \<^verbatim>\<open>main.go\<close>.\<close>

definition toTenantConfig :: "TenantConfig \<Rightarrow> tenConfig" where
  "toTenantConfig c =
     \<lparr>cName = tcName c, cPassword = tcPassword c, cAppID = tcAppId c, cMaxMemory = tcMaxMemory c,
      cMaxTTL = (if 0 < tcMaxTTL c then wrap64 (tcMaxTTL c * second) else 0),
      cShardCount = (if tcShardCount c < 1 then 4 else tcShardCount c),
      cStrategy = (if tcShardingStrategy c < StrategyGlobalTrack \<or> StrategyShardBudget < tcShardingStrategy c
                   then StrategyGlobalTrack else tcShardingStrategy c),
      cPolicy = evictionFromConfig c, cMaxClients = tcMaxClients c, cDisabled = tcDisabled c\<rparr>"

definition toTenantConfigs :: "TenantConfig list \<Rightarrow> tenConfig list" where
  "toTenantConfigs cfgs = map toTenantConfig cfgs"

end
