(* ===== verification/Info.thy ===== *)
theory Info
  imports TenantReg Metrics
begin

text \<open>
  \<^verbatim>\<open>internal/command/info.go\<close>: the text of INFO and the array of TENANTSTATS. What the text takes from the Go
  runtime and from callbacks (version, memory statistics, elapsed seconds, open connections, last save)
  is collected in \<open>InfoEnv\<close>; a nil callback is \<open>None\<close>.
\<close>

record RuntimeInfo =
  riPersistMode :: string
  riPersistDir :: string
  riAOFFsync :: string
  riMaxClients :: int
  riAddr :: string
  riStartTime :: gotime
  riTLSEnabled :: bool
  riProfile :: string
  riRequireAuth :: bool

record InfoEnv =
  ieGoVersion :: string
  ieUptime :: int
  ieSys :: u64
  ieHeapAlloc :: u64
  ieLastSave :: "int option"
  ieConnected :: "int option"
  ieMetrics :: "MSnapshot option"

definition emptyRuntime :: RuntimeInfo where
  "emptyRuntime = \<lparr>riPersistMode = [], riPersistDir = [], riAOFFsync = [], riMaxClients = 0, riAddr = [], riStartTime = 0,
     riTLSEnabled = False, riProfile = [], riRequireAuth = False\<rparr>"

definition fmtBool :: "bool \<Rightarrow> string" where
  "fmtBool b = (if b then ''true'' else ''false'')"

definition infoLine :: "string \<Rightarrow> string \<Rightarrow> string" where
  "infoLine name v = name @ '':'' @ v @ CRLF"

definition opsPerSec :: "MSnapshot \<Rightarrow> u64" where
  "opsPerSec snap = (if UptimeSec snap \<le> 0 then 0 else CommandsTotal snap div nat (UptimeSec snap))"

section \<open>Sections\<close>

definition writeServer :: "RuntimeInfo \<Rightarrow> InfoEnv \<Rightarrow> string" where
  "writeServer rt env =
     ''# Server'' @ CRLF @ infoLine ''redis_mode'' ''standalone'' @ infoLine ''cache_custom_version'' ''0.1.0'' @
     infoLine ''go_version'' (ieGoVersion env) @ infoLine ''executable'' ''cache-custom'' @
     (if riAddr rt \<noteq> [] then infoLine ''tcp_addr'' (riAddr rt) else []) @
     (if \<not> IsZero (riStartTime rt) then infoLine ''uptime_in_seconds'' (FormatInt (ieUptime env))
      else case ieMetrics env of
        Some snap \<Rightarrow> infoLine ''uptime_in_seconds'' (FormatInt (UptimeSec snap))
      | None \<Rightarrow> []) @
     infoLine ''tls_enabled'' (fmtBool (riTLSEnabled rt)) @
     (if riProfile rt \<noteq> [] then infoLine ''security_profile'' (riProfile rt) else []) @
     infoLine ''require_auth'' (fmtBool (riRequireAuth rt)) @ CRLF"

definition writeClients :: "RuntimeInfo \<Rightarrow> InfoEnv \<Rightarrow> string" where
  "writeClients rt env =
     ''# Clients'' @ CRLF @
     infoLine ''connected_clients'' (FormatInt (case ieConnected env of Some n \<Rightarrow> n | None \<Rightarrow> 0)) @
     infoLine ''maxclients'' (FormatInt (riMaxClients rt)) @
     (case ieMetrics env of
        Some snap \<Rightarrow> infoLine ''total_connections_received'' (fmtU (ConnsAccepted snap))
      | None \<Rightarrow> []) @ CRLF"

definition allDBs :: "tenRegistry option \<Rightarrow> DB list" where
  "allDBs reg = (case reg of Some r \<Rightarrow> map (\<lambda>t. tDB (theTenant t r)) (All r) | None \<Rightarrow> [])"

definition sumOver :: "(DB \<Rightarrow> u64) \<Rightarrow> DB list \<Rightarrow> u64" where
  "sumOver f dbs = fold (\<lambda>d n. add64 n (f d)) dbs 0"

definition writeMemory :: "tenRegistry option \<Rightarrow> InfoEnv \<Rightarrow> string" where
  "writeMemory reg env =
     ''# Memory'' @ CRLF @
     infoLine ''used_memory'' (fmtU (sumOver (\<lambda>d. fst (Stats d)) (allDBs reg))) @
     infoLine ''maxmemory'' (fmtU (sumOver (\<lambda>d. fst (snd (Stats d))) (allDBs reg))) @
     infoLine ''process_resident_memory_bytes'' (fmtU (ieSys env)) @
     infoLine ''process_heap_alloc_bytes'' (fmtU (ieHeapAlloc env)) @ CRLF"

definition writeStats :: "tenRegistry option \<Rightarrow> InfoEnv \<Rightarrow> string" where
  "writeStats reg env =
     (let h = sumOver hits (allDBs reg); m = sumOver misses (allDBs reg); e = sumOver evictions (allDBs reg) in
      ''# Stats'' @ CRLF @ infoLine ''keyspace_hits'' (fmtU h) @ infoLine ''keyspace_misses'' (fmtU m) @
      infoLine ''evicted_keys'' (fmtU e) @ infoLine ''hit_rate'' (formatFixed 4 (ratio h m)) @
      (case ieMetrics env of
         Some snap \<Rightarrow>
           infoLine ''total_commands_processed'' (fmtU (CommandsTotal snap)) @
           infoLine ''total_error_replies'' (fmtU (ErrorsTotal snap)) @
           infoLine ''instantaneous_ops_per_sec'' (fmtU (opsPerSec snap)) @
           infoLine ''mean_command_usec'' (fmtU (MeanLatencyMicros snap))
       | None \<Rightarrow> []) @ CRLF)"

definition writePersistence :: "RuntimeInfo \<Rightarrow> InfoEnv \<Rightarrow> string" where
  "writePersistence rt env =
     ''# Persistence'' @ CRLF @
     infoLine ''persistence_mode'' (if riPersistMode rt = [] then ''none'' else riPersistMode rt) @
     (if riPersistDir rt \<noteq> [] then infoLine ''persistence_dir'' (riPersistDir rt) else []) @
     (if riAOFFsync rt \<noteq> [] then infoLine ''aof_fsync'' (riAOFFsync rt) else []) @
     infoLine ''rdb_last_save_time'' (FormatInt (case ieLastSave env of Some n \<Rightarrow> n | None \<Rightarrow> 0)) @ CRLF"

definition tenantInfo :: "InfoEnv \<Rightarrow> Tenant \<Rightarrow> string" where
  "tenantInfo env t =
     (let (used, max, keys, h, m, e) = Stats (tDB t); line = (\<lambda>name v. infoLine (''tenant_'' @ tName t @ ''_'' @ name) v) in
      line ''status'' (if tStatus t \<noteq> StatusActive then ''disabled'' else ''active'') @
      line ''used_memory'' (fmtU used) @ line ''max_memory'' (fmtU max) @ line ''keys'' (fmtU keys) @
      line ''hits'' (fmtU h) @ line ''misses'' (fmtU m) @ line ''evictions'' (fmtU e) @
      line ''hit_rate'' (formatFixed 4 (ratio h m)) @ line ''strategy'' (FormatInt (tStrategy t)) @
      line ''eviction_policy'' (tPolicy t) @ line ''shards'' (FormatInt (tShards t)) @
      line ''connected_clients'' (FormatInt (connCount t)) @ line ''max_clients'' (FormatInt (tMaxClients t)) @
      (case ieMetrics env of
         Some snap \<Rightarrow>
           line ''commands_processed'' (fmtU (countOf (TenantCommands snap) (tName t))) @
           line ''error_replies'' (fmtU (countOf (TenantErrors snap) (tName t)))
       | None \<Rightarrow> []))"

definition writeTenants :: "tenRegistry option \<Rightarrow> InfoEnv \<Rightarrow> tref option \<Rightarrow> string" where
  "writeTenants reg env current =
     ''# Tenants'' @ CRLF @
     (case reg of
        None \<Rightarrow> infoLine ''tenant_count'' ''0'' @ CRLF
      | Some r \<Rightarrow>
          infoLine ''tenant_count'' (FormatInt (int (Len r))) @
          concat (map (\<lambda>t. tenantInfo env (theTenant t r)) (All r)) @
          (case current of Some t \<Rightarrow> infoLine ''current_tenant'' (tName (theTenant t r)) | None \<Rightarrow> []) @ CRLF)"

definition makeInfo :: "RuntimeInfo \<Rightarrow> tenRegistry option \<Rightarrow> InfoEnv \<Rightarrow> tref option \<Rightarrow> string list \<Rightarrow> Value" where
  "makeInfo rt reg env current args =
     (if 2 < length args then RespError ''ERR wrong number of arguments for 'info' command''
      else
        let section = (if length args = 2 then ToLower (args ! 1) else ''default'') in
        BulkString
          (if section = ''server'' then writeServer rt env
           else if section = ''clients'' then writeClients rt env
           else if section = ''memory'' then writeMemory reg env
           else if section = ''stats'' then writeStats reg env
           else if section = ''persistence'' then writePersistence rt env
           else if section = ''tenants'' then writeTenants reg env current
           else if section = ''default'' \<or> section = ''all''
           then writeServer rt env @ writeClients rt env @ writeMemory reg env @ writeStats reg env @
                writePersistence rt env @ writeTenants reg env current
           else []))"

section \<open>TENANTSTATS\<close>

definition tenantStatArray :: "MSnapshot option \<Rightarrow> Tenant \<Rightarrow> Value" where
  "tenantStatArray snap t =
     (let (used, max, keys, h, m, e) = Stats (tDB t);
          cmds = (case snap of Some s \<Rightarrow> countOf (TenantCommands s) (tName t) | None \<Rightarrow> 0);
          errs = (case snap of Some s \<Rightarrow> countOf (TenantErrors s) (tName t) | None \<Rightarrow> 0)
      in Array (map BulkString
           [''name'', tName t, ''used_memory'', fmtU used, ''max_memory'', fmtU max, ''keys'', fmtU keys,
            ''hits'', fmtU h, ''misses'', fmtU m, ''evictions'', fmtU e,
            ''connected_clients'', FormatInt (connCount t), ''commands_processed'', fmtU cmds, ''error_replies'', fmtU errs]))"

definition tenantStats :: "tenRegistry option \<Rightarrow> MSnapshot option \<Rightarrow> tref option \<Rightarrow> string list \<Rightarrow> Value" where
  "tenantStats reg snap current args =
     (if length args \<noteq> 1 then RespError ''ERR wrong number of arguments for 'tenantstats' command''
      else case reg of
        None \<Rightarrow> Array []
      | Some r \<Rightarrow>
          let list = (case current of Some t \<Rightarrow> [t] | None \<Rightarrow> All r)
          in Array (map (\<lambda>t. tenantStatArray snap (theTenant t r)) list))"

end
