(* ===== verification/Commands.thy ===== *)
theory Commands
  imports Persist Info
begin

text \<open>
  \<^verbatim>\<open>internal/command\<close>: the state of a connection, the command registry with its policy, and every
  handler. The closures that the \<^verbatim>\<open>Register\<dots>\<close> functions store are the constructors of \<open>handler\<close>, run by \<open>runHandler\<close>.
  The world is what the handlers share: the tenants, the persistence engine and its disk, and what
  has been written to each connection. \<open>Env\<close> holds the readings of the clock during a command, the order of
  map traversals, the outcomes of file and network writes and what INFO takes from the Go runtime.
  The nil checks on the context, the tenant's store and its hub are not modelled: the server and the
  registry always set them.
\<close>

section \<open>State\<close>

record Context =
  Quit :: bool
  ctxTenant :: "tref option"
  BoundTenant :: bool
  ConnID :: nat
  ctxWriter :: "conn option"
  ctxPubSub :: "(tref \<times> client) option"
  Multi :: "Value list"

record World =
  wTenants :: tenRegistry
  wEng :: "Engine option"
  wDisk :: Disk
  wOut :: wire
  wBgSaves :: nat
  wMetrics :: "Collector option"
  wClients :: int

record Env =
  evNow :: "nat \<Rightarrow> gotime"
  evClock :: "nat \<Rightarrow> nat \<Rightarrow> nat \<Rightarrow> gotime"
  evPerm :: "string list \<Rightarrow> string list"
  evUp :: "conn \<Rightarrow> bool"
  evIO :: "nat \<Rightarrow> IO"
  evGoVersion :: string
  evUptime :: int
  evSys :: u64
  evHeapAlloc :: u64

definition hubOf :: "tref \<Rightarrow> World \<Rightarrow> Hub" where
  "hubOf t w = tPubSub (theTenant t (wTenants w))"

definition dbOf :: "tref \<Rightarrow> World \<Rightarrow> DB" where
  "dbOf t w = tDB (theTenant t (wTenants w))"

definition ctxInSubscribeMode :: "Context \<Rightarrow> World \<Rightarrow> bool" where
  "ctxInSubscribeMode ctx w \<longleftrightarrow> (case ctxPubSub ctx of Some (t, c) \<Rightarrow> InSubscribeMode c (hubOf t w) | None \<Rightarrow> False)"

definition AppendMulti :: "Value \<Rightarrow> Context \<Rightarrow> Context" where
  "AppendMulti v ctx = ctx\<lparr>Multi := Multi ctx @ [v]\<rparr>"

text \<open>
  An operation on the store of a tenant: the mutations it reports go to the engine before the handler
  continues.
\<close>

definition onDB :: "Env \<Rightarrow> tref \<Rightarrow> (DB \<Rightarrow> 'a \<times> DB) \<Rightarrow> World \<Rightarrow> 'a \<times> World" where
  "onDB ev t f w =
     (let (x, db) = f (dbOf t w); r1 = setDB t db (wTenants w) in
      case wEng w of
        None \<Rightarrow> (x, w\<lparr>wTenants := r1\<rparr>)
      | Some e \<Rightarrow>
          let (r2, (e2, d2)) = drainSink (evIO ev) t r1 (e, wDisk w)
          in (x, w\<lparr>wTenants := r2, wEng := Some e2, wDisk := d2\<rparr>))"

definition onHub :: "tref \<Rightarrow> (Hub \<Rightarrow> 'a \<times> Hub) \<Rightarrow> World \<Rightarrow> 'a \<times> World" where
  "onHub t f w =
     (let (x, h) = f (hubOf t w) in (x, w\<lparr>wTenants := setTenant t (\<lambda>y. y\<lparr>tPubSub := h\<rparr>) (wTenants w)\<rparr>))"

section \<open>Policy (policy.go)\<close>

record Policy =
  RequireAuth :: bool
  DefaultTenant :: "tref option"
  Deny :: "string list"

definition unauthenticatedAllow :: "string list" where
  "unauthenticatedAllow = [''AUTH'', ''PING'', ''ECHO'', ''QUIT'', ''COMMAND'', ''INFO'', ''TENANTSTATS'']"

definition neverDeny :: "string list" where
  "neverDeny = [''AUTH'', ''PING'', ''QUIT'']"

definition NewPolicy :: "bool \<Rightarrow> tref option \<Rightarrow> string list \<Rightarrow> Policy" where
  "NewPolicy requireAuth defaultTenant deny =
     \<lparr>RequireAuth = requireAuth, DefaultTenant = defaultTenant,
      Deny = filter (\<lambda>key. key \<noteq> [] \<and> key \<notin> set neverDeny) (map (\<lambda>d. ToUpper (TrimSpace d)) deny)\<rparr>"

definition quoted :: "string \<Rightarrow> string" where
  "quoted s = [CHR 0x27] @ s @ [CHR 0x27]"

definition noAuth :: Value where
  "noAuth = RespError ''NOAUTH Authentication required.''"

definition checkPolicy :: "Policy option \<Rightarrow> Context \<Rightarrow> string \<Rightarrow> Value option \<times> Context" where
  "checkPolicy pol ctx name =
     (case pol of
        None \<Rightarrow> (None, ctx)
      | Some p \<Rightarrow>
          if name \<in> set (Deny p)
          then (Some (RespError (''ERR command '' @ quoted (ToLower name) @ '' is disabled by server configuration'')), ctx)
          else if \<not> RequireAuth p
          then (None, if ctxTenant ctx = None \<and> DefaultTenant p \<noteq> None then ctx\<lparr>ctxTenant := DefaultTenant p\<rparr> else ctx)
          else if ctxTenant ctx = None
          then (if name \<in> set unauthenticatedAllow then (None, ctx) else (Some noAuth, ctx))
          else (None, ctx))"

section \<open>Authentication (auth.go)\<close>

definition wrongArgs :: "string \<Rightarrow> Value" where
  "wrongArgs cmd = RespError (''ERR wrong number of arguments for '' @ quoted cmd @ '' command'')"

definition OK :: Value where "OK = SimpleString ''OK''"

definition closePubSub :: "Context \<Rightarrow> World \<Rightarrow> World" where
  "closePubSub ctx w =
     (case ctxPubSub ctx of Some (t, c) \<Rightarrow> snd (onHub t (\<lambda>h. ((), Close c h)) w) | None \<Rightarrow> w)"

definition cmdAuth :: "Context \<Rightarrow> string list \<Rightarrow> World \<Rightarrow> Value \<times> Context \<times> World" where
  "cmdAuth ctx args w =
     (if length args \<noteq> 3 then (wrongArgs ''auth'', ctx, w)
      else case Authenticate (args ! 1) (args ! 2) (wTenants w) of
        Inl e \<Rightarrow> (RespError (authMessage e), ctx, w)
      | Inr t \<Rightarrow>
          if ctxTenant ctx = Some t \<and> BoundTenant ctx then (OK, ctx, w)
          else case AcquireConn (Some t) (wTenants w) of
            (False, r) \<Rightarrow> (RespError ''ERR max number of clients reached for tenant'', ctx, w\<lparr>wTenants := r\<rparr>)
          | (True, r) \<Rightarrow>
              let r1 = (if ctxTenant ctx \<noteq> None \<and> BoundTenant ctx then ReleaseConn (ctxTenant ctx) r else r);
                  w1 = closePubSub ctx (w\<lparr>wTenants := r1\<rparr>)
              in (OK, ctx\<lparr>ctxPubSub := None, ctxTenant := Some t, BoundTenant := True\<rparr>, w1))"

definition ReleaseTenantConn :: "Context \<Rightarrow> World \<Rightarrow> Context \<times> World" where
  "ReleaseTenantConn ctx w =
     (if ctxTenant ctx = None \<or> \<not> BoundTenant ctx then (ctx, w)
      else (ctx\<lparr>BoundTenant := False\<rparr>, w\<lparr>wTenants := ReleaseConn (ctxTenant ctx) (wTenants w)\<rparr>))"

definition requireDB :: "Context \<Rightarrow> World \<Rightarrow> Value + tref" where
  "requireDB ctx w =
     (case ctxTenant ctx of
        None \<Rightarrow> Inl noAuth
      | Some t \<Rightarrow> if tStatus (theTenant t (wTenants w)) \<noteq> StatusActive then Inl (RespError ''ERR tenant is disabled'') else Inr t)"

definition withDB :: "Context \<Rightarrow> World \<Rightarrow> (tref \<Rightarrow> Value \<times> World) \<Rightarrow> Value \<times> World" where
  "withDB ctx w f = (case requireDB ctx w of Inl e \<Rightarrow> (e, w) | Inr t \<Rightarrow> f t)"

section \<open>Connectivity (registry.go)\<close>

definition ping :: "Context \<Rightarrow> string list \<Rightarrow> World \<Rightarrow> Value" where
  "ping ctx args w =
     (if 2 < length args then wrongArgs ''ping''
      else if ctxInSubscribeMode ctx w
      then Array [BulkString ''pong'', BulkString (if length args = 2 then args ! 1 else [])]
      else if length args = 1 then SimpleString ''PONG''
      else if length args = 2 then BulkString (args ! 1)
      else wrongArgs ''ping'')"

definition echo :: "string list \<Rightarrow> Value" where
  "echo args = (if length args \<noteq> 2 then wrongArgs ''echo'' else BulkString (args ! 1))"

definition quit :: "Context \<Rightarrow> string list \<Rightarrow> Value \<times> Context" where
  "quit ctx args = (if length args \<noteq> 1 then (wrongArgs ''quit'', ctx) else (OK, ctx\<lparr>Quit := True\<rparr>))"

text \<open>\<^verbatim>\<open>EqualFold\<close> with an ASCII word that has no \<^verbatim>\<open>K\<close> or \<^verbatim>\<open>S\<close>.\<close>

definition commandNames :: "string list \<Rightarrow> string list \<Rightarrow> Value" where
  "commandNames names args =
     (if length args = 1 then Array (map BulkString names)
      else if length args = 2 \<and> map byteToUpper (args ! 1) = ''COUNT'' then RespInteger (int (length names))
      else RespError (''ERR unknown subcommand or wrong number of arguments for '' @ quoted ''command''))"

section \<open>Strings (strings.go)\<close>

definition oomReply :: Value where
  "oomReply = RespError (''OOM command not allowed when used memory > '' @ quoted ''maxmemory'')"

definition notIntReply :: Value where
  "notIntReply = RespError ''ERR value is not an integer or out of range''"

definition syntaxReply :: Value where
  "syntaxReply = RespError ''ERR syntax error''"

definition expireReply :: Value where
  "expireReply = RespError (''ERR invalid expire time in '' @ quoted ''set'' @ '' command'')"

definition incrErr :: "storeErr \<Rightarrow> Value" where
  "incrErr err = (if err = ErrOOM then oomReply else notIntReply)"

definition cmdGet :: "Env \<Rightarrow> Context \<Rightarrow> string list \<Rightarrow> World \<Rightarrow> Value \<times> World" where
  "cmdGet ev ctx args w =
     (if length args \<noteq> 2 then (wrongArgs ''get'', w)
      else withDB ctx w (\<lambda>t.
        let (v, w1) = onDB ev t (Get (args ! 1) (evNow ev 0)) w
        in (case v of Some s \<Rightarrow> BulkString s | None \<Rightarrow> Null, w1)))"

fun setOptions :: "string list \<Rightarrow> SetOptions \<Rightarrow> Value + SetOptions" where
  "setOptions [] opt = Inr opt"
| "setOptions (a # rest) opt =
     (let sw = ToUpper a in
      if sw = ''NX'' then setOptions rest (opt\<lparr>optNX := True\<rparr>)
      else if sw = ''XX'' then setOptions rest (opt\<lparr>optXX := True\<rparr>)
      else if sw = ''KEEPTTL'' then setOptions rest (opt\<lparr>KeepTTL := True\<rparr>)
      else if sw = ''EX'' then
        (case rest of
           [] \<Rightarrow> Inl syntaxReply
         | n # rest1 \<Rightarrow>
             (case ParseInt n of
                Inl _ \<Rightarrow> Inl expireReply
              | Inr sec \<Rightarrow> if sec \<le> 0 then Inl expireReply else setOptions rest1 (opt\<lparr>optEX := wrap64 (sec * second)\<rparr>)))
      else if sw = ''PX'' then
        (case rest of
           [] \<Rightarrow> Inl syntaxReply
         | n # rest1 \<Rightarrow>
             (case ParseInt n of
                Inl _ \<Rightarrow> Inl expireReply
              | Inr ms \<Rightarrow> if ms \<le> 0 then Inl expireReply else setOptions rest1 (opt\<lparr>optPX := wrap64 (ms * millisecond)\<rparr>)))
      else Inl syntaxReply)"

definition cmdSet :: "Env \<Rightarrow> Context \<Rightarrow> string list \<Rightarrow> World \<Rightarrow> Value \<times> World" where
  "cmdSet ev ctx args w =
     (if length args < 3 then (wrongArgs ''set'', w)
      else withDB ctx w (\<lambda>t.
        case setOptions (drop 3 args) noOptions of
          Inl errv \<Rightarrow> (errv, w)
        | Inr opt \<Rightarrow>
            if optNX opt \<and> optXX opt then (syntaxReply, w)
            else
              let (res, w1) = onDB ev t (Set (args ! 1) (args ! 2) opt (evNow ev 0) (evClock ev 0)) w
              in (case res of Inl err \<Rightarrow> oomReply | Inr ok \<Rightarrow> if \<not> ok then Null else OK, w1)))"

definition cmdDel :: "Env \<Rightarrow> Context \<Rightarrow> string list \<Rightarrow> World \<Rightarrow> Value \<times> World" where
  "cmdDel ev ctx args w =
     (if length args < 2 then (wrongArgs ''del'', w)
      else withDB ctx w (\<lambda>t. apfst RespInteger (onDB ev t (Del (tl args) (evNow ev 0)) w)))"

definition cmdExists :: "Env \<Rightarrow> Context \<Rightarrow> string list \<Rightarrow> World \<Rightarrow> Value \<times> World" where
  "cmdExists ev ctx args w =
     (if length args < 2 then (wrongArgs ''exists'', w)
      else withDB ctx w (\<lambda>t. apfst RespInteger (onDB ev t (Exists (tl args) (evNow ev 0)) w)))"

fun mgetLoop :: "(nat \<Rightarrow> gotime) \<Rightarrow> nat \<Rightarrow> string list \<Rightarrow> DB \<Rightarrow> Value list \<times> DB" where
  "mgetLoop nows i [] d = ([], d)"
| "mgetLoop nows i (k # ks) d =
     (let (v, d1) = Get k (nows i) d; (out, d2) = mgetLoop nows (Suc i) ks d1
      in ((case v of Some s \<Rightarrow> BulkString s | None \<Rightarrow> Null) # out, d2))"

definition cmdMGet :: "Env \<Rightarrow> Context \<Rightarrow> string list \<Rightarrow> World \<Rightarrow> Value \<times> World" where
  "cmdMGet ev ctx args w =
     (if length args < 2 then (wrongArgs ''mget'', w)
      else withDB ctx w (\<lambda>t. apfst Array (onDB ev t (mgetLoop (evNow ev) 0 (tl args)) w)))"

fun msetLoop :: "Env \<Rightarrow> nat \<Rightarrow> string list \<Rightarrow> DB \<Rightarrow> bool \<times> DB" where
  "msetLoop ev i (k # v # rest) d =
     (case Set k v noOptions (evNow ev i) (evClock ev i) d of
        (Inl err, d1) \<Rightarrow> (False, d1)
      | (Inr _, d1) \<Rightarrow> msetLoop ev (Suc i) rest d1)"
| "msetLoop ev i _ d = (True, d)"

definition cmdMSet :: "Env \<Rightarrow> Context \<Rightarrow> string list \<Rightarrow> World \<Rightarrow> Value \<times> World" where
  "cmdMSet ev ctx args w =
     (if length args < 3 \<or> (length args - 1) mod 2 \<noteq> 0 then (wrongArgs ''mset'', w)
      else withDB ctx w (\<lambda>t.
        let (ok, w1) = onDB ev t (msetLoop ev 0 (tl args)) w in (if ok then OK else oomReply, w1)))"

definition incrOn :: "Env \<Rightarrow> string \<Rightarrow> int \<Rightarrow> World \<Rightarrow> tref \<Rightarrow> Value \<times> World" where
  "incrOn ev key delta w t =
     (let (res, w1) = onDB ev t (IncrBy key delta (evNow ev 0) (evNow ev 1) (evClock ev 0)) w
      in (case res of Inl err \<Rightarrow> incrErr err | Inr n \<Rightarrow> RespInteger n, w1))"

definition cmdIncr :: "Env \<Rightarrow> Context \<Rightarrow> string list \<Rightarrow> World \<Rightarrow> Value \<times> World" where
  "cmdIncr ev ctx args w =
     (if length args \<noteq> 2 then (wrongArgs ''incr'', w) else withDB ctx w (incrOn ev (args ! 1) 1 w))"

definition cmdDecr :: "Env \<Rightarrow> Context \<Rightarrow> string list \<Rightarrow> World \<Rightarrow> Value \<times> World" where
  "cmdDecr ev ctx args w =
     (if length args \<noteq> 2 then (wrongArgs ''decr'', w) else withDB ctx w (incrOn ev (args ! 1) (-1) w))"

definition cmdIncrBy :: "Env \<Rightarrow> Context \<Rightarrow> string list \<Rightarrow> World \<Rightarrow> Value \<times> World" where
  "cmdIncrBy ev ctx args w =
     (if length args \<noteq> 3 then (wrongArgs ''incrby'', w)
      else withDB ctx w (\<lambda>t. case ParseInt (args ! 2) of Inl _ \<Rightarrow> (notIntReply, w) | Inr d \<Rightarrow> incrOn ev (args ! 1) d w t))"

definition cmdDecrBy :: "Env \<Rightarrow> Context \<Rightarrow> string list \<Rightarrow> World \<Rightarrow> Value \<times> World" where
  "cmdDecrBy ev ctx args w =
     (if length args \<noteq> 3 then (wrongArgs ''decrby'', w)
      else withDB ctx w (\<lambda>t. case ParseInt (args ! 2) of Inl _ \<Rightarrow> (notIntReply, w) | Inr d \<Rightarrow> incrOn ev (args ! 1) (wrap64 (- d)) w t))"

definition expireOn :: "Env \<Rightarrow> duration \<Rightarrow> string list \<Rightarrow> World \<Rightarrow> tref \<Rightarrow> Value \<times> World" where
  "expireOn ev unit args w t =
     (case ParseInt (args ! 2) of
        Inl _ \<Rightarrow> (notIntReply, w)
      | Inr n \<Rightarrow> apfst RespInteger (onDB ev t (Expire (args ! 1) (wrap64 (n * unit)) (evNow ev 0) (evNow ev 1)) w))"

definition cmdExpire :: "Env \<Rightarrow> Context \<Rightarrow> string list \<Rightarrow> World \<Rightarrow> Value \<times> World" where
  "cmdExpire ev ctx args w =
     (if length args \<noteq> 3 then (wrongArgs ''expire'', w) else withDB ctx w (expireOn ev second args w))"

definition cmdPExpire :: "Env \<Rightarrow> Context \<Rightarrow> string list \<Rightarrow> World \<Rightarrow> Value \<times> World" where
  "cmdPExpire ev ctx args w =
     (if length args \<noteq> 3 then (wrongArgs ''pexpire'', w) else withDB ctx w (expireOn ev millisecond args w))"

definition cmdTTL :: "Env \<Rightarrow> Context \<Rightarrow> string list \<Rightarrow> World \<Rightarrow> Value \<times> World" where
  "cmdTTL ev ctx args w =
     (if length args \<noteq> 2 then (wrongArgs ''ttl'', w)
      else withDB ctx w (\<lambda>t. apfst RespInteger (onDB ev t (TTL (args ! 1) (evNow ev 0)) w)))"

definition cmdPTTL :: "Env \<Rightarrow> Context \<Rightarrow> string list \<Rightarrow> World \<Rightarrow> Value \<times> World" where
  "cmdPTTL ev ctx args w =
     (if length args \<noteq> 2 then (wrongArgs ''pttl'', w)
      else withDB ctx w (\<lambda>t. apfst RespInteger (onDB ev t (PTTL (args ! 1) (evNow ev 0)) w)))"

definition cmdPersist :: "Env \<Rightarrow> Context \<Rightarrow> string list \<Rightarrow> World \<Rightarrow> Value \<times> World" where
  "cmdPersist ev ctx args w =
     (if length args \<noteq> 2 then (wrongArgs ''persist'', w)
      else withDB ctx w (\<lambda>t. apfst RespInteger (onDB ev t (Persist (args ! 1) (evNow ev 0)) w)))"

definition cmdType :: "Env \<Rightarrow> Context \<Rightarrow> string list \<Rightarrow> World \<Rightarrow> Value \<times> World" where
  "cmdType ev ctx args w =
     (if length args \<noteq> 2 then (wrongArgs ''type'', w)
      else withDB ctx w (\<lambda>t. apfst SimpleString (onDB ev t (Type (args ! 1) (evNow ev 0)) w)))"

definition cmdDBSize :: "Env \<Rightarrow> Context \<Rightarrow> string list \<Rightarrow> World \<Rightarrow> Value \<times> World" where
  "cmdDBSize ev ctx args w =
     (if length args \<noteq> 1 then (wrongArgs ''dbsize'', w)
      else withDB ctx w (\<lambda>t. (RespInteger (DBSize (evNow ev 0) (dbOf t w)), w)))"

section \<open>Publish/subscribe (pubsub.go)\<close>

text \<open>\<^verbatim>\<open>requireTenant\<close> makes the checks of \<^verbatim>\<open>requireDB\<close>, with the hub in place of the store.\<close>

definition requireTenant :: "Context \<Rightarrow> World \<Rightarrow> Value + tref" where
  "requireTenant ctx w =
     (case ctxTenant ctx of
        None \<Rightarrow> Inl noAuth
      | Some t \<Rightarrow> if tStatus (theTenant t (wTenants w)) \<noteq> StatusActive then Inl (RespError ''ERR tenant is disabled'') else Inr t)"

definition ensurePubSubClient :: "Context \<Rightarrow> tref \<Rightarrow> World \<Rightarrow> (Value + tref \<times> client) \<times> Context \<times> World" where
  "ensurePubSubClient ctx t w =
     (case ctxWriter ctx of
        None \<Rightarrow> (Inl (RespError ''ERR connection writer unavailable''), ctx, w)
      | Some k \<Rightarrow>
          (case ctxPubSub ctx of
             Some p \<Rightarrow> (Inr p, ctx, w)
           | None \<Rightarrow> let (c, w1) = onHub t (NewClient k) w in (Inr (t, c), ctx\<lparr>ctxPubSub := Some (t, c)\<rparr>, w1)))"

definition emitConfirms :: "Context \<Rightarrow> SubConfirm list \<Rightarrow> Value \<times> Context" where
  "emitConfirms ctx conf =
     (if conf = [] then (RespError ''ERR wrong number of arguments for subscribe command'', ctx)
      else (ToValue (last conf), fold (\<lambda>c. AppendMulti (ToValue c)) conf ctx))"

definition subscribeWith ::
  "(client \<Rightarrow> string list \<Rightarrow> Hub \<Rightarrow> SubConfirm list \<times> Hub) \<Rightarrow> string \<Rightarrow> Context \<Rightarrow> string list \<Rightarrow> World \<Rightarrow> Value \<times> Context \<times> World" where
  "subscribeWith sub cmd ctx args w =
     (if length args < 2 then (wrongArgs cmd, ctx, w)
      else case requireTenant ctx w of
        Inl e \<Rightarrow> (e, ctx, w)
      | Inr t \<Rightarrow>
          (case ensurePubSubClient ctx t w of
             (Inl e, ctx1, w1) \<Rightarrow> (e, ctx1, w1)
           | (Inr (t1, c), ctx1, w1) \<Rightarrow>
               let (conf, w2) = onHub t1 (sub c (tl args)) w1; (v, ctx2) = emitConfirms ctx1 conf
               in (v, ctx2, w2)))"

definition cmdSubscribe :: "Context \<Rightarrow> string list \<Rightarrow> World \<Rightarrow> Value \<times> Context \<times> World" where
  "cmdSubscribe = subscribeWith Subscribe ''subscribe''"

definition cmdPSubscribe :: "Context \<Rightarrow> string list \<Rightarrow> World \<Rightarrow> Value \<times> Context \<times> World" where
  "cmdPSubscribe = subscribeWith PSubscribe ''psubscribe''"

definition emptyConfirm :: "string \<Rightarrow> nat \<Rightarrow> Context \<Rightarrow> Value \<times> Context" where
  "emptyConfirm kind n ctx =
     (let ctx1 = AppendMulti (ToValue \<lparr>scKind = kind, scName = [], scCount = n\<rparr>) ctx in (Multi ctx1 ! 0, ctx1))"

definition unsubscribeWith ::
  "(client \<Rightarrow> string list \<Rightarrow> Hub \<Rightarrow> SubConfirm list \<times> Hub) \<Rightarrow> string \<Rightarrow> Context \<Rightarrow> string list \<Rightarrow> World \<Rightarrow> Value \<times> Context \<times> World" where
  "unsubscribeWith unsub kind ctx args w =
     (case requireTenant ctx w of
        Inl e \<Rightarrow> (e, ctx, w)
      | Inr t \<Rightarrow>
          (case ctxPubSub ctx of
             None \<Rightarrow> (let (v, ctx1) = emptyConfirm kind 0 ctx in (v, ctx1, w))
           | Some (t1, c) \<Rightarrow>
               let (conf, w1) = onHub t1 (unsub c (tl args)) w;
                   (v, ctx1) = (if conf = [] then emptyConfirm kind (SubCount c (hubOf t1 w1)) ctx else emitConfirms ctx conf)
               in (v, ctx1, w1)))"

definition cmdUnsubscribe :: "Context \<Rightarrow> string list \<Rightarrow> World \<Rightarrow> Value \<times> Context \<times> World" where
  "cmdUnsubscribe = unsubscribeWith Unsubscribe ''unsubscribe''"

definition cmdPUnsubscribe :: "Context \<Rightarrow> string list \<Rightarrow> World \<Rightarrow> Value \<times> Context \<times> World" where
  "cmdPUnsubscribe = unsubscribeWith PUnsubscribe ''punsubscribe''"

definition cmdPublish :: "Env \<Rightarrow> Context \<Rightarrow> string list \<Rightarrow> World \<Rightarrow> Value \<times> World" where
  "cmdPublish ev ctx args w =
     (if length args \<noteq> 3 then (wrongArgs ''publish'', w)
      else case requireTenant ctx w of
        Inl e \<Rightarrow> (e, w)
      | Inr t \<Rightarrow>
          let (n, out) = Publish (evUp ev) (args ! 1) (args ! 2) (hubOf t w) (wOut w)
          in (RespInteger (int n), w\<lparr>wOut := out\<rparr>))"

definition cmdPubSub :: "Context \<Rightarrow> string list \<Rightarrow> World \<Rightarrow> Value" where
  "cmdPubSub ctx args w =
     (if length args < 2 then wrongArgs ''pubsub''
      else case requireTenant ctx w of
        Inl e \<Rightarrow> e
      | Inr t \<Rightarrow>
          let sub = ToUpper (args ! 1) in
          if sub = ''CHANNELS'' then
            (if 3 < length args then wrongArgs ''pubsub|channels''
             else Array (map BulkString (Channels (if 3 \<le> length args then args ! 2 else []) (hubOf t w))))
          else if sub = ''NUMSUB'' then
            (let chans = drop 2 args; counts = NumSub chans (hubOf t w)
             in Array (concat (map (\<lambda>(ch, n). [BulkString ch, RespInteger (int n)]) (zip chans counts))))
          else if sub = ''NUMPAT'' then
            (if length args \<noteq> 2 then wrongArgs ''pubsub|numpat'' else RespInteger (int (NumPat (hubOf t w))))
          else RespError (''ERR unknown subcommand or wrong number of arguments for '' @ quoted (args ! 1)))"

section \<open>Persistence (persist.go)\<close>

text \<open>The texts of the errors of the engine that reach a client.\<close>

definition persistMessage :: "persistErr \<Rightarrow> string" where
  "persistMessage e = (case e of
     IOFailed m \<Rightarrow> m
   | SaveInProgress \<Rightarrow> ''ERR Background save already in progress''
   | PersistenceDisabled \<Rightarrow> ''ERR Persistence disabled''
   | _ \<Rightarrow> [])"

definition persistOff :: "World \<Rightarrow> bool" where
  "persistOff w \<longleftrightarrow> (case wEng w of None \<Rightarrow> True | Some e \<Rightarrow> Mode e = ModeNone)"

definition cmdSave :: "Env \<Rightarrow> Context \<Rightarrow> string list \<Rightarrow> World \<Rightarrow> Value \<times> World" where
  "cmdSave ev ctx args w =
     (if length args \<noteq> 1 then (wrongArgs ''save'', w)
      else withDB ctx w (\<lambda>t.
        case wEng w of
          None \<Rightarrow> (RespError ''ERR Persistence disabled'', w)
        | Some e \<Rightarrow>
            if Mode e = ModeNone then (RespError ''ERR Persistence disabled'', w)
            else
              let (err, (e1, d1)) = SaveSnapshot (evIO ev 0) (evPerm ev) (evNow ev) (wTenants w) (e, wDisk w);
                  w1 = w\<lparr>wEng := Some e1, wDisk := d1\<rparr>
              in (case err of Some x \<Rightarrow> RespError (''ERR '' @ persistMessage x) | None \<Rightarrow> OK, w1)))"

definition cmdBGSave :: "Context \<Rightarrow> string list \<Rightarrow> World \<Rightarrow> Value \<times> World" where
  "cmdBGSave ctx args w =
     (if length args \<noteq> 1 then (wrongArgs ''bgsave'', w)
      else withDB ctx w (\<lambda>t.
        case wEng w of
          None \<Rightarrow> (RespError ''ERR Persistence disabled'', w)
        | Some e \<Rightarrow>
            if Mode e = ModeNone then (RespError ''ERR Persistence disabled'', w)
            else case BGSave e of
              Some x \<Rightarrow> (RespError (persistMessage x), w)
            | None \<Rightarrow> (SimpleString ''Background saving started'', w\<lparr>wBgSaves := Suc (wBgSaves w)\<rparr>)))"

definition cmdLastSave :: "Context \<Rightarrow> string list \<Rightarrow> World \<Rightarrow> Value \<times> World" where
  "cmdLastSave ctx args w =
     (if length args \<noteq> 1 then (wrongArgs ''lastsave'', w)
      else withDB ctx w (\<lambda>t. (RespInteger (case wEng w of None \<Rightarrow> 0 | Some e \<Rightarrow> LastSaveUnix e), w)))"

definition cmdFlushDB :: "Env \<Rightarrow> Context \<Rightarrow> string list \<Rightarrow> World \<Rightarrow> Value \<times> World" where
  "cmdFlushDB ev ctx args w =
     (if length args \<noteq> 1 then (wrongArgs ''flushdb'', w)
      else withDB ctx w (\<lambda>t. apfst (\<lambda>_. OK) (onDB ev t (FlushDB (evPerm ev)) w)))"

section \<open>The registry (registry.go)\<close>

datatype handler =
    HPing | HEcho | HQuit | HCommand | HInfo | HAuth | HTenantStats
  | HGet | HSet | HDel | HExists | HMGet | HMSet | HIncr | HDecr | HIncrBy | HDecrBy
  | HExpire | HPExpire | HTTL | HPTTL | HPersist | HType | HDBSize
  | HSubscribe | HUnsubscribe | HPSubscribe | HPUnsubscribe | HPublish | HPubSub
  | HSave | HBGSave | HLastSave | HFlushDB

record cmdRegistry =
  handlers :: "(string \<times> handler) list"
  names :: "string list"
  regPolicy :: "Policy option"
  regRuntime :: "RuntimeInfo option"

definition NewCmdRegistry :: cmdRegistry where
  "NewCmdRegistry = \<lparr>handlers = [], names = [], regPolicy = None, regRuntime = None\<rparr>"

definition SetPolicy :: "Policy \<Rightarrow> cmdRegistry \<Rightarrow> cmdRegistry" where
  "SetPolicy p r = r\<lparr>regPolicy := Some p\<rparr>"

definition SetRuntime :: "RuntimeInfo \<Rightarrow> cmdRegistry \<Rightarrow> cmdRegistry" where
  "SetRuntime rt r = r\<lparr>regRuntime := Some rt\<rparr>"

definition Register :: "string \<Rightarrow> handler \<Rightarrow> cmdRegistry \<Rightarrow> cmdRegistry" where
  "Register name h r =
     (let key = ToUpper name in
      r\<lparr>names := (if map_of (handlers r) key = None then names r @ [key] else names r),
        handlers := AList.update key h (handlers r)\<rparr>)"

definition Names :: "cmdRegistry \<Rightarrow> string list" where
  "Names r = names r"

definition RegisterDefaults :: "cmdRegistry \<Rightarrow> cmdRegistry" where
  "RegisterDefaults =
     fold (\<lambda>(n, h). Register n h)
       [(''PING'', HPing), (''ECHO'', HEcho), (''QUIT'', HQuit), (''COMMAND'', HCommand), (''INFO'', HInfo)]"

definition RegisterAuth :: "cmdRegistry \<Rightarrow> cmdRegistry" where
  "RegisterAuth = Register ''AUTH'' HAuth"

definition RegisterStringCommands :: "cmdRegistry \<Rightarrow> cmdRegistry" where
  "RegisterStringCommands =
     fold (\<lambda>(n, h). Register n h)
       [(''GET'', HGet), (''SET'', HSet), (''DEL'', HDel), (''EXISTS'', HExists), (''MGET'', HMGet), (''MSET'', HMSet),
        (''INCR'', HIncr), (''DECR'', HDecr), (''INCRBY'', HIncrBy), (''DECRBY'', HDecrBy), (''EXPIRE'', HExpire),
        (''PEXPIRE'', HPExpire), (''TTL'', HTTL), (''PTTL'', HPTTL), (''PERSIST'', HPersist), (''TYPE'', HType),
        (''DBSIZE'', HDBSize)]"

definition RegisterPubSub :: "cmdRegistry \<Rightarrow> cmdRegistry" where
  "RegisterPubSub =
     fold (\<lambda>(n, h). Register n h)
       [(''SUBSCRIBE'', HSubscribe), (''UNSUBSCRIBE'', HUnsubscribe), (''PSUBSCRIBE'', HPSubscribe),
        (''PUNSUBSCRIBE'', HPUnsubscribe), (''PUBLISH'', HPublish), (''PUBSUB'', HPubSub)]"

definition RegisterPersist :: "cmdRegistry \<Rightarrow> cmdRegistry" where
  "RegisterPersist =
     fold (\<lambda>(n, h). Register n h)
       [(''SAVE'', HSave), (''BGSAVE'', HBGSave), (''LASTSAVE'', HLastSave), (''FLUSHDB'', HFlushDB)]"

definition RegisterTenantStats :: "cmdRegistry \<Rightarrow> cmdRegistry" where
  "RegisterTenantStats = Register ''TENANTSTATS'' HTenantStats"

text \<open>
  The handlers close over the tenants, the engine and the collector, which are in the world here.
  INFO takes its callbacks from the runtime when one is installed.
\<close>

definition infoEnv :: "cmdRegistry \<Rightarrow> Env \<Rightarrow> World \<Rightarrow> InfoEnv" where
  "infoEnv r ev w =
     (let wired = regRuntime r \<noteq> None in
      \<lparr>ieGoVersion = evGoVersion ev, ieUptime = evUptime ev, ieSys = evSys ev, ieHeapAlloc = evHeapAlloc ev,
       ieLastSave = (if wired then map_option LastSaveUnix (wEng w) else None),
       ieConnected = (if wired then Some (max 0 (wClients w)) else None),
       ieMetrics = (if wired then map_option (Metrics.Snapshot (evUptime ev)) (wMetrics w) else None)\<rparr>)"

definition cmdInfo :: "cmdRegistry \<Rightarrow> Env \<Rightarrow> Context \<Rightarrow> string list \<Rightarrow> World \<Rightarrow> Value" where
  "cmdInfo r ev ctx args w =
     makeInfo (case regRuntime r of Some rt \<Rightarrow> rt | None \<Rightarrow> emptyRuntime) (Some (wTenants w)) (infoEnv r ev w) (ctxTenant ctx) args"

definition keepCtx :: "Context \<Rightarrow> Value \<times> World \<Rightarrow> Value \<times> Context \<times> World" where
  "keepCtx ctx p = (fst p, ctx, snd p)"

definition runHandler ::
  "cmdRegistry \<Rightarrow> Env \<Rightarrow> handler \<Rightarrow> Context \<Rightarrow> string list \<Rightarrow> World \<Rightarrow> Value \<times> Context \<times> World" where
  "runHandler r ev h ctx args w = (case h of
     HPing \<Rightarrow> (ping ctx args w, ctx, w)
   | HEcho \<Rightarrow> (echo args, ctx, w)
   | HQuit \<Rightarrow> (let (v, ctx1) = quit ctx args in (v, ctx1, w))
   | HCommand \<Rightarrow> (commandNames (Names r) args, ctx, w)
   | HInfo \<Rightarrow> (cmdInfo r ev ctx args w, ctx, w)
   | HAuth \<Rightarrow> cmdAuth ctx args w
   | HTenantStats \<Rightarrow>
       (tenantStats (Some (wTenants w)) (map_option (Metrics.Snapshot (evUptime ev)) (wMetrics w)) (ctxTenant ctx) args, ctx, w)
   | HGet \<Rightarrow> keepCtx ctx (cmdGet ev ctx args w)
   | HSet \<Rightarrow> keepCtx ctx (cmdSet ev ctx args w)
   | HDel \<Rightarrow> keepCtx ctx (cmdDel ev ctx args w)
   | HExists \<Rightarrow> keepCtx ctx (cmdExists ev ctx args w)
   | HMGet \<Rightarrow> keepCtx ctx (cmdMGet ev ctx args w)
   | HMSet \<Rightarrow> keepCtx ctx (cmdMSet ev ctx args w)
   | HIncr \<Rightarrow> keepCtx ctx (cmdIncr ev ctx args w)
   | HDecr \<Rightarrow> keepCtx ctx (cmdDecr ev ctx args w)
   | HIncrBy \<Rightarrow> keepCtx ctx (cmdIncrBy ev ctx args w)
   | HDecrBy \<Rightarrow> keepCtx ctx (cmdDecrBy ev ctx args w)
   | HExpire \<Rightarrow> keepCtx ctx (cmdExpire ev ctx args w)
   | HPExpire \<Rightarrow> keepCtx ctx (cmdPExpire ev ctx args w)
   | HTTL \<Rightarrow> keepCtx ctx (cmdTTL ev ctx args w)
   | HPTTL \<Rightarrow> keepCtx ctx (cmdPTTL ev ctx args w)
   | HPersist \<Rightarrow> keepCtx ctx (cmdPersist ev ctx args w)
   | HType \<Rightarrow> keepCtx ctx (cmdType ev ctx args w)
   | HDBSize \<Rightarrow> keepCtx ctx (cmdDBSize ev ctx args w)
   | HSubscribe \<Rightarrow> cmdSubscribe ctx args w
   | HUnsubscribe \<Rightarrow> cmdUnsubscribe ctx args w
   | HPSubscribe \<Rightarrow> cmdPSubscribe ctx args w
   | HPUnsubscribe \<Rightarrow> cmdPUnsubscribe ctx args w
   | HPublish \<Rightarrow> keepCtx ctx (cmdPublish ev ctx args w)
   | HPubSub \<Rightarrow> (cmdPubSub ctx args w, ctx, w)
   | HSave \<Rightarrow> keepCtx ctx (cmdSave ev ctx args w)
   | HBGSave \<Rightarrow> keepCtx ctx (cmdBGSave ctx args w)
   | HLastSave \<Rightarrow> keepCtx ctx (cmdLastSave ctx args w)
   | HFlushDB \<Rightarrow> keepCtx ctx (cmdFlushDB ev ctx args w))"

definition subscribeModeAllow :: "string list" where
  "subscribeModeAllow = [''SUBSCRIBE'', ''PSUBSCRIBE'', ''UNSUBSCRIBE'', ''PUNSUBSCRIBE'', ''PING'', ''QUIT'']"

definition Dispatch :: "cmdRegistry \<Rightarrow> Env \<Rightarrow> Context \<Rightarrow> string list \<Rightarrow> World \<Rightarrow> Value \<times> Context \<times> World" where
  "Dispatch r ev ctx args w =
     (if args = [] then (RespError ''ERR empty command'', ctx, w)
      else
        let name = ToUpper (hd args) in
        if ctxInSubscribeMode ctx w \<and> name \<notin> set subscribeModeAllow
        then (RespError (''ERR Can'' @ [CHR 0x27] @ ''t execute '' @ quoted (hd args) @
                '': only (P|S)SUBSCRIBE / (P|S)UNSUBSCRIBE / PING / QUIT are allowed in this context''), ctx, w)
        else case map_of (handlers r) name of
          None \<Rightarrow> (RespError (''ERR unknown command '' @ quoted (hd args)), ctx, w)
        | Some h \<Rightarrow>
            (case checkPolicy (regPolicy r) ctx name of
               (Some errv, ctx1) \<Rightarrow> (errv, ctx1, w)
             | (None, ctx1) \<Rightarrow> runHandler r ev h ctx1 args w))"

end
