(* ===== verification/StoreProps.thy ===== *)
theory StoreProps
  imports StoreRun
begin

text \<open>
  The properties of \<^verbatim>\<open>internal/store\<close> as a whole, each with an instance on a small store. They
  are stated for every state with the invariant \<open>db_ok\<close>; every state reachable from \<open>New\<close>
  through the exported operations has it.
\<close>

section \<open>A sample store\<close>

text \<open>Two keys, one with a deadline, in a store of two shards that has room for two such keys.\<close>

definition sampleConfig :: "string \<Rightarrow> Config" where
  "sampleConfig pol = \<lparr>MaxMemory = 60, ShardCount = 2, Strategy = 1, Policy = pol, MaxTTL = 0, ExpiryInterval = 0\<rparr>"

definition sampleRng :: rng where
  "sampleRng = \<lparr>rsrc = (\<lambda>_. 0), rpos = 0\<rparr>"

definition sampleClock :: "nat \<Rightarrow> nat \<Rightarrow> gotime" where
  "sampleClock n i = 10"

definition until :: "gotime \<Rightarrow> SetOptions" where
  "until t = noOptions\<lparr>HasExpireAt := True, ExpireAt := t\<rparr>"

definition sampleDB :: "string \<Rightarrow> DB" where
  "sampleDB pol = snd (Set ''b'' ''x'' (until 100) 10 sampleClock
     (snd (Set ''a'' ''1'' noOptions 10 sampleClock (New (sampleConfig pol) sampleRng))))"

lemma sampleConfig_simps [simp]:
  "MaxMemory (sampleConfig pol) = 60" "ShardCount (sampleConfig pol) = 2" "Strategy (sampleConfig pol) = 1"
  "Policy (sampleConfig pol) = pol" "MaxTTL (sampleConfig pol) = 0" "ExpiryInterval (sampleConfig pol) = 0"
  by (simp_all add: sampleConfig_def)

lemma sane_sample: "sane (sampleConfig pol)"
  by (simp add: sane_def)

lemma sample_reachable: "reachable_fixed (sampleConfig pol) sampleRng (sampleDB pol)"
  unfolding sampleDB_def by (rule op_fixed [OF op_fixed [OF init_fixed step_Set] step_Set])

lemma sample_reach: "reachable (sampleConfig pol) sampleRng (sampleDB pol)"
  unfolding sampleDB_def by (rule op [OF op [OF init step_Set] step_Set])

lemma sample_facts:
  assumes "pol \<in> set allPolicies"
  shows "db_ok (sampleDB pol)"
    "cfg (sampleDB pol) = (sampleConfig pol)\<lparr>ExpiryInterval := second\<rparr>"
    "lookup (sampleDB pol) = [''a'' \<mapsto> newEntry ''a'' ''1'' 0, ''b'' \<mapsto> newEntry ''b'' ''x'' 100]"
    "used (sampleDB pol) = 52"
proof -
  let ?d0 = "New (sampleConfig pol) sampleRng"
  let ?d1 = "snd (Set ''a'' ''1'' noOptions 10 sampleClock ?d0)"
  have pol: "snd (ParseEvictionPolicy pol)" "pol \<noteq> []"
    using assms ParseEvictionPolicy_canonical [OF assms] by (auto simp: allPolicies_def policy_names)
  have n: "db_ok ?d0" "keysOf ?d0 = {}" using New_ok [of "sampleConfig pol"] by (simp_all)
  have c: "cfg ?d0 = (sampleConfig pol)\<lparr>ExpiryInterval := second\<rparr>" "used ?d0 = 0"
    using pol by (simp_all add: New_def normConfig_def Let_def strategy_defs)
  have l0: "lookup ?d0 = Map.empty" using n(2) by (simp add: keysOf_def)
  have sz: "memSize ''a'' ''1'' = 26" "memSize ''b'' ''x'' = 26" by (simp_all add: memSize_def EntryOverhead_def)
  have e: "setExpiry noOptions 10 0 = 0" "setExpiry (until 100) 10 0 = 100"
    by (simp_all add: setExpiry_def noOptions_def until_def)
  have x: "\<not> optXX noOptions" "\<not> optXX (until 100)" by (simp_all add: noOptions_def until_def)
  have "\<exists>d'. Set ''a'' ''1'' noOptions 10 sampleClock ?d0 = (Inr True, d') \<and> db_ok d' \<and> cfg d' = cfg ?d0 \<and>
      lookup d' = (lookup ?d0)(''a'' \<mapsto> newEntry ''a'' ''1'' (setExpiry noOptions 10 (MaxTTL (cfg ?d0)))) \<and>
      used d' = used ?d0 + memSize ''a'' ''1'' \<and> (\<forall>k. k \<noteq> ''a'' \<longrightarrow> freqAt d' k = freqAt ?d0 k) \<and>
      (sink ?d0 = None \<longrightarrow> sink d' = None)"
    by (rule Set_fresh [OF n(1) _ x(1)]) (simp_all add: l0 c sz strategy_defs)
  then have d1: "db_ok ?d1" "cfg ?d1 = cfg ?d0" "lookup ?d1 = [''a'' \<mapsto> newEntry ''a'' ''1'' 0]" "used ?d1 = 26"
    using e by (auto simp: l0 c sz)
  have "\<exists>d'. Set ''b'' ''x'' (until 100) 10 sampleClock ?d1 = (Inr True, d') \<and> db_ok d' \<and> cfg d' = cfg ?d1 \<and>
      lookup d' = (lookup ?d1)(''b'' \<mapsto> newEntry ''b'' ''x'' (setExpiry (until 100) 10 (MaxTTL (cfg ?d1)))) \<and>
      used d' = used ?d1 + memSize ''b'' ''x'' \<and> (\<forall>k. k \<noteq> ''b'' \<longrightarrow> freqAt d' k = freqAt ?d1 k) \<and>
      (sink ?d1 = None \<longrightarrow> sink d' = None)"
    by (rule Set_fresh [OF d1(1) _ x(2)]) (simp_all add: d1 c sz strategy_defs)
  then show "db_ok (sampleDB pol)" "cfg (sampleDB pol) = (sampleConfig pol)\<lparr>ExpiryInterval := second\<rparr>"
    "lookup (sampleDB pol) = [''a'' \<mapsto> newEntry ''a'' ''1'' 0, ''b'' \<mapsto> newEntry ''b'' ''x'' 100]" "used (sampleDB pol) = 52"
    using e d1 c by (auto simp: sampleDB_def sz)
qed

lemma sample_visible:
  "pol \<in> set allPolicies \<Longrightarrow> visible now (sampleDB pol) = (\<lambda>k. if k = ''a'' then Some (''1'', 0)
     else if k = ''b'' \<and> now < 100 then Some (''x'', 100) else None)"
  by (auto simp: visible_def sample_facts newEntry_def expired_def fun_eq_iff)


section \<open>The store as a state machine\<close>



lemma New_budgets:
  assumes "sane c"
  shows "sum_list (map budget (shards (New c g))) = MaxMemory c"
proof -
  let ?c = "normConfig c"
  let ?n = "nat (ShardCount ?c)" and ?M = "MaxMemory c"
  have m: "MaxMemory ?c = ?M" by (simp add: normConfig_def Let_def)
  have pos: "0 < ?n" by (simp add: normConfig_def Let_def)
  have "1 * ?M \<le> (nat (max 1 (ShardCount c)) + 1) * ?M" by (rule mult_le_mono1) simp
  then have M: "?M < 2 ^ 64" using assms unfolding sane_def by linarith
  note nw = budget_no_wrap [OF pos M]
  have "map budget (shards (New c g)) = map (\<lambda>i. if i < ?M mod ?n then ?M div ?n + 1 else ?M div ?n) [0..<?n]"
    using nw by (simp add: New_def Let_def newShard_def m cong: if_cong)
  then show ?thesis using sum_budgets [of "?M mod ?n" ?n "?M div ?n"] pos by simp
qed

lemma bounded_used:
  assumes ok: "db_ok d" and b: "bounded d" and sum: "sum_list (map budget (shards d)) = MaxMemory (cfg d)"
  shows "used d \<le> MaxMemory (cfg d)"
proof (cases "Strategy (cfg d) = StrategyShardBudget")
  case True
  have "sused sh \<le> budget sh" if "sh \<in> set (shards d)" for sh
  proof -
    from that obtain i where "i < length (shards d)" "sh = shards d ! i" unfolding in_set_conv_nth by blast
    then show ?thesis using b True by (simp add: bounded_def loadOf_def limitOf_def)
  qed
  then have "sum_list (map sused (shards d)) \<le> sum_list (map budget (shards d))" by (intro sum_list_mono)
  then show ?thesis using ok sum by (simp add: db_ok_def)
next
  case False
  have "0 < length (shards d)" using ok by (simp add: db_ok_def cfg_ok_def)
  then show ?thesis using b False by (auto simp: bounded_def loadOf_def limitOf_def)
qed

text \<open>C2: as long as the strategy is not switched at run time, no sequence of operations takes
  the memory in use over the configured maximum, whichever strategy and policy; with per-shard
  budgets every shard stays within its own.\<close>

theorem memory_bound:
  assumes "sane c" "reachable_fixed c g d"
  shows "used d \<le> MaxMemory c \<and>
    (Strategy (cfg d) = StrategyShardBudget \<longrightarrow> (\<forall>sh \<in> set (shards d). sused sh \<le> budget sh))"
proof -
  have k: "kept (New c g) d" by (rule reachable_fixed_kept [OF assms(2,1)])
  then have b: "db_ok d" "bounded d" using New_bounded by (simp_all add: kept_def)
  have m: "MaxMemory (cfg d) = MaxMemory c"
    using k by (simp add: kept_def same_limits_def New_def Let_def) (simp add: normConfig_def Let_def)
  moreover have "sum_list (map budget (shards d)) = MaxMemory (cfg d)"
    using k m New_budgets [OF assms(1), of g] by (simp add: kept_def same_limits_def)
  moreover have "sused sh \<le> budget sh" if st: "Strategy (cfg d) = StrategyShardBudget" and "sh \<in> set (shards d)" for sh
  proof -
    from that(2) obtain i where "i < length (shards d)" "sh = shards d ! i" unfolding in_set_conv_nth by blast
    then show ?thesis using b(2) st by (simp add: bounded_def loadOf_def limitOf_def)
  qed
  ultimately show ?thesis using bounded_used [OF b] by simp
qed

theorem memory_bound_witness: "used (sampleDB PolicyAllKeysLRU) \<le> 60"
  using memory_bound [OF sane_sample sample_reachable, of PolicyAllKeysLRU] by simp

section \<open>Writing\<close>

text \<open>C4: after a successful \<^verbatim>\<open>Set\<close>, \<^verbatim>\<open>Get\<close> returns the value until the deadline the options
  ask for (the kept one, the absolute one, PX or EX, capped by the tenant's maximum).\<close>

theorem Set_then_Get:
  assumes "db_ok d" "fst (Set key val opt now clock d) = Inr True"
    and "IsZero (finalExpiry key opt now d) \<or> now' < finalExpiry key opt now d"
  shows "fst (Get key now' (snd (Set key val opt now clock d))) = Some val"
proof -
  obtain d' where s: "Set key val opt now clock d = (Inr True, d')" using assms(2) by (metis prod.collapse)
  note sp = Set_spec [OF assms(1) s]
  obtain r d'' where g: "Get key now' d' = (r, d'')" by fastforce
  have "visible now' d' key = Some (val, finalExpiry key opt now d)"
    using sp(4) assms(3) by (auto simp: visible_def newEntry_def expired_def)
  then show ?thesis using Get_spec(2) [OF sp(1) g] g s by simp
qed

lemma sample_allLRU: "PolicyAllKeysLRU \<in> set allPolicies" "PolicyNoEviction \<in> set allPolicies"
  "PolicyVolatileTTL \<in> set allPolicies" "PolicyAllKeysLFU \<in> set allPolicies"
  by (simp_all add: allPolicies_def)

lemmas sampleLRU = sample_facts [OF sample_allLRU(1)] sample_visible [OF sample_allLRU(1)]

lemma sample_overwrite:
  "fst (Set ''a'' ''7'' noOptions 20 sampleClock (sampleDB PolicyAllKeysLRU)) = Inr True"
proof -
  let ?d = "sampleDB PolicyAllKeysLRU"
  have pu: "purge ''a'' 20 ?d = ?d" by (simp add: purge_def sampleLRU expired_def newEntry_def)
  have si: "shardIndex ''a'' ?d < length (shards ?d)" using sampleLRU(1) shardIndex_less by (simp add: db_ok_def)
  have "ensureSpace (shardIndex ''a'' ?d) ''a'' (needFor (lookup ?d ''a'') (memSize ''a'' ''7'')) (memSize ''a'' ''7'') sampleClock ?d = (None, ?d)"
    by (rule ensureSpace_room [OF sampleLRU(1) si needFor_le])
      (simp_all add: sampleLRU limitOf_def loadOf_def memSize_def EntryOverhead_def strategy_defs newEntry_def needFor_def)
  then show ?thesis
    unfolding Set_stages [OF sampleLRU(1)] Let_def pu
    by (simp add: sampleLRU noOptions_def memSize_def EntryOverhead_def)
qed

theorem Set_then_Get_witness:
  "fst (Get ''a'' 30 (snd (Set ''a'' ''7'' noOptions 20 sampleClock (sampleDB PolicyAllKeysLRU)))) = Some ''7''"
  by (rule Set_then_Get [OF sampleLRU(1) sample_overwrite])
    (simp add: finalExpiry_def sampleLRU keepsTTL_def noOptions_def setExpiry_def)

text \<open>C11: a \<^verbatim>\<open>Set\<close>, whatever its outcome, leaves every other key as it was or evicts it, and it
  evicts only keys the policy admits: with a volatile policy a key without a deadline is never
  lost, with \<^verbatim>\<open>noeviction\<close> no key is.\<close>

theorem Set_evicts_only_eligible:
  assumes ok: "db_ok d" and k: "k \<noteq> key"
  shows "lookup (snd (Set key val opt now clock d)) k = lookup d k \<or>
    lookup (snd (Set key val opt now clock d)) k = None \<and> Policy (cfg d) \<noteq> PolicyNoEviction \<and>
    (\<exists>e. lookup d k = Some e \<and> (volatileOnly (Policy (cfg d)) \<longrightarrow> \<not> IsZero (expiresAt e)))"
proof (rule disj_imp [THEN iffD2], rule impI)
  assume gone: "lookup (snd (Set key val opt now clock d)) k \<noteq> lookup d k"
  let ?si = "shardIndex key d" and ?n = "memSize key val" and ?d1 = "purge key now d"
  obtain r d' where s: "Set key val opt now clock d = (r, d')" by fastforce
  note sp = Set_spec [OF ok s] and pu = purge_spec [OF ok]
  have "Policy (cfg d) \<noteq> PolicyNoEviction"
  proof
    assume ne: "Policy (cfg d) = PolicyNoEviction"
    then have e: "snd (ensureSpace ?si key (needFor (lookup ?d1 key) ?n) ?n clock ?d1) = ?d1"
      using pu(3) [of key now] by (simp add: ensureSpace_def Let_def)
    then obtain x where es: "ensureSpace ?si key (needFor (lookup ?d1 key) ?n) ?n clock ?d1 = (x, ?d1)"
      by (metis prod.collapse)
    have l1: "lookup ?d1 k = lookup d k" using pu(6) k by simp
    have room: "loadOf ?si ?d1 + needFor (lookup ?d1 key) ?n \<le> limitOf ?si ?d1" if "x = None"
      using ensureSpace_spec [OF pu(1) _ needFor_le es] shardIndex_less [of d] ok pu(4) that by (simp add: db_ok_def)
    have st: "lookup (storeEntry ?si (newEntry key val t) ?d1) k = lookup d k" if "x = None" for t
    proof -
      have si: "?si = shardIndex key ?d1" using pu(4) by (simp add: shardIndex_def)
      show ?thesis
        using storeEntry_spec(2) [OF pu(1) si, of "newEntry key val t"] room [OF that] l1 k by (simp add: newEntry_def)
    qed
    have "lookup d' k = lookup d k"
      using s l1 st unfolding Set_stages [OF ok] Let_def es by (cases x) (auto split: if_splits)
    with gone s show False by simp
  qed
  then show "lookup (snd (Set key val opt now clock d)) k = None \<and> Policy (cfg d) \<noteq> PolicyNoEviction \<and>
    (\<exists>e. lookup d k = Some e \<and> (volatileOnly (Policy (cfg d)) \<longrightarrow> \<not> IsZero (expiresAt e)))"
    using sp(3) k gone s by (auto simp: evicted_def eligible_def split: if_splits)
qed

lemma policy_facts:
  "\<not> volatileOnly PolicyAllKeysLRU" "PolicyAllKeysLRU \<noteq> PolicyNoEviction" "volatileOnly PolicyVolatileTTL"
  "\<not> volatileOnly PolicyAllKeysLFU" "PolicyAllKeysLFU \<noteq> PolicyNoEviction"
  by (simp_all add: volatileOnly_def policy_names)

text \<open>With \<^verbatim>\<open>volatile-ttl\<close> the key without a deadline stays.\<close>

lemmas sampleTTL = sample_facts [OF sample_allLRU(3)] sample_visible [OF sample_allLRU(3)]

theorem Set_evicts_only_eligible_witness:
  "lookup (snd (Set ''c'' ''3'' noOptions 20 sampleClock (sampleDB PolicyVolatileTTL))) ''a'' = Some (newEntry ''a'' ''1'' 0)"
  using Set_evicts_only_eligible [OF sampleTTL(1), of "''a''" "''c''" "''3''" noOptions 20 sampleClock]
  by (simp add: sampleTTL policy_facts newEntry_def)


section \<open>Running out of memory\<close>

text \<open>
  When everything but the written key has been evicted, what remains is that key alone.
\<close>

lemma load_single:
  assumes ok: "db_ok d" and si: "si = shardIndex key d" and c: "\<And>k. k \<in> candOf si d \<Longrightarrow> k = key"
  shows "loadOf si d = sizeOf d key"
proof -
  let ?n = "length (shards d)"
  have lt: "si < ?n" using ok si shardIndex_less by (simp add: db_ok_def)
  have one: "sum (sizeOf d) A = sizeOf d key" if "A \<subseteq> {key}" "key \<in> keysOf d \<Longrightarrow> key \<in> A" "finite A" for A
  proof (cases "key \<in> A")
    case True
    with that(1) have "A = {key}" by blast
    then show ?thesis by simp
  next
    case False
    with that(1,2) have "A = {}" "key \<notin> keysOf d" by blast+
    moreover from this(2) have "sizeOf d key = 0" by (auto simp: sizeOf_def keysOf_def split: option.splits)
    ultimately show ?thesis by simp
  qed
  show ?thesis
  proof (cases "Strategy (cfg d) = StrategyShardBudget")
    case True
    have "{k \<in> keysOf d. keyShard ?n k = si} \<subseteq> {key}"
      using c True skeys_lookup [OF ok lt] by (auto simp: candOf_def)
    from one [OF this] show ?thesis
      using True si finite_keysOf [OF ok] sused_sum [OF ok lt] by (simp add: loadOf_def shardIndex_def)
  next
    case False
    then have "keysOf d \<subseteq> {key}" using c by (auto simp: candOf_def)
    from one [OF this] show ?thesis
      using False finite_keysOf [OF ok] keysOf_partition [OF ok] by (simp add: loadOf_def)
  qed
qed

lemma Set_succeeds:
  assumes ok: "db_ok d" and b: "bounded d" and pol: "\<not> volatileOnly (Policy (cfg d))" "Policy (cfg d) \<noteq> PolicyNoEviction"
    and fits: "memSize key val \<le> limitOf (shardIndex key d) d"
  shows "fst (Set key val opt now clock d) =
    Inr (\<not> (optNX opt \<and> visible now d key \<noteq> None) \<and> \<not> (optXX opt \<and> visible now d key = None))"
proof -
  let ?si = "shardIndex key d" and ?n = "memSize key val" and ?d1 = "purge key now d"
  note pu = purge_spec [OF ok]
  have k1: "kept d ?d1" by (rule kept_purge [OF ok])
  have lt: "?si < length (shards ?d1)" using shardIndex_less ok pu(4) by (simp add: db_ok_def)
  obtain x d2 where es: "ensureSpace ?si key (needFor (lookup ?d1 key) ?n) ?n clock ?d1 = (x, d2)" by fastforce
  note sp = ensureSpace_spec [OF pu(1) lt needFor_le es]
  have lim1: "limitOf ?si ?d1 = limitOf ?si d" using k1 lt pu(4) by (simp add: kept_def limitOf_same)
  have f: "freed key ?d1 d2" using sp by simp
  then have ok2: "db_ok d2" and l2: "lookup d2 key = lookup ?d1 key" by (simp_all add: freed_def)
  have lim2: "limitOf ?si d2 = limitOf ?si d" using limitOf_freed [OF f lt] lim1 by simp
  have si2: "?si = shardIndex key d2" using freed_length [OF f] pu(4) by (simp add: shardIndex_def)
  have none: "x = None"
  proof (rule ccontr)
    assume "x \<noteq> None"
    then obtain e where e: "x = Some e" by blast
    have over: "limitOf ?si d2 < loadOf ?si d2 + needFor (lookup ?d1 key) ?n"
      and all: "\<forall>k \<in> candOf ?si d2. k \<noteq> key \<longrightarrow> \<not> eligible (Policy (cfg ?d1)) (dbExp d2 k)"
      using sp e pol(2) fits lim1 pu(3) [of key now] by auto
    have "loadOf ?si d2 = sizeOf d2 key"
      by (rule load_single [OF ok2 si2]) (use all pol(1) pu(3) [of key now] in \<open>auto simp: eligible_def\<close>)
    also have "\<dots> = sizeOf ?d1 key" by (simp add: sizeOf_def l2)
    finally have L: "loadOf ?si d2 = sizeOf ?d1 key" .
    have "bounded ?d1" using k1 b by (simp add: kept_def)
    then have "loadOf ?si ?d1 \<le> limitOf ?si ?d1" using lt by (simp add: bounded_def)
    moreover have "sizeOf ?d1 key \<le> loadOf ?si ?d1"
    proof (cases "lookup ?d1 key")
      case (Some e1)
      have "shardIndex key ?d1 = ?si" using pu(4) by (simp add: shardIndex_def)
      then show ?thesis
        using entry_le_used [OF pu(1) Some] load_le_shard [OF pu(1) lt] Some by (simp add: sizeOf_def theShard_def)
    qed (simp add: sizeOf_def)
    ultimately have "sizeOf ?d1 key + needFor (lookup ?d1 key) ?n \<le> limitOf ?si d"
      using fits lim1 by (auto simp: sizeOf_def needFor_def split: option.splits)
    with over L lim2 show False by simp
  qed
  have "\<not> (Strategy (cfg d) = StrategyGlobalTrack \<and> MaxMemory (cfg d) < ?n)"
    using fits by (auto simp: limitOf_def strategy_defs)
  then show ?thesis unfolding Set_stages [OF ok] Let_def es none by auto
qed


text \<open>A third key goes into the full sample store.\<close>

lemma sample_bounded: "pol \<in> set allPolicies \<Longrightarrow> bounded (sampleDB pol)"
  by (simp add: bounded_def loadOf_def limitOf_def sample_facts strategy_defs)

lemma sample_limit: "pol \<in> set allPolicies \<Longrightarrow> limitOf si (sampleDB pol) = 60"
  by (simp add: limitOf_def sample_facts strategy_defs)


section \<open>Outcomes of the operations\<close>



text \<open>\<^verbatim>\<open>Get\<close> returns the visible value of the key and changes nothing that any later read at
  that instant could observe, apart from recency, frequency and the counters.\<close>

theorem Get_reads_visible:
  assumes "db_ok d"
  shows "fst (Get key now d) = map_option fst (visible now d key) \<and>
    visible now (snd (Get key now d)) = visible now d \<and> db_ok (snd (Get key now d))"
  using Get_spec [OF assms prod.collapse [symmetric]] by blast

theorem Get_reads_visible_witness:
  "fst (Get ''b'' 99 (sampleDB PolicyAllKeysLRU)) = Some ''x'' \<and> fst (Get ''b'' 100 (sampleDB PolicyAllKeysLRU)) = None"
  using Get_reads_visible [OF sampleLRU(1), of "''b''" 99] Get_reads_visible [OF sampleLRU(1), of "''b''" 100]
  by (simp add: sampleLRU)

text \<open>C13: \<^verbatim>\<open>Del\<close> removes exactly the named keys and answers how many distinct ones of them were
  visible: a name given twice counts once, an expired key does not count.\<close>

theorem Del_counts_visible:
  assumes "db_ok d"
  shows "fst (Del keys now d) = int (card {k \<in> set keys. visible now d k \<noteq> None}) \<and>
    lookup (snd (Del keys now d)) k = (if k \<in> set keys then None else lookup d k) \<and> db_ok (snd (Del keys now d))"
  using Del_spec [OF assms prod.collapse [symmetric], of keys now] by simp

theorem Del_counts_visible_witness:
  "fst (Del [''a'', ''a'', ''b''] 100 (sampleDB PolicyAllKeysLRU)) = 1"
proof -
  have "{k \<in> set [''a'', ''a'', ''b'']. visible 100 (sampleDB PolicyAllKeysLRU) k \<noteq> None} = {''a''}"
    by (auto simp: sampleLRU)
  then show ?thesis using Del_counts_visible [OF sampleLRU(1), of "[''a'', ''a'', ''b'']" 100] by simp
qed

text \<open>\<^verbatim>\<open>Exists\<close> counts the visible keys among its arguments, a repeated argument as often as it
  is given, and \<^verbatim>\<open>Type\<close> answers \<^verbatim>\<open>string\<close> exactly for a visible key; neither changes what is visible.\<close>

theorem Exists_counts_arguments:
  assumes "db_ok d"
  shows "fst (Exists keys now d) = int (length (filter (\<lambda>k. visible now d k \<noteq> None) keys)) \<and>
    visible now (snd (Exists keys now d)) = visible now d \<and>
    fst (Type key now d) = (if visible now d key \<noteq> None then ''string'' else ''none'') \<and>
    visible now (snd (Type key now d)) = visible now d"
proof -
  note e = Exists_spec [OF assms prod.collapse [symmetric]]
  show ?thesis using e [of keys now] e [of "[key]" now] by (auto simp: Type_def split_beta Let_def)
qed

theorem Exists_counts_arguments_witness:
  "fst (Exists [''a'', ''x'', ''a''] 50 (sampleDB PolicyAllKeysLRU)) = 2"
  using Exists_counts_arguments [OF sampleLRU(1), of "[''a'', ''x'', ''a'']" 50] by (simp add: sampleLRU)

section \<open>Expiry\<close>

text \<open>C22: \<^verbatim>\<open>Expire\<close> with a positive duration on a visible key sets the deadline (capped by the
  tenant's maximum), which \<^verbatim>\<open>PTTL\<close> then reports in whole milliseconds, and from the deadline on \<^verbatim>\<open>Get\<close>
  finds nothing.\<close>

theorem Expire_then_PTTL:
  fixes dur now d
  defines "t \<equiv> now + (if 0 < MaxTTL (cfg d) \<and> MaxTTL (cfg d) < dur then MaxTTL (cfg d) else dur)"
  assumes ok: "db_ok d" and v: "visible now d key \<noteq> None" and dur: "0 < dur" "0 < now" and l: "now \<le> later"
  shows "fst (Expire key dur now now d) = 1 \<and>
    fst (PTTL key later (snd (Expire key dur now now d))) = (if later < t then min maxDuration (t - later) div millisecond else -2) \<and>
    (fst (Get key later (snd (Expire key dur now now d))) = None \<longleftrightarrow> t \<le> later)"
proof -
  let ?d = "snd (Expire key dur now now d)"
  obtain x y where v: "visible now d key = Some (x, y)" using v by auto
  have t0: "\<not> IsZero t" using dur by (auto simp: t_def)
  have e: "Expire key dur now now d = setExpireAt key t now d" using dur by (simp add: Expire_def t_def Let_def)
  note s = setExpireAt_spec [OF ok prod.collapse [symmetric], where key = key and at = t and now = now]
  have vis: "visible later ?d key = (if t \<le> later then None else Some (x, t))"
    using s(5) [OF v] t0 by (auto simp: e visible_def newEntry_def expired_def)
  have okd: "db_ok ?d" using s(1) by (simp add: e)
  show ?thesis
    using s(2) v vis t0 PTTL_spec [OF okd prod.collapse [symmetric], where key = key and now = later]
      Get_spec [OF okd prod.collapse [symmetric], where key = key and now = later] by (auto simp: e)
qed

theorem Expire_then_PTTL_witness:
  "fst (PTTL ''a'' 10 (snd (Expire ''a'' 5000000 10 10 (sampleDB PolicyAllKeysLRU)))) = 5"
  using Expire_then_PTTL [OF sampleLRU(1), of 10 "''a''" 5000000 10]
  by (simp add: sampleLRU maxDuration_def millisecond_def)

text \<open>\<^verbatim>\<open>Persist\<close> on a key with a deadline removes it and answers 1, so that the key never
  expires; otherwise it answers 0 and changes nothing visible.\<close>

theorem Persist_removes_deadline:
  assumes ok: "db_ok d"
  shows "case visible now d key of
      Some (v, t) \<Rightarrow>
        if IsZero t then fst (Persist key now d) = 0 \<and> visible now (snd (Persist key now d)) = visible now d
        else fst (Persist key now d) = 1 \<and> visible later (snd (Persist key now d)) key = Some (v, 0)
    | None \<Rightarrow> fst (Persist key now d) = 0 \<and> visible now (snd (Persist key now d)) = visible now d"
proof -
  have "visible later d' key = Some (v, 0)" if "lookup d' = (lookup d)(key \<mapsto> newEntry key v 0)" for d' v
    using that by (simp add: visible_def newEntry_def expired_def)
  then show ?thesis
    using Persist_spec [OF ok prod.collapse [symmetric], of key now] by (auto split: option.splits prod.splits if_splits)
qed

theorem Persist_removes_deadline_witness:
  "fst (Persist ''b'' 10 (sampleDB PolicyAllKeysLRU)) = 1 \<and>
   visible 1000 (snd (Persist ''b'' 10 (sampleDB PolicyAllKeysLRU))) ''b'' = Some (''x'', 0)"
  using Persist_removes_deadline [OF sampleLRU(1), of "''b''" 10 1000] by (simp add: sampleLRU)

text \<open>C23: a sweep removes only expired keys, reports their number, never more than the limit,
  and when it stops short of the limit no expired key is left: no deadline is missing in the heap.\<close>

theorem expireDue_complete:
  assumes "db_ok d"
  shows "visible now (snd (expireDue now limit d)) = visible now d \<and>
    lookup (snd (expireDue now limit d)) \<subseteq>\<^sub>m lookup d \<and> fst (expireDue now limit d) \<le> limit \<and>
    card (keysOf d) = card (keysOf (snd (expireDue now limit d))) + fst (expireDue now limit d) \<and>
    (limit \<le> fst (expireDue now limit d) \<or>
     keysOf (snd (expireDue now limit d)) = {k. visible now (snd (expireDue now limit d)) k \<noteq> None})"
proof -
  note s = expireDue_spec [OF assms prod.collapse [symmetric], of now limit]
  have "keysOf d' = {k. visible now d' k \<noteq> None}" if "\<forall>k e. lookup d' k = Some e \<longrightarrow> \<not> expired now e" for d'
    using that by (auto simp: keysOf_def visible_def split: option.splits)
  with s show ?thesis by (meson not_less)
qed

theorem expireDue_complete_witness:
  "keysOf (snd (expireDue 200 5 (sampleDB PolicyAllKeysLRU))) = {''a''}"
proof -
  let ?d = "sampleDB PolicyAllKeysLRU"
  let ?r = "expireDue 200 5 ?d"
  note p = expireDue_complete [OF sampleLRU(1), of 200 5]
  have "card (keysOf ?d) = 2" by (simp add: keysOf_def sampleLRU)
  with p have "\<not> 5 \<le> fst ?r" by linarith
  with p have "keysOf (snd ?r) = {k. visible 200 ?d k \<noteq> None}" by simp
  then show ?thesis by (auto simp: sampleLRU)
qed

section \<open>Counters\<close>

lemma incrExpiry: "setExpiry (incrOptions v) now 0 = (case v of Some (_, t) \<Rightarrow> t | None \<Rightarrow> 0)"
  by (auto simp: incrOptions_def setExpiry_def noOptions_def Let_def split: option.splits)


text \<open>\<^verbatim>\<open>IncrBy\<close> on a visible value that is no decimal 64-bit integer answers \<^verbatim>\<open>ErrNotInteger\<close>, changes
  nothing visible and reports no mutation; its only other error is \<^verbatim>\<open>ErrOOM\<close>.\<close>

theorem IncrBy_errors:
  assumes ok: "db_ok d" and r: "fst (IncrBy key delta now now1 clock d) = Inl err"
  shows "sink (snd (IncrBy key delta now now1 clock d)) = sink d \<and>
    (if (\<exists>e. counterOf (visible now d key) = Inl e)
     then err = ErrNotInteger \<and> visible now (snd (IncrBy key delta now now1 clock d)) = visible now d
     else err = ErrOOM)"
proof -
  have "IncrBy key delta now now1 clock d = (Inl err, snd (IncrBy key delta now now1 clock d))" using r by (metis prod.collapse)
  note i = IncrBy_spec [OF ok this]
  show ?thesis using i by (cases "counterOf (visible now d key)") auto
qed

lemma sample_IncrBy:
  "fst (IncrBy ''a'' 41 20 20 sampleClock (sampleDB PolicyAllKeysLRU)) = Inr 42"
proof -
  let ?d = "sampleDB PolicyAllKeysLRU"
  have f: "FormatInt 42 = ''42''" by code_simp
  have p: "ParseInt ''1'' = Inr 1" by (simp add: parse_eval)
  have w: "wrap64 42 = 42" by (simp add: wrap64_def)
  have "fst (Set ''a'' ''42'' noOptions 20 sampleClock ?d) = Inr True"
    by (subst Set_succeeds [OF sampleLRU(1) sample_bounded [OF sample_allLRU(1)]])
      (simp_all add: sampleLRU sample_limit [OF sample_allLRU(1)] policy_facts memSize_def EntryOverhead_def noOptions_def)
  then obtain d' where "Set ''a'' ''42'' noOptions 20 sampleClock ?d = (Inr True, d')" by (metis prod.collapse)
  then show ?thesis by (simp add: IncrBy_def Let_def sampleLRU newEntry_def expired_def p f w)
qed


theorem IncrBy_errors_witness:
  "fst (IncrBy ''b'' 1 20 20 sampleClock (sampleDB PolicyAllKeysLRU)) = Inl ErrNotInteger \<and>
   visible 20 (snd (IncrBy ''b'' 1 20 20 sampleClock (sampleDB PolicyAllKeysLRU))) ''b'' = Some (''x'', 100)"
proof -
  let ?d = "sampleDB PolicyAllKeysLRU"
  have p: "ParseInt ''x'' = Inl ErrSyntax" by (simp add: parse_eval)
  have i: "fst (IncrBy ''b'' 1 20 20 sampleClock ?d) = Inl ErrNotInteger"
    by (simp add: IncrBy_def Let_def sampleLRU newEntry_def expired_def p)
  have "\<exists>e. counterOf (visible 20 ?d ''b'') = Inl e" by (simp add: counterOf_def sampleLRU p)
  then show ?thesis using IncrBy_errors [OF sampleLRU(1) i] i by (simp add: sampleLRU)
qed

section \<open>Victims\<close>

text \<open>The victim the tenant-wide strategy picks is a key of the store, not the one being
  written, and admitted by the policy; no victim is found only if there is no such key, whichever
  policy and whatever the random draws.\<close>

theorem victim_complete:
  assumes ok: "db_ok d" and st: "Strategy (cfg d) = StrategyGlobalTrack" and pol: "Policy (cfg d) \<noteq> PolicyNoEviction"
  shows "case fst (pickGlobalVictimKey skip now d) of
      Some k \<Rightarrow> k \<in> keysOf d \<and> k \<noteq> skip \<and> eligible (Policy (cfg d)) (dbExp d k)
    | None \<Rightarrow> (\<forall>k \<in> keysOf d. k \<noteq> skip \<longrightarrow> \<not> eligible (Policy (cfg d)) (dbExp d k))"
  using pickGlobalVictimKey_spec [OF ok st prod.collapse [symmetric], of skip now] pol by (simp add: pick_result_def)

theorem victim_complete_witness:
  "\<exists>k \<in> {''a'', ''b''}. fst (pickGlobalVictimKey ''c'' 20 (sampleDB PolicyAllKeysLRU)) = Some k"
  using victim_complete [OF sampleLRU(1), of "''c''" 20]
  by (cases "fst (pickGlobalVictimKey ''c'' 20 (sampleDB PolicyAllKeysLRU))")
    (auto simp: sampleLRU strategy_defs policy_facts eligible_def keysOf_def)

lemma Get_moves:
  assumes ok: "db_ok d" and st: "Strategy (cfg d) = StrategyGlobalTrack" and v: "visible now d key \<noteq> None"
  shows "dll_list (gLru (snd (Get key now d))) = remove1 key (dll_list (gLru d)) @ [key]"
    "cfg (snd (Get key now d)) = cfg d" "lookup (snd (Get key now d)) = lookup d"
proof -
  from v obtain e where e: "lookup d key = Some e" "\<not> expired now e" by (auto simp: visible_def split: option.splits if_splits)
  then have G: "snd (Get key now d) = (accessed key d)\<lparr>hits := add64 (hits (accessed key d)) 1\<rparr>" by (simp add: Get_eq)
  note a = accessed_spec [OF ok e(1)]
  show "cfg (snd (Get key now d)) = cfg d" "lookup (snd (Get key now d)) = lookup d" using a by (simp_all add: G)
  have g: "dll_inv (gLru d)" "key \<in> dll_set (gLru d)" using ok st e(1) by (auto simp: db_ok_def globals_ok_def keysOf_def)
  then have "gLru (accessed key d) = dllTouch key (gLru d)"
    using st by (simp add: accessed_def Let_def setShard_def globalAccess_def stillInGlobal_def dll_linked_iff)
  then show "dll_list (gLru (snd (Get key now d))) = remove1 key (dll_list (gLru d)) @ [key]"
    using dllTouch_list [OF g] by (simp add: G)
qed



text \<open>With an LFU policy no admissible key of the store has a lower frequency than the victim.\<close>

theorem lfu_victim_least_frequent:
  assumes ok: "db_ok d" and p: "pickGlobalLFU skip d = Some k"
    and k': "k' \<in> keysOf d" "k' \<noteq> skip" "eligible (Policy (cfg d)) (dbExp d k')"
  shows "freqAt d k \<le> freqAt d k'"
  using pickGlobalLFU_spec(2) [OF ok p k'] by (simp add: freqAt_def)

lemmas sampleLFU = sample_facts [OF sample_allLRU(4)] sample_visible [OF sample_allLRU(4)]

theorem lfu_victim_least_frequent_witness:
  "\<exists>k. pickGlobalLFU ''b'' (sampleDB PolicyAllKeysLFU) = Some k \<and>
     freqAt (sampleDB PolicyAllKeysLFU) k \<le> freqAt (sampleDB PolicyAllKeysLFU) ''a''"
proof -
  let ?d = "sampleDB PolicyAllKeysLFU"
  have a: "''a'' \<in> keysOf ?d" "''a'' \<noteq> ''b''" "eligible (Policy (cfg ?d)) (dbExp ?d ''a'')"
    by (simp_all add: keysOf_def sampleLFU eligible_def policy_facts)
  then obtain k where k: "pickGlobalLFU ''b'' ?d = Some k"
    using pickGlobalLFU_spec(1) [OF sampleLFU(1), of "''b''"]
    by (cases "pickGlobalLFU ''b'' ?d") (auto simp: pick_result_def)
  then show ?thesis using lfu_victim_least_frequent [OF sampleLFU(1) k a] by blast
qed

text \<open>With \<^verbatim>\<open>volatile-ttl\<close> the victim of a shard has the soonest deadline among the keys that
  may go, and choosing it does not lose a deadline.\<close>

theorem ttl_victim_soonest:
  assumes ok: "db_ok d" and i: "i < length (shards d)"
    and p: "pickLocalVictim PolicyVolatileTTL skip now (shards d ! i) g = (Some k, sh, g')"
    and k': "lookup d k' = Some e" "shardIndex k' d = i" "k' \<noteq> skip" "\<not> IsZero (expiresAt e)"
  shows "dbExp d k \<le> expiresAt e \<and> \<not> IsZero (dbExp d k) \<and> deadlines (sttl sh) = deadlines (sttl (shards d ! i))"
proof -
  have q: "shardTtlPick skip now (shards d ! i) = (Some k, sh)"
    using p by (auto simp: pickLocalVictim_def Let_def policy_names split: prod.splits)
  note parts = shard_parts [OF ok i]
  note t = shardTtlPick_spec [OF parts q]
  have m: "map_of (sdata (shards d ! i)) k' = Some e" using k'(1,2) by (simp add: lookup_def theShard_def)
  have x: "shardExp (shards d ! i) k' = expiresAt e" using m by (simp add: shardExp_def)
  have "k' \<in> skeys (shards d ! i)" unfolding skeys_iff using m by simp
  from t(5) [OF refl this k'(3)] have le: "shardExp (shards d ! i) k \<le> expiresAt e" using x k'(4) by simp
  have k: "k \<in> skeys (shards d ! i)" "\<not> IsZero (shardExp (shards d ! i) k)"
    using t(1) by (simp_all add: pick_result_def eligible_ttl)
  have "shardExp (shards d ! i) k = dbExp d k" using shardExp_dbExp [OF ok i k(1)] by simp
  then show ?thesis using le k t(4) by simp
qed

theorem ttl_victim_soonest_witness:
  "\<exists>k sh g. pickLocalVictim PolicyVolatileTTL ''c'' 20 (shards (sampleDB PolicyVolatileTTL) !
       shardIndex ''b'' (sampleDB PolicyVolatileTTL)) sampleRng = (Some k, sh, g) \<and>
     dbExp (sampleDB PolicyVolatileTTL) k \<le> 100"
proof -
  let ?d = "sampleDB PolicyVolatileTTL"
  let ?i = "shardIndex ''b'' ?d"
  have i: "?i < length (shards ?d)" using sampleTTL(1) shardIndex_less by (simp add: db_ok_def)
  obtain r sh g where p: "pickLocalVictim PolicyVolatileTTL ''c'' 20 (shards ?d ! ?i) sampleRng = (r, sh, g)"
    by (cases "pickLocalVictim PolicyVolatileTTL ''c'' 20 (shards ?d ! ?i) sampleRng")
  have b: "lookup ?d ''b'' = Some (newEntry ''b'' ''x'' 100)" by (simp add: sampleTTL)
  then have m: "map_of (sdata (shards ?d ! ?i)) ''b'' = Some (newEntry ''b'' ''x'' 100)"
    by (simp add: lookup_def theShard_def)
  then have "''b'' \<in> skeys (shards ?d ! ?i)" unfolding skeys_iff by simp
  moreover have "eligible PolicyVolatileTTL (shardExp (shards ?d ! ?i) ''b'')"
    using m by (simp add: eligible_ttl shardExp_def newEntry_def)
  moreover have "PolicyVolatileTTL \<noteq> PolicyNoEviction" by (simp add: policy_names)
  ultimately obtain k where "r = Some k"
    using pickLocalVictim_spec [OF shard_parts [OF sampleTTL(1) i] p] by (cases r) (auto simp: pick_result_def)
  then show ?thesis using ttl_victim_soonest [OF sampleTTL(1) i _ b] p by (auto simp: newEntry_def)
qed

section \<open>Switching strategy, flushing, snapshots\<close>

text \<open>Switching the memory strategy at run time keeps every key and the invariant; entering
  the tenant-wide strategy rebuilds its recency and insertion lists, shard after shard with each
  shard's order kept.\<close>

theorem SetShardingStrategy_rebuilds:
  assumes ok: "db_ok d"
  shows "db_ok (SetShardingStrategy s d) \<and> lookup (SetShardingStrategy s d) = lookup d \<and>
    (Strategy (cfg d) = StrategyGlobalTrack \<or> Strategy (cfg (SetShardingStrategy s d)) \<noteq> StrategyGlobalTrack \<or>
       dll_list (gLru (SetShardingStrategy s d)) = concat (map (\<lambda>sh. dll_list (slru sh)) (shards d)) \<and>
       dll_list (gFifo (SetShardingStrategy s d)) = concat (map (\<lambda>sh. dll_list (sfifo sh)) (shards d)))"
  using SetShardingStrategy_spec [OF ok, of s] by blast

theorem SetShardingStrategy_rebuilds_witness:
  "lookup (SetShardingStrategy 3 (sampleDB PolicyAllKeysLRU)) ''b'' = Some (newEntry ''b'' ''x'' 100)"
  using SetShardingStrategy_rebuilds [OF sampleLRU(1), of 3] by (simp add: sampleLRU)

text \<open>\<^verbatim>\<open>FlushDB\<close> removes every key, whatever the order in which the maps are visited, leaves
  the byte counter at zero, answers the number of keys and reports one \<^verbatim>\<open>FLUSHDB\<close> if there were any.\<close>

theorem FlushDB_empties:
  assumes "db_ok d" "is_perm perm"
  shows "keysOf (snd (FlushDB perm d)) = {} \<and> used (snd (FlushDB perm d)) = 0 \<and>
    fst (FlushDB perm d) = card (keysOf d) \<and>
    sink (snd (FlushDB perm d)) = (if keysOf d = {} then sink d else map_option (\<lambda>l. l @ [flushMutation]) (sink d))"
  using FlushDB_spec [OF assms prod.collapse [symmetric]] finite_keysOf [OF assms(1)]
  by (simp add: keysOf_def fun_eq_iff)

lemma is_perm_rev: "is_perm rev" "is_perm (\<lambda>ks. ks)"
  by (simp_all add: is_perm_def)

theorem FlushDB_empties_witness: "fst (FlushDB rev (sampleDB PolicyAllKeysLRU)) = 2"
  using FlushDB_empties [OF sampleLRU(1) is_perm_rev(1)] by (simp add: keysOf_def sampleLRU)



end
