(* ===== verification/CommandProps.thy ===== *)
theory CommandProps
  imports Commands StoreProps
begin

text \<open>
  What a command can do to the world. The relation \<open>effect\<close> lists the kinds of change; every handler,
  and so \<^verbatim>\<open>Dispatch\<close>, has one of them. Isolation of tenants, the policy and the invariant of the server
  are proved from it.
\<close>

named_theorems effects \<open>the effect of each handler\<close>

section \<open>Changing one tenant\<close>

lemma theTenant_other [simp]: "u \<noteq> t \<Longrightarrow> theTenant u (setTenant t f r) = theTenant u r"
  by (simp add: theTenant_def setTenant_def)

lemma setTenant_field: "g (f (theTenant t r)) = g (theTenant t r) \<Longrightarrow> g (theTenant u (setTenant t f r)) = g (theTenant u r)"
  by (cases "u = t"; cases "t < length (order r)") (auto simp: theTenant_def setTenant_def not_less list_update_beyond)

lemma setTenant_setTenant: "setTenant t g (setTenant t f r) = setTenant t (\<lambda>x. g (f x)) r"
  by (cases "t < length (order r)") (simp_all add: setTenant_def not_less list_update_beyond)

lemma setDB_frame [simp]:
  "byName (setDB t db r) = byName r" "length (order (setDB t db r)) = length (order r)"
  "tName (theTenant u (setDB t db r)) = tName (theTenant u r)"
  "tStatus (theTenant u (setDB t db r)) = tStatus (theTenant u r)"
  "tPubSub (theTenant u (setDB t db r)) = tPubSub (theTenant u r)"
  "tMaxClients (theTenant u (setDB t db r)) = tMaxClients (theTenant u r)"
  "connCount (theTenant u (setDB t db r)) = connCount (theTenant u r)"
  by (simp_all add: setDB_def setTenant_field)

text \<open>A change of the store of one tenant, with what the engine makes of it.\<close>

definition dbStep :: "tref \<Rightarrow> World \<Rightarrow> World \<Rightarrow> bool" where
  "dbStep t w w' \<longleftrightarrow> (\<exists>db. wTenants w' = setDB t db (wTenants w) \<and> (db_ok (dbOf t w) \<longrightarrow> kept (dbOf t w) db)) \<and>
     wOut w' = wOut w \<and> wClients w' = wClients w \<and> wMetrics w' = wMetrics w"

lemma onDB_step:
  assumes "\<And>d. db_ok d \<Longrightarrow> kept d (snd (f d))"
  shows "dbStep t w (snd (onDB ev t f w))"
proof -
  obtain x db where f: "f (dbOf t w) = (x, db)" by fastforce
  have ok: "db_ok (dbOf t w) \<Longrightarrow> kept (dbOf t w) db" using assms [of "dbOf t w"] f by simp
  let ?r = "setDB t db (wTenants w)"
  show ?thesis
  proof (cases "wEng w")
    case None
    with f ok show ?thesis by (auto simp: onDB_def dbStep_def)
  next
    case (Some e)
    obtain r2 e2 d2 where d: "drainSink (evIO ev) t ?r (e, wDisk w) = (r2, e2, d2)" by (metis prod.collapse)
    have "r2 = ?r \<or> r2 = setTenant t (\<lambda>x. x\<lparr>tDB := SetMutationSink (Some []) (tDB x)\<rparr>) ?r"
      using d by (auto simp: drainSink_def split: option.splits)
    moreover have "kept (dbOf t w) (SetMutationSink (Some []) db)" if "db_ok (dbOf t w)"
      using ok [OF that] kept_SetMutationSink [of db "Some []"] kept_trans by (auto simp: kept_def)
    ultimately have "\<exists>db'. r2 = setDB t db' (wTenants w) \<and> (db_ok (dbOf t w) \<longrightarrow> kept (dbOf t w) db')"
      using ok by (auto simp: setDB_def setTenant_setTenant)
    with Some f d show ?thesis by (auto simp: onDB_def dbStep_def)
  qed
qed

lemma dbStep_frame:
  assumes "dbStep t w w'"
  shows "u \<noteq> t \<Longrightarrow> dbOf u w' = dbOf u w" "hubOf u w' = hubOf u w" "wOut w' = wOut w" "wClients w' = wClients w"
    "connCount (theTenant u (wTenants w')) = connCount (theTenant u (wTenants w))"
  using assms by (auto simp: dbStep_def dbOf_def hubOf_def setDB_def setTenant_field)

section \<open>Effects\<close>

definition hubOp :: "client \<Rightarrow> (Hub \<Rightarrow> SubConfirm list \<times> Hub) \<Rightarrow> bool" where
  "hubOp c f \<longleftrightarrow> (\<exists>ns. f = Subscribe c ns \<or> f = PSubscribe c ns \<or> f = Unsubscribe c ns \<or> f = PUnsubscribe c ns)"

inductive effect :: "Context \<Rightarrow> World \<Rightarrow> Context \<Rightarrow> World \<Rightarrow> bool" where
  pure: "effect ctx w (ctx\<lparr>Quit := q, Multi := m\<rparr>) w"
| data: "ctxTenant ctx = Some t \<Longrightarrow> dbStep t w w' \<Longrightarrow> effect ctx w ctx w'"
| persisted: "effect ctx w ctx (w\<lparr>wEng := e, wDisk := d, wBgSaves := n\<rparr>)"
| published: "ctxTenant ctx = Some t \<Longrightarrow> effect ctx w ctx (w\<lparr>wOut := snd (Publish up ch msg (hubOf t w) (wOut w))\<rparr>)"
| subscribed: "ctxTenant ctx = Some t \<Longrightarrow> ensurePubSubClient ctx t w = (Inr (t1, c), ctx1, w1) \<Longrightarrow> hubOp c f \<Longrightarrow>
    effect ctx w (ctx1\<lparr>Multi := m\<rparr>) (snd (onHub t1 f w1))"
| unsubscribed: "ctxPubSub ctx = Some (t1, c) \<Longrightarrow> hubOp c f \<Longrightarrow> effect ctx w (ctx\<lparr>Multi := m\<rparr>) (snd (onHub t1 f w))"
| authenticated: "Authenticate u p (wTenants w) = Inr t \<Longrightarrow> \<not> (ctxTenant ctx = Some t \<and> BoundTenant ctx) \<Longrightarrow>
    AcquireConn (Some t) (wTenants w) = (True, r) \<Longrightarrow>
    effect ctx w (ctx\<lparr>ctxPubSub := None, ctxTenant := Some t, BoundTenant := True\<rparr>)
      (closePubSub ctx (w\<lparr>wTenants := (if ctxTenant ctx \<noteq> None \<and> BoundTenant ctx then ReleaseConn (ctxTenant ctx) r else r)\<rparr>))"

lemma effect_refl [intro]: "effect ctx w ctx w"
  using pure [where ctx = ctx and q = "Quit ctx" and m = "Multi ctx"] by simp

lemma AcquireConn_refused: "AcquireConn p r = (False, r1) \<Longrightarrow> r1 = r"
  by (auto simp: AcquireConn_def setTenant_def theTenant_def acquireSlot_def split: option.splits if_splits)

text \<open>Handlers of data commands.\<close>

definition dataEffect :: "Context \<Rightarrow> World \<Rightarrow> World \<Rightarrow> bool" where
  "dataEffect ctx w w' \<longleftrightarrow> w' = w \<or> (\<exists>t. ctxTenant ctx = Some t \<and> dbStep t w w')"

lemma dataEffect_refl [intro, simp]: "dataEffect ctx w w"
  by (simp add: dataEffect_def)

lemma requireDB_tenant: "requireDB ctx w = Inr t \<Longrightarrow> ctxTenant ctx = Some t \<and> tStatus (theTenant t (wTenants w)) = StatusActive"
  by (auto simp: requireDB_def split: option.splits if_splits)

lemma withDB_effect:
  "(\<And>t. ctxTenant ctx = Some t \<Longrightarrow> dataEffect ctx w (snd (f t))) \<Longrightarrow> dataEffect ctx w (snd (withDB ctx w f))"
  by (auto simp: withDB_def dest!: requireDB_tenant split: sum.splits)

lemma onDB_effect:
  "ctxTenant ctx = Some t \<Longrightarrow> (\<And>d. db_ok d \<Longrightarrow> kept d (snd (f d))) \<Longrightarrow> dataEffect ctx w (snd (onDB ev t f w))"
  unfolding dataEffect_def using onDB_step by blast

lemma kept_mgetLoop: "db_ok d \<Longrightarrow> kept d (snd (mgetLoop nows i ks d))"
proof (induction ks arbitrary: i d)
  case (Cons k ks)
  have k: "kept d (snd (Get k (nows i) d))" by (rule kept_Get [OF Cons.prems])
  then have "kept (snd (Get k (nows i) d)) (snd (mgetLoop nows (Suc i) ks (snd (Get k (nows i) d))))"
    by (intro Cons.IH) (simp add: kept_def)
  with k show ?case by (simp add: split_beta Let_def kept_trans)
qed (simp add: kept_refl)

lemma kept_msetLoop: "db_ok d \<Longrightarrow> kept d (snd (msetLoop ev i kvs d))"
proof (induction ev i kvs d rule: msetLoop.induct)
  case (1 ev i k v rest d)
  obtain x d1 where S: "Set k v noOptions (evNow ev i) (evClock ev i) d = (x, d1)" by fastforce
  have k: "kept d d1" using kept_Set [OF 1(2), of k v noOptions "evNow ev i" "evClock ev i"] S by simp
  show ?case
  proof (cases x)
    case (Inr b)
    have "kept d1 (snd (msetLoop ev (Suc i) rest d1))" using 1(1) S Inr k by (simp add: kept_def)
    with k S Inr show ?thesis by (simp add: kept_trans)
  qed (use k S in simp)
qed (simp_all add: kept_refl)

lemmas data_intros = withDB_effect onDB_effect kept_ops kept_mgetLoop kept_msetLoop

lemma data_handlers [effects]:
  shows "dataEffect ctx w (snd (cmdGet ev ctx args w))"
    "dataEffect ctx w (snd (cmdSet ev ctx args w))"
    "dataEffect ctx w (snd (cmdDel ev ctx args w))"
    "dataEffect ctx w (snd (cmdExists ev ctx args w))"
    "dataEffect ctx w (snd (cmdMGet ev ctx args w))"
    "dataEffect ctx w (snd (cmdMSet ev ctx args w))"
    "dataEffect ctx w (snd (cmdIncr ev ctx args w))"
    "dataEffect ctx w (snd (cmdDecr ev ctx args w))"
    "dataEffect ctx w (snd (cmdIncrBy ev ctx args w))"
    "dataEffect ctx w (snd (cmdDecrBy ev ctx args w))"
    "dataEffect ctx w (snd (cmdExpire ev ctx args w))"
    "dataEffect ctx w (snd (cmdPExpire ev ctx args w))"
    "dataEffect ctx w (snd (cmdTTL ev ctx args w))"
    "dataEffect ctx w (snd (cmdPTTL ev ctx args w))"
    "dataEffect ctx w (snd (cmdPersist ev ctx args w))"
    "dataEffect ctx w (snd (cmdType ev ctx args w))"
    "dataEffect ctx w (snd (cmdDBSize ev ctx args w))"
    "dataEffect ctx w (snd (cmdFlushDB ev ctx args w))"
  by (auto simp: cmdGet_def cmdSet_def cmdDel_def cmdExists_def cmdMGet_def cmdMSet_def cmdIncr_def cmdDecr_def cmdIncrBy_def cmdDecrBy_def cmdExpire_def cmdPExpire_def cmdTTL_def cmdPTTL_def cmdPersist_def cmdType_def cmdDBSize_def cmdFlushDB_def incrOn_def expireOn_def
      split_beta Let_def split: sum.splits intro!: data_intros)

lemma data_effect: "dataEffect ctx w w' \<Longrightarrow> effect ctx w ctx w'"
  by (auto simp: dataEffect_def intro: data)

lemma save_handlers [effects]:
  shows "\<exists>e d n. snd (cmdSave ev ctx args w) = w\<lparr>wEng := e, wDisk := d, wBgSaves := n\<rparr>"
    "\<exists>e d n. snd (cmdBGSave ctx args w) = w\<lparr>wEng := e, wDisk := d, wBgSaves := n\<rparr>"
    "snd (cmdLastSave ctx args w) = w"
proof -
  have same: "\<exists>e d n. w = w\<lparr>wEng := e, wDisk := d, wBgSaves := n\<rparr>"
    by (intro exI [of _ "wEng w"] exI [of _ "wDisk w"] exI [of _ "wBgSaves w"]) simp
  have saved: "\<exists>e d n. w\<lparr>wEng := a, wDisk := b\<rparr> = w\<lparr>wEng := e, wDisk := d, wBgSaves := n\<rparr>" for a b
    by (intro exI [of _ a] exI [of _ b] exI [of _ "wBgSaves w"]) simp
  have started: "\<exists>e d n. w\<lparr>wBgSaves := c\<rparr> = w\<lparr>wEng := e, wDisk := d, wBgSaves := n\<rparr>" for c
    by (intro exI [of _ "wEng w"] exI [of _ "wDisk w"] exI [of _ c]) simp
  show "\<exists>e d n. snd (cmdSave ev ctx args w) = w\<lparr>wEng := e, wDisk := d, wBgSaves := n\<rparr>"
    using same saved by (auto simp: cmdSave_def withDB_def Let_def split: sum.splits option.splits prod.splits)
  show "\<exists>e d n. snd (cmdBGSave ctx args w) = w\<lparr>wEng := e, wDisk := d, wBgSaves := n\<rparr>"
    using same started by (auto simp: cmdBGSave_def withDB_def split: sum.splits option.splits)
  show "snd (cmdLastSave ctx args w) = w" by (simp add: cmdLastSave_def withDB_def split: sum.splits)
qed

lemma requireTenant_tenant: "requireTenant ctx w = Inr t \<Longrightarrow> ctxTenant ctx = Some t"
  by (auto simp: requireTenant_def split: option.splits if_splits)

lemma publish_handler [effects]: "effect ctx w ctx (snd (cmdPublish ev ctx args w))"
  by (auto simp: cmdPublish_def split_beta Let_def dest!: requireTenant_tenant intro: published split: sum.splits)

lemma fold_AppendMulti: "fold (\<lambda>c. AppendMulti (ToValue c)) conf ctx = ctx\<lparr>Multi := Multi ctx @ map ToValue conf\<rparr>"
  by (induction conf arbitrary: ctx) (simp_all add: AppendMulti_def)

lemma emit_ctx: "\<exists>m. snd (emitConfirms ctx conf) = ctx\<lparr>Multi := m\<rparr>" "\<exists>m. snd (emptyConfirm kind n ctx) = ctx\<lparr>Multi := m\<rparr>"
proof -
  show "\<exists>m. snd (emitConfirms ctx conf) = ctx\<lparr>Multi := m\<rparr>"
    by (cases "conf = []") (auto simp: emitConfirms_def fold_AppendMulti intro: exI [of _ "Multi ctx"])
  show "\<exists>m. snd (emptyConfirm kind n ctx) = ctx\<lparr>Multi := m\<rparr>"
    by (auto simp: emptyConfirm_def Let_def AppendMulti_def)
qed

lemma multi_only: "effect ctx w (ctx\<lparr>Multi := m\<rparr>) w"
  using pure [where ctx = ctx and q = "Quit ctx" and m = m] by simp

lemma subscribe_handler:
  assumes "\<And>c ns. hubOp c (sub c ns)" and "subscribeWith sub cmd ctx args w = (v, ctx', w')"
  shows "effect ctx w ctx' w'"
proof (cases "length args < 2")
  case True
  with assms(2) show ?thesis by (auto simp: subscribeWith_def)
next
  case False
  show ?thesis
  proof (cases "requireTenant ctx w")
    case (Inr t)
    note t = requireTenant_tenant [OF Inr]
    obtain p ctx1 w1 where e: "ensurePubSubClient ctx t w = (p, ctx1, w1)" by (metis prod.collapse)
    show ?thesis
    proof (cases p)
      case (Inl err)
      then have "ctx1 = ctx \<and> w1 = w" using e by (auto simp: ensurePubSubClient_def split: option.splits prod.splits)
      then show ?thesis using assms(2) False Inr e Inl by (auto simp: subscribeWith_def)
    next
      case (Inr p')
      obtain t1 c where p': "p' = (t1, c)" by fastforce
      let ?o = "onHub t1 (sub c (tl args)) w1"
      have "ctx' = snd (emitConfirms ctx1 (fst ?o))" "w' = snd ?o"
        using assms(2) False \<open>requireTenant ctx w = Inr t\<close> e Inr p' by (auto simp: subscribeWith_def Let_def split_beta)
      moreover obtain m where "snd (emitConfirms ctx1 (fst ?o)) = ctx1\<lparr>Multi := m\<rparr>" using emit_ctx(1) by blast
      ultimately show ?thesis using subscribed [OF t] e Inr p' assms(1) by auto
    qed
  qed (use assms(2) False in \<open>auto simp: subscribeWith_def\<close>)
qed

lemma unsubscribe_handler:
  assumes "\<And>c ns. hubOp c (unsub c ns)" and "unsubscribeWith unsub kind ctx args w = (v, ctx', w')"
  shows "effect ctx w ctx' w'"
proof (cases "requireTenant ctx w")
  case (Inr t)
  show ?thesis
  proof (cases "ctxPubSub ctx")
    case None
    obtain m where "snd (emptyConfirm kind 0 ctx) = ctx\<lparr>Multi := m\<rparr>" using emit_ctx(2) by blast
    moreover have "ctx' = snd (emptyConfirm kind 0 ctx)" "w' = w"
      using assms(2) Inr None by (auto simp: unsubscribeWith_def split_beta)
    ultimately show ?thesis using multi_only by simp
  next
    case (Some p)
    obtain t1 c where p: "p = (t1, c)" by fastforce
    let ?o = "onHub t1 (unsub c (tl args)) w"
    have "\<exists>m. ctx' = ctx\<lparr>Multi := m\<rparr>" "w' = snd ?o"
      using assms(2) Inr Some p emit_ctx [where ctx = ctx] by (auto simp: unsubscribeWith_def Let_def split_beta split: if_splits)
    then show ?thesis using unsubscribed Some p assms(1) by auto
  qed
qed (use assms(2) in \<open>auto simp: unsubscribeWith_def\<close>)

lemma auth_handler:
  assumes "cmdAuth ctx args w = (v, ctx', w')"
  shows "effect ctx w ctx' w'"
proof (cases "length args = 3")
  case True
  show ?thesis
  proof (cases "Authenticate (args ! 1) (args ! 2) (wTenants w)")
    case (Inr t)
    show ?thesis
    proof (cases "ctxTenant ctx = Some t \<and> BoundTenant ctx")
      case False
      obtain ok r where a: "AcquireConn (Some t) (wTenants w) = (ok, r)" by fastforce
      show ?thesis
      proof (cases ok)
        case True
        with assms \<open>length args = 3\<close> Inr False a authenticated [OF Inr False] show ?thesis
          by (auto simp: cmdAuth_def Let_def)
      next
        case fail: False
        then have "r = wTenants w" using AcquireConn_refused a by auto
        with assms \<open>length args = 3\<close> Inr False a fail show ?thesis by (auto simp: cmdAuth_def)
      qed
    qed (use assms True Inr in \<open>auto simp: cmdAuth_def\<close>)
  qed (use assms True in \<open>auto simp: cmdAuth_def\<close>)
qed (use assms in \<open>auto simp: cmdAuth_def\<close>)

lemma hubOps: "hubOp c (Subscribe c ns)" "hubOp c (PSubscribe c ns)" "hubOp c (Unsubscribe c ns)" "hubOp c (PUnsubscribe c ns)"
  by (auto simp: hubOp_def)

lemma quit_handler: "effect ctx w (snd (quit ctx args)) w"
  using pure [where ctx = ctx and q = True and m = "Multi ctx"] by (simp add: quit_def effect_refl)

lemma runHandler_effect: "runHandler r ev h ctx args w = (v, ctx', w') \<Longrightarrow> effect ctx w ctx' w'"
proof -
  assume a: "runHandler r ev h ctx args w = (v, ctx', w')"
  have K: "effect ctx w ctx (snd p)" if "\<exists>e d n. snd p = w\<lparr>wEng := e, wDisk := d, wBgSaves := n\<rparr>" for p :: "Value \<times> World"
    using that persisted by auto
  show ?thesis
  proof (cases h)
    case HQuit
    then show ?thesis using a quit_handler by (auto simp: runHandler_def split_beta)
  next
    case HAuth
    then show ?thesis using a auth_handler by (auto simp: runHandler_def)
  next
    case HSubscribe
    then show ?thesis using a by (intro subscribe_handler [OF hubOps(1)]) (simp add: runHandler_def cmdSubscribe_def)
  next
    case HPSubscribe
    then show ?thesis using a by (intro subscribe_handler [OF hubOps(2)]) (simp add: runHandler_def cmdPSubscribe_def)
  next
    case HUnsubscribe
    then show ?thesis using a by (intro unsubscribe_handler [OF hubOps(3)]) (simp add: runHandler_def cmdUnsubscribe_def)
  next
    case HPUnsubscribe
    then show ?thesis using a by (intro unsubscribe_handler [OF hubOps(4)]) (simp add: runHandler_def cmdPUnsubscribe_def)
  next
    case HSave
    then show ?thesis using a K [OF save_handlers(1)] by (auto simp: runHandler_def keepCtx_def)
  next
    case HBGSave
    then show ?thesis using a K [OF save_handlers(2)] by (auto simp: runHandler_def keepCtx_def)
  next
    case HLastSave
    then show ?thesis using a save_handlers(3) by (auto simp: runHandler_def keepCtx_def)
  next
    case HPublish
    then show ?thesis using a publish_handler by (auto simp: runHandler_def keepCtx_def)
  qed (use a data_handlers [THEN data_effect] in \<open>auto simp: runHandler_def keepCtx_def\<close>)
qed

text \<open>The context with which the handler runs: the policy may bind the default tenant.\<close>

definition autoBind :: "Policy option \<Rightarrow> Context \<Rightarrow> Context" where
  "autoBind pol ctx =
     (case pol of
        None \<Rightarrow> ctx
      | Some p \<Rightarrow> if \<not> RequireAuth p \<and> ctxTenant ctx = None \<and> DefaultTenant p \<noteq> None then ctx\<lparr>ctxTenant := DefaultTenant p\<rparr> else ctx)"

lemma checkPolicy_ctx: "checkPolicy pol ctx name = (e, ctx1) \<Longrightarrow> ctx1 = ctx \<or> ctx1 = autoBind pol ctx"
  by (auto simp: checkPolicy_def autoBind_def split: option.splits if_splits)

lemma Dispatch_effect:
  assumes "Dispatch r ev ctx args w = (v, ctx', w')"
  shows "effect ctx w ctx' w' \<or> effect (autoBind (regPolicy r) ctx) w ctx' w'"
proof (cases "map_of (handlers r) (ToUpper (hd args))")
  case (Some h)
  obtain e ctx1 where c: "checkPolicy (regPolicy r) ctx (ToUpper (hd args)) = (e, ctx1)" by fastforce
  show ?thesis
  proof (cases e)
    case None
    then show ?thesis
      using assms Some c checkPolicy_ctx [OF c] runHandler_effect by (auto simp: Dispatch_def Let_def split: if_splits)
  next
    case e: (Some x)
    then show ?thesis
      using assms Some c checkPolicy_ctx [OF c] by (auto simp: Dispatch_def Let_def split: if_splits)
  qed
qed (use assms in \<open>auto simp: Dispatch_def Let_def split: if_splits\<close>)

section \<open>Isolation\<close>

lemma dbOf_onHub [simp]: "dbOf u (snd (onHub t f w)) = dbOf u w"
  by (simp add: dbOf_def onHub_def split_beta setTenant_field)

lemma hubOf_onHub: "u \<noteq> t \<Longrightarrow> hubOf u (snd (onHub t f w)) = hubOf u w"
  by (simp add: hubOf_def onHub_def split_beta)

lemma dbOf_closePubSub [simp]: "dbOf u (closePubSub ctx w) = dbOf u w"
  by (simp add: closePubSub_def split: option.splits)

lemma slots_db [simp]:
  "tDB (theTenant u (ReleaseConn p r)) = tDB (theTenant u r)" "tDB (theTenant u (snd (AcquireConn p r))) = tDB (theTenant u r)"
  "tPubSub (theTenant u (ReleaseConn p r)) = tPubSub (theTenant u r)" "tPubSub (theTenant u (snd (AcquireConn p r))) = tPubSub (theTenant u r)"
  by (auto simp: ReleaseConn_def AcquireConn_def setTenant_field split: option.splits)

lemma ensurePubSubClient_spec:
  assumes "ensurePubSubClient ctx t w = (Inr (t1, c), ctx1, w1)"
  shows "(ctxPubSub ctx = Some (t1, c) \<and> ctx1 = ctx \<and> w1 = w) \<or>
    (\<exists>k. ctxPubSub ctx = None \<and> ctxWriter ctx = Some k \<and> t1 = t \<and> ctx1 = ctx\<lparr>ctxPubSub := Some (t, c)\<rparr> \<and>
         c = fst (NewClient k (hubOf t w)) \<and> w1 = snd (onHub t (NewClient k) w))"
  using assms by (auto simp: ensurePubSubClient_def onHub_def split_beta split: option.splits)

lemma effect_db: "effect ctx w ctx' w' \<Longrightarrow> ctxTenant ctx' \<noteq> Some u \<Longrightarrow> dbOf u w' = dbOf u w"
proof (induction rule: effect.induct)
  case (data ctx t w w')
  then show ?case using dbStep_frame(1) by fastforce
next
  case (subscribed ctx t w t1 c ctx1 w1 f m)
  then show ?case using ensurePubSubClient_spec [OF subscribed(2)] by auto
next
  case (unsubscribed ctx t1 c f w m)
  show ?case by (rule dbOf_onHub)
next
  case (authenticated u' p w t ctx r)
  have "tDB (theTenant u r) = dbOf u w" using slots_db(2) [of u "Some t" "wTenants w"] authenticated(3) by (simp add: dbOf_def)
  then show ?case unfolding dbOf_closePubSub by (simp add: dbOf_def)
qed (simp_all add: dbOf_def hubOf_def)

text \<open>
  The interface between tenants: a request acts for the domain its connection is bound to, and what
  another domain sees does not change.
\<close>

locale isolation =
  fixes dom :: "'c \<Rightarrow> 'd option"
    and view :: "'d \<Rightarrow> 's \<Rightarrow> 'v"
    and step :: "'e \<Rightarrow> 'c \<Rightarrow> 'a \<Rightarrow> 's \<Rightarrow> 'r \<times> 'c \<times> 's"
  assumes respects: "dom (fst (snd (step e c a s))) \<noteq> Some u \<Longrightarrow> view u (snd (snd (step e c a s))) = view u s"
begin

inductive others :: "'d \<Rightarrow> 's \<Rightarrow> 's \<Rightarrow> bool" for u where
  others_refl: "others u s s"
| others_step: "others u s s' \<Longrightarrow> dom (fst (snd (step e c a s'))) \<noteq> Some u \<Longrightarrow> others u s (snd (snd (step e c a s')))"

lemma others_view: "others u s s' \<Longrightarrow> view u s' = view u s"
  by (induction rule: others.induct) (simp_all add: respects)

end

interpretation iso: isolation ctxTenant dbOf "\<lambda>(r, ev). Dispatch r ev"
proof
  fix e :: "cmdRegistry \<times> Env" and c a s u
  obtain r ev where e: "e = (r, ev)" by fastforce
  obtain v c' s' where D: "Dispatch r ev c a s = (v, c', s')" by (metis prod.collapse)
  assume "ctxTenant (fst (snd ((case e of (r, ev) \<Rightarrow> Dispatch r ev) c a s))) \<noteq> Some u"
  then show "dbOf u (snd (snd ((case e of (r, ev) \<Rightarrow> Dispatch r ev) c a s))) = dbOf u s"
    using Dispatch_effect [OF D] effect_db D e by auto
qed

section \<open>The command table\<close>

text \<open>All registrations of the server, in the order of \<^verbatim>\<open>main\<close>.\<close>

definition allCommands :: "Policy \<Rightarrow> RuntimeInfo \<Rightarrow> cmdRegistry" where
  "allCommands p rt =
     SetRuntime rt (RegisterTenantStats (RegisterPersist (RegisterPubSub (RegisterStringCommands
       (RegisterAuth (RegisterDefaults (SetPolicy p NewCmdRegistry)))))))"

definition upperName :: "string \<Rightarrow> bool" where
  "upperName s \<longleftrightarrow> list_all (\<lambda>c. let n = of_char c :: nat in 65 \<le> n \<and> n \<le> 90) s"

lemma ToUpper_upperName: "upperName s \<Longrightarrow> ToUpper s = s"
  by (induction s) (auto simp: upperName_def byteToUpper_def Let_def)

lemma Register_handlers:
  "upperName n \<Longrightarrow> map_of (handlers (Register n h r)) = (map_of (handlers r))(n \<mapsto> h)"
  by (simp add: Register_def Let_def update_conv' ToUpper_upperName)

lemma Register_policy [simp]: "regPolicy (Register n h r) = regPolicy r"
  by (simp add: Register_def Let_def)

lemma allCommands_policy [simp]: "regPolicy (allCommands p rt) = Some p"
  by (simp add: allCommands_def SetRuntime_def SetPolicy_def RegisterTenantStats_def RegisterPersist_def RegisterPubSub_def
      RegisterStringCommands_def RegisterAuth_def RegisterDefaults_def)

lemma allCommands_handlers:
  "map_of (handlers (allCommands p rt)) ''GET'' = Some HGet" "map_of (handlers (allCommands p rt)) ''SET'' = Some HSet"
  "map_of (handlers (allCommands p rt)) ''AUTH'' = Some HAuth" "map_of (handlers (allCommands p rt)) ''FLUSHDB'' = Some HFlushDB"
  by (simp_all add: allCommands_def SetRuntime_def SetPolicy_def RegisterTenantStats_def RegisterPersist_def RegisterPubSub_def
      RegisterStringCommands_def RegisterAuth_def RegisterDefaults_def NewCmdRegistry_def Register_handlers upperName_def)

lemma onDB_result:
  assumes "t < length (order (wTenants w))" "f (dbOf t w) = (x, db)"
  shows "fst (onDB ev t f w) = x"
    "dbOf t (snd (onDB ev t f w)) = db \<or> dbOf t (snd (onDB ev t f w)) = SetMutationSink (Some []) db"
proof -
  let ?r = "setDB t db (wTenants w)"
  have d: "tDB (theTenant t ?r) = db" using assms(1) by (simp add: setDB_def)
  show "fst (onDB ev t f w) = x" using assms(2) by (simp add: onDB_def Let_def split_beta split: option.splits)
  show "dbOf t (snd (onDB ev t f w)) = db \<or> dbOf t (snd (onDB ev t f w)) = SetMutationSink (Some []) db"
  proof (cases "wEng w")
    case None
    with assms(2) d show ?thesis by (simp add: onDB_def dbOf_def)
  next
    case (Some e)
    obtain r2 e2 d2 where dr: "drainSink (evIO ev) t ?r (e, wDisk w) = (r2, e2, d2)" by (metis prod.collapse)
    have "r2 = ?r \<or> r2 = setTenant t (\<lambda>x. x\<lparr>tDB := SetMutationSink (Some []) (tDB x)\<rparr>) ?r"
      using dr by (auto simp: drainSink_def split: option.splits)
    then have "tDB (theTenant t r2) = db \<or> tDB (theTenant t r2) = SetMutationSink (Some []) db"
      using d assms(1) by auto
    with Some assms(2) dr show ?thesis by (simp add: onDB_def dbOf_def)
  qed
qed

lemma sink_visible [simp]: "visible now (SetMutationSink s d) = visible now d"
  by (rule visible_cong) (simp add: SetMutationSink_def lookup_def theShard_def shardIndex_def fun_eq_iff)

lemma checkPolicy_error: "checkPolicy pol ctx name = (Some v, ctx1) \<Longrightarrow> \<exists>msg. v = RespError msg"
  by (auto simp: checkPolicy_def noAuth_def split: option.splits if_splits)

text \<open>A reply that is not an error comes from the handler.\<close>

lemma Dispatch_handled:
  assumes D: "Dispatch r ev ctx args w = (v, ctx', w')" and v: "\<And>msg. v \<noteq> RespError msg"
  obtains h c1 where "map_of (handlers r) (ToUpper (hd args)) = Some h"
    "checkPolicy (regPolicy r) ctx (ToUpper (hd args)) = (None, c1)" "runHandler r ev h c1 args w = (v, ctx', w')"
proof -
  let ?n = "ToUpper (hd args)"
  have a: "args \<noteq> []" "\<not> (ctxInSubscribeMode ctx w \<and> ?n \<notin> set subscribeModeAllow)"
    using D v by (auto simp: Dispatch_def Let_def split: if_splits)
  have "map_of (handlers r) ?n \<noteq> None"
  proof
    assume "map_of (handlers r) ?n = None"
    with D a have "\<exists>msg. v = RespError msg" by (auto simp: Dispatch_def Let_def)
    with v show False by blast
  qed
  then obtain h where h: "map_of (handlers r) ?n = Some h" by blast
  obtain e c1 where c: "checkPolicy (regPolicy r) ctx ?n = (e, c1)" by fastforce
  have R: "(case e of Some x \<Rightarrow> (x, c1, w) | None \<Rightarrow> runHandler r ev h c1 args w) = (v, ctx', w')"
    using D a h c by (simp add: Dispatch_def Let_def split: option.splits)
  have "e = None"
  proof (rule ccontr)
    assume "e \<noteq> None"
    then obtain x where "e = Some x" by auto
    with R checkPolicy_error c v show False by fastforce
  qed
  then show thesis using that h c R by simp
qed

section \<open>Properties of the commands\<close>

text \<open>C8: a command acts on the store of the tenant its connection is bound to when it is done, and
  on no other store, whatever the command, its arguments, the policy and the failures of files and
  connections.\<close>

theorem tenant_isolation:
  assumes "Dispatch r ev ctx args w = (reply, ctx', w')" "ctxTenant ctx' \<noteq> Some u"
  shows "dbOf u w' = dbOf u w"
  using iso.respects [of "(r, ev)" ctx args w u] assms by simp

text \<open>The commands the policy or the mode of the connection turns down.\<close>

definition blocked :: "Policy \<Rightarrow> Context \<Rightarrow> World \<Rightarrow> string \<Rightarrow> bool" where
  "blocked p ctx w name \<longleftrightarrow> name \<in> set (Deny p) \<or>
     RequireAuth p \<and> ctxTenant ctx = None \<and> name \<notin> set unauthenticatedAllow \<or>
     ctxInSubscribeMode ctx w \<and> name \<notin> set subscribeModeAllow"


text \<open>C10: once \<^verbatim>\<open>SET\<close> of a key has been acknowledged on a connection of a tenant, \<^verbatim>\<open>GET\<close> of the key on any
  connection of the same tenant returns the value.\<close>

theorem SET_then_GET:
  assumes ok: "reg_ok (wTenants w)" and set: "Dispatch (allCommands p rt) ev ctx [''SET'', key, val] w = (OK, ctx1, w1)"
    and t: "ctxTenant ctx1 = Some t" "t < length (order (wTenants w))"
    and c2: "ctxTenant ctx2 = Some t" "\<not> ctxInSubscribeMode ctx2 w1" "''GET'' \<notin> set (Deny p)"
  shows "fst (Dispatch (allCommands p rt) ev2 ctx2 [''GET'', key] w1) = BulkString val"
proof -
  have up: "ToUpper ''SET'' = ''SET''" "ToUpper ''GET'' = ''GET''" by (simp_all add: byteToUpper_def)
  have dist: "OK \<noteq> wrongArgs x" "OK \<noteq> RespError x" for x by (simp_all add: OK_def wrongArgs_def)
  obtain h c0 where h: "map_of (handlers (allCommands p rt)) (ToUpper ''SET'') = Some h"
    "runHandler (allCommands p rt) ev h c0 [''SET'', key, val] w = (OK, ctx1, w1)"
    using Dispatch_handled [OF set dist(2)] by (metis list.sel(1))
  then have "h = HSet" unfolding up by (simp add: allCommands_handlers)
  then have c1: "cmdSet ev ctx1 [''SET'', key, val] w = (OK, w1)" using h(2) by (auto simp: runHandler_def keepCtx_def prod_eq_iff)
  have rq: "requireDB ctx1 w = Inr t" and act: "tStatus (theTenant t (wTenants w)) = StatusActive"
    using c1 t(1) by (auto simp: cmdSet_def withDB_def requireDB_def OK_def split: if_splits)
  obtain x db where S: "Set key val noOptions (evNow ev 0) (evClock ev 0) (dbOf t w) = (x, db)" by fastforce
  note r = onDB_result [where f = "Set key val noOptions (evNow ev 0) (evClock ev 0)", OF t(2) S, of ev]
  have nx: "\<not> optNX noOptions" by (simp add: noOptions_def)
  have w1: "w1 = snd (onDB ev t (Set key val noOptions (evNow ev 0) (evClock ev 0)) w)" and x: "x = Inr True"
    using c1 rq r(1) nx by (auto simp: cmdSet_def withDB_def split_beta OK_def oomReply_def split: sum.splits if_splits)
  note sp = Set_spec [OF reg_okD(3) [OF ok t(2), folded dbOf_def] S]
  have fin: "finalExpiry key noOptions now d = 0" for now d
    by (auto simp: finalExpiry_def keepsTTL_def noOptions_def setExpiry_def split: option.splits)
  have step: "dbStep t w w1" unfolding w1 by (rule onDB_step) (rule kept_Set)
  have vis: "visible now (dbOf t w1) key = Some (val, 0)" for now
    using r(2) sp(4) [OF x] w1 by (auto simp: visible_def newEntry_def expired_def fin SetMutationSink_def lookup_def theShard_def shardIndex_def)
  have ok1: "db_ok (dbOf t w1)"
    using r(2) sp(1) w1 kept_SetMutationSink [of db "Some []"] by (auto simp: kept_def)
  have t1: "t < length (order (wTenants w1))" "tStatus (theTenant t (wTenants w1)) = StatusActive"
    using step t(2) act by (auto simp: dbStep_def)
  obtain g db2 where G: "Get key (evNow ev2 0) (dbOf t w1) = (g, db2)" by fastforce
  have g: "g = Some val" using Get_spec(2) [OF ok1 G] vis by simp
  have "fst (cmdGet ev2 ctx2 [''GET'', key] w1) = BulkString val"
    using onDB_result(1) [where f = "Get key (evNow ev2 0)", OF t1(1) G, of ev2] g c2(1) t1(2)
    by (simp add: cmdGet_def withDB_def requireDB_def split_beta)
  moreover have "checkPolicy (Some p) ctx2 ''GET'' = (None, ctx2)" using c2(1,3) by (simp add: checkPolicy_def)
  ultimately show ?thesis
    using c2(2) up by (simp add: Dispatch_def allCommands_handlers runHandler_def keepCtx_def)
qed

section \<open>A concrete server\<close>

definition sampleEnv :: "gotime \<Rightarrow> Env" where
  "sampleEnv now = \<lparr>evNow = (\<lambda>_. now), evClock = (\<lambda>_ _ _. now), evPerm = (\<lambda>ks. ks), evUp = (\<lambda>_. True), evIO = (\<lambda>_. ioFine now),
     evGoVersion = ''go1.22.5'', evUptime = 0, evSys = 0, evHeapAlloc = 0\<rparr>"

definition sampleWorld :: World where
  "sampleWorld = \<lparr>wTenants = sampleReg, wEng = None, wDisk = \<lparr>dAof = None, dSnap = None, dSnapTime = 0\<rparr>, wOut = (\<lambda>_. []),
     wBgSaves = 0, wMetrics = None, wClients = 0\<rparr>"

definition boundCtx :: "tref option \<Rightarrow> Context" where
  "boundCtx t = \<lparr>Quit = False, ctxTenant = t, BoundTenant = False, ConnID = 1, ctxWriter = Some 1, ctxPubSub = None, Multi = []\<rparr>"

definition sampleRuntime :: RuntimeInfo where
  "sampleRuntime = \<lparr>riPersistMode = ''off'', riPersistDir = [], riAOFFsync = [], riMaxClients = 2, riAddr = [], riStartTime = 0,
     riTLSEnabled = False, riProfile = [], riRequireAuth = True\<rparr>"

definition strictPolicy :: Policy where
  "strictPolicy = NewPolicy True None [''flushdb'']"

lemma upper_eval: "ToUpper ''SET'' = ''SET''" "ToUpper ''GET'' = ''GET''" "ToUpper ''FLUSHDB'' = ''FLUSHDB''" "ToUpper ''flushdb'' = ''FLUSHDB''"
  by code_simp+

lemma strict_deny: "set (Deny strictPolicy) = {''FLUSHDB''}"
proof -
  have t: "TrimSpace ''flushdb'' = ''flushdb''" by (rule TrimSpace_lowerName) (simp add: lowerName_def)
  show ?thesis by (simp add: strictPolicy_def NewPolicy_def t upper_eval neverDeny_def del: ToUpper.simps)
qed

lemma sampleStore:
  "cfg (New (storeConfig (sampleTenant n p)) g) = storeConfig (sampleTenant n p)"
  "Policy (storeConfig (sampleTenant n p)) = PolicyAllKeysLRU" "limitOf si (New (storeConfig (sampleTenant n p)) g) = 1000"
  "used (New (storeConfig (sampleTenant n p)) g) = 0"
proof -
  let ?c = "storeConfig (sampleTenant n p)"
  have ne: "PolicyAllKeysLRU \<noteq> []" by (simp add: policy_names)
  have c: "Policy ?c = PolicyAllKeysLRU" "MaxMemory ?c = 1000" "Strategy ?c = 1" "ShardCount ?c = 2" "ExpiryInterval ?c = second"
    by (simp_all add: storeConfig_def sampleTenant_def ne strategy_defs)
  then show "Policy ?c = PolicyAllKeysLRU" by simp
  show cfg: "cfg (New ?c g) = ?c"
    by (simp add: New_def normConfig_def Let_def c strategy_defs ne ParseEvictionPolicy_canonical sample_allLRU second_def)
  show "limitOf si (New ?c g) = 1000" by (simp add: limitOf_def cfg c strategy_defs)
  show "used (New ?c g) = 0" by (simp add: New_def Let_def)
qed

lemma sample_Set:
  "\<exists>db. Set ''k'' ''v'' noOptions 10 (\<lambda>_ _. 10) (dbOf 0 sampleWorld) = (Inr True, db)"
proof -
  let ?d = "dbOf 0 sampleWorld" and ?c = "storeConfig (sampleTenant ''a'' ''s'')"
  have d: "?d = New ?c plainRng" by (simp add: dbOf_def sampleWorld_def sampleReg_facts newTenant_def Let_def)
  have "fst (Set ''k'' ''v'' noOptions 10 (\<lambda>_ _. 10) ?d) =
    Inr (\<not> (optNX noOptions \<and> visible 10 ?d ''k'' \<noteq> None) \<and> \<not> (optXX noOptions \<and> visible 10 ?d ''k'' = None))"
  proof (rule Set_succeeds)
    show "db_ok ?d" "bounded ?d" by (simp_all add: d New_db_ok New_bounded sampleTenant_sane)
    show "\<not> volatileOnly (Policy (cfg ?d))" "Policy (cfg ?d) \<noteq> PolicyNoEviction" by (simp_all add: d sampleStore policy_facts)
    show "memSize ''k'' ''v'' \<le> limitOf (shardIndex ''k'' ?d) ?d" by (simp add: d sampleStore memSize_def EntryOverhead_def)
  qed
  then have "fst (Set ''k'' ''v'' noOptions 10 (\<lambda>_ _. 10) ?d) = Inr True" by (simp add: noOptions_def)
  then show ?thesis by (simp add: prod_eq_iff)
qed

lemma sample_SET:
  "\<exists>w1. Dispatch (allCommands strictPolicy rt) (sampleEnv 10) (boundCtx (Some 0)) [''SET'', ''k'', ''v''] sampleWorld =
     (OK, boundCtx (Some 0), w1) \<and> dbStep 0 sampleWorld w1"
proof -
  let ?f = "Set ''k'' ''v'' noOptions 10 (\<lambda>_ _. 10)" and ?ev = "sampleEnv 10"
  obtain db where S: "?f (dbOf 0 sampleWorld) = (Inr True, db)" using sample_Set by blast
  have ev: "evNow ?ev 0 = 10" "evClock ?ev 0 = (\<lambda>_ _. 10)" by (simp_all add: sampleEnv_def)
  have act: "tStatus (theTenant 0 (wTenants sampleWorld)) = StatusActive"
    by (simp add: sampleWorld_def sampleReg_facts newTenant_def sampleTenant_def Let_def)
  have len: "0 < length (order (wTenants sampleWorld))" by (simp add: sampleWorld_def sampleReg_facts)
  note r = onDB_result(1) [where f = ?f, OF len S, of ?ev]
  have "cmdSet ?ev (boundCtx (Some 0)) [''SET'', ''k'', ''v''] sampleWorld = (OK, snd (onDB ?ev 0 ?f sampleWorld))"
    using r act ev by (simp add: cmdSet_def withDB_def requireDB_def boundCtx_def split_beta noOptions_def)
  moreover have "dbStep 0 sampleWorld (snd (onDB ?ev 0 ?f sampleWorld))" by (rule onDB_step) (rule kept_Set)
  moreover have "checkPolicy (Some strictPolicy) (boundCtx (Some 0)) ''SET'' = (None, boundCtx (Some 0))"
    by (simp add: checkPolicy_def strict_deny boundCtx_def)
  ultimately show ?thesis
    by (simp add: Dispatch_def upper_eval allCommands_handlers runHandler_def keepCtx_def ctxInSubscribeMode_def
        boundCtx_def del: ToUpper.simps)
qed

theorem tenant_isolation_witness:
  "dbOf 1 (snd (snd (Dispatch (allCommands strictPolicy sampleRuntime) (sampleEnv 10) (boundCtx (Some 0)) [''SET'', ''k'', ''v''] sampleWorld))) =
    dbOf 1 sampleWorld"
proof -
  obtain w1 where "Dispatch (allCommands strictPolicy sampleRuntime) (sampleEnv 10) (boundCtx (Some 0)) [''SET'', ''k'', ''v''] sampleWorld =
     (OK, boundCtx (Some 0), w1)" using sample_SET by blast
  from tenant_isolation [OF this, of 1] this show ?thesis by (simp add: boundCtx_def)
qed


theorem SET_then_GET_witness:
  "\<exists>w1. Dispatch (allCommands strictPolicy sampleRuntime) (sampleEnv 10) (boundCtx (Some 0)) [''SET'', ''k'', ''v''] sampleWorld =
      (OK, boundCtx (Some 0), w1) \<and>
    fst (Dispatch (allCommands strictPolicy sampleRuntime) (sampleEnv 20) (boundCtx (Some 0)) [''GET'', ''k''] w1) = BulkString ''v''"
proof -
  obtain w1 where S: "Dispatch (allCommands strictPolicy sampleRuntime) (sampleEnv 10) (boundCtx (Some 0)) [''SET'', ''k'', ''v''] sampleWorld =
     (OK, boundCtx (Some 0), w1)" using sample_SET by blast
  have "fst (Dispatch (allCommands strictPolicy sampleRuntime) (sampleEnv 20) (boundCtx (Some 0)) [''GET'', ''k''] w1) = BulkString ''v''"
    by (rule SET_then_GET [OF _ S, where t = 0])
      (simp_all add: sampleWorld_def sampleReg_facts strict_deny boundCtx_def ctxInSubscribeMode_def)
  with S show ?thesis by blast
qed

end
