(* ===== verification/Server.thy ===== *)
theory Server
  imports Commands
begin

text \<open>
  \<^verbatim>\<open>internal/server/server.go\<close>: admission of connections, the request loop of a connection and its
  teardown. The bytes a peer will send are a string, and how the stream ends after them (closed by the
  peer, a deadline, an error of the network) a value of \<open>netEnd\<close>; the outcomes of writes are in the
  environment of each request. TLS and logging are not modelled; \<^verbatim>\<open>tryAddClient\<close> is one transition, which is what its compare-and-swap
  loop achieves.
\<close>

section \<open>State\<close>

record Options =
  oMaxClients :: int
  oIdleTimeout :: duration
  oReadTimeout :: duration
  oLogCommands :: bool

record Server =
  sAddr :: string
  sRegistry :: cmdRegistry
  sOpts :: Options
  sReadTimeout :: duration
  sLn :: "string option"
  sClosed :: bool
  sConns :: "conn list"
  connSeq :: nat
  sReady :: bool

definition NewServer :: "string \<Rightarrow> cmdRegistry \<Rightarrow> Server" where
  "NewServer addr reg =
     \<lparr>sAddr = addr, sRegistry = reg, sOpts = \<lparr>oMaxClients = 0, oIdleTimeout = 0, oReadTimeout = 0, oLogCommands = False\<rparr>,
      sReadTimeout = 0, sLn = None, sClosed = False, sConns = [], connSeq = 0, sReady = False\<rparr>"

definition NewWithOptions :: "string \<Rightarrow> cmdRegistry \<Rightarrow> Options \<Rightarrow> Server" where
  "NewWithOptions addr reg opts =
     (let s = (NewServer addr reg)\<lparr>sOpts := opts\<rparr>
      in if 0 < oReadTimeout opts then s\<lparr>sReadTimeout := oReadTimeout opts\<rparr> else s)"

definition Ready :: "Server \<Rightarrow> bool" where
  "Ready s = sReady s"

definition effectiveReadTimeout :: "Server \<Rightarrow> duration" where
  "effectiveReadTimeout s =
     (if 0 < oIdleTimeout (sOpts s) then oIdleTimeout (sOpts s)
      else if 0 < oReadTimeout (sOpts s) then oReadTimeout (sOpts s)
      else sReadTimeout s)"

section \<open>Admission\<close>

definition tryAddClient :: "int \<Rightarrow> World \<Rightarrow> bool \<times> World" where
  "tryAddClient limit w =
     (if limit \<le> 0 then (True, w\<lparr>wClients := wClients w + 1\<rparr>)
      else if limit \<le> wClients w then (False, w)
      else (True, w\<lparr>wClients := wClients w + 1\<rparr>))"

definition releaseClient :: "World \<Rightarrow> World" where
  "releaseClient w = w\<lparr>wClients := wClients w - 1\<rparr>"

definition ClientCount :: "World \<Rightarrow> int" where
  "ClientCount w = (if wClients w < 0 then 0 else wClients w)"

definition track :: "conn \<Rightarrow> Server \<Rightarrow> Server" where
  "track k s = s\<lparr>sConns := List.insert k (sConns s)\<rparr>"

definition untrack :: "conn \<Rightarrow> Server \<Rightarrow> Server" where
  "untrack k s = s\<lparr>sConns := removeAll k (sConns s)\<rparr>"

definition withMetrics :: "(Collector \<Rightarrow> Collector) \<Rightarrow> World \<Rightarrow> World" where
  "withMetrics f w = w\<lparr>wMetrics := map_option f (wMetrics w)\<rparr>"

text \<open>\<^verbatim>\<open>WriteValue\<close> on a connection: the value is on the wire, or the write fails.\<close>

definition WriteValue :: "(conn \<Rightarrow> bool) \<Rightarrow> conn \<Rightarrow> Value \<Rightarrow> World \<Rightarrow> bool \<times> World" where
  "WriteValue up k v w = (if up k then (True, w\<lparr>wOut := (wOut w)(k := wOut w k @ [v])\<rparr>) else (False, w))"

definition newContext :: "conn \<Rightarrow> nat \<Rightarrow> Context" where
  "newContext k i = \<lparr>Quit = False, ctxTenant = None, BoundTenant = False, ConnID = i, ctxWriter = Some k, ctxPubSub = None, Multi = []\<rparr>"

text \<open>One turn of the accept loop of \<^verbatim>\<open>Serve\<close>, with the start of \<^verbatim>\<open>handleConn\<close>; \<open>None\<close> for a refused connection.\<close>

definition acceptConn :: "(conn \<Rightarrow> bool) \<Rightarrow> conn \<Rightarrow> Server \<Rightarrow> World \<Rightarrow> Context option \<times> Server \<times> World" where
  "acceptConn up k s w =
     (case tryAddClient (oMaxClients (sOpts s)) w of
        (False, w1) \<Rightarrow> (None, s, snd (WriteValue up k (RespError ''ERR max number of clients reached'') w1))
      | (True, w1) \<Rightarrow>
          let s1 = track k s; i = Suc (connSeq s1)
          in (Some (newContext k i), s1\<lparr>connSeq := i\<rparr>, withMetrics ConnAccepted w1))"

text \<open>The deferred calls, in the order in which they run when \<^verbatim>\<open>handleConn\<close> returns.\<close>

definition teardown :: "conn \<Rightarrow> Context \<Rightarrow> Server \<Rightarrow> World \<Rightarrow> Server \<times> World" where
  "teardown k ctx s w =
     (let w1 = closePubSub ctx w;
          (_, w2) = ReleaseTenantConn ctx w1;
          w3 = releaseClient (withMetrics ConnClosed w2)
      in (untrack k s, w3))"

section \<open>Requests\<close>

text \<open>The text of an error of the reader; \<open>pr\<close> tells printable runes.\<close>

definition numErrorText :: "string \<Rightarrow> (nat \<Rightarrow> bool) \<Rightarrow> string \<Rightarrow> numError \<Rightarrow> string" where
  "numErrorText f pr line e =
     ''strconv.'' @ f @ '': parsing '' @ Quote pr line @ '': '' @
     (case e of ErrSyntax \<Rightarrow> ''invalid syntax'' | ErrRange \<Rightarrow> ''value out of range'')"

definition readMessage :: "(nat \<Rightarrow> bool) \<Rightarrow> readErr \<Rightarrow> string" where
  "readMessage pr e = (case e of
     EOF \<Rightarrow> ''EOF''
   | UnexpectedEOF \<Rightarrow> ''unexpected EOF''
   | BadInteger line x \<Rightarrow> ''protocol: invalid integer '' @ Quote pr line @ '': '' @ numErrorText ''ParseInt'' pr line x
   | BadBulkLength line x \<Rightarrow> ''protocol: invalid bulk length '' @ Quote pr line @ '': '' @ numErrorText ''Atoi'' pr line x
   | NegativeBulkLength n \<Rightarrow> ''protocol: invalid bulk length '' @ FormatInt n
   | BadArrayLength line x \<Rightarrow> ''protocol: invalid array length '' @ Quote pr line @ '': '' @ numErrorText ''Atoi'' pr line x
   | NegativeArrayLength n \<Rightarrow> ''protocol: invalid array length '' @ FormatInt n
   | NoTrailer \<Rightarrow> ''protocol: bulk string missing CRLF trailer''
   | NoCRLF \<Rightarrow> ''protocol: line missing CRLF''
   | EmptyInline \<Rightarrow> ''protocol: empty inline command''
   | EmptyArray \<Rightarrow> ''protocol: empty command array''
   | EmptyCommand \<Rightarrow> ''protocol: empty command''
   | BadArgument i \<Rightarrow> ''protocol: command argument '' @ FormatInt (int i) @ '' has unsupported type''
   | NotACommand t \<Rightarrow> ''protocol: expected command array, got type '' @ FormatInt (int t)
   | Panic \<Rightarrow> [] | NoFuel \<Rightarrow> [])"

text \<open>
  How the stream of a connection ends. \<open>ErrClosed\<close> is \<^verbatim>\<open>net.ErrClosed\<close>, \<open>OpError\<close> a \<^verbatim>\<open>net.OpError\<close> with its text
  and the text of the error it wraps, \<open>NetErr\<close> any other error. Readers return such an error as it
  is; only the end of the stream becomes \<^verbatim>\<open>io.ErrUnexpectedEOF\<close> inside a bulk string.
\<close>

datatype netEnd = PeerEOF | ErrClosed | Timeout string | OpError string string | NetErr string

definition isConnClosed :: "netEnd \<Rightarrow> readErr \<Rightarrow> bool" where
  "isConnClosed en e \<longleftrightarrow> e \<in> {EOF, UnexpectedEOF} \<and>
     (case en of
        PeerEOF \<Rightarrow> e = EOF
      | ErrClosed \<Rightarrow> True
      | Timeout _ \<Rightarrow> True
      | OpError _ msg \<Rightarrow> msg = ''use of closed network connection'' \<or> msg = ''connection reset by peer''
      | NetErr _ \<Rightarrow> False)"

definition streamMessage :: "(nat \<Rightarrow> bool) \<Rightarrow> netEnd \<Rightarrow> readErr \<Rightarrow> string" where
  "streamMessage pr en e =
     (if e \<in> {EOF, UnexpectedEOF}
      then (case en of PeerEOF \<Rightarrow> readMessage pr e | ErrClosed \<Rightarrow> ''use of closed network connection''
            | Timeout txt \<Rightarrow> txt | OpError txt _ \<Rightarrow> txt | NetErr txt \<Rightarrow> txt)
      else readMessage pr e)"

fun writeAll :: "(conn \<Rightarrow> bool) \<Rightarrow> conn \<Rightarrow> Value list \<Rightarrow> World \<Rightarrow> bool \<times> World" where
  "writeAll up k [] w = (True, w)"
| "writeAll up k (v # vs) w =
     (case WriteValue up k v w of (False, w1) \<Rightarrow> (False, w1) | (True, w1) \<Rightarrow> writeAll up k vs w1)"

definition isError :: "Value \<Rightarrow> bool" where
  "isError v \<longleftrightarrow> (case v of RespError _ \<Rightarrow> True | _ \<Rightarrow> False)"

definition tenantNameOf :: "Context \<Rightarrow> World \<Rightarrow> string" where
  "tenantNameOf ctx w = (case ctxTenant ctx of Some t \<Rightarrow> tName (theTenant t (wTenants w)) | None \<Rightarrow> [])"

text \<open>\<open>Running\<close>: the loop goes on; \<open>Done\<close>: the connection is closed; \<open>Crashed\<close>: the process has panicked.\<close>

datatype connEnd = Running | Done | Crashed

text \<open>A command that was read: dispatch, metrics, reply.\<close>

definition serveCommand :: "Server \<Rightarrow> Env \<Rightarrow> duration \<Rightarrow> conn \<Rightarrow> Context \<Rightarrow> string list \<Rightarrow> World \<Rightarrow> connEnd \<times> Context \<times> World" where
  "serveCommand s ev dur k ctx args w =
     (let cmdName = (if args \<noteq> [] then hd args else []);
          (reply, ctx1, w1) = Dispatch (sRegistry s) ev (ctx\<lparr>Multi := []\<rparr>) args w;
          w2 = withMetrics (ObserveCommand (tenantNameOf ctx1 w1) cmdName dur (isError reply)) w1;
          (ok, w3) = writeAll (evUp ev) k (if Multi ctx1 \<noteq> [] then Multi ctx1 else [reply]) w2
      in if \<not> ok then (Done, ctx1, w3)
         else (if Quit ctx1 then Done else Running, ctx1\<lparr>Multi := []\<rparr>, w3))"

definition handleStep ::
  "(nat \<Rightarrow> bool) \<Rightarrow> netEnd \<Rightarrow> Server \<Rightarrow> Env \<Rightarrow> duration \<Rightarrow> conn \<Rightarrow> Context \<Rightarrow> string \<Rightarrow> World \<Rightarrow> connEnd \<times> Context \<times> string \<times> World" where
  "handleStep pr en s ev dur k ctx input w =
     (case ReadCommand input of
        (Inl e, rest) \<Rightarrow>
          if e = Panic then (Crashed, ctx, rest, w)
          else if isConnClosed en e then (Done, ctx, rest, w)
          else (Done, ctx, rest, snd (WriteValue (evUp ev) k (RespError (''ERR protocol error: '' @ streamMessage pr en e)) w))
      | (Inr args, rest) \<Rightarrow>
          (case serveCommand s ev dur k ctx args w of (st, ctx1, w1) \<Rightarrow> (st, ctx1, rest, w1)))"

lemma ReadCommand_progress:
  assumes "ReadCommand input = (Inr args, rest)"
  shows "length rest < length input \<and> args \<noteq> []"
proof -
  obtain x r where R: "Read input = (x, r)" by fastforce
  have "suffix r input" "\<And>v. x = Inr v \<Longrightarrow> length r < length input"
    using reader_progress [of "2 * length input + 1"] R by (auto simp: readerOK_def Read_def)
  moreover have "commandArgs i vs = Inr as \<Longrightarrow> length as = length vs" for i vs as
    by (induction i vs arbitrary: as rule: commandArgs.induct) (auto split: option.splits sum.splits)
  ultimately show ?thesis
    using assms R by (fastforce simp: ReadCommand_def split: sum.splits Value.splits if_splits)
qed

lemma handleStep_progress:
  "handleStep pr en s ev dur k ctx input w = (Running, ctx1, rest, w1) \<Longrightarrow> length rest < length input"
  using ReadCommand_progress
  by (fastforce simp: handleStep_def split: prod.splits sum.splits if_splits)

text \<open>The loop of \<^verbatim>\<open>handleConn\<close>; the environment and the duration of each command come by its number.\<close>

function connLoop ::
  "(nat \<Rightarrow> bool) \<Rightarrow> netEnd \<Rightarrow> Server \<Rightarrow> (nat \<Rightarrow> Env) \<Rightarrow> (nat \<Rightarrow> duration) \<Rightarrow> nat \<Rightarrow> conn \<Rightarrow> Context \<Rightarrow> string \<Rightarrow> World \<Rightarrow>
   connEnd \<times> Context \<times> World" where
  "connLoop pr en s evs durs i k ctx input w =
     (case handleStep pr en s (evs i) (durs i) k ctx input w of
        (Running, ctx1, rest, w1) \<Rightarrow> connLoop pr en s evs durs (Suc i) k ctx1 rest w1
      | (st, ctx1, rest, w1) \<Rightarrow> (st, ctx1, w1))"
  by auto
termination
  by (relation "measure (\<lambda>(pr, en, s, evs, durs, i, k, ctx, input, w). length input)")
    (auto dest: handleStep_progress sym)

declare connLoop.simps [simp del]

text \<open>A connection that nothing interleaves with, from acceptance to teardown.\<close>

definition handleConn ::
  "(nat \<Rightarrow> bool) \<Rightarrow> netEnd \<Rightarrow> (nat \<Rightarrow> Env) \<Rightarrow> (nat \<Rightarrow> duration) \<Rightarrow> conn \<Rightarrow> Context \<Rightarrow> string \<Rightarrow> Server \<Rightarrow> World \<Rightarrow> connEnd \<times> Server \<times> World" where
  "handleConn pr en evs durs k ctx input s w =
     (case connLoop pr en s evs durs 0 k ctx input w of
        (Crashed, ctx1, w1) \<Rightarrow> (Crashed, s, w1)
      | (st, ctx1, w1) \<Rightarrow> (st, teardown k ctx1 s w1))"

section \<open>Shutdown\<close>

text \<open>The connections whose sockets \<^verbatim>\<open>Close\<close> closes, and the server afterwards.\<close>

definition CloseServer :: "Server \<Rightarrow> conn list \<times> Server" where
  "CloseServer s = (if sClosed s then ([], s) else (sConns s, s\<lparr>sClosed := True\<rparr>))"

text \<open>The start of \<^verbatim>\<open>Serve\<close> on a listener with the given address, and its return when \<^verbatim>\<open>Accept\<close> fails:
  nothing to report once the server is closed.\<close>

definition serveBegin :: "string \<Rightarrow> Server \<Rightarrow> Server" where
  "serveBegin addr s = s\<lparr>sLn := Some addr, sReady := True\<rparr>"

definition acceptFailed :: "string \<Rightarrow> Server \<Rightarrow> string option \<times> Server" where
  "acceptFailed err s = (if sClosed s then None else Some err, s\<lparr>sReady := False\<rparr>)"

definition ListenerAddr :: "Server \<Rightarrow> string + string" where
  "ListenerAddr s = (case sLn s of None \<Rightarrow> Inl ''server: not listening'' | Some a \<Rightarrow> Inr a)"

end
