(* ===== verification/ServerProps.thy ===== *)
theory ServerProps
  imports CommandProps Server
begin

text \<open>
  The server as a state machine: connections are accepted or refused, send commands, end; stores are
  swept and saved, in any order. Connection slots, the ownership of subscribers and the
  invariants of the tenants hold in every reachable state.
\<close>

section \<open>Hub operations of one client\<close>

text \<open>What an operation of client \<open>c\<close> keeps: the other clients, and its own connection.\<close>

definition hubStep :: "client \<Rightarrow> Hub \<Rightarrow> Hub \<Rightarrow> bool" where
  "hubStep c h h' \<longleftrightarrow> nextClient h' = nextClient h \<and> (\<forall>c'. c' \<noteq> c \<longrightarrow> clients h' c' = clients h c') \<and>
     clDeliver (clients h' c) = clDeliver (clients h c) \<and> clClosed (clients h' c) = clClosed (clients h c)"

lemma hubStep_refl: "hubStep c h h"
  by (simp add: hubStep_def)

lemma hubStep_trans: "hubStep c h h1 \<Longrightarrow> hubStep c h1 h2 \<Longrightarrow> hubStep c h h2"
  by (simp add: hubStep_def)

lemma hubStep_loops:
  "hubStep c h (snd (Subscribe c ns h))" "hubStep c h (snd (PSubscribe c ns h))"
  "hubStep c h (snd (unsubLoop c ns h))" "hubStep c h (snd (punsubLoop c ns h))"
proof -
  show "hubStep c h (snd (Subscribe c ns h))" "hubStep c h (snd (PSubscribe c ns h))"
    by (induction ns arbitrary: h) (simp_all add: hubStep_refl hubStep_def Let_def split_beta)
  show "hubStep c h (snd (unsubLoop c ns h))" "hubStep c h (snd (punsubLoop c ns h))"
    by (induction ns arbitrary: h) (simp_all add: hubStep_refl hubStep_def Let_def split_beta)
qed

lemma hubOp_step:
  assumes "hubOp c f" "hub_ok h" "c < nextClient h"
  shows "hubStep c h (snd (f h)) \<and> hub_ok (snd (f h))"
  using assms
  by (auto simp: hubOp_def Unsubscribe_def PUnsubscribe_def hubStep_loops Subscribe_ok PSubscribe_ok unsubLoop_ok punsubLoop_ok)

section \<open>Invariant of the connections\<close>

type_synonym live = "conn \<rightharpoonup> Context"

abbreviation tenantCount :: "World \<Rightarrow> nat" where
  "tenantCount w \<equiv> length (order (wTenants w))"

text \<open>A live connection writes to itself, a bound one has a tenant, and its subscriber is open, belongs
  to the hub of its tenant and delivers to it.\<close>

definition ctx_ok :: "World \<Rightarrow> conn \<Rightarrow> Context \<Rightarrow> bool" where
  "ctx_ok w k ctx \<longleftrightarrow> ctxWriter ctx = Some k \<and> (\<forall>t. ctxTenant ctx = Some t \<longrightarrow> t < tenantCount w) \<and>
     (BoundTenant ctx \<longrightarrow> ctxTenant ctx \<noteq> None) \<and>
     (\<forall>t c. ctxPubSub ctx = Some (t, c) \<longrightarrow> ctxTenant ctx = Some t \<and> c < nextClient (hubOf t w) \<and>
        clDeliver (clients (hubOf t w) c) = k \<and> \<not> clClosed (clients (hubOf t w) c))"

text \<open>Every client with a subscription is owned by a live connection.\<close>

definition hubs_ok :: "World \<Rightarrow> live \<Rightarrow> bool" where
  "hubs_ok w L \<longleftrightarrow> (\<forall>k ctx. L k = Some ctx \<longrightarrow> ctx_ok w k ctx) \<and>
     (\<forall>t c. t < tenantCount w \<longrightarrow> InSubscribeMode c (hubOf t w) \<longrightarrow> (\<exists>k ctx. L k = Some ctx \<and> ctxPubSub ctx = Some (t, c)))"

text \<open>The connections that hold a slot of a tenant.\<close>

definition holders :: "tref \<Rightarrow> live \<Rightarrow> conn set" where
  "holders t L = {k. \<exists>ctx. L k = Some ctx \<and> BoundTenant ctx \<and> ctxTenant ctx = Some t}"

definition slots_ok :: "World \<Rightarrow> live \<Rightarrow> bool" where
  "slots_ok w L \<longleftrightarrow> (\<forall>t < tenantCount w. ts.agrees (holders t L) (theTenant t (wTenants w)))"

definition world_ok :: "World \<Rightarrow> live \<Rightarrow> bool" where
  "world_ok w L \<longleftrightarrow> reg_ok (wTenants w) \<and> hubs_ok w L \<and> slots_ok w L"

lemma hubs_okD:
  assumes "hubs_ok w L"
  shows "L k = Some ctx \<Longrightarrow> ctx_ok w k ctx"
    "t < tenantCount w \<Longrightarrow> InSubscribeMode c (hubOf t w) \<Longrightarrow> \<exists>k ctx. L k = Some ctx \<and> ctxPubSub ctx = Some (t, c)"
  using assms unfolding hubs_ok_def by blast+

lemma hubs_update:
  assumes H: "hubs_ok w L" and L: "L k = Some ctx" and n: "tenantCount w' = tenantCount w"
    and other: "\<And>u c'. (u, c') \<noteq> (t, c) \<Longrightarrow> clients (hubOf u w') c' = clients (hubOf u w) c'"
    and mono: "\<And>u. nextClient (hubOf u w) \<le> nextClient (hubOf u w')"
    and own: "ctxPubSub ctx = Some (t, c) \<or> ctxPubSub ctx = None \<and> nextClient (hubOf t w) \<le> c"
    and ok: "ctx_ok w' k ctx'" and sub: "InSubscribeMode c (hubOf t w') \<Longrightarrow> ctxPubSub ctx' = Some (t, c)"
  shows "hubs_ok w' (L(k \<mapsto> ctx'))"
proof -
  have k: "ctx_ok w k ctx" using H L by (simp add: hubs_ok_def)
  have "ctx_ok w' k' x" if x: "L k' = Some x" "k' \<noteq> k" for k' x
  proof -
    have o: "ctx_ok w k' x" using H x by (simp add: hubs_ok_def)
    have "(u, c') \<noteq> (t, c)" if "ctxPubSub x = Some (u, c')" for u c'
      using o that own k x(2) by (auto simp: ctx_ok_def)
    then show ?thesis using o n other mono by (fastforce simp: ctx_ok_def dest: order.strict_trans2)
  qed
  moreover have "\<exists>k' x. (L(k \<mapsto> ctx')) k' = Some x \<and> ctxPubSub x = Some (u, c')"
    if u: "u < tenantCount w'" "InSubscribeMode c' (hubOf u w')" for u c'
  proof (cases "(u, c') = (t, c)")
    case True
    then have "ctxPubSub ctx' = Some (u, c')" using sub u(2) by simp
    then show ?thesis by (intro exI [of _ k] exI [of _ ctx']) simp
  next
    case False
    then have "InSubscribeMode c' (hubOf u w)" using u(2) other [OF False] by (simp add: InSubscribeMode_def SubCount_def)
    then obtain k1 x where x: "L k1 = Some x" "ctxPubSub x = Some (u, c')" using hubs_okD(2) [OF H, of u c'] u(1) n by auto
    moreover have "k1 \<noteq> k" using x L own False by auto
    ultimately show ?thesis by (intro exI [of _ k1] exI [of _ x]) simp
  qed
  ultimately show ?thesis using ok by (auto simp: hubs_ok_def)
qed

lemma ctx_ok_cong:
  "tenantCount w' = tenantCount w \<Longrightarrow> (\<And>u. hubOf u w' = hubOf u w) \<Longrightarrow> ctx_ok w' k ctx = ctx_ok w k ctx"
  by (simp add: ctx_ok_def)

lemma hubs_same:
  assumes "hubs_ok w L" "tenantCount w' = tenantCount w" "\<And>u. hubOf u w' = hubOf u w" "L k = Some ctx"
    "ctx_ok w k ctx'" "ctxPubSub ctx' = ctxPubSub ctx"
  shows "hubs_ok w' (L(k \<mapsto> ctx'))"
proof -
  have "\<exists>k' x. (L(k \<mapsto> ctx')) k' = Some x \<and> ctxPubSub x = Some (u, c')"
    if u: "u < tenantCount w" "InSubscribeMode c' (hubOf u w)" for u c'
  proof -
    obtain k1 x where x: "L k1 = Some x" "ctxPubSub x = Some (u, c')" using hubs_okD(2) [OF assms(1) u] by blast
    show ?thesis
    proof (cases "k1 = k")
      case True
      then show ?thesis using x assms(4,6) by (intro exI [of _ k] exI [of _ ctx']) simp
    qed (use x in \<open>auto intro!: exI [of _ k1]\<close>)
  qed
  then show ?thesis
    using assms(1,2,3,5) unfolding hubs_ok_def assms(2,3) ctx_ok_cong [OF assms(2,3)] by auto
qed

lemma slots_same:
  assumes "slots_ok w L" "tenantCount w' = tenantCount w" "L k = Some ctx"
    "BoundTenant ctx' = BoundTenant ctx" "BoundTenant ctx \<Longrightarrow> ctxTenant ctx' = ctxTenant ctx"
    "\<And>u. connCount (theTenant u (wTenants w')) = connCount (theTenant u (wTenants w))"
    "\<And>u. tMaxClients (theTenant u (wTenants w')) = tMaxClients (theTenant u (wTenants w))"
  shows "slots_ok w' (L(k \<mapsto> ctx'))"
proof -
  have "holders u (L(k \<mapsto> ctx')) = holders u L" for u using assms(3-5) by (auto simp: holders_def)
  then show ?thesis using assms(1,2,6,7) by (simp add: slots_ok_def ts.agrees_def)
qed


section \<open>Commands keep the invariant\<close>

lemma reg_ok_hub:
  assumes "reg_ok (wTenants w)" "t < tenantCount w" "hub_ok (snd (f (hubOf t w)))"
  shows "reg_ok (wTenants (snd (onHub t f w)))"
  using assms(2,3) reg_okD(3) [OF assms(1,2)] by (auto simp: onHub_def split_beta intro!: reg_ok_set [OF assms(1)])

lemma onHub_frame [simp]:
  "tenantCount (snd (onHub t f w)) = tenantCount w"
  "connCount (theTenant u (wTenants (snd (onHub t f w)))) = connCount (theTenant u (wTenants w))"
  "tMaxClients (theTenant u (wTenants (snd (onHub t f w)))) = tMaxClients (theTenant u (wTenants w))"
  "t < tenantCount w \<Longrightarrow> hubOf u (snd (onHub t f w)) = (if u = t then snd (f (hubOf t w)) else hubOf u w)"
  "wClients (snd (onHub t f w)) = wClients w" "wOut (snd (onHub t f w)) = wOut w" "wMetrics (snd (onHub t f w)) = wMetrics w"
  by (simp_all add: onHub_def split_beta hubOf_def setTenant_field)

text \<open>An operation of the subscriber of a connection.\<close>

lemma world_hubOp:
  assumes ok: "world_ok w L" and L: "L k = Some ctx" and p: "ctxPubSub ctx = Some (t, c)" and f: "hubOp c f"
  shows "world_ok (snd (onHub t f w)) (L(k \<mapsto> ctx\<lparr>Multi := m\<rparr>))"
proof -
  let ?w = "snd (onHub t f w)"
  have c: "ctx_ok w k ctx" and H: "hubs_ok w L" and R: "reg_ok (wTenants w)" and S: "slots_ok w L"
    using ok L hubs_okD(1) by (auto simp: world_ok_def)
  have t: "t < tenantCount w" "c < nextClient (hubOf t w)" using c p by (auto simp: ctx_ok_def)
  have st: "hubStep c (hubOf t w) (snd (f (hubOf t w)))" "hub_ok (snd (f (hubOf t w)))"
    using hubOp_step [OF f _ t(2)] reg_okD(4) [OF R t(1)] by (simp_all add: hubOf_def)
  have "hubs_ok ?w (L(k \<mapsto> ctx\<lparr>Multi := m\<rparr>))"
  proof (rule hubs_update [OF H L, where t = t and c = c])
    show "ctx_ok ?w k (ctx\<lparr>Multi := m\<rparr>)" using c p st(1) t by (auto simp: ctx_ok_def hubStep_def)
  qed (use st(1) t p in \<open>auto simp: hubStep_def\<close>)
  moreover have "slots_ok ?w (L(k \<mapsto> ctx\<lparr>Multi := m\<rparr>))" by (rule slots_same [OF S _ L]) simp_all
  ultimately show ?thesis using reg_ok_hub [OF R t(1)] st(2) by (simp add: world_ok_def)
qed

text \<open>The first subscription of a connection creates its client.\<close>

lemma world_newClient:
  assumes ok: "world_ok w L" and L: "L k = Some ctx" and p: "ctxPubSub ctx = None" "ctxTenant ctx = Some t"
  shows "world_ok (snd (onHub t (NewClient k) w)) (L(k \<mapsto> ctx\<lparr>ctxPubSub := Some (t, fst (NewClient k (hubOf t w)))\<rparr>))"
proof -
  let ?w = "snd (onHub t (NewClient k) w)" and ?c = "fst (NewClient k (hubOf t w))"
  let ?x = "ctx\<lparr>ctxPubSub := Some (t, ?c)\<rparr>"
  have c: "ctx_ok w k ctx" and H: "hubs_ok w L" and R: "reg_ok (wTenants w)" and S: "slots_ok w L"
    using ok L hubs_okD(1) by (auto simp: world_ok_def)
  have t: "t < tenantCount w" using c p by (auto simp: ctx_ok_def)
  have "hubs_ok ?w (L(k \<mapsto> ?x))"
  proof (rule hubs_update [OF H L, where t = t and c = ?c])
    show "ctx_ok ?w k ?x" using c p t by (auto simp: ctx_ok_def NewClient_def noClient_def)
  qed (use p t in \<open>auto simp: NewClient_def\<close>)
  moreover have "slots_ok ?w (L(k \<mapsto> ?x))" by (rule slots_same [OF S _ L]) simp_all
  moreover have "hub_ok (snd (NewClient k (hubOf t w)))" using NewClient_ok reg_okD(4) [OF R t] by (simp add: hubOf_def)
  ultimately show ?thesis using reg_ok_hub [OF R t, of "NewClient k"] by (simp add: world_ok_def)
qed

text \<open>Closing the subscriber.\<close>

lemma closePubSub_frame [simp]:
  "tenantCount (closePubSub ctx w) = tenantCount w"
  "connCount (theTenant u (wTenants (closePubSub ctx w))) = connCount (theTenant u (wTenants w))"
  "tMaxClients (theTenant u (wTenants (closePubSub ctx w))) = tMaxClients (theTenant u (wTenants w))"
  "wClients (closePubSub ctx w) = wClients w" "wOut (closePubSub ctx w) = wOut w"
  by (simp_all add: closePubSub_def split: option.splits)

lemma hubs_closePubSub:
  assumes H: "hubs_ok w L" and R: "reg_ok (wTenants w)" and L: "L k = Some ctx"
  shows "hubs_ok (closePubSub ctx w) (L(k \<mapsto> ctx\<lparr>ctxPubSub := None\<rparr>)) \<and> reg_ok (wTenants (closePubSub ctx w))"
proof (cases "ctxPubSub ctx")
  case None
  then have "ctx\<lparr>ctxPubSub := None\<rparr> = ctx" by simp
  then show ?thesis using None H R L by (simp add: closePubSub_def fun_upd_idem)
next
  case (Some p)
  obtain t c where p: "p = (t, c)" by fastforce
  let ?w = "snd (onHub t (\<lambda>h. ((), Close c h)) w)" and ?x = "ctx\<lparr>ctxPubSub := None\<rparr>"
  have x: "ctx_ok w k ctx" using H L hubs_okD(1) by blast
  have t: "t < tenantCount w" "\<not> clClosed (clients (hubOf t w) c)" using x Some p by (auto simp: ctx_ok_def)
  have hk: "hub_ok (hubOf t w)" using reg_okD(4) [OF R t(1)] by (simp add: hubOf_def)
  note C = Close_effect [OF hk t(2)]
  have "hubs_ok ?w (L(k \<mapsto> ?x))"
  proof (rule hubs_update [OF H L, where t = t and c = c])
    show "ctx_ok ?w k ?x" using x by (simp add: ctx_ok_def)
  qed (use Some p t C(2,3) in \<open>auto simp: InSubscribeMode_def SubCount_def\<close>)
  then show ?thesis using reg_ok_hub [OF R t(1), of "\<lambda>h. ((), Close c h)"] C(1) Some p by (simp add: closePubSub_def)
qed

lemma world_ctx:
  assumes ok: "world_ok w L" and L: "L k = Some ctx" and x: "ctx_ok w k ctx'" "ctxPubSub ctx' = ctxPubSub ctx"
    "BoundTenant ctx' = BoundTenant ctx" "BoundTenant ctx \<Longrightarrow> ctxTenant ctx' = ctxTenant ctx"
    and w: "wTenants w' = wTenants w"
  shows "world_ok w' (L(k \<mapsto> ctx'))"
proof -
  have h: "hubOf u w' = hubOf u w" for u by (simp add: hubOf_def w)
  have "hubs_ok w' (L(k \<mapsto> ctx'))" using ok w h L x by (intro hubs_same [of w L w' k ctx]) (simp_all add: world_ok_def)
  moreover have "slots_ok w' (L(k \<mapsto> ctx'))"
    using ok w L x by (intro slots_same [of w L w' k ctx]) (simp_all add: world_ok_def)
  ultimately show ?thesis using ok w by (simp add: world_ok_def)
qed

lemma world_dbStep:
  assumes ok: "world_ok w L" and t: "t < tenantCount w" and d: "dbStep t w w'"
  shows "world_ok w' L"
proof -
  have R: "reg_ok (wTenants w)" using ok by (simp add: world_ok_def)
  obtain db where db: "wTenants w' = setDB t db (wTenants w)" "kept (dbOf t w) db"
    using d reg_okD(3) [OF R t] by (auto simp: dbStep_def dbOf_def)
  have "reg_ok (wTenants w')"
    unfolding db setDB_def using R t db(2) reg_okD(4) [OF R t] by (intro reg_ok_set) (auto simp: kept_def)
  moreover have h: "hubOf u w' = hubOf u w" "tenantCount w' = tenantCount w" for u by (simp_all add: hubOf_def db)
  moreover have "hubs_ok w' L" using ok unfolding world_ok_def hubs_ok_def ctx_ok_cong [OF h(2,1)] h by simp
  moreover have "slots_ok w' L" using ok by (simp add: world_ok_def slots_ok_def ts.agrees_def db)
  ultimately show ?thesis by (simp add: world_ok_def)
qed

text \<open>AUTH moves the slot of the connection from its old tenant to the new one.\<close>

lemma slot_moves:
  assumes t: "t < length (order r0)" and new: "\<not> (ctxTenant ctx = Some t \<and> BoundTenant ctx)"
    and acq: "AcquireConn (Some t) r0 = (True, r)" and old: "\<forall>u. ctxTenant ctx = Some u \<longrightarrow> u < length (order r0)"
    and ok: "reg_ok r0"
  defines "r' \<equiv> if ctxTenant ctx \<noteq> None \<and> BoundTenant ctx then ReleaseConn (ctxTenant ctx) r else r"
  shows "theTenant u r' = (if u = t then snd (acquireSlot (theTenant u r0))
      else if BoundTenant ctx \<and> ctxTenant ctx = Some u then releaseSlot (theTenant u r0) else theTenant u r0)"
    "length (order r') = length (order r0)" "reg_ok r'" "fst (acquireSlot (theTenant t r0))"
proof -
  have r: "r = setTenant t (snd \<circ> acquireSlot) r0" and "fst (acquireSlot (theTenant t r0))" using acq by (auto simp: AcquireConn_def)
  then show "fst (acquireSlot (theTenant t r0))" by simp
  have ok1: "reg_ok r" unfolding r using ok t reg_okD(3,4) [OF ok t] by (intro reg_ok_set) simp_all
  show "theTenant u r' = (if u = t then snd (acquireSlot (theTenant u r0))
      else if BoundTenant ctx \<and> ctxTenant ctx = Some u then releaseSlot (theTenant u r0) else theTenant u r0)"
    using t new old by (auto simp: r'_def r ReleaseConn_def)
  show "length (order r') = length (order r0)" by (auto simp: r'_def r ReleaseConn_def)
  have "reg_ok (setTenant v releaseSlot r)" if "v < length (order r)" for v
    using ok1 that reg_okD(3,4) [OF ok1 that] by (intro reg_ok_set) simp_all
  then show "reg_ok r'" using ok1 old by (auto simp: r'_def ReleaseConn_def r)
qed

lemma world_auth:
  assumes ok: "world_ok w L" and L: "L k = Some ctx" and t: "t < tenantCount w"
    and new: "\<not> (ctxTenant ctx = Some t \<and> BoundTenant ctx)" and acq: "AcquireConn (Some t) (wTenants w) = (True, r)"
  defines "w1 \<equiv> w\<lparr>wTenants := (if ctxTenant ctx \<noteq> None \<and> BoundTenant ctx then ReleaseConn (ctxTenant ctx) r else r)\<rparr>"
  shows "world_ok (closePubSub ctx w1) (L(k \<mapsto> ctx\<lparr>ctxPubSub := None, ctxTenant := Some t, BoundTenant := True\<rparr>))"
proof -
  let ?x = "ctx\<lparr>ctxPubSub := None, ctxTenant := Some t, BoundTenant := True\<rparr>" and ?y = "ctx\<lparr>ctxPubSub := None\<rparr>"
  have x: "ctx_ok w k ctx" and H: "hubs_ok w L" and R: "reg_ok (wTenants w)" and S: "slots_ok w L"
    using ok L hubs_okD(1) by (auto simp: world_ok_def)
  have old: "\<forall>u. ctxTenant ctx = Some u \<longrightarrow> u < tenantCount w" and B: "BoundTenant ctx \<Longrightarrow> ctxTenant ctx \<noteq> None"
    using x by (auto simp: ctx_ok_def)
  note m = slot_moves [OF t new acq old R, folded w1_def]
  have w1: "wTenants w1 = (if ctxTenant ctx \<noteq> None \<and> BoundTenant ctx then ReleaseConn (ctxTenant ctx) r else r)"
    by (simp add: w1_def)
  have n: "tenantCount w1 = tenantCount w" and h: "hubOf u w1 = hubOf u w" for u
    using m(1,2) by (simp_all add: hubOf_def w1)
  have "hubs_ok w1 L" using H unfolding hubs_ok_def ctx_ok_cong [OF n h] n h .
  then have c: "hubs_ok (closePubSub ctx w1) (L(k \<mapsto> ?y))" "reg_ok (wTenants (closePubSub ctx w1))"
    using hubs_closePubSub [of w1 L k ctx] m(3) L by (simp_all add: w1)
  have "ctx_ok (closePubSub ctx w1) k ?x" using x t by (simp add: ctx_ok_def n)
  then have "hubs_ok (closePubSub ctx w1) ((L(k \<mapsto> ?y))(k \<mapsto> ?x))" using c(1) by (intro hubs_same [of _ "L(k \<mapsto> ?y)" _ k ?y ?x]) simp_all
  moreover have "ts.agrees (holders u (L(k \<mapsto> ?x))) (theTenant u (wTenants w1))" if u: "u < tenantCount w" for u
  proof -
    have a: "ts.agrees (holders u L) (theTenant u (wTenants w))" using S u by (simp add: slots_ok_def)
    have g: "k \<notin> holders t L" "BoundTenant ctx \<and> ctxTenant ctx = Some u \<Longrightarrow> k \<in> holders u L"
      using L new by (auto simp: holders_def)
    have "holders u (L(k \<mapsto> ?x)) = (if u = t then insert k (holders u L)
       else if BoundTenant ctx \<and> ctxTenant ctx = Some u then holders u L - {k} else holders u L)"
      using L B by (auto simp: holders_def)
    then show ?thesis
      using ts.agrees_acquire [OF a, of k] ts.agrees_release [OF a, of k] a g m(4) unfolding w1 [THEN arg_cong, of "theTenant u"] m(1) [of u]
      by (cases "u = t") auto
  qed
  then have "slots_ok (closePubSub ctx w1) (L(k \<mapsto> ?x))" by (simp add: slots_ok_def ts.agrees_def n)
  ultimately show ?thesis using c(2) by (simp add: world_ok_def)
qed


lemma Authenticate_range: "reg_ok r \<Longrightarrow> Authenticate u p r = Inr t \<Longrightarrow> t < length (order r)"
  using reg_okD(2) by (auto simp: Authenticate_def split: option.splits if_splits)

lemma effect_world: "effect ctx w ctx' w' \<Longrightarrow> world_ok w L \<Longrightarrow> L k = Some ctx \<Longrightarrow> world_ok w' (L(k \<mapsto> ctx'))"
proof (induction rule: effect.induct)
  case (pure ctx w m q)
  have "ctx_ok w k (ctx\<lparr>Quit := q, Multi := m\<rparr>)" using pure hubs_okD(1) by (fastforce simp: world_ok_def ctx_ok_def)
  then show ?case using pure by (intro world_ctx [of w L k ctx]) simp_all
next
  case (data ctx t w w')
  have "t < tenantCount w" using data hubs_okD(1) by (fastforce simp: world_ok_def ctx_ok_def)
  then show ?case using data world_dbStep by (simp add: fun_upd_idem)
next
  case (persisted ctx w e d n)
  then show ?case using hubs_okD(1) by (intro world_ctx [of w L k ctx]) (auto simp: world_ok_def)
next
  case (published ctx t w up ch msg)
  then show ?case using hubs_okD(1) by (intro world_ctx [of w L k ctx]) (auto simp: world_ok_def)
next
  case (subscribed ctx t w t1 c ctx1 w1 f m)
  have W: "ctxWriter ctx = Some k" using subscribed hubs_okD(1) by (fastforce simp: world_ok_def ctx_ok_def)
  have "world_ok w1 (L(k \<mapsto> ctx1)) \<and> ctxPubSub ctx1 = Some (t1, c)"
    using ensurePubSubClient_spec [OF subscribed(2)] subscribed(1,4,5) world_newClient [OF subscribed(4,5), of t] W
    by (auto simp: fun_upd_idem)
  then show ?case using world_hubOp [of w1 "L(k \<mapsto> ctx1)" k ctx1 t1 c f m] subscribed(3) by (simp only: fun_upd_upd fun_upd_same)
next
  case (unsubscribed ctx t1 c f w m)
  then show ?case by (intro world_hubOp)
next
  case (authenticated u p w t ctx r)
  then show ?case using Authenticate_range by (intro world_auth) (auto simp: world_ok_def)
qed

lemma autoBind_world:
  assumes "world_ok w L" "L k = Some ctx" "\<And>p t. pol = Some p \<Longrightarrow> DefaultTenant p = Some t \<Longrightarrow> t < tenantCount w"
  shows "world_ok w (L(k \<mapsto> autoBind pol ctx))"
proof -
  have c: "ctx_ok w k ctx" using assms hubs_okD(1) by (auto simp: world_ok_def)
  then have "ctx_ok w k (autoBind pol ctx)" using assms(3) by (auto simp: ctx_ok_def autoBind_def split: option.splits)
  moreover have "\<not> BoundTenant ctx \<or> ctxTenant ctx \<noteq> None" using c by (auto simp: ctx_ok_def)
  ultimately show ?thesis
    using assms(1,2) by (intro world_ctx [of w L k ctx]) (auto simp: autoBind_def split: option.splits)
qed

text \<open>A command of a live connection keeps the invariant, and the number of tenants and clients.\<close>

lemma Dispatch_world:
  assumes D: "Dispatch r ev ctx args w = (v, ctx', w')" and ok: "world_ok w L" "L k = Some ctx"
    and pol: "\<And>p t. regPolicy r = Some p \<Longrightarrow> DefaultTenant p = Some t \<Longrightarrow> t < tenantCount w"
  shows "world_ok w' (L(k \<mapsto> ctx'))"
  using Dispatch_effect [OF D]
proof
  assume "effect ctx w ctx' w'"
  then show ?thesis using effect_world ok by blast
next
  assume "effect (autoBind (regPolicy r) ctx) w ctx' w'"
  then show ?thesis
    using effect_world [of _ w ctx' w' "L(k \<mapsto> autoBind (regPolicy r) ctx)" k] autoBind_world [OF ok pol] by simp
qed

lemma effect_frame: "effect ctx w ctx' w' \<Longrightarrow> tenantCount w' = tenantCount w \<and> wClients w' = wClients w \<and> wMetrics w' = wMetrics w"
proof (induction rule: effect.induct)
  case (data ctx t w w')
  then show ?case by (auto simp: dbStep_def)
next
  case (subscribed ctx t w t1 c ctx1 w1 f m)
  then show ?case using ensurePubSubClient_spec [OF subscribed(2)] by auto
next
  case (authenticated u p w t ctx r)
  then show ?case by (auto simp: AcquireConn_def ReleaseConn_def closePubSub_def split: option.splits)
qed simp_all

lemma Dispatch_frame:
  assumes "Dispatch r ev ctx args w = (v, ctx', w')"
  shows "tenantCount w' = tenantCount w" "wClients w' = wClients w" "wMetrics w' = wMetrics w"
  using Dispatch_effect [OF assms] effect_frame by blast+


section \<open>The global limit\<close>

text \<open>The server's counter keeps the same promise as the tenants' ones.\<close>

interpretation cs: slots "\<lambda>s. wClients (snd s)" fst "\<lambda>s. (fst (tryAddClient (fst s) (snd s)), fst s, snd (tryAddClient (fst s) (snd s)))"
  "\<lambda>s. (fst s, releaseClient (snd s))"
  by unfold_locales (auto simp: tryAddClient_def releaseClient_def)

section \<open>The state machine\<close>

record Sys =
  yServer :: Server
  yWorld :: World
  yLive :: live

text \<open>
  One step: a connection is accepted or refused, a live connection is served one more command, or
  ends; a sweep of a store, a background save, the end of \<^verbatim>\<open>Serve\<close> and \<^verbatim>\<open>Close\<close> happen at any time. A
  panic of the reader ends the process and is no step.
\<close>

inductive sys_step :: "Sys \<Rightarrow> Sys \<Rightarrow> bool" where
  accepted: "yLive y k = None \<Longrightarrow> acceptConn up k (yServer y) (yWorld y) = (Some ctx, s', w') \<Longrightarrow>
    sys_step y \<lparr>yServer = s', yWorld = w', yLive = (yLive y)(k \<mapsto> ctx)\<rparr>"
| refused: "yLive y k = None \<Longrightarrow> acceptConn up k (yServer y) (yWorld y) = (None, s', w') \<Longrightarrow>
    sys_step y (y\<lparr>yServer := s', yWorld := w'\<rparr>)"
| served: "yLive y k = Some ctx \<Longrightarrow> handleStep pr en (yServer y) ev dur k ctx input (yWorld y) = (Running, ctx', rest, w') \<Longrightarrow>
    sys_step y (y\<lparr>yWorld := w', yLive := (yLive y)(k \<mapsto> ctx')\<rparr>)"
| ended: "yLive y k = Some ctx \<Longrightarrow> handleStep pr en (yServer y) ev dur k ctx input (yWorld y) = (Done, ctx', rest, w1) \<Longrightarrow>
    teardown k ctx' (yServer y) w1 = (s', w') \<Longrightarrow>
    sys_step y \<lparr>yServer = s', yWorld = w', yLive = (yLive y)(k := None)\<rparr>"
| swept: "t < tenantCount (yWorld y) \<Longrightarrow>
    sys_step y (y\<lparr>yWorld := snd (onDB ev t (expireDue now limit) (yWorld y))\<rparr>)"
| saved: "wEng (yWorld y) = Some e \<Longrightarrow> SaveSnapshot io perm now (wTenants (yWorld y)) (e, wDisk (yWorld y)) = (err, e', d') \<Longrightarrow>
    sys_step y (y\<lparr>yWorld := (yWorld y)\<lparr>wEng := Some e', wDisk := d'\<rparr>\<rparr>)"
| save_begun: "wEng (yWorld y) = Some e \<Longrightarrow> saveBegin e = (err, e') \<Longrightarrow> sys_step y (y\<lparr>yWorld := (yWorld y)\<lparr>wEng := Some e'\<rparr>\<rparr>)"
| save_finished: "wEng (yWorld y) = Some e \<Longrightarrow> saveFinish io payload (e, wDisk (yWorld y)) = (err, e', d') \<Longrightarrow>
    sys_step y (y\<lparr>yWorld := (yWorld y)\<lparr>wEng := Some e', wDisk := d'\<rparr>\<rparr>)"
| closed: "sys_step y (y\<lparr>yServer := snd (CloseServer (yServer y))\<rparr>)"
| stopped: "sys_step y (y\<lparr>yServer := snd (acceptFailed err (yServer y))\<rparr>)"

definition sys_ok :: "Sys \<Rightarrow> bool" where
  "sys_ok y \<longleftrightarrow> world_ok (yWorld y) (yLive y) \<and>
     cs.agrees (dom (yLive y)) (oMaxClients (sOpts (yServer y)), yWorld y) \<and>
     set (sConns (yServer y)) = dom (yLive y) \<and>
     (\<forall>p t. regPolicy (sRegistry (yServer y)) = Some p \<longrightarrow> DefaultTenant p = Some t \<longrightarrow> t < tenantCount (yWorld y))"

lemma WriteValue_frame [simp]:
  "wTenants (snd (WriteValue up k v w)) = wTenants w" "wClients (snd (WriteValue up k v w)) = wClients w"
  "wEng (snd (WriteValue up k v w)) = wEng w"
  by (simp_all add: WriteValue_def)

lemma writeAll_frame [simp]: "wTenants (snd (writeAll up k vs w)) = wTenants w \<and> wClients (snd (writeAll up k vs w)) = wClients w"
  by (induction vs arbitrary: w) (simp_all add: WriteValue_def)

lemma withMetrics_frame [simp]: "wTenants (withMetrics f w) = wTenants w" "wClients (withMetrics f w) = wClients w"
  by (simp_all add: withMetrics_def)

lemma world_same: "wTenants w' = wTenants w \<Longrightarrow> world_ok w' L = world_ok w L"
  by (simp add: world_ok_def hubs_ok_def slots_ok_def ctx_ok_def hubOf_def)


lemma serveCommand_world:
  assumes "serveCommand s ev dur k ctx args w = (st, ctx', w')" "world_ok w L" "L k = Some ctx"
    and pol: "\<And>p t. regPolicy (sRegistry s) = Some p \<Longrightarrow> DefaultTenant p = Some t \<Longrightarrow> t < tenantCount w"
  shows "world_ok w' (L(k \<mapsto> ctx')) \<and> tenantCount w' = tenantCount w \<and> wClients w' = wClients w"
proof -
  let ?x = "ctx\<lparr>Multi := []\<rparr>"
  obtain v c1 w1 where D: "Dispatch (sRegistry s) ev ?x args w = (v, c1, w1)" by (metis prod.collapse)
  have "world_ok w (L(k \<mapsto> ?x))" using effect_world [OF multi_only assms(2,3)] .
  then have W: "world_ok w1 (L(k \<mapsto> c1))" using Dispatch_world [OF D, of "L(k \<mapsto> ?x)" k] pol by (simp only: fun_upd_same fun_upd_upd)
  note F = Dispatch_frame [OF D]
  have e: "ctx' = c1 \<or> ctx' = c1\<lparr>Multi := []\<rparr>" "wTenants w' = wTenants w1 \<and> wClients w' = wClients w1"
    using assms(1) D by (auto simp: serveCommand_def Let_def split_beta simp del: writeAll.simps split: if_splits)
  have "world_ok w1 (L(k \<mapsto> ctx'))"
    using e(1) W effect_world [OF multi_only [where m = "[]"] W, of k] by (auto simp only: fun_upd_same fun_upd_upd)
  then show ?thesis using e(2) F world_same [of w' w1] by simp
qed

lemma handleStep_world:
  assumes "handleStep pr en s ev dur k ctx input w = (st, ctx', rest, w')" "world_ok w L" "L k = Some ctx"
    and pol: "\<And>p t. regPolicy (sRegistry s) = Some p \<Longrightarrow> DefaultTenant p = Some t \<Longrightarrow> t < tenantCount w"
  shows "world_ok w' (L(k \<mapsto> ctx')) \<and> tenantCount w' = tenantCount w \<and> wClients w' = wClients w"
proof (cases "ReadCommand input")
  case (Pair x r)
  show ?thesis
  proof (cases x)
    case (Inl e)
    then have "ctx' = ctx" "wTenants w' = wTenants w" "wClients w' = wClients w"
      using assms(1) Pair by (auto simp: handleStep_def split: if_splits)
    then show ?thesis using assms(2,3) world_same [of w' w] by (simp add: fun_upd_idem)
  next
    case (Inr args)
    then show ?thesis
      using assms(1) Pair serveCommand_world [OF _ assms(2,3) pol] by (auto simp: handleStep_def split: prod.splits)
  qed
qed

text \<open>A connection that ends gives back its slots and its subscriptions.\<close>

lemma teardown_world:
  assumes ok: "world_ok w L" and L: "L k = Some ctx" and T: "teardown k ctx s w = (s', w')"
  shows "world_ok w' (L(k := None)) \<and> tenantCount w' = tenantCount w \<and> wClients w' = wClients w - 1 \<and> s' = untrack k s"
proof -
  let ?w1 = "closePubSub ctx w" and ?w2 = "snd (ReleaseTenantConn ctx (closePubSub ctx w))"
  have x: "ctx_ok w k ctx" and H: "hubs_ok w L" and R: "reg_ok (wTenants w)" and S: "slots_ok w L"
    using ok L hubs_okD(1) by (auto simp: world_ok_def)
  note c = hubs_closePubSub [OF H R L]
  have w': "wTenants w' = wTenants ?w2" "wClients w' = wClients w - 1" "s' = untrack k s"
    using T by (auto simp: teardown_def Let_def split_beta releaseClient_def ReleaseTenantConn_def)
  have t2: "wTenants ?w2 = (if BoundTenant ctx then ReleaseConn (ctxTenant ctx) (wTenants ?w1) else wTenants ?w1)"
    using x by (auto simp: ReleaseTenantConn_def ctx_ok_def)
  have tn: "theTenant u (wTenants w') = (if BoundTenant ctx \<and> ctxTenant ctx = Some u then releaseSlot (theTenant u (wTenants ?w1)) else theTenant u (wTenants ?w1))"
    "tenantCount w' = tenantCount w" for u
    using x t2 by (auto simp: w'(1) ReleaseConn_def ctx_ok_def)
  have h: "hubOf u w' = hubOf u ?w1" for u by (simp add: hubOf_def tn)
  have "reg_ok (setTenant v releaseSlot (wTenants ?w1))" if "v < tenantCount w" for v
    using c that reg_okD(3,4) [of "wTenants ?w1" v] by (intro reg_ok_set) simp_all
  then have "reg_ok (wTenants w')" using c x by (auto simp: w'(1) t2 ReleaseConn_def ctx_ok_def)
  moreover have "hubs_ok w' (L(k := None))"
  proof -
    have n: "tenantCount w' = tenantCount ?w1" by (simp add: tn)
    have "hubs_ok w' (L(k \<mapsto> ctx\<lparr>ctxPubSub := None\<rparr>))" using c unfolding hubs_ok_def ctx_ok_cong [OF n h] n h by blast
    then show ?thesis unfolding hubs_ok_def by (auto split: if_splits) (metis option.distinct(1) Context.select_convs)
  qed
  moreover have "slots_ok w' (L(k := None))"
  proof -
    have "ts.agrees (holders u (L(k := None))) (theTenant u (wTenants w'))" if "u < tenantCount w" for u
    proof -
      have "ts.agrees (holders u L) (theTenant u (wTenants ?w1))" using S that by (simp add: slots_ok_def ts.agrees_def)
      moreover have "holders u (L(k := None)) = holders u L - {k}" by (auto simp: holders_def)
      moreover have "k \<in> holders u L \<longleftrightarrow> BoundTenant ctx \<and> ctxTenant ctx = Some u" using L by (auto simp: holders_def)
      ultimately show ?thesis using ts.agrees_release tn(1) by (cases "k \<in> holders u L") auto
    qed
    then show ?thesis by (simp add: slots_ok_def tn)
  qed
  ultimately show ?thesis using w' tn(2) by (simp add: world_ok_def)
qed


lemma acceptConn_world:
  assumes ok: "world_ok w L" and L: "L k = None" and A: "acceptConn up k s w = (Some ctx, s', w')"
  shows "world_ok w' (L(k \<mapsto> ctx)) \<and> tenantCount w' = tenantCount w"
proof -
  have x: "ctx = newContext k (Suc (connSeq s))" and w: "wTenants w' = wTenants w"
    using A by (auto simp: acceptConn_def tryAddClient_def Let_def track_def split: if_splits)
  have "hubs_ok w (L(k \<mapsto> ctx))"
  proof -
    have "\<exists>k' ctx'. (L(k \<mapsto> ctx)) k' = Some ctx' \<and> ctxPubSub ctx' = Some (t, c)"
      if t: "t < tenantCount w" "InSubscribeMode c (hubOf t w)" for t c
    proof -
      obtain k' ctx' where "L k' = Some ctx'" "ctxPubSub ctx' = Some (t, c)"
        using ok t hubs_okD(2) unfolding world_ok_def by blast
      moreover from this have "k' \<noteq> k" using L by auto
      ultimately show ?thesis by (intro exI [of _ k'] exI [of _ ctx']) simp
    qed
    moreover have "ctx_ok w k ctx" by (simp add: x ctx_ok_def newContext_def)
    ultimately show ?thesis using ok hubs_okD(1) [of w L] by (auto simp: world_ok_def hubs_ok_def)
  qed
  moreover have "holders u (L(k \<mapsto> ctx)) = holders u L" for u using L by (auto simp: holders_def x newContext_def)
  ultimately have "world_ok w (L(k \<mapsto> ctx))" using ok by (simp add: world_ok_def slots_ok_def)
  then show ?thesis using w world_same [OF w] by simp
qed

lemma acceptConn_count:
  assumes "acceptConn up k s w = (r, s', w')"
  shows "wClients w' = wClients (snd (tryAddClient (oMaxClients (sOpts s)) w)) \<and> fst (tryAddClient (oMaxClients (sOpts s)) w) = (r \<noteq> None) \<and>
    sOpts s' = sOpts s \<and> sRegistry s' = sRegistry s \<and> set (sConns s') = (if r = None then set (sConns s) else insert k (set (sConns s)))"
  using assms by (auto simp: acceptConn_def Let_def track_def split: prod.splits bool.splits)

lemma acceptConn_refused: "acceptConn up k s w = (None, s', w') \<Longrightarrow> wTenants w' = wTenants w"
  by (auto simp: acceptConn_def Let_def tryAddClient_def split: if_splits)

lemma world_engine [simp]: "world_ok (w\<lparr>wEng := e, wDisk := d\<rparr>) L = world_ok w L" "world_ok (w\<lparr>wEng := e\<rparr>) L = world_ok w L"
  by (rule world_same, simp)+

lemma sys_okI:
  assumes "world_ok w L" "cs.agrees (dom L) (oMaxClients (sOpts s), w)" "set (sConns s) = dom L"
    "\<And>p t. regPolicy (sRegistry s) = Some p \<Longrightarrow> DefaultTenant p = Some t \<Longrightarrow> t < tenantCount w"
  shows "sys_ok \<lparr>yServer = s, yWorld = w, yLive = L\<rparr>"
  using assms by (simp add: sys_ok_def)

lemma sys_step_ok: "sys_step y y' \<Longrightarrow> sys_ok y \<Longrightarrow> sys_ok y'"
proof (induction rule: sys_step.induct)
  case (accepted y k up ctx s' w')
  have "cs.agrees (insert k (dom (yLive y))) (oMaxClients (sOpts (yServer y)), w')"
    using cs.agrees_acquire [of "dom (yLive y)" "(oMaxClients (sOpts (yServer y)), yWorld y)" k] accepted acceptConn_count [OF accepted(2)]
    by (simp add: sys_ok_def domIff cs.agrees_def)
  moreover have "world_ok w' ((yLive y)(k \<mapsto> ctx)) \<and> tenantCount w' = tenantCount (yWorld y)"
    using acceptConn_world [of "yWorld y" "yLive y" k up "yServer y" ctx s' w'] accepted by (simp add: sys_ok_def)
  ultimately show ?case
    using accepted acceptConn_count [OF accepted(2)] by (intro sys_okI) (auto simp: sys_ok_def)
next
  case (refused y k up s' w')
  have "cs.agrees (dom (yLive y)) (oMaxClients (sOpts (yServer y)), w')"
    using refused acceptConn_count [OF refused(2)] cs.acquire_cnt [of "(oMaxClients (sOpts (yServer y)), yWorld y)"]
    by (simp add: sys_ok_def cs.agrees_def)
  then show ?case
    using refused acceptConn_count [OF refused(2)] world_same [OF acceptConn_refused [OF refused(2)]]
      acceptConn_refused [OF refused(2)] by (simp add: sys_ok_def)
next
  case (served y k ctx pr en ev dur input ctx' rest w')
  then have h: "world_ok w' ((yLive y)(k \<mapsto> ctx'))" "tenantCount w' = tenantCount (yWorld y)" "wClients w' = wClients (yWorld y)"
    using handleStep_world [OF served(2), of "yLive y"] by (auto simp: sys_ok_def)
  then show ?case using served by (simp add: sys_ok_def insert_absorb domI cs.agrees_def)
next
  case (ended y k ctx pr en ev dur input ctx' rest w1 s' w')
  then have h: "world_ok w1 ((yLive y)(k \<mapsto> ctx'))" "tenantCount w1 = tenantCount (yWorld y)" "wClients w1 = wClients (yWorld y)"
    using handleStep_world [OF ended(2), of "yLive y"] by (auto simp: sys_ok_def)
  have T: "world_ok w' ((yLive y)(k := None))" "tenantCount w' = tenantCount w1" "wClients w' = wClients w1 - 1" "s' = untrack k (yServer y)"
    using teardown_world [OF h(1) fun_upd_same ended(3)] unfolding fun_upd_upd by blast+
  have "cs.agrees (dom (yLive y)) (oMaxClients (sOpts (yServer y)), yWorld y)" "k \<in> dom (yLive y)"
    using ended(1,4) by (auto simp: sys_ok_def)
  from cs.agrees_release [OF this] have "cs.agrees (dom (yLive y) - {k}) (oMaxClients (sOpts (yServer y)), w')"
    using T(3) h(3) by (simp add: cs.agrees_def releaseClient_def)
  then show ?case using ended(1,4) T h by (intro sys_okI) (auto simp: sys_ok_def untrack_def)
next
  case (swept t y ev now limit)
  have s: "dbStep t (yWorld y) (snd (onDB ev t (expireDue now limit) (yWorld y)))" by (rule onDB_step) (rule kept_expireDue)
  then show ?case using swept world_dbStep [OF _ swept(1) s] dbStep_frame(4) [OF s]
    by (auto simp: sys_ok_def cs.agrees_def dbStep_def)
next
  case (saved y e io perm now err e' d')
  then show ?case by (simp add: sys_ok_def cs.agrees_def)
next
  case (save_begun y e err e')
  then show ?case by (simp add: sys_ok_def cs.agrees_def)
next
  case (save_finished y e io payload err e' d')
  then show ?case by (simp add: sys_ok_def cs.agrees_def)
next
  case (closed y)
  then show ?case by (simp add: sys_ok_def CloseServer_def)
next
  case (stopped y err)
  then show ?case by (simp add: sys_ok_def acceptFailed_def)
qed

text \<open>A server before its first connection.\<close>

definition sys_init :: "Sys \<Rightarrow> bool" where
  "sys_init y \<longleftrightarrow> reg_ok (wTenants (yWorld y)) \<and> yLive y = Map.empty \<and> wClients (yWorld y) = 0 \<and> sConns (yServer y) = [] \<and>
     (\<forall>t < tenantCount (yWorld y). connCount (theTenant t (wTenants (yWorld y))) = 0 \<and> (\<forall>c. \<not> InSubscribeMode c (hubOf t (yWorld y)))) \<and>
     (\<forall>p t. regPolicy (sRegistry (yServer y)) = Some p \<longrightarrow> DefaultTenant p = Some t \<longrightarrow> t < tenantCount (yWorld y))"

lemma sys_init_ok: "sys_init y \<Longrightarrow> sys_ok y"
  by (auto simp: sys_init_def sys_ok_def world_ok_def hubs_ok_def slots_ok_def holders_def ts.agrees_def cs.agrees_def)

lemma sys_reach_ok: "sys_step\<^sup>*\<^sup>* y0 y \<Longrightarrow> sys_init y0 \<Longrightarrow> sys_ok y"
  by (induction rule: rtranclp_induct) (auto intro: sys_init_ok sys_step_ok)


section \<open>What a command writes to connections\<close>

lemma effect_out:
  "effect ctx w ctx' w' \<Longrightarrow> wOut w' = wOut w \<or>
     (\<exists>t up ch msg. ctxTenant ctx' = Some t \<and> wOut w' = snd (Publish up ch msg (hubOf t w) (wOut w)))"
proof (induction rule: effect.induct)
  case (data ctx t w w')
  then show ?case by (simp add: dbStep_def)
next
  case (published ctx t w up ch msg)
  then show ?case by auto
next
  case (subscribed ctx t w t1 c ctx1 w1 f m)
  then show ?case using ensurePubSubClient_spec [OF subscribed(2)] by auto
qed simp_all

lemma publish_recipient:
  assumes "snd (Publish up ch msg h out) k \<noteq> out k" "hub_ok h"
  shows "\<exists>c. InSubscribeMode c h \<and> clDeliver (clients h c) = k"
proof -
  let ?f = "filter (\<lambda>(c, p). reaches up h c \<and> clDeliver (clients h c) = k) (targets ch h)"
  have "?f \<noteq> []" using assms(1) by (auto simp: Publish_def publishLoop_spec)
  then obtain c p where "(c, p) \<in> set ?f" by (cases ?f) auto
  then have "clDeliver (clients h c) = k" "(c, p) \<in> set (targets ch h)" by auto
  then show ?thesis unfolding targets_set [OF assms(2)]
    by (auto simp: InSubscribeMode_def SubCount_def intro!: exI [of _ c] dest: length_pos_if_in_set)
qed

section \<open>Pipelining\<close>

text \<open>The commands of a connection one after the other, until one of them ends it.\<close>

fun runCommands ::
  "Server \<Rightarrow> (nat \<Rightarrow> Env) \<Rightarrow> (nat \<Rightarrow> duration) \<Rightarrow> nat \<Rightarrow> conn \<Rightarrow> Context \<Rightarrow> string list list \<Rightarrow> World \<Rightarrow> connEnd \<times> Context \<times> World" where
  "runCommands s evs durs i k ctx [] w = (Done, ctx, w)"
| "runCommands s evs durs i k ctx (args # cmds) w =
     (case serveCommand s (evs i) (durs i) k ctx args w of
        (Running, ctx1, w1) \<Rightarrow> runCommands s evs durs (Suc i) k ctx1 cmds w1
      | r \<Rightarrow> r)"

definition request :: "string list \<Rightarrow> string" where
  "request args = Write (Array (map BulkString args))"

definition requestable :: "string list \<Rightarrow> bool" where
  "requestable args \<longleftrightarrow> args \<noteq> [] \<and> encodable (Array (map BulkString args))"

lemma ReadCommand_request: "requestable args \<Longrightarrow> ReadCommand (request args @ rest) = (Inr args, rest)"
  by (simp add: ReadCommand_def request_def requestable_def Read_Write commandArgs_bulk del: Write.simps encodable.simps)

lemma ReadCommand_end: "ReadCommand [] = (Inl EOF, [])"
  by (simp add: ReadCommand_def Read_def)

lemma runCommands_done: "fst (runCommands s evs durs i k ctx cmds w) = Done"
proof (induction cmds arbitrary: i ctx w)
  case (Cons args cmds)
  have "fst (serveCommand s ev dur k ctx args w) \<noteq> Crashed" for ev dur by (simp add: serveCommand_def Let_def split_beta)
  then have "serveCommand s (evs i) (durs i) k ctx args w \<noteq> (Crashed, c1, w1)" for c1 w1 by (metis fst_conv)
  then show ?case using Cons by (auto split: prod.splits connEnd.splits)
qed simp

lemma connLoop_requests:
  "\<forall>args \<in> set cmds. requestable args \<Longrightarrow>
     connLoop pr PeerEOF s evs durs i k ctx (concat (map request cmds)) w = runCommands s evs durs i k ctx cmds w"
proof (induction cmds arbitrary: i ctx w)
  case Nil
  show ?case by (subst connLoop.simps) (simp add: handleStep_def ReadCommand_end isConnClosed_def)
next
  case (Cons args cmds)
  then show ?case
    by (subst connLoop.simps)
      (auto simp: handleStep_def ReadCommand_request split: prod.splits connEnd.splits)
qed

section \<open>Properties of the server\<close>

text \<open>C14: at any moment of any run of the server the number of open connections is what the global
  counter says and within the global limit, and the number of connections authenticated to a tenant
  is what its counter says and within its limit: no sequence of connects, refusals, AUTHs to other
  tenants, protocol errors and disconnects leaks or loses a slot.\<close>

theorem connection_limits:
  assumes "sys_init y0" "sys_step\<^sup>*\<^sup>* y0 y"
  shows "ClientCount (yWorld y) = int (card (dom (yLive y))) \<and>
    \<not> (0 < oMaxClients (sOpts (yServer y)) \<and> oMaxClients (sOpts (yServer y)) < int (card (dom (yLive y)))) \<and>
    (t < Len (wTenants (yWorld y)) \<longrightarrow>
       ConnCount (Some t) (wTenants (yWorld y)) = int (card (holders t (yLive y))) \<and>
       \<not> (0 < tMaxClients (theTenant t (wTenants (yWorld y))) \<and>
          tMaxClients (theTenant t (wTenants (yWorld y))) < int (card (holders t (yLive y)))))"
  using sys_reach_ok [OF assms(2,1)]
  by (auto simp: sys_ok_def world_ok_def slots_ok_def ts.agrees_def cs.agrees_def ClientCount_def Len_def ConnCount_def)

text \<open>C15: at any moment of any run every store satisfies its representation invariant, the maps of
  every hub agree with its clients, the tracked connections are the open ones, every client that
  still has a subscription belongs to an open connection, and the subscriber of an open connection
  is open, belongs to the hub of the tenant the connection is bound to, and writes to that connection.\<close>

theorem server_invariant:
  assumes "sys_init y0" "sys_step\<^sup>*\<^sup>* y0 y"
  shows "(t < Len (wTenants (yWorld y)) \<longrightarrow> db_ok (dbOf t (yWorld y)) \<and> hub_ok (hubOf t (yWorld y)) \<and>
      (InSubscribeMode c (hubOf t (yWorld y)) \<longrightarrow> (\<exists>k ctx. yLive y k = Some ctx \<and> ctxPubSub ctx = Some (t, c)))) \<and>
    set (sConns (yServer y)) = dom (yLive y) \<and>
    (yLive y k = Some ctx \<longrightarrow> ctxPubSub ctx = Some (t, c) \<longrightarrow> ctxTenant ctx = Some t \<and>
       clDeliver (clients (hubOf t (yWorld y)) c) = k \<and> \<not> clClosed (clients (hubOf t (yWorld y)) c))"
proof -
  have ok: "sys_ok y" by (rule sys_reach_ok [OF assms(2,1)])
  then have h: "hubs_ok (yWorld y) (yLive y)" and r: "reg_ok (wTenants (yWorld y))" by (simp_all add: sys_ok_def world_ok_def)
  show ?thesis
    using ok hubs_okD [OF h] reg_okD(3,4) [OF r] by (simp add: sys_ok_def Len_def dbOf_def hubOf_def ctx_ok_def)
qed

text \<open>C16: whatever command a connection sends, other connections are written to only when they are
  subscribed and bound to the same tenant: messages never cross tenants.\<close>

theorem messages_stay_in_tenant:
  assumes "sys_init y0" "sys_step\<^sup>*\<^sup>* y0 y" "yLive y k = Some ctx"
    and D: "Dispatch (sRegistry (yServer y)) ev ctx args (yWorld y) = (reply, ctx', w')"
  shows "wOut w' k' = wOut (yWorld y) k' \<or>
    (\<exists>ctx2. yLive y k' = Some ctx2 \<and> ctxTenant ctx2 = ctxTenant ctx' \<and> ctxInSubscribeMode ctx2 (yWorld y))"
proof (cases "wOut w' k' = wOut (yWorld y) k'")
  case ne: False
  let ?w = "yWorld y"
  have ok: "sys_ok y" by (rule sys_reach_ok [OF assms(2,1)])
  then have W: "world_ok ?w (yLive y)" by (simp add: sys_ok_def)
  obtain t up ch msg where t: "ctxTenant ctx' = Some t" and o: "wOut w' = snd (Publish up ch msg (hubOf t ?w) (wOut ?w))"
    using Dispatch_effect [OF D] effect_out [of ctx ?w ctx' w'] effect_out [of _ ?w ctx' w'] ne by metis
  have "world_ok w' ((yLive y)(k \<mapsto> ctx'))" using Dispatch_world [OF D W assms(3)] ok by (auto simp: sys_ok_def)
  then have "ctx_ok w' k ctx'" using hubs_okD(1) unfolding world_ok_def by fastforce
  then have lt: "t < tenantCount ?w" using t Dispatch_frame(1) [OF D] by (simp add: ctx_ok_def)
  have h: "hubs_ok ?w (yLive y)" and hk: "hub_ok (hubOf t ?w)"
    using W reg_okD(4) [OF _ lt] by (auto simp: world_ok_def hubOf_def)
  obtain c where c: "InSubscribeMode c (hubOf t ?w)" "clDeliver (clients (hubOf t ?w) c) = k'"
    using publish_recipient [OF _ hk] ne o by metis
  obtain k1 x where x: "yLive y k1 = Some x" "ctxPubSub x = Some (t, c)" using hubs_okD(2) [OF h lt c(1)] by blast
  have "ctx_ok ?w k1 x" by (rule hubs_okD(1) [OF h x(1)])
  then have "k1 = k'" "ctxTenant x = Some t" using x(2) c(2) by (auto simp: ctx_ok_def)
  then show ?thesis using x c(1) t by (auto simp: ctxInSubscribeMode_def)
qed simp

text \<open>C17: a connection that sends any number of commands back to back and then closes is served exactly
  these commands, in order, each with all its replies written before the next is dispatched, until one of them ends
  the connection.\<close>

theorem pipelined_commands:
  assumes "\<forall>args \<in> set cmds. args \<noteq> [] \<and> encodable (Array (map BulkString args))"
  shows "handleConn pr PeerEOF evs durs k ctx (concat (map (\<lambda>args. Write (Array (map BulkString args))) cmds)) s w =
    (case runCommands s evs durs 0 k ctx cmds w of (st, ctx1, w1) \<Rightarrow> (Done, teardown k ctx1 s w1))"
proof -
  have "map (\<lambda>args. Write (Array (map BulkString args))) cmds = map request cmds" by (simp add: request_def)
  moreover have "\<forall>args \<in> set cmds. requestable args" using assms by (simp add: requestable_def del: encodable.simps)
  ultimately have c: "connLoop pr PeerEOF s evs durs 0 k ctx (concat (map (\<lambda>args. Write (Array (map BulkString args))) cmds)) w =
      runCommands s evs durs 0 k ctx cmds w"
    using connLoop_requests by metis
  show ?thesis
    using runCommands_done [of s evs durs 0 k ctx cmds w] unfolding handleConn_def c by (auto split: prod.splits)
qed

section \<open>A concrete run\<close>

definition sampleServer :: Server where
  "sampleServer = NewWithOptions '':6379'' (allCommands (NewPolicy False (Some 0) []) sampleRuntime)
     \<lparr>oMaxClients = 2, oIdleTimeout = 0, oReadTimeout = 0, oLogCommands = False\<rparr>"

definition sampleSys :: Sys where
  "sampleSys = \<lparr>yServer = sampleServer, yWorld = sampleWorld, yLive = Map.empty\<rparr>"

lemma sampleServer_facts:
  "sConns sampleServer = []" "oMaxClients (sOpts sampleServer) = 2" "connSeq sampleServer = 0"
  "sRegistry sampleServer = allCommands (NewPolicy False (Some 0) []) sampleRuntime"
  by (simp_all add: sampleServer_def NewWithOptions_def NewServer_def Let_def)

lemma sample_fresh_hub: "\<not> InSubscribeMode c (tPubSub (newTenant x g))" "connCount (newTenant x g) = 0"
  by (simp_all add: newTenant_def Let_def NewHub_def InSubscribeMode_def SubCount_def noClient_def)

lemma sampleSys_init: "sys_init sampleSys"
proof -
  have "t = 0 \<or> t = 1" if "t < tenantCount sampleWorld" for t
    using that by (auto simp: sampleWorld_def sampleReg_facts less_2_cases_iff)
  moreover have "connCount (theTenant t sampleReg) = 0 \<and> \<not> InSubscribeMode c (tPubSub (theTenant t sampleReg))" if "t = 0 \<or> t = 1" for t c
    using that by (elim disjE) (simp_all only: sampleReg_facts(5,6) sample_fresh_hub simp_thms)
  ultimately show ?thesis
    by (auto simp: sys_init_def sampleSys_def sampleServer_facts hubOf_def sampleWorld_def sampleReg_facts NewPolicy_def)
qed

definition sampleSys1 :: Sys where
  "sampleSys1 = \<lparr>yServer = (track 1 sampleServer)\<lparr>connSeq := 1\<rparr>, yWorld = sampleWorld\<lparr>wClients := 1\<rparr>, yLive = [1 \<mapsto> newContext 1 1]\<rparr>"

lemma sampleSys1_reach: "sys_step\<^sup>*\<^sup>* sampleSys sampleSys1"
proof -
  have "acceptConn (\<lambda>_. True) 1 (yServer sampleSys) (yWorld sampleSys) =
    (Some (newContext 1 1), (track 1 sampleServer)\<lparr>connSeq := 1\<rparr>, sampleWorld\<lparr>wClients := 1\<rparr>)"
    by (simp add: acceptConn_def sampleSys_def sampleServer_facts tryAddClient_def sampleWorld_def track_def withMetrics_def Let_def)
  then have "sys_step sampleSys sampleSys1"
    using accepted [of sampleSys 1 "\<lambda>_. True"] by (simp add: sampleSys_def sampleSys1_def)
  then show ?thesis by blast
qed

theorem connection_limits_witness:
  "ClientCount (yWorld sampleSys1) = 1 \<and> ConnCount (Some 1) (wTenants (yWorld sampleSys1)) = 0"
proof -
  have "dom (yLive sampleSys1) = {1}" "holders 1 (yLive sampleSys1) = {}" "1 < Len (wTenants (yWorld sampleSys1))"
    by (auto simp: sampleSys1_def holders_def newContext_def Len_def sampleWorld_def sampleReg_facts)
  with connection_limits [OF sampleSys_init sampleSys1_reach, of 1] show ?thesis by simp
qed

theorem server_invariant_witness:
  "db_ok (dbOf 1 (yWorld sampleSys1)) \<and> set (sConns (yServer sampleSys1)) = {1}"
proof -
  have "dom (yLive sampleSys1) = {1}" "1 < Len (wTenants (yWorld sampleSys1))"
    by (simp_all add: sampleSys1_def Len_def sampleWorld_def sampleReg_facts)
  with server_invariant [OF sampleSys_init sampleSys1_reach, of 1] show ?thesis by simp
qed

theorem messages_stay_in_tenant_witness:
  "wOut (snd (snd (Dispatch (sRegistry (yServer sampleSys1)) (sampleEnv 10) (newContext 1 1) [''PUBLISH'', ''news'', ''hi''] (yWorld sampleSys1)))) 2 =
    wOut (yWorld sampleSys1) 2"
proof -
  obtain v c w where D: "Dispatch (sRegistry (yServer sampleSys1)) (sampleEnv 10) (newContext 1 1) [''PUBLISH'', ''news'', ''hi''] (yWorld sampleSys1) = (v, c, w)"
    by (metis prod.collapse)
  have l: "yLive sampleSys1 1 = Some (newContext 1 1)" "yLive sampleSys1 2 = None" by (simp_all add: sampleSys1_def)
  show ?thesis using messages_stay_in_tenant [OF sampleSys_init sampleSys1_reach l(1) D, of 2] l(2) unfolding D by simp
qed

theorem pipelined_commands_witness:
  "fst (handleConn (\<lambda>_. True) PeerEOF (\<lambda>_. sampleEnv 10) (\<lambda>_. 5) 1 (newContext 1 1)
     (concat (map (\<lambda>args. Write (Array (map BulkString args))) [[''PING''], [''SET'', ''k'', ''v''], [''QUIT'']])) sampleServer sampleWorld) = Done"
  by (subst pipelined_commands) (simp_all add: maxAlloc_def sizeofValue_def split: prod.splits)

end
