(* ===== verification/MainProg.thy ===== *)
theory MainProg
  imports ConfigFile ServerProps
begin

text \<open>
  \<^verbatim>\<open>main.go\<close> from the configuration to the server that accepts connections, and the HTTP endpoints of
  \<^verbatim>\<open>internal/server/httpops.go\<close>. Flags, signals, logging and the HTTP server itself are not modelled.
\<close>

section \<open>Start-up\<close>

datatype bootErr = BadConfig configErr | BadTenants tenantErr | OpenFailed persistErr | LoadFailed persistErr | BadTLS configErr

record BootEnv =
  bePrintable :: "nat \<Rightarrow> bool"
  beRandom :: "nat \<Rightarrow> rng"
  beIO :: IO
  beLoad :: LoadEnv
  beTLS :: TLSFiles
  beNow :: gotime

definition runtimeInfo :: "string \<Rightarrow> ServerConfig \<Rightarrow> Engine \<Rightarrow> bool \<Rightarrow> bool \<Rightarrow> gotime \<Rightarrow> RuntimeInfo" where
  "runtimeInfo addr sc e tlsOn requireAuth start =
     \<lparr>riPersistMode = Mode e, riPersistDir = pcDir (Persistence sc), riAOFFsync = pcAOFFsync (Persistence sc),
      riMaxClients = scMaxClients (Security sc), riAddr = addr, riStartTime = start, riTLSEnabled = tlsOn,
      riProfile = (if Profile (Security sc) = [] then ''protected'' else Profile (Security sc)), riRequireAuth = requireAuth\<rparr>"

definition serverOptions :: "ServerConfig \<Rightarrow> Options" where
  "serverOptions sc =
     \<lparr>oMaxClients = scMaxClients (Security sc),
      oIdleTimeout = (if 0 < IdleTimeoutSec (Security sc) then wrap64 (IdleTimeoutSec (Security sc) * second) else 0),
      oReadTimeout = 0, oLogCommands = obLogCommands (Observability sc)\<rparr>"

text \<open>The default tenant is the first one, when authentication is not required.\<close>

definition defaultTenantOf :: "bool \<Rightarrow> tenRegistry \<Rightarrow> tref option" where
  "defaultTenantOf requireAuth r = (if \<not> requireAuth \<and> 0 < length (All r) then Some (All r ! 0) else None)"

text \<open>What runs once the stores are loaded: policy, commands, options, server.\<close>

definition assemble :: "BootEnv \<Rightarrow> string \<Rightarrow> ServerConfig \<Rightarrow> Engine \<Rightarrow> Disk \<Rightarrow> tenRegistry \<Rightarrow> bootErr + Server \<times> World" where
  "assemble env addr sc e d r =
     (let requireAuth = resolveRequireAuth (Security sc);
          pol = NewPolicy requireAuth (defaultTenantOf requireAuth r) (DenyCommands (Security sc))
      in case loadTLSConfig (beTLS env) (Security sc) of
           Inl err \<Rightarrow> Inl (BadTLS err)
         | Inr tls \<Rightarrow>
             Inr (NewWithOptions addr (allCommands pol (runtimeInfo addr sc e (tls \<noteq> None) requireAuth (beNow env))) (serverOptions sc),
                  \<lparr>wTenants = r, wEng = Some e, wDisk = d, wOut = (\<lambda>_. []), wBgSaves = 0, wMetrics = Some (NewCollector (beNow env)), wClients = 0\<rparr>))"

definition boot :: "BootEnv \<Rightarrow> string \<Rightarrow> ServerConfig \<Rightarrow> Disk \<Rightarrow> bootErr + Server \<times> World" where
  "boot env addr sc0 d0 =
     (case parseLogLevel (LogLevel (Observability sc0)) of
        Inl err \<Rightarrow> Inl (BadConfig err)
      | Inr level \<Rightarrow>
          let (warnings, sc) = capTenantMaxClients (bePrintable env) sc0 in
          case NewRegistry (beRandom env) (toTenantConfigs (Tenants sc)) of
            Inl err \<Rightarrow> Inl (BadTenants err)
          | Inr r0 \<Rightarrow>
              (case Open (beIO env) (NewEngine (persistConfigFrom (Persistence sc)), d0) of
                 (Some err, _) \<Rightarrow> Inl (OpenFailed err)
               | (None, (e1, d1)) \<Rightarrow>
                   (case Load (beLoad env) d1 e1 r0 of
                      (Some err, _) \<Rightarrow> Inl (LoadFailed err)
                    | (None, (e2, r1)) \<Rightarrow> assemble env addr sc e2 d1 (AttachSinks e2 r1))))"

section \<open>HTTP endpoints (httpops.go)\<close>

record HTTPOps =
  hMaxClients :: int
  hReadyFunc :: "bool option"
  hReadyFlag :: "bool option"

record Response =
  rsStatus :: nat
  rsBody :: string

definition handleHealthz :: Response where
  "handleHealthz = \<lparr>rsStatus = 200, rsBody = ''ok'' @ LF\<rparr>"

text \<open>\<^verbatim>\<open>http.Error\<close> adds a newline.\<close>

definition handleReadyz :: "HTTPOps \<Rightarrow> Response" where
  "handleReadyz h =
     (let ok = (case hReadyFunc h of Some b \<Rightarrow> b | None \<Rightarrow> (case hReadyFlag h of Some b \<Rightarrow> b | None \<Rightarrow> True))
      in if \<not> ok then \<lparr>rsStatus = 503, rsBody = ''not ready'' @ LF @ LF\<rparr> else \<lparr>rsStatus = 200, rsBody = ''ok'' @ LF\<rparr>)"

definition tenantStat :: "Tenant \<Rightarrow> TenantStat" where
  "tenantStat t =
     (let (u, mx, keys, hi, mi, ev) = Stats (tDB t)
      in \<lparr>tsName = tName t, tsUsedMemory = u, tsMaxMemory = mx, tsKeys = keys, tsHits = hi, tsMisses = mi, tsEvictions = ev, tsConnCount = connCount t\<rparr>)"

definition handleMetrics :: "(nat \<Rightarrow> bool) \<Rightarrow> int \<Rightarrow> gotime \<Rightarrow> HTTPOps \<Rightarrow> World \<Rightarrow> Response" where
  "handleMetrics pr up now h w =
     (let coll = (case wMetrics w of Some c \<Rightarrow> c | None \<Rightarrow> NewCollector now)
      in \<lparr>rsStatus = 200, rsBody = WritePrometheus pr up (ClientCount w) (hMaxClients h)
            (map (\<lambda>t. tenantStat (theTenant t (wTenants w))) (All (wTenants w))) coll\<rparr>)"

section \<open>Loading keeps the registry sound\<close>

text \<open>A registry that differs only in its stores.\<close>

definition storesOnly :: "tenRegistry \<Rightarrow> tenRegistry \<Rightarrow> bool" where
  "storesOnly r r' \<longleftrightarrow> (reg_ok r \<longrightarrow> reg_ok r') \<and> Len r' = Len r \<and>
     (\<forall>t < Len r. tPubSub (theTenant t r') = tPubSub (theTenant t r) \<and> connCount (theTenant t r') = connCount (theTenant t r) \<and>
        tMaxClients (theTenant t r') = tMaxClients (theTenant t r))"

lemma storesOnly_refl: "storesOnly r r"
  by (simp add: storesOnly_def)

lemma storesOnly_trans: "storesOnly r r1 \<Longrightarrow> storesOnly r1 r2 \<Longrightarrow> storesOnly r r2"
  by (simp add: storesOnly_def)

lemma storesOnly_setDB:
  assumes "db_ok (tDB (theTenant t r)) \<Longrightarrow> db_ok db" "t < Len r"
  shows "storesOnly r (setDB t db r)"
proof -
  have "reg_ok (setDB t db r)" if ok: "reg_ok r"
    unfolding setDB_def using assms reg_okD(3,4) [OF ok] by (intro reg_ok_set [OF ok]) (auto simp: Len_def)
  then show ?thesis by (simp add: storesOnly_def Len_def)
qed

lemma getTenant_range: "reg_ok r \<Longrightarrow> getTenant n r = Some t \<Longrightarrow> t < Len r"
  using reg_okD(2) by (simp add: getTenant_def Len_def)

lemma loadTenants_stores: "reg_ok r \<Longrightarrow> storesOnly r (snd (loadTenants env i sts r))"
proof (induction sts arbitrary: i r)
  case (Cons st sts)
  show ?case
  proof (cases "getTenant (sanitize (stName st)) r")
    case None
    then show ?thesis using Cons by simp
  next
    case (Some t)
    obtain now nows clocks where l: "leSnap env i = (now, nows, clocks)" by (metis prod.collapse)
    obtain err db where R: "LoadRecords (lePerm env) (map decodeRecord (stKeys st)) now nows clocks (tDB (theTenant t r)) = (err, db)" by fastforce
    have s: "storesOnly r (setDB t db r)"
      using kept_LoadRecords [of "tDB (theTenant t r)" "lePerm env" "map decodeRecord (stKeys st)" now nows clocks] R getTenant_range [OF Cons.prems Some]
      by (intro storesOnly_setDB) (simp_all add: kept_def)
    then have "storesOnly (setDB t db r) (snd (loadTenants env (Suc i) sts (setDB t db r)))" using Cons by (simp add: storesOnly_def)
    then show ?thesis using s storesOnly_trans Some l R by (auto simp: split: option.splits)
  qed
qed (simp add: storesOnly_refl)

lemma applyAOF_ok: "db_ok d \<Longrightarrow> db_ok (snd (applyAOF perm rd l d))"
proof -
  assume ok: "db_ok d"
  let ?opt = "if 0 < aExp l then noOptions\<lparr>HasExpireAt := True, ExpireAt := timeUnix (aExp l)\<rparr> else noOptions"
  obtain x d1 where S: "Set (aKey l) (aValue l) ?opt (rdA rd) (rdClock rd) d = (x, d1)" by fastforce
  have d1: "db_ok d1" using kept_Set [OF ok, of "aKey l" "aValue l" ?opt "rdA rd" "rdClock rd"] S by (simp add: kept_def)
  have k: "db_ok (snd (Del ks now d))" "db_ok (snd (Expire key dur now0 now d))" "db_ok (snd (Persist key now d))" "db_ok (snd (FlushDB perm d))"
    for ks key dur now0 now
    using kept_Del [OF ok] kept_Expire [OF ok] kept_Persist [OF ok] kept_FlushDB [OF ok] by (simp_all add: kept_def)
  show ?thesis unfolding applyAOF_def Let_def S using ok d1 k by (cases x) (simp_all del: Del.simps)
qed

lemma loadLines_stores: "reg_ok r \<Longrightarrow> storesOnly r (snd (loadLines env i es r))"
proof (induction env i es r rule: loadLines.induct)
  case (3 env i l es r)
  show ?case
  proof (cases "maxLine < length (encodeLine l) + 1")
    case False
    show ?thesis
    proof (cases "getTenant (aTenant (decodeLine l)) r")
      case None
      then show ?thesis using 3 False by (simp add: Let_def)
    next
      case (Some t)
      obtain err db where A: "applyAOF (lePerm env) (leLine env i) (decodeLine l) (tDB (theTenant t r)) = (err, db)" by fastforce
      have s: "storesOnly r (setDB t db r)"
        using applyAOF_ok [of "tDB (theTenant t r)" "lePerm env" "leLine env i" "decodeLine l"] A getTenant_range [OF 3(3) Some]
        by (intro storesOnly_setDB) simp_all
      show ?thesis
      proof (cases err)
        case None
        then have "storesOnly (setDB t db r) (snd (loadLines env (Suc i) es (setDB t db r)))"
          using 3(2) [OF False refl Some] A s 3(3) by (simp add: storesOnly_def)
        then show ?thesis using s storesOnly_trans Some A None False by (auto simp: Let_def)
      qed (use s Some A False in \<open>simp add: Let_def\<close>)
    qed
  qed (simp add: storesOnly_refl)
qed (simp_all add: storesOnly_refl)

lemma loadSnapshot_stores:
  assumes "loadSnapshot env d e r = (err, e', r')" "reg_ok r"
  shows "storesOnly r r'"
proof -
  have "loadTenants env 0 p r = (x, r1) \<Longrightarrow> storesOnly r r1" for p x r1
    using loadTenants_stores [OF assms(2), of env 0 p] by simp
  then show ?thesis
    using assms(1) storesOnly_refl by (auto simp: loadSnapshot_def split: option.splits snapImage.splits snapBody.splits if_splits prod.splits)
qed

lemma loadAOF_stores: "loadAOF env d r = (err, r') \<Longrightarrow> reg_ok r \<Longrightarrow> storesOnly r r'"
  using loadLines_stores [of r env 0] by (auto simp: loadAOF_def storesOnly_refl split: option.splits) (metis snd_conv)

lemma Load_stores:
  assumes "Load env d e r = (err, e', r')" "reg_ok r"
  shows "storesOnly r r'"
proof -
  obtain x e1 r1 where s: "loadSnapshot env d e r = (x, e1, r1)" by (metis prod.collapse)
  note r1 = loadSnapshot_stores [OF s assms(2)]
  then have ok1: "reg_ok r1" using assms(2) by (simp add: storesOnly_def)
  obtain y r2 where a: "loadAOF env d r1 = (y, r2)" by fastforce
  obtain z r3 where b: "loadAOF env d r = (z, r3)" by fastforce
  note r2 = storesOnly_trans [OF r1 loadAOF_stores [OF a ok1]] and r3 = loadAOF_stores [OF b assms(2)]
  show ?thesis using assms(1) s a b r1 r2 r3 storesOnly_refl by (auto simp: Load_def Let_def split: if_splits)
qed

lemma AttachSinks_stores: "storesOnly r (AttachSinks e r)"
proof (cases "hasAOF e")
  case True
  let ?r = "AttachSinks e r"
  have o: "order ?r = map (\<lambda>x. x\<lparr>tDB := SetMutationSink (Some []) (tDB x)\<rparr>) (order r)" "byName ?r = byName r" using True by (simp_all add: AttachSinks_def)
  have th: "theTenant t ?r = (theTenant t r)\<lparr>tDB := SetMutationSink (Some []) (tDB (theTenant t r))\<rparr>" if "t < length (order r)" for t
    using that by (simp add: theTenant_def o)
  have "reg_ok ?r" if ok: "reg_ok r"
    unfolding reg_ok_def using reg_okD [OF ok] th kept_SetMutationSink [of _ "Some []"]
    by (auto simp: o comp_def kept_def)
  then show ?thesis using th by (simp add: storesOnly_def Len_def o)
qed (simp add: AttachSinks_def storesOnly_refl)

section \<open>Properties of the configuration\<close>

lemma validateTenants_all: "validateTenants cs = None \<longleftrightarrow> (\<forall>c \<in> set cs. validateTenant c = None)"
  by (induction cs) (auto split: option.splits)

lemma validate_tenant:
  assumes "validate sc = None" "c \<in> set (Tenants sc)"
  shows "validateTenant c = None"
  using assms by (auto simp: validate_def Let_def validateTenants_all split: if_splits sum.splits)

lemma evictionFromConfig_policy: "validateTenant c = None \<Longrightarrow> evictionFromConfig c \<in> set allPolicies"
proof -
  assume v: "validateTenant c = None"
  obtain p ok where P: "ParseEvictionPolicy (tcEvictionPolicy c) = (p, ok)" by fastforce
  show ?thesis
  proof (cases "tcEvictionPolicy c = []")
    case True
    have "TrimSpace [] = []" "ToLower [] = []" by (simp_all add: TrimSpace_def dropPrefixes_id)
    then show ?thesis using True by (simp add: evictionFromConfig_def ParseEvictionPolicy_def sample_allLRU)
  next
    case False
    then have ok using v P by (auto simp: validateTenant_def split: if_splits)
    then show ?thesis using ParseEvictionPolicy_range P by (simp add: evictionFromConfig_def)
  qed
qed



section \<open>From start-up to the state machine\<close>

lemma cap_store: "storeConfig (toTenantConfig (t\<lparr>tcMaxClients := g\<rparr>)) = storeConfig (toTenantConfig t)"
  by (simp add: storeConfig_def toTenantConfig_def evictionFromConfig_def)

lemma capped:
  assumes "capTenantMaxClients pr sc0 = (ws, sc)"
  shows "length (Tenants sc) = length (Tenants sc0)" "Security sc = Security sc0"
    "i < length (Tenants sc0) \<Longrightarrow> storeConfig (toTenantConfig (Tenants sc ! i)) = storeConfig (toTenantConfig (Tenants sc0 ! i))"
    "i < length (Tenants sc0) \<Longrightarrow> 0 < scMaxClients (Security sc0) \<Longrightarrow> tcMaxClients (Tenants sc ! i) \<le> scMaxClients (Security sc0)"
  using assms by (auto simp: capTenantMaxClients_def Let_def cap_store split: if_splits)

lemma defaultTenantOf_range: "defaultTenantOf b r = Some t \<Longrightarrow> t < Len r"
  by (auto simp: defaultTenantOf_def All_def Len_def split: if_splits)

lemma boot_init:
  assumes "boot env addr sc d = Inr (s, w)" "\<forall>c \<in> set (Tenants sc). sane (storeConfig (toTenantConfig c))"
  shows "sys_init \<lparr>yServer = s, yWorld = w, yLive = Map.empty\<rparr> \<and> oMaxClients (sOpts s) = scMaxClients (Security sc) \<and>
    Len (wTenants w) = length (Tenants sc) \<and>
    (t < Len (wTenants w) \<longrightarrow> 0 < scMaxClients (Security sc) \<longrightarrow> tMaxClients (theTenant t (wTenants w)) \<le> scMaxClients (Security sc))"
proof -
  obtain ws sc1 where cap: "capTenantMaxClients (bePrintable env) sc = (ws, sc1)" by fastforce
  obtain r0 e1 d1 e2 r1 where N: "NewRegistry (beRandom env) (toTenantConfigs (Tenants sc1)) = Inr r0"
    and L: "Load (beLoad env) d1 e1 r0 = (None, e2, r1)" and A: "assemble env addr sc1 e2 d1 (AttachSinks e2 r1) = Inr (s, w)"
    using assms(1) cap by (auto simp: boot_def split: sum.splits prod.splits option.splits)
  note c = capped [OF cap]
  have "sane (storeConfig (toTenantConfig (Tenants sc ! i)))" if "i < length (Tenants sc)" for i using assms(2) that by simp
  then have sane: "\<forall>x \<in> set (toTenantConfigs (Tenants sc1)). sane (storeConfig x)"
    using c(1,3) by (auto simp: toTenantConfigs_def in_set_conv_nth)
  note n = NewRegistry_tenants [OF N sane]
  have so: "storesOnly r0 (AttachSinks e2 r1)" using storesOnly_trans [OF Load_stores [OF L n(1)] AttachSinks_stores] .
  let ?r = "AttachSinks e2 r1"
  have r: "reg_ok ?r" "Len ?r = length (Tenants sc)" using so n c(1) by (simp_all add: storesOnly_def Len_def toTenantConfigs_def)
  have t: "\<not> InSubscribeMode cl (tPubSub (theTenant u ?r))" "connCount (theTenant u ?r) = 0"
    "tMaxClients (theTenant u ?r) = tcMaxClients (Tenants sc1 ! u)" if "u < Len ?r" for u cl
    using so n(2) n(3) [of u] that r(2) c(1)
    by (simp_all add: storesOnly_def Len_def toTenantConfigs_def sample_fresh_hub newTenant_def Let_def toTenantConfig_def NewHub_def
        InSubscribeMode_def SubCount_def noClient_def)
  have w: "wTenants w = ?r" "wClients w = 0" and s: "sConns s = []" "oMaxClients (sOpts s) = scMaxClients (Security sc1)"
    and pol: "\<And>p t. regPolicy (sRegistry s) = Some p \<Longrightarrow> DefaultTenant p = Some t \<Longrightarrow> t < Len ?r"
    using A defaultTenantOf_range
    by (auto simp: assemble_def Let_def NewWithOptions_def NewServer_def serverOptions_def NewPolicy_def split: sum.splits)
  have "sys_init \<lparr>yServer = s, yWorld = w, yLive = Map.empty\<rparr>"
    using r t w s pol by (auto simp: sys_init_def Len_def hubOf_def)
  then show ?thesis using w s c r t(3) by auto
qed

text \<open>C36: when the program starts, whatever configuration and whatever files it finds, the server it brings up has no
  connection, no slot in use and no subscription, every store loaded and satisfying its invariant, the
  configured global limit, no tenant limit above it, and a default tenant only among its own.\<close>

theorem boot_starts_clean:
  assumes "boot env addr sc d = Inr (s, w)" "\<forall>c \<in> set (Tenants sc). sane (storeConfig (toTenantConfig c))"
  shows "sys_init \<lparr>yServer = s, yWorld = w, yLive = Map.empty\<rparr> \<and> oMaxClients (sOpts s) = scMaxClients (Security sc) \<and>
    Len (wTenants w) = length (Tenants sc) \<and>
    (t < Len (wTenants w) \<longrightarrow> 0 < scMaxClients (Security sc) \<longrightarrow> tMaxClients (theTenant t (wTenants w)) \<le> scMaxClients (Security sc))"
  by (rule boot_init [OF assms])

section \<open>A concrete configuration\<close>

definition demoTenant :: "string \<Rightarrow> TenantConfig" where
  "demoTenant n = \<lparr>tcName = n, tcPassword = ''s'', tcAppId = 1, tcMaxMemory = 1000, tcEvictionPolicy = [], tcMaxTTL = 0, tcShardCount = 2,
     tcShardingStrategy = 0, tcMaxClients = 0, tcDisabled = False\<rparr>"

definition demoConfig :: ServerConfig where
  "demoConfig = bareConfig [demoTenant ''a'', demoTenant ''b'']"

definition demoBoot :: BootEnv where
  "demoBoot = \<lparr>bePrintable = (\<lambda>_. True), beRandom = (\<lambda>_. plainRng), beIO = ioFine 0,
     beLoad = \<lparr>lePerm = rev, leSnap = (\<lambda>_. (0, (\<lambda>_. 0), (\<lambda>_ _ _. 0))), leLine = (\<lambda>_. \<lparr>rdA = 0, rdB = 0, rdC = 0, rdClock = (\<lambda>_ _. 0)\<rparr>)\<rparr>,
     beTLS = \<lparr>keyPair = None, caRead = None, caParsed = True\<rparr>, beNow = 0\<rparr>"

lemma demo_parse: "parseLogLevel [] = Inr LevelInfo" "ParseMode ''none'' = (ModeNone, True)" "ToLower ''local'' = ''local''"
proof -
  have "TrimSpace [] = []" by (simp add: TrimSpace_def dropPrefixes_id)
  then show "parseLogLevel [] = Inr LevelInfo" by (simp add: parseLogLevel_def)
  have "TrimSpace ''none'' = ''none''" "ToLower ''none'' = ''none''"
    by (rule TrimSpace_lowerName ToLower_lowerName, simp add: lowerName_def)+
  then show "ParseMode ''none'' = (ModeNone, True)" by (simp add: ParseMode_def mode_defs)
  show "ToLower ''local'' = ''local''" by (rule ToLower_lowerName) (simp add: lowerName_def)
qed

lemma demo_valid: "validate demoConfig = None"
  by (simp add: validate_def demoConfig_def bareConfig_def Let_def demo_parse validateTenant_def demoTenant_def del: ToLower.simps)


theorem boot_starts_clean_witness:
  "\<exists>s w. boot demoBoot '':9001'' demoConfig \<lparr>dAof = None, dSnap = None, dSnapTime = 0\<rparr> = Inr (s, w) \<and>
     sys_init \<lparr>yServer = s, yWorld = w, yLive = Map.empty\<rparr>"
proof -
  let ?cs = "toTenantConfigs (Tenants demoConfig)" and ?d = "\<lparr>dAof = None, dSnap = None, dSnapTime = 0\<rparr>"
  have cs: "Tenants demoConfig = [demoTenant ''a'', demoTenant ''b'']" by (simp add: demoConfig_def bareConfig_def)
  have sane: "\<forall>c \<in> set (Tenants demoConfig). sane (storeConfig (toTenantConfig c))"
    by (simp add: cs sane_def storeConfig_def toTenantConfig_def demoTenant_def strategy_defs)
  have "acceptable ?cs" by (simp add: cs acceptable_def toTenantConfigs_def toTenantConfig_def demoTenant_def)
  then obtain r where r: "NewRegistry (beRandom demoBoot) ?cs = Inr r"
    using NewRegistry_spec [of ?cs "beRandom demoBoot"] sane by (cases "NewRegistry (beRandom demoBoot) ?cs") (auto simp: toTenantConfigs_def)
  have sec: "Security demoConfig = Security (bareConfig [])" "Persistence demoConfig = Persistence (bareConfig [])"
    "LogLevel (Observability demoConfig) = []" by (simp_all add: demoConfig_def bareConfig_def)
  have cap: "capTenantMaxClients (bePrintable demoBoot) demoConfig = ([], demoConfig)"
    by (simp add: capTenantMaxClients_def sec bareConfig_def)
  have m: "Mode (NewEngine (persistConfigFrom (Persistence demoConfig))) = ModeNone"
    using demo_parse(2) by (simp add: sec bareConfig_def persistConfigFrom_def NewEngine_def Mode_def Let_def)
  then obtain s w where b: "boot demoBoot '':9001'' demoConfig ?d = Inr (s, w)"
    by (simp add: boot_def sec(3) demo_parse(1) cap r Open_def Load_def assemble_def Let_def loadTLSConfig_def) (simp add: sec bareConfig_def)
  with boot_starts_clean [OF b sane, of 0] show ?thesis by blast
qed

end
