(* ===== verification/PersistProps.thy ===== *)
theory PersistProps
  imports CommandProps
begin

text \<open>
  What the files of the persistence engine mean, and what saving and loading preserve. A log is a
  sequence of operations on single keys; the data set it describes is obtained by
  replaying it in order.
\<close>

section \<open>Replaying a log\<close>

type_synonym dataset = "string \<Rightarrow> string \<Rightarrow> (string \<times> int) option"

text \<open>What a line does to one key: nothing, a new content, or a new deadline for the content.\<close>

datatype keyOp = Keep | Put "(string \<times> int) option" | Stamp int

fun actOn :: "keyOp \<Rightarrow> (string \<times> int) option \<Rightarrow> (string \<times> int) option" where
  "actOn Keep x = x"
| "actOn (Put v) x = v"
| "actOn (Stamp e) x = map_option (\<lambda>(v, _). (v, e)) x"

definition keyOpOf :: "aofLine \<Rightarrow> string \<Rightarrow> string \<Rightarrow> keyOp" where
  "keyOpOf l t k =
     (if aTenant l \<noteq> t then Keep
      else if aOp l = ''SET'' then (if aKey l = k then Put (Some (aValue l, max 0 (aExp l))) else Keep)
      else if aOp l = ''DEL'' then (if k \<in> set (if aKeys l \<noteq> [] then aKeys l else if aKey l \<noteq> [] then [aKey l] else []) then Put None else Keep)
      else if aOp l = ''EXPIRE'' then (if aKey l = k \<and> 0 < aExp l then Stamp (aExp l) else Keep)
      else if aOp l = ''PERSIST'' then (if aKey l = k then Stamp 0 else Keep)
      else if aOp l = ''FLUSHDB'' then Put None
      else Keep)"

definition replay :: "aofLine list \<Rightarrow> dataset \<Rightarrow> dataset" where
  "replay ls m t k = fold (\<lambda>l. actOn (keyOpOf l t k)) ls (m t k)"

definition noData :: dataset where
  "noData t k = None"

lemma replay_append: "replay (xs @ ys) m = replay ys (replay xs m)"
  by (simp add: replay_def fun_eq_iff)

lemma replay_Nil [simp]: "replay [] m = m"
  by (simp add: replay_def fun_eq_iff)

text \<open>Operations on one key compose to one operation, which is idempotent.\<close>

fun thenOp :: "keyOp \<Rightarrow> keyOp \<Rightarrow> keyOp" where
  "thenOp a Keep = a"
| "thenOp a (Put v) = Put v"
| "thenOp Keep (Stamp e) = Stamp e"
| "thenOp (Put v) (Stamp e) = Put (actOn (Stamp e) v)"
| "thenOp (Stamp _) (Stamp e) = Stamp e"

lemma actOn_thenOp: "actOn (thenOp a b) x = actOn b (actOn a x)"
  by (cases "(a, b)" rule: thenOp.cases; cases x) auto

lemma actOn_idem: "actOn a (actOn a x) = actOn a x"
  by (cases a; cases x) auto

lemma actOn_fold: "fold (\<lambda>l. actOn (f l)) ls x = actOn (fold (\<lambda>l a. thenOp a (f l)) ls Keep) x"
proof -
  have "actOn (fold (\<lambda>l a. thenOp a (f l)) ls b) x = fold (\<lambda>l. actOn (f l)) ls (actOn b x)" for b
    by (induction ls arbitrary: b) (simp_all add: actOn_thenOp)
  from this [of Keep] show ?thesis by simp
qed

text \<open>Replaying a log over a state that already has a prefix of it, key by key.\<close>

lemma replay_again:
  assumes "m t k = replay (take j ls) m0 t k"
  shows "replay ls m t k = replay ls m0 t k"
proof -
  let ?f = "\<lambda>l. actOn (keyOpOf l t k)"
  have "replay ls m t k = fold ?f (drop j ls) (fold ?f (take j ls) (m t k))"
    unfolding replay_def by (metis append_take_drop_id fold_append comp_apply)
  also have "fold ?f (take j ls) (m t k) = fold ?f (take j ls) (m0 t k)"
    using assms unfolding replay_def actOn_fold by (simp add: actOn_idem)
  also have "fold ?f (drop j ls) \<dots> = replay ls m0 t k"
    unfolding replay_def by (metis append_take_drop_id fold_append comp_apply)
  finally show ?thesis .
qed

section \<open>The data set on disk\<close>

definition linesOf :: "aofEntry list \<Rightarrow> aofLine list" where
  "linesOf f = concat (map (\<lambda>e. case e of Line l \<Rightarrow> [l] | Garbled \<Rightarrow> []) f)"

definition diskLines :: "Disk \<Rightarrow> aofLine list" where
  "diskLines d = (case dAof d of Some f \<Rightarrow> linesOf f | None \<Rightarrow> [])"

definition payloadData :: "snapTenant list \<Rightarrow> dataset" where
  "payloadData p = replay (payloadLines p) noData"

definition snapData :: "Disk \<Rightarrow> dataset" where
  "snapData d = (case dSnap d of Some (Image _ _ (Body (Some p))) \<Rightarrow> payloadData p | _ \<Rightarrow> noData)"

text \<open>What a restart in the mode of the engine gets back.\<close>

definition recovered :: "Engine \<Rightarrow> Disk \<Rightarrow> dataset" where
  "recovered e d = replay (diskLines d) (if Mode e = ModeSnapshotAndAOF then snapData d else noData)"

lemma linesOf_simps [simp]: "linesOf (f @ g) = linesOf f @ linesOf g" "linesOf (map Line ls) = ls" "linesOf [Line l] = [l]"
  "linesOf [] = []"
proof -
  show "linesOf (map Line ls) = ls" by (induction ls) (simp_all add: linesOf_def)
qed (simp_all add: linesOf_def)

lemma diskLines_simps [simp]: "diskLines (d\<lparr>dAof := Some f\<rparr>) = linesOf f"
  "diskLines (d\<lparr>dSnap := x, dSnapTime := y\<rparr>) = diskLines d" "snapData (d\<lparr>dAof := z\<rparr>) = snapData d"
  by (simp_all add: diskLines_def snapData_def)

section \<open>Writes during a save\<close>

text \<open>Mutations that reach the engine, each with the outcome of its file operations.\<close>

type_synonym logged = "IO \<times> string \<times> Mutation"

fun appends :: "logged list \<Rightarrow> pstate \<Rightarrow> pstate" where
  "appends [] s = s"
| "appends ((io, n, m) # ws) s = appends ws (OnMutation io n m s)"

definition written :: "logged list \<Rightarrow> aofLine list" where
  "written ws = map (\<lambda>(io, n, m). mkLine n m) ws"

lemma hasAOF_Mode: "hasAOF e \<Longrightarrow> Mode e \<noteq> ModeNone \<and> Mode e \<noteq> ModeSnapshot"
  by (auto simp: hasAOF_def mode_defs)

lemma append_fine:
  assumes "hasAOF e" "aof e" "ioWrite io" "ioSync io" "dAof d = Some f"
  shows "OnMutation io n m (e, d) =
    (if catchingUp e then e\<lparr>catchup := catchup e @ [mkLine n m]\<rparr> else e, d\<lparr>dAof := Some (f @ [Line (mkLine n m)])\<rparr>)"
  using assms hasAOF_Mode [OF assms(1)] by (simp add: OnMutation_def appendAOF_def Let_def addLine_def)

lemma appends_fine:
  assumes "hasAOF e" "aof e" "dAof d = Some f" "\<forall>(io, n, m) \<in> set ws. ioWrite io \<and> ioSync io" "catchingUp e"
  shows "appends ws (e, d) = (e\<lparr>catchup := catchup e @ written ws\<rparr>, d\<lparr>dAof := Some (f @ map Line (written ws))\<rparr>)"
  using assms
proof (induction ws arbitrary: e d f)
  case (Cons w ws)
  obtain io n m where w: "w = (io, n, m)" by (cases w) auto
  let ?e = "e\<lparr>catchup := catchup e @ [mkLine n m]\<rparr>" and ?d = "d\<lparr>dAof := Some (f @ [Line (mkLine n m)])\<rparr>"
  have "hasAOF ?e = hasAOF e" by (simp add: hasAOF_def Mode_def)
  then have "appends ws (?e, ?d) = (?e\<lparr>catchup := catchup ?e @ written ws\<rparr>, ?d\<lparr>dAof := Some ((f @ [Line (mkLine n m)]) @ map Line (written ws))\<rparr>)"
    using Cons.prems w by (intro Cons.IH) auto
  then show ?case using append_fine [of e io d f n m] Cons.prems w by (simp add: written_def)
qed (simp add: written_def)


lemma saveBegin_window:
  assumes "saveBegin e0 = (None, e1)" "hasAOF e0"
  shows "catchingUp e1 \<and> catchup e1 = [] \<and> aof e1 = aof e0 \<and> Mode e1 = Mode e0 \<and> hasAOF e1 \<and> pcfg e1 = pcfg e0"
  using assms by (auto simp: saveBegin_def Let_def beginCatchup_def hasAOF_def Mode_def split: if_splits)

text \<open>The export holds, key by key, some moment of the window.\<close>

definition exportedDuring :: "snapTenant list \<Rightarrow> aofLine list \<Rightarrow> dataset \<Rightarrow> bool" where
  "exportedDuring p ls m \<longleftrightarrow> (\<forall>t k. \<exists>j. payloadData p t k = replay (take j ls) m t k)"

lemma exported_replay:
  assumes "exportedDuring p ls (replay old m)"
  shows "replay ls (payloadData p) = replay ls (replay old m)" "replay (old @ ls) (payloadData p) = replay (old @ ls) m"
proof -
  have "replay ls (payloadData p) t k = replay ls (replay old m) t k \<and> replay (old @ ls) (payloadData p) t k = replay (old @ ls) m t k" for t k
  proof -
    obtain j where j: "payloadData p t k = replay (take j ls) (replay old m) t k" using assms by (auto simp: exportedDuring_def)
    then have "payloadData p t k = replay (take (length old + j) (old @ ls)) m t k" by (simp add: replay_append)
    then show ?thesis
      using replay_again [of "payloadData p" t k j ls "replay old m"] replay_again [of "payloadData p" t k _ "old @ ls" m] j by blast
  qed
  then show "replay ls (payloadData p) = replay ls (replay old m)" "replay (old @ ls) (payloadData p) = replay (old @ ls) m"
    by (simp_all add: fun_eq_iff)
qed

lemma saveFinish_data:
  assumes F: "saveFinish io p (e, d) = (err, e', d')" and c: "hasAOF e" and l: "diskLines d = old @ catchup e"
    and x: "exportedDuring p (catchup e) (replay old (if Mode e = ModeSnapshotAndAOF then snapData d else noData))"
  shows "recovered e' d' = recovered e d" "err = None \<Longrightarrow> aof e' \<and> \<not> saving e' \<and> \<not> catchingUp e'"
proof -
  let ?m = "if Mode e = ModeSnapshotAndAOF then snapData d else noData"
  note r = exported_replay [OF x]
  have R: "recovered e d = replay (old @ catchup e) ?m" by (simp add: recovered_def l)
  show "recovered e' d' = recovered e d"
  proof (cases "Mode e = ModeAOF")
    case True
    then have n: "Mode e \<noteq> ModeSnapshotAndAOF" by (simp add: mode_defs)
    have me: "Mode e' = Mode e" and dd: "diskLines d' = diskLines d \<or> diskLines d' = payloadLines p @ catchup e"
      using F True by (auto simp: saveFinish_def rewriteAOF_def Let_def Mode_def abortCatchup_def split: if_splits)
    show ?thesis using dd r(1) n me unfolding R recovered_def
      by (auto simp: l replay_append payloadData_def)
  next
    case False
    then have n: "Mode e = ModeSnapshotAndAOF" using c by (simp add: hasAOF_def)
    have me: "Mode e' = Mode e"
      using F False n by (auto simp: saveFinish_def writeSnapshot_def installCatchupAsAOF_def Let_def Mode_def abortCatchup_def split: if_splits)
    have dd: "diskLines d' = diskLines d \<and> snapData d' = snapData d \<or>
        snapData d' = payloadData p \<and> (diskLines d' = diskLines d \<or> diskLines d' = catchup e)"
      using F False n by (auto simp: saveFinish_def writeSnapshot_def installCatchupAsAOF_def Let_def Mode_def abortCatchup_def
          snapData_def diskLines_def split: if_splits)
    show ?thesis using dd r n me unfolding R recovered_def by (auto simp: l replay_append)
  qed
  show "err = None \<Longrightarrow> aof e' \<and> \<not> saving e' \<and> \<not> catchingUp e'"
    using F c by (auto simp: saveFinish_def writeSnapshot_def rewriteAOF_def installCatchupAsAOF_def Let_def Mode_def abortCatchup_def hasAOF_def
        split: if_splits)
qed

section \<open>Properties of saving\<close>



text \<open>A log with one key; while it is rewritten the key is overwritten and a new deadline set. The rename fails.\<close>

definition sampleEngine :: Engine where
  "sampleEngine = (NewEngine \<lparr>pMode = ModeAOF, pDir = [], pFsync = FsyncAlways, SnapshotInterval = 0\<rparr>)\<lparr>aof := True\<rparr>"

definition setLine :: "string \<Rightarrow> string \<Rightarrow> aofLine" where
  "setLine k v = \<lparr>aOp = ''SET'', aTenant = ''a'', aKey = k, aValue = v, aKeys = [], aExp = 0\<rparr>"

definition sampleDisk :: Disk where
  "sampleDisk = \<lparr>dAof = Some [Line (setLine ''k'' ''1'')], dSnap = None, dSnapTime = 0\<rparr>"

definition sampleWrites :: "logged list" where
  "sampleWrites = [(ioFine 5, ''a'', \<lparr>mOp = ''SET'', mKey = ''k'', mValue = ''2'', mKeys = [], mExpiresAt = 0\<rparr>),
     (ioFine 6, ''a'', \<lparr>mOp = ''EXPIRE'', mKey = ''k'', mValue = [], mKeys = [], mExpiresAt = unixEpoch + 9\<rparr>)]"



text \<open>C21: a save that fails when it renames the new log into place leaves no log open: the files still
  describe the data set before the save, but every later mutation is acknowledged and reaches neither the file nor any
  buffer.\<close>

theorem failed_save_stops_log:
  assumes "hasAOF e" "\<not> ioRename io" "ioMkdir io" "ioCreate io" "ioWrite io" "ioSync io" "ioClose io" "Mode e = ModeAOF"
    and "saveFinish io p (e, d) = (err, e', d')" "appends ws (e', d') = (e2, d2)"
  shows "err \<noteq> None \<and> \<not> aof e' \<and> d2 = d \<and> catchup e2 = [] \<and> recovered e2 d2 = recovered e d"
proof -
  have f: "e' = (abortCatchup e)\<lparr>aof := False, saving := False\<rparr>" "d' = d" "err \<noteq> None"
    using assms(2-9) by (auto simp: saveFinish_def rewriteAOF_def Let_def)
  have q: "appends ws (e', d') = (e', d')"
  proof -
    have "OnMutation io n m (e', d') = (e', d')" for io n m
      by (auto simp: f OnMutation_def appendAOF_def Let_def abortCatchup_def)
    then show ?thesis by (induction ws) auto
  qed
  then have "e2 = e'" "d2 = d" using assms(10) f by simp_all
  moreover have "Mode e' = Mode e" by (simp add: f Mode_def abortCatchup_def)
  ultimately show ?thesis using f by (auto simp: abortCatchup_def recovered_def)
qed

theorem failed_save_stops_log_witness:
  "\<exists>e' d'. saveFinish ((ioFine 7)\<lparr>ioRename := False\<rparr>) [] (sampleEngine, sampleDisk) = (Some (IOFailed []), e', d') \<and>
     snd (appends sampleWrites (e', d')) = sampleDisk"
proof -
  let ?io = "(ioFine 7)\<lparr>ioRename := False\<rparr>"
  have e: "Mode sampleEngine = ModeAOF" "hasAOF sampleEngine"
    by (simp_all add: sampleEngine_def NewEngine_def Mode_def hasAOF_def Let_def mode_defs)
  obtain err e' d' where F: "saveFinish ?io [] (sampleEngine, sampleDisk) = (err, e', d')" by (metis prod.collapse)
  obtain e2 d2 where A: "appends sampleWrites (e', d') = (e2, d2)" by fastforce
  have "d2 = sampleDisk" using failed_save_stops_log [OF e(2) _ _ _ _ _ _ e(1) F A] by (simp add: ioFine_def)
  moreover have "err = Some (IOFailed [])" using F e(1) by (simp add: saveFinish_def rewriteAOF_def Let_def ioFine_def split: if_splits)
  ultimately show ?thesis using F A by auto
qed


section \<open>One line into one store\<close>

text \<open>The deadline of a line on the scale of the store; the store that holds a data set, none of it
  expired.\<close>

definition stamp :: "int \<Rightarrow> gotime" where
  "stamp e = (if e = 0 then 0 else timeUnix e)"

definition holds :: "gotime \<Rightarrow> DB \<Rightarrow> (string \<Rightarrow> (string \<times> int) option) \<Rightarrow> bool" where
  "holds now d f \<longleftrightarrow> db_ok d \<and> (\<forall>k. lookup d k = map_option (\<lambda>(v, e). newEntry k v (stamp e)) (f k)) \<and>
     (\<forall>k v e. f k = Some (v, e) \<longrightarrow> e = 0 \<or> 0 < e \<and> now < timeUnix e)"

lemma stamp_alive: "e = 0 \<or> 0 < e \<and> now < timeUnix e \<Longrightarrow> \<not> expired now (newEntry k v (stamp e))"
  by (auto simp: expired_def newEntry_def stamp_def)

lemma holdsD:
  assumes "holds now d f"
  shows "db_ok d" "lookup d k = map_option (\<lambda>(v, e). newEntry k v (stamp e)) (f k)"
    "lookup d k = Some x \<Longrightarrow> \<not> expired now x" "purge k now d = d"
    "visible now d k = map_option (\<lambda>(v, e). (v, stamp e)) (f k)"
proof -
  show ok: "db_ok d" and l: "lookup d k = map_option (\<lambda>(v, e). newEntry k v (stamp e)) (f k)" for k
    using assms by (simp_all add: holds_def)
  show a: "\<not> expired now x" if x: "lookup d k = Some x" for k x
  proof -
    obtain v e where f: "f k = Some (v, e)" "x = newEntry k v (stamp e)" using x unfolding l by auto
    then have "e = 0 \<or> 0 < e \<and> now < timeUnix e" using assms by (auto simp: holds_def)
    then show ?thesis using f(2) stamp_alive by simp
  qed
  show "purge k now d = d" using a by (simp add: purge_def split: option.splits)
  show "visible now d k = map_option (\<lambda>(v, e). (v, stamp e)) (f k)"
  proof (cases "f k")
    case None
    then show ?thesis using l [of k] by (simp add: visible_def)
  next
    case (Some p)
    obtain v e where p: "p = (v, e)" by fastforce
    then have x: "lookup d k = Some (newEntry k v (stamp e))" using l [of k] Some by simp
    then have "\<not> expired now (newEntry k v (stamp e))" by (rule a)
    then show ?thesis using x Some p by (simp add: visible_def newEntry_def)
  qed
qed

text \<open>Writing a key when everything fits: nothing is evicted.\<close>

lemma Set_room:
  assumes ok: "db_ok d" and opt: "\<not> optNX opt" "\<not> optXX opt" and pu: "purge key now d = d"
    and room: "used d + memSize key val \<le> limitOf (shardIndex key d) d"
  shows "\<exists>d'. Set key val opt now clock d = (Inr True, d') \<and> db_ok d' \<and> cfg d' = cfg d \<and>
    lookup d' = (lookup d)(key \<mapsto> newEntry key val (finalExpiry key opt now d)) \<and> same_limits d d'"
proof -
  let ?si = "shardIndex key d" and ?n = "memSize key val" and ?e = "newEntry key val (finalExpiry key opt now d)"
  have si: "?si < length (shards d)" using ok shardIndex_less by (simp add: db_ok_def)
  have "loadOf ?si d \<le> used d" using shard_le_used [OF ok si] by (simp add: loadOf_def)
  moreover have "needFor (lookup d key) ?n \<le> ?n" by (rule needFor_le)
  ultimately have r: "loadOf ?si d + needFor (lookup d key) ?n \<le> limitOf ?si d" "?n \<le> limitOf ?si d" using room by simp_all
  have es: "ensureSpace ?si key (needFor (lookup d key) ?n) ?n clock d = (None, d)"
    by (rule ensureSpace_room [OF ok si needFor_le r(2,1)])
  have mm: "\<not> (Strategy (cfg d) = StrategyGlobalTrack \<and> MaxMemory (cfg d) < ?n)" using r(2) limitOf_le [OF ok si] by simp
  have S: "Set key val opt now clock d = (Inr True, emit (setMutation key val (finalExpiry key opt now d)) (storeEntry ?si ?e d))"
    unfolding Set_stages [OF ok] Let_def pu es using opt mm by simp
  have st: "db_ok (storeEntry ?si ?e d)" "lookup (storeEntry ?si ?e d) = (lookup d)(key \<mapsto> ?e)" "cfg (storeEntry ?si ?e d) = cfg d"
    "map budget (shards (storeEntry ?si ?e d)) = map budget (shards d)"
    using storeEntry_spec(1,2,3,5) [OF ok refl, of ?e key] r(1) by (simp_all add: newEntry_def)
  show ?thesis
    by (intro exI [of _ "emit (setMutation key val (finalExpiry key opt now d)) (storeEntry ?si ?e d)"])
      (simp add: S st same_limits_def)
qed

lemma used_lookup: "db_ok d \<Longrightarrow> used d = sum (sizeOf d) (dom (lookup d))"
  using keysOf_partition by (simp add: keysOf_def)

lemma used_put:
  assumes "db_ok d" "db_ok d'" "lookup d' = (lookup d)(key \<mapsto> e)"
  shows "used d' \<le> used d + esize e"
proof -
  have fin: "finite (dom (lookup d))" using finite_keysOf [OF assms(1)] by (simp add: keysOf_def)
  have same: "sizeOf d' k = sizeOf d k" if "k \<noteq> key" for k using that assms(3) by (simp add: sizeOf_def)
  have "used d' = sizeOf d' key + sum (sizeOf d') (dom (lookup d) - {key})"
    unfolding used_lookup [OF assms(2)] using fin assms(3) by (simp add: sum.insert_remove)
  also have "sum (sizeOf d') (dom (lookup d) - {key}) = sum (sizeOf d) (dom (lookup d) - {key})"
    using same by (intro sum.cong) auto
  also have "\<dots> \<le> used d" unfolding used_lookup [OF assms(1)] using fin by (intro sum_mono2) auto
  finally show ?thesis using assms(3) by (simp add: sizeOf_def)
qed

lemma used_smaller:
  assumes "db_ok d" "db_ok d'" "\<And>k. sizeOf d' k \<le> sizeOf d k" "dom (lookup d') \<subseteq> dom (lookup d)"
  shows "used d' \<le> used d"
proof -
  have fin: "finite (dom (lookup d))" using finite_keysOf [OF assms(1)] by (simp add: keysOf_def)
  have "sum (sizeOf d') (dom (lookup d')) \<le> sum (sizeOf d) (dom (lookup d'))" by (rule sum_mono) (rule assms(3))
  also have "\<dots> \<le> sum (sizeOf d) (dom (lookup d))" using fin assms(4) by (intro sum_mono2) auto
  finally show ?thesis using used_lookup assms(1,2) by simp
qed


lemma holds_put:
  assumes "holds now d f" "db_ok d'" "lookup d' = (lookup d)(key \<mapsto> newEntry key v (stamp e))" "e = 0 \<or> 0 < e \<and> now < timeUnix e"
  shows "holds now d' (f(key \<mapsto> (v, e)))"
  using assms by (auto simp: holds_def)

text \<open>A line whose deadline has not passed and is not cut by the store's maximum; its size in the store.\<close>

definition lineFits :: "gotime \<Rightarrow> duration \<Rightarrow> aofLine \<Rightarrow> bool" where
  "lineFits now maxTTL l \<longleftrightarrow> aExp l \<le> 0 \<or>
     now < timeUnix (aExp l) \<and> is_int64 (aExp l) \<and> (maxTTL \<le> 0 \<or> timeUnix (aExp l) \<le> now + maxTTL)"

definition lineSize :: "aofLine \<Rightarrow> nat" where
  "lineSize l = (if aOp l = ''SET'' then memSize (aKey l) (aValue l) else 0)"

definition knownOp :: "aofLine \<Rightarrow> bool" where
  "knownOp l \<longleftrightarrow> aOp l \<in> set [''SET'', ''DEL'', ''EXPIRE'', ''PERSIST'', ''FLUSHDB'']"

definition stillAt :: "gotime \<Rightarrow> Readings \<Rightarrow> bool" where
  "stillAt now rd \<longleftrightarrow> rdA rd = now \<and> rdB rd = now \<and> rdC rd = now"

text \<open>The outcome of one line: the same operation on the data set.\<close>

definition lineDone :: "gotime \<Rightarrow> aofLine \<Rightarrow> DB \<Rightarrow> (string \<Rightarrow> (string \<times> int) option) \<Rightarrow> persistErr option \<times> DB \<Rightarrow> bool" where
  "lineDone now l d f res \<longleftrightarrow> fst res = None \<and> holds now (snd res) (\<lambda>k. actOn (keyOpOf l (aTenant l) k) (f k)) \<and>
     used (snd res) \<le> used d + lineSize l \<and> same_limits d (snd res) \<and> MaxTTL (cfg (snd res)) = MaxTTL (cfg d)"

lemma apply_SET:
  assumes h: "holds now d f" and op: "aOp l = ''SET''" and fit: "lineFits now (MaxTTL (cfg d)) l" and rd: "stillAt now rd"
    and room: "used d + lineSize l \<le> limitOf (shardIndex (aKey l) d) d"
  shows "lineDone now l d f (applyAOF perm rd l d)"
proof -
  let ?opt = "if 0 < aExp l then noOptions\<lparr>HasExpireAt := True, ExpireAt := timeUnix (aExp l)\<rparr> else noOptions"
  let ?e = "max 0 (aExp l)"
  have o: "\<not> optNX ?opt" "\<not> optXX ?opt" "\<not> keepsTTL ?opt" by (simp_all add: noOptions_def keepsTTL_def)
  have al: "?e = 0 \<or> 0 < ?e \<and> now < timeUnix ?e" using fit by (auto simp: lineFits_def)
  have "finalExpiry (aKey l) ?opt now d = setExpiry ?opt now (MaxTTL (cfg d))" unfolding finalExpiry_def if_not_P [OF o(3)] by (simp split: option.splits)
  moreover have "setExpiry ?opt now (MaxTTL (cfg d)) = stamp ?e"
    using fit by (auto simp: setExpiry_def stamp_def lineFits_def noOptions_def timeUnix_def Let_def unixEpoch_def second_def)
  ultimately have t: "finalExpiry (aKey l) ?opt now d = stamp ?e" by simp
  have rm: "used d + memSize (aKey l) (aValue l) \<le> limitOf (shardIndex (aKey l) d) d" using room op by (simp add: lineSize_def)
  obtain d' where S: "Set (aKey l) (aValue l) ?opt now (rdClock rd) d = (Inr True, d')" "db_ok d'" "cfg d' = cfg d"
    "lookup d' = (lookup d)(aKey l \<mapsto> newEntry (aKey l) (aValue l) (stamp ?e))" "same_limits d d'"
    using Set_room [OF holdsD(1) [OF h] o(1,2) holdsD(4) [OF h] rm, of "rdClock rd"] unfolding t by blast
  have A: "applyAOF perm rd l d = (None, d')" using op rd S(1) by (simp add: applyAOF_def stillAt_def Let_def)
  have H: "holds now d' (f(aKey l \<mapsto> (aValue l, ?e)))" by (rule holds_put [OF h S(2,4) al])
  have "(\<lambda>k. actOn (keyOpOf l (aTenant l) k) (f k)) = f(aKey l \<mapsto> (aValue l, ?e))"
    using op by (auto simp: keyOpOf_def fun_eq_iff)
  moreover have "used d' \<le> used d + lineSize l" using used_put [OF holdsD(1) [OF h] S(2,4)] op by (simp add: lineSize_def newEntry_def)
  ultimately show ?thesis using A H S(3,5) by (simp add: lineDone_def)
qed

lemma Del_done:
  assumes h: "holds now d f" and D: "Del ks now d = (n, d')"
  shows "holds now d' (\<lambda>k. if k \<in> set ks then None else f k)" "used d' \<le> used d" "same_limits d d'" "cfg d' = cfg d"
proof -
  note s = Del_spec [OF holdsD(1) [OF h] D]
  show "holds now d' (\<lambda>k. if k \<in> set ks then None else f k)" using h s by (auto simp: holds_def)
  have l: "lookup d' k = (if k \<in> set ks then None else lookup d k)" for k using s by blast
  show "used d' \<le> used d" using s by (intro used_smaller [OF holdsD(1) [OF h]]) (auto simp: sizeOf_def l split: if_splits)
  show "same_limits d d'" using kept_Del [OF holdsD(1) [OF h], of ks now] D by (simp add: kept_def)
  show "cfg d' = cfg d" using s by simp
qed

lemma apply_DEL:
  assumes h: "holds now d f" and op: "aOp l = ''DEL''" and rd: "stillAt now rd"
  shows "lineDone now l d f (applyAOF perm rd l d)"
proof -
  let ?ks = "if aKeys l \<noteq> [] then aKeys l else if aKey l \<noteq> [] then [aKey l] else []"
  obtain n d' where D: "Del ?ks now d = (n, d')" by fastforce
  have "applyAOF perm rd l d = (None, d')"
    using op rd D by (auto simp: applyAOF_def stillAt_def split: if_splits)
  moreover have "(\<lambda>k. actOn (keyOpOf l (aTenant l) k) (f k)) = (\<lambda>k. if k \<in> set ?ks then None else f k)"
    using op by (auto simp: keyOpOf_def fun_eq_iff)
  ultimately show ?thesis using Del_done [OF h D] by (simp add: lineDone_def)
qed

text \<open>A new deadline, from \<^verbatim>\<open>EXPIRE\<close> or \<^verbatim>\<open>PERSIST\<close>.\<close>

lemma restamp_done:
  assumes h: "holds now d f" and x: "f key = Some (v, e0)" and ok: "db_ok d'"
    and l: "lookup d' = (lookup d)(key \<mapsto> newEntry key v (stamp e))" and al: "e = 0 \<or> 0 < e \<and> now < timeUnix e"
  shows "holds now d' (\<lambda>k. if k = key then map_option (\<lambda>(v, _). (v, e)) (f k) else f k)" "used d' \<le> used d"
proof -
  have "(\<lambda>k. if k = key then map_option (\<lambda>(v, _). (v, e)) (f k) else f k) = f(key \<mapsto> (v, e))" using x by (auto simp: fun_eq_iff)
  then show "holds now d' (\<lambda>k. if k = key then map_option (\<lambda>(v, _). (v, e)) (f k) else f k)" using holds_put [OF h ok l al] by simp
  have "lookup d key = Some (newEntry key v (stamp e0))" using holdsD(2) [OF h, of key] x by simp
  then show "used d' \<le> used d"
    by (intro used_smaller [OF holdsD(1) [OF h] ok]) (auto simp: sizeOf_def l newEntry_def)
qed


lemma apply_EXPIRE:
  assumes h: "holds now d f" and op: "aOp l = ''EXPIRE''" and fit: "lineFits now (MaxTTL (cfg d)) l" and rd: "stillAt now rd"
    and now: "unixEpoch \<le> now"
  shows "lineDone now l d f (applyAOF perm rd l d)"
proof (cases "0 < aExp l")
  case False
  then have "(\<lambda>k. actOn (keyOpOf l (aTenant l) k) (f k)) = f" using op by (auto simp: keyOpOf_def fun_eq_iff)
  then show ?thesis using False op h by (simp add: applyAOF_def lineDone_def)
next
  case True
  let ?t = "timeUnix (aExp l)" and ?k = "aKey l"
  have fit': "now < ?t" "is_int64 (aExp l)" "MaxTTL (cfg d) \<le> 0 \<or> ?t \<le> now + MaxTTL (cfg d)" using fit True by (auto simp: lineFits_def)
  then have dur: "timeSub ?t now = ?t - now" using now by (auto simp: timeSub_def timeUnix_def is_int64_def maxDuration_def minDuration_def)
  obtain n d' where E: "setExpireAt ?k ?t now d = (n, d')" by fastforce
  have "Expire ?k (?t - now) now now d = (n, d')" using fit' E by (auto simp: Expire_def Let_def)
  then have A: "applyAOF perm rd l d = (None, d')" using op rd True dur fit'(1) by (simp add: applyAOF_def stillAt_def Let_def)
  have lim: "same_limits d d'" "cfg d' = cfg d"
    using kept_setExpireAt [OF holdsD(1) [OF h], of ?k ?t now] setExpireAt_spec(3) [OF holdsD(1) [OF h] E] E by (simp_all add: kept_def)
  have fn: "(\<lambda>k. actOn (keyOpOf l (aTenant l) k) (f k)) = (\<lambda>k. if k = ?k then map_option (\<lambda>(v, _). (v, aExp l)) (f k) else f k)"
    using op True by (auto simp: keyOpOf_def fun_eq_iff)
  show ?thesis
  proof (cases "f ?k")
    case None
    then have "lookup d ?k = None" using holdsD(2) [OF h, of ?k] by simp
    then have "d' = d" using E by (simp add: setExpireAt_def Let_def lookup_def theShard_def)
    moreover have "(\<lambda>k. if k = ?k then map_option (\<lambda>(v, _). (v, aExp l)) (f k) else f k) = f" using None by (auto simp: fun_eq_iff)
    ultimately show ?thesis using A h by (simp add: lineDone_def fn)
  next
    case (Some p)
    obtain v e0 where p: "p = (v, e0)" by fastforce
    then have "visible now d ?k = Some (v, stamp e0)" using holdsD(5) [OF h, of ?k] Some by simp
    then have "lookup d' = (lookup d)(?k \<mapsto> newEntry ?k v (stamp (aExp l)))"
      using setExpireAt_spec(5) [OF holdsD(1) [OF h] E] True by (simp add: stamp_def)
    from restamp_done [OF h _ setExpireAt_spec(1) [OF holdsD(1) [OF h] E] this, of e0]
    show ?thesis using A lim True fit'(1) Some p by (simp add: lineDone_def fn)
  qed
qed

lemma apply_PERSIST:
  assumes h: "holds now d f" and op: "aOp l = ''PERSIST''" and rd: "stillAt now rd"
  shows "lineDone now l d f (applyAOF perm rd l d)"
proof -
  let ?k = "aKey l"
  obtain n d' where P: "Persist ?k now d = (n, d')" by fastforce
  have A: "applyAOF perm rd l d = (None, d')" using op rd P by (simp add: applyAOF_def stillAt_def)
  note s = Persist_spec [OF holdsD(1) [OF h] P]
  have lim: "same_limits d d'" "cfg d' = cfg d" using kept_Persist [OF holdsD(1) [OF h], of ?k now] P s by (simp_all add: kept_def)
  have fn: "(\<lambda>k. actOn (keyOpOf l (aTenant l) k) (f k)) = (\<lambda>k. if k = ?k then map_option (\<lambda>(v, _). (v, 0)) (f k) else f k)"
    using op by (auto simp: keyOpOf_def fun_eq_iff)
  have same: ?thesis if "d' = d" "(\<lambda>k. if k = ?k then map_option (\<lambda>(v, _). (v, 0)) (f k) else f k) = f"
    using A h that by (simp add: lineDone_def fn)
  show ?thesis
  proof (cases "f ?k")
    case None
    then have "lookup d ?k = None" using holdsD(2) [OF h, of ?k] by simp
    then show ?thesis using P None by (intro same) (auto simp: Persist_def Let_def lookup_def theShard_def fun_eq_iff)
  next
    case (Some p)
    obtain v e0 where p: "p = (v, e0)" by fastforce
    have vis: "visible now d ?k = Some (v, stamp e0)" using holdsD(5) [OF h, of ?k] Some p by simp
    have x: "lookup d ?k = Some (newEntry ?k v (stamp e0))" using holdsD(2) [OF h, of ?k] Some p by simp
    show ?thesis
    proof (cases "e0 = 0")
      case True
      have "d' = d" using P x holdsD(3) [OF h x] True
        by (simp add: Persist_def Let_def lookup_def theShard_def newEntry_def stamp_def)
      then show ?thesis using True Some p by (intro same) (auto simp: fun_eq_iff)
    next
      case False
      then have "0 < e0" using h Some p unfolding holds_def by blast
      then have "\<not> IsZero (stamp e0)" by (simp add: stamp_def timeUnix_def unixEpoch_def second_def)
      then have "lookup d' = (lookup d)(?k \<mapsto> newEntry ?k v (stamp 0))" using s vis by (simp add: stamp_def)
      from restamp_done [OF h _ _ this, of e0] show ?thesis using A lim s Some p by (simp add: lineDone_def fn)
    qed
  qed
qed

lemma apply_FLUSHDB:
  assumes h: "holds now d f" and op: "aOp l = ''FLUSHDB''" and p: "is_perm perm"
  shows "lineDone now l d f (applyAOF perm rd l d)"
proof -
  obtain n d' where F: "FlushDB perm d = (n, d')" by fastforce
  note s = FlushDB_spec [OF holdsD(1) [OF h] p F]
  have "holds now d' (\<lambda>_. None)" using s by (simp add: holds_def)
  moreover have "(\<lambda>k. actOn (keyOpOf l (aTenant l) k) (f k)) = (\<lambda>_. None)" using op by (auto simp: keyOpOf_def)
  moreover have "same_limits d d'" using kept_FlushDB [OF holdsD(1) [OF h], of perm] F by (simp add: kept_def)
  ultimately show ?thesis using op F s by (simp add: lineDone_def applyAOF_def)
qed

lemmas apply_ops = apply_SET apply_DEL apply_EXPIRE apply_PERSIST apply_FLUSHDB

lemma apply_line:
  assumes "holds now d f" "knownOp l" "lineFits now (MaxTTL (cfg d)) l" "stillAt now rd" "unixEpoch \<le> now" "is_perm perm"
    "\<And>si. si < length (shards d) \<Longrightarrow> used d + lineSize l \<le> limitOf si d"
  shows "lineDone now l d f (applyAOF perm rd l d)"
proof -
  have "shardIndex (aKey l) d < length (shards d)" using holdsD(1) [OF assms(1)] shardIndex_less by (simp add: db_ok_def)
  then have "used d + lineSize l \<le> limitOf (shardIndex (aKey l) d) d" by (rule assms(7))
  then show ?thesis using assms(1-6) apply_ops by (auto simp: knownOp_def)
qed


section \<open>A log into the registry\<close>

definition regHolds :: "gotime \<Rightarrow> tenRegistry \<Rightarrow> dataset \<Rightarrow> bool" where
  "regHolds now r m \<longleftrightarrow> reg_ok r \<and> (\<forall>t < Len r. holds now (tDB (theTenant t r)) (m (tName (theTenant t r))))"

text \<open>Lines that survive the encoding, and what they may need in a store.\<close>

definition lineClean :: "aofLine \<Rightarrow> bool" where
  "lineClean l \<longleftrightarrow> knownOp l \<and> length (encodeLine l) < maxLine \<and>
     list_all validUTF8 (aOp l # aTenant l # aKey l # aValue l # aKeys l)"

definition logSize :: "string \<Rightarrow> aofLine list \<Rightarrow> nat" where
  "logSize n ls = sum_list (map lineSize (filter (\<lambda>l. aTenant l = n) ls))"

definition logFits :: "gotime \<Rightarrow> aofLine list \<Rightarrow> tenRegistry \<Rightarrow> bool" where
  "logFits now ls r \<longleftrightarrow> (\<forall>t < Len r. let d = tDB (theTenant t r); n = tName (theTenant t r) in
     (\<forall>si < length (shards d). used d + logSize n ls \<le> limitOf si d) \<and>
     (\<forall>l \<in> set ls. aTenant l = n \<longrightarrow> lineFits now (MaxTTL (cfg d)) l))"

lemma logSize_Cons: "logSize n (l # ls) = (if aTenant l = n then lineSize l else 0) + logSize n ls"
  by (simp add: logSize_def)

lemma logFitsD:
  assumes "logFits now ls r" "t < Len r"
  shows "si < length (shards (tDB (theTenant t r))) \<Longrightarrow> used (tDB (theTenant t r)) + logSize (tName (theTenant t r)) ls \<le> limitOf si (tDB (theTenant t r))"
    "l \<in> set ls \<Longrightarrow> aTenant l = tName (theTenant t r) \<Longrightarrow> lineFits now (MaxTTL (cfg (tDB (theTenant t r)))) l"
  using assms unfolding logFits_def Let_def by blast+

lemma logFits_tl:
  assumes "logFits now (l # ls) r"
  shows "logFits now ls r"
  unfolding logFits_def Let_def
proof (intro allI impI conjI ballI)
  fix t si assume t: "t < Len r" "si < length (shards (tDB (theTenant t r)))"
  show "used (tDB (theTenant t r)) + logSize (tName (theTenant t r)) ls \<le> limitOf si (tDB (theTenant t r))"
    using logFitsD(1) [OF assms t] by (simp add: logSize_Cons split: if_splits)
qed (use logFitsD(2) [OF assms] in simp)

lemma decodeLine_clean: "lineClean l \<Longrightarrow> decodeLine l = l"
proof -
  assume c: "lineClean l"
  then have "map sanitize (aKeys l) = aKeys l" by (auto simp: lineClean_def list_all_iff sanitize_id intro: map_idI)
  then show ?thesis using c by (simp add: decodeLine_def lineClean_def sanitize_id)
qed

lemma replay_Cons: "replay (l # ls) m = replay ls (\<lambda>t k. actOn (keyOpOf l t k) (m t k))"
  by (simp add: replay_def fun_eq_iff)

lemma keyOpOf_other: "aTenant l \<noteq> t \<Longrightarrow> keyOpOf l t k = Keep"
  by (simp add: keyOpOf_def)

lemma regHolds_setDB:
  assumes R: "regHolds now r m" and t: "t < Len r" "aTenant l = tName (theTenant t r)"
    and H: "holds now db (\<lambda>k. actOn (keyOpOf l (aTenant l) k) (m (aTenant l) k))"
  shows "regHolds now (setDB t db r) (\<lambda>t k. actOn (keyOpOf l t k) (m t k))"
proof -
  have ok: "reg_ok r" and t': "t < length (order r)" using R t by (simp_all add: regHolds_def Len_def)
  have "reg_ok (setDB t db r)"
    unfolding setDB_def using ok t' holdsD(1) [OF H] reg_okD(4) [OF ok t'] by (intro reg_ok_set) simp_all
  moreover have "holds now (tDB (theTenant u (setDB t db r))) (\<lambda>k. actOn (keyOpOf l (tName (theTenant u (setDB t db r))) k) (m (tName (theTenant u (setDB t db r))) k))"
    if u: "u < Len r" for u
  proof (cases "u = t")
    case True
    then show ?thesis using H t t' by (simp add: setDB_def)
  next
    case False
    then have "tName (theTenant u r) \<noteq> aTenant l"
      using reg_okD(2) [OF ok, of "tName (theTenant u r)"] u t by (metis Len_def option.inject)
    then show ?thesis using R u False t' by (simp add: regHolds_def setDB_def keyOpOf_other)
  qed
  ultimately show ?thesis by (simp add: regHolds_def Len_def setDB_def)
qed

lemma logFits_step:
  assumes F: "logFits now (l # ls) r" and t: "t < Len r" "aTenant l = tName (theTenant t r)"
    and ok: "reg_ok r" and D: "lineDone now l (tDB (theTenant t r)) f (None, db)"
  shows "logFits now ls (setDB t db r)"
  unfolding logFits_def
proof (intro allI impI)
  fix u assume u: "u < Len (setDB t db r)"
  then have u': "u < Len r" and t': "t < length (order r)" using t by (simp_all add: Len_def setDB_def)
  have s: "used db \<le> used (tDB (theTenant t r)) + lineSize l" "same_limits (tDB (theTenant t r)) db"
    "MaxTTL (cfg db) = MaxTTL (cfg (tDB (theTenant t r)))" using D by (simp_all add: lineDone_def)
  have lim: "si < length (shards db) \<Longrightarrow> limitOf si db = limitOf si (tDB (theTenant t r))" for si
    using limitOf_same [OF s(2)] same_limits_length [OF s(2)] by simp
  show "let d = tDB (theTenant u (setDB t db r)); n = tName (theTenant u (setDB t db r)) in
     (\<forall>si < length (shards d). used d + logSize n ls \<le> limitOf si d) \<and>
     (\<forall>l \<in> set ls. aTenant l = n \<longrightarrow> lineFits now (MaxTTL (cfg d)) l)"
  proof (cases "u = t")
    case True
    have a: "\<forall>si < length (shards (tDB (theTenant t r))). used (tDB (theTenant t r)) + (lineSize l + logSize (tName (theTenant t r)) ls) \<le> limitOf si (tDB (theTenant t r))"
      "\<forall>l' \<in> set ls. aTenant l' = tName (theTenant t r) \<longrightarrow> lineFits now (MaxTTL (cfg (tDB (theTenant t r)))) l'"
      using logFitsD [OF F t(1)] t(2) by (simp_all add: logSize_Cons)
    then show ?thesis using True t' s lim same_limits_length [OF s(2)] by (fastforce simp: setDB_def Let_def)
  next
    case False
    then have "tName (theTenant u r) \<noteq> aTenant l"
      using reg_okD(2) [OF ok, of "tName (theTenant u r)"] u' t by (metis Len_def option.inject)
    then show ?thesis using logFitsD [OF F u'] False t' by (auto simp: setDB_def Let_def logSize_Cons)
  qed
qed

lemma loadLines_data:
  assumes "regHolds now r m" "logFits now ls r" "\<forall>l \<in> set ls. lineClean l" "\<forall>i. stillAt now (leLine env i)"
    "unixEpoch \<le> now" "is_perm (lePerm env)"
  shows "\<exists>r'. loadLines env i (map Line ls) r = (None, r') \<and> regHolds now r' (replay ls m) \<and> map tName (order r') = map tName (order r)"
  using assms(1-3)
proof (induction ls arbitrary: i r m)
  case (Cons l ls)
  have c: "lineClean l" "\<not> maxLine < length (encodeLine l) + 1" "decodeLine l = l" using Cons.prems(3) decodeLine_clean by (auto simp: lineClean_def)
  have ok: "reg_ok r" using Cons.prems(1) by (simp add: regHolds_def)
  show ?case
  proof (cases "getTenant (aTenant l) r")
    case None
    then have no: "tName (theTenant t r) \<noteq> aTenant l" if "t < Len r" for t
      using reg_okD(2) [OF ok, of "aTenant l" t] that by (auto simp: getTenant_def Len_def)
    have "regHolds now r (\<lambda>t k. actOn (keyOpOf l t k) (m t k))"
      using Cons.prems(1) no by (fastforce simp: regHolds_def keyOpOf_other)
    moreover have "logFits now ls r" by (rule logFits_tl [OF Cons.prems(2)])
    ultimately show ?thesis using Cons.IH [of r] Cons.prems(3) None c by (simp add: replay_Cons)
  next
    case (Some t)
    then have t: "t < Len r" "aTenant l = tName (theTenant t r)" using reg_okD(2) [OF ok, of "aTenant l" t] by (auto simp: getTenant_def Len_def)
    let ?d = "tDB (theTenant t r)" and ?f = "m (aTenant l)"
    have h: "holds now ?d ?f" using Cons.prems(1) t by (simp add: regHolds_def)
    have fit: "lineFits now (MaxTTL (cfg ?d)) l" "\<And>si. si < length (shards ?d) \<Longrightarrow> used ?d + lineSize l \<le> limitOf si ?d"
      using logFitsD [OF Cons.prems(2) t(1)] t(2) by (fastforce simp: logSize_Cons)+
    have "lineDone now l ?d ?f (applyAOF (lePerm env) (leLine env i) l ?d)"
      using c(1) assms(4-6) by (intro apply_line [OF h _ fit(1) _ _ _ fit(2)]) (auto simp: lineClean_def)
    then obtain db where D: "applyAOF (lePerm env) (leLine env i) l ?d = (None, db)" "lineDone now l ?d ?f (None, db)"
      by (cases "applyAOF (lePerm env) (leLine env i) l ?d") (auto simp: lineDone_def)
    have "regHolds now (setDB t db r) (\<lambda>t k. actOn (keyOpOf l t k) (m t k))"
      using D(2) by (intro regHolds_setDB [OF Cons.prems(1) t]) (simp add: lineDone_def)
    moreover have "logFits now ls (setDB t db r)" by (rule logFits_step [OF Cons.prems(2) t ok D(2)])
    moreover have "map tName (order (setDB t db r)) = map tName (order r)"
      using t(1) by (simp add: setDB_def setTenant_def theTenant_def map_update_same Len_def)
    ultimately show ?thesis using Cons.IH [of "setDB t db r"] Cons.prems(3) Some c D(1) by (simp add: replay_Cons)
  qed
qed simp


section \<open>Properties of loading\<close>

lemma lookup_New: "sane c \<Longrightarrow> lookup (New c g) k = None"
proof -
  assume s: "sane c"
  let ?d = "New c g"
  have "shardIndex k ?d < length (shards ?d)" using New_db_ok [OF s] shardIndex_less by (simp add: db_ok_def)
  then show ?thesis by (simp add: lookup_def theShard_def New_def Let_def newShard_def)
qed

lemma NewRegistry_holds:
  assumes "NewRegistry gs cfgs = Inr r" "\<forall>c \<in> set cfgs. sane (storeConfig c)"
  shows "regHolds now r noData"
proof -
  note ok = NewRegistry_tenants(1) [OF assms] and n = NewRegistry_tenants(2) [OF assms] and t = NewRegistry_tenants(3) [OF assms]
  have "holds now (tDB (theTenant i r)) (noData n)" if i: "i < length cfgs" for i n
  proof -
    have s: "sane (storeConfig (cfgs ! i))" using assms(2) i by simp
    have "tDB (theTenant i r) = New (storeConfig (cfgs ! i)) (gs i)" using t [OF i] by (simp add: newTenant_def Let_def)
    then show ?thesis using s by (simp add: holds_def New_db_ok lookup_New noData_def)
  qed
  then show ?thesis using ok n by (simp add: regHolds_def Len_def)
qed


text \<open>Two writes of a key, loaded into the sample tenants.\<close>

definition loadNow :: "gotime \<Rightarrow> LoadEnv" where
  "loadNow now = \<lparr>lePerm = rev, leSnap = (\<lambda>_. (now, (\<lambda>_. now), (\<lambda>_ _ _. now))),
     leLine = (\<lambda>_. \<lparr>rdA = now, rdB = now, rdC = now, rdClock = (\<lambda>_ _. now)\<rparr>)\<rparr>"

definition sampleLog :: Disk where
  "sampleLog = \<lparr>dAof = Some (map Line [setLine ''k'' ''1'', setLine ''k'' ''2'']), dSnap = None, dSnapTime = 0\<rparr>"

lemma sampleReg_new: "NewRegistry (\<lambda>_. plainRng) [sampleTenant ''a'' ''s'', sampleTenant ''b'' ''t''] = Inr sampleReg"
proof -
  let ?c = "[sampleTenant ''a'' ''s'', sampleTenant ''b'' ''t'']"
  have "acceptable ?c" by (simp add: acceptable_def sampleTenant_def)
  then obtain r where "NewRegistry (\<lambda>_. plainRng) ?c = Inr r"
    using NewRegistry_spec [of ?c "\<lambda>_. plainRng"] sampleTenant_sane by (cases "NewRegistry (\<lambda>_. plainRng) ?c") auto
  then show ?thesis by (simp add: sampleReg_def)
qed

lemma setLine_clean: "length k \<le> 100 \<Longrightarrow> length v \<le> 100 \<Longrightarrow> list_all (\<lambda>c. byte c < 0x80) (k @ v) \<Longrightarrow> lineClean (setLine k v)"
proof -
  assume a: "length k \<le> 100" "length v \<le> 100" "list_all (\<lambda>c. byte c < 0x80) (k @ v)"
  have "length (encodeLine (setLine k v)) \<le> 2000"
    using jsonString_length [of "''op''"] jsonString_length [of "''SET''"] jsonString_length [of "''tenant''"] jsonString_length [of "''a''"]
      jsonString_length [of "''key''"] jsonString_length [of k] jsonString_length [of "''value''"] jsonString_length [of v] a(1,2)
    by (simp add: encodeLine_def setLine_def)
  then have "length (encodeLine (setLine k v)) < maxLine" by (simp add: maxLine_def)
  moreover have "validUTF8 ''SET''" "validUTF8 ''a''" by (rule validUTF8_ascii, simp add: byte_def)+
  ultimately show ?thesis using a(3) by (simp add: lineClean_def knownOp_def setLine_def validUTF8_ascii)
qed


text \<open>A deadline beyond the year 2262 is written as a negative number and does not survive.\<close>

lemma far_deadline_lost:
  assumes "mOp m = ''SET''" "mExpiresAt m = unixEpoch + 2 ^ 63"
  shows "aExp (mkLine n m) = - (2 ^ 63) \<and> keyOpOf (mkLine n m) n (mKey m) = Put (Some (mValue m, 0))"
  using assms by (simp add: mkLine_def keyOpOf_def UnixNano_def wrap64_def unixEpoch_def second_def)

text \<open>C20: a deadline that is moved or removed before it passes is lost when the append-only file is
  loaded after it: the line with the old deadline deletes the key, and the later \<^verbatim>\<open>EXPIRE\<close> or \<^verbatim>\<open>PERSIST\<close> line finds
  nothing to change, although the key with its last deadline was part of the data set.\<close>

theorem replay_drops_extended_key:
  assumes "db_ok d" "stillAt now rd" "aOp l1 = ''EXPIRE''" "aKey l1 = k" "0 < aExp l1" "timeUnix (aExp l1) \<le> now"
    and "aOp l2 \<in> {''EXPIRE'', ''PERSIST''}" "aKey l2 = k" "0 \<le> aExp l2"
  shows "visible now (snd (applyAOF perm rd l2 (snd (applyAOF perm rd l1 d)))) k = None \<and>
    (aTenant l1 = t \<and> aTenant l2 = t \<and> m t k = Some (v, x) \<and> 0 < aExp l2 \<and> aOp l2 = ''EXPIRE'' \<longrightarrow>
       replay [l1, l2] m t k = Some (v, aExp l2))"
proof
  have sub: "\<not> 0 < timeSub (timeUnix (aExp l1)) now" using assms(6) by (simp add: timeSub_def minDuration_def)
  obtain n d1 where D: "Del [k] now d = (n, d1)" by fastforce
  have a1: "applyAOF perm rd l1 d = (None, d1)"
    using assms(2-5) sub D by (simp add: applyAOF_def stillAt_def Let_def del: Del.simps)
  have d1: "db_ok d1" "lookup d1 k = None" using Del_spec [OF assms(1) D] by simp_all
  have gone: "lookup (snd (setExpireAt k at now d1)) k = None" "lookup (snd (Persist k now d1)) k = None" for at
    using d1(2) by (simp_all add: setExpireAt_def Persist_def Let_def lookup_def theShard_def)
  have del: "lookup (snd (Del [k] now d1)) k = None" using Del_spec [OF d1(1), of "[k]" now] by (metis list.set_intros(1) prod.collapse)
  have "lookup (snd (applyAOF perm rd l2 d1)) k = None"
    using assms(2,7,8) gone del d1(2)
    by (auto simp: applyAOF_def stillAt_def Let_def Expire_def split_beta simp del: Del.simps)
  then show "visible now (snd (applyAOF perm rd l2 (snd (applyAOF perm rd l1 d)))) k = None" by (simp add: a1 visible_def)
  show "aTenant l1 = t \<and> aTenant l2 = t \<and> m t k = Some (v, x) \<and> 0 < aExp l2 \<and> aOp l2 = ''EXPIRE'' \<longrightarrow>
       replay [l1, l2] m t k = Some (v, aExp l2)"
    using assms(3,4,5,8) by (simp add: replay_def keyOpOf_def)
qed


definition expireLine :: "string \<Rightarrow> int \<Rightarrow> aofLine" where
  "expireLine k e = \<lparr>aOp = ''EXPIRE'', aTenant = ''a'', aKey = k, aValue = [], aKeys = [], aExp = e\<rparr>"

theorem replay_drops_extended_key_witness:
  "\<exists>db. visible (unixEpoch + 10) db ''k'' = Some (''v'', 0) \<and>
     visible (unixEpoch + 10) (snd (applyAOF rev (leLine (loadNow (unixEpoch + 10)) 0) (expireLine ''k'' 1000)
       (snd (applyAOF rev (leLine (loadNow (unixEpoch + 10)) 0) (expireLine ''k'' 5) db)))) ''k'' = None \<and>
     replay [expireLine ''k'' 5, expireLine ''k'' 1000] (\<lambda>_ _. Some (''v'', 0)) ''a'' ''k'' = Some (''v'', 1000)"
proof -
  let ?d = "dbOf 0 sampleWorld" and ?now = "unixEpoch + 10"
  obtain db where S: "Set ''k'' ''v'' noOptions 10 (\<lambda>_ _. 10) ?d = (Inr True, db)" using sample_Set by blast
  have ok: "db_ok ?d" using reg_okD(3) [OF sampleReg_facts(1), of 0] by (simp add: dbOf_def sampleWorld_def sampleReg_facts(2))
  note sp = Set_spec [OF ok S]
  have "finalExpiry ''k'' noOptions 10 ?d = 0"
    by (auto simp: finalExpiry_def keepsTTL_def noOptions_def setExpiry_def split: option.splits)
  then have "visible ?now db ''k'' = Some (''v'', 0)" using sp(4) by (simp add: visible_def newEntry_def expired_def)
  moreover have "stillAt ?now (leLine (loadNow ?now) 0)" by (simp add: stillAt_def loadNow_def)
  ultimately show ?thesis
    using replay_drops_extended_key [OF sp(1), of ?now _ "expireLine ''k'' 5" "''k''" "expireLine ''k'' 1000" rev "''a''" "\<lambda>_ _. Some (''v'', 0)" "''v''" 0]
    by (auto simp: expireLine_def timeUnix_def)
qed

end
