(* ===== verification/StoreLog.thy ===== *)
theory StoreLog
  imports PersistProps
begin

text \<open>
  A store and the mutations it reports: what a client can read is what the log describes. The predicate \<open>logs\<close> is the
  contract of one operation, proved for each of them and composed along a run.
\<close>

section \<open>What is alive in a data set\<close>

text \<open>A content with its deadline (zero for none), as long as the deadline has not passed.\<close>

definition unexpired :: "gotime \<Rightarrow> (string \<times> gotime) option \<Rightarrow> (string \<times> gotime) option" where
  "unexpired t y = (case y of Some (v, x) \<Rightarrow> if x \<noteq> 0 \<and> x \<le> t then None else Some (v, x) | None \<Rightarrow> None)"

definition live :: "gotime \<Rightarrow> (string \<times> int) option \<Rightarrow> (string \<times> gotime) option" where
  "live t y = unexpired t (map_option (\<lambda>(v, e). (v, stamp e)) y)"

lemma unexpired_unexpired: "t \<le> t' \<Longrightarrow> unexpired t' (unexpired t y) = unexpired t' y"
  by (auto simp: unexpired_def split: option.splits)

lemma unexpired_None [simp]: "unexpired t None = None"
  by (simp add: unexpired_def)

lemma live_None [simp]: "live t None = None"
  by (simp add: live_def)

lemma visible_unexpired: "visible t d k = unexpired t (map_option (\<lambda>e. (evalue e, expiresAt e)) (lookup d k))"
  by (auto simp: visible_def unexpired_def expired_def split: option.splits)

lemma visible_later: "t \<le> t' \<Longrightarrow> visible t' d k = unexpired t' (visible t d k)"
  by (simp add: visible_unexpired unexpired_unexpired)

lemma live_later: "t \<le> t' \<Longrightarrow> live t' y = unexpired t' (live t y)"
  by (simp add: live_def unexpired_unexpired)

text \<open>
  The store shows what the data set \<open>f\<close> has alive, except that keys in \<open>E\<close> may be missing.
\<close>

definition mirrors :: "gotime \<Rightarrow> string set \<Rightarrow> (string \<Rightarrow> (string \<times> int) option) \<Rightarrow> DB \<Rightarrow> bool" where
  "mirrors t E f d \<longleftrightarrow> (\<forall>k. visible t d k = live t (f k) \<or> k \<in> E \<and> visible t d k = None)"

lemma mirrors_later: "mirrors t E f d \<Longrightarrow> t \<le> t' \<Longrightarrow> mirrors t' E f d"
  unfolding mirrors_def by (metis visible_later live_later unexpired_None)

lemma mirrors_visible: "mirrors t E f d \<Longrightarrow> visible t d' = visible t d \<Longrightarrow> mirrors t (E \<union> F) f d'"
  by (auto simp: mirrors_def)

section \<open>What mutations do to a data set\<close>

text \<open>Deadlines that the log can represent: after 1970 and before 2262.\<close>

definition datable :: "Mutation \<Rightarrow> bool" where
  "datable m \<longleftrightarrow> mExpiresAt m = 0 \<or> unixEpoch < mExpiresAt m \<and> mExpiresAt m < unixEpoch + 2 ^ 63"

definition mutOp :: "Mutation \<Rightarrow> string \<Rightarrow> keyOp" where
  "mutOp m k = keyOpOf (mkLine [] m) [] k"

definition after :: "Mutation list \<Rightarrow> (string \<Rightarrow> (string \<times> int) option) \<Rightarrow> string \<Rightarrow> (string \<times> int) option" where
  "after ms f k = fold (\<lambda>m. actOn (mutOp m k)) ms (f k)"

lemma after_append [simp]: "after (ms @ ms') f = after ms' (after ms f)"
  by (simp add: after_def fun_eq_iff)

lemma after_Nil [simp]: "after [] f = f"
  by (simp add: after_def fun_eq_iff)

lemma after_one: "after [m] f k = actOn (mutOp m k) (f k)"
  by (simp add: after_def)

lemma keyOpOf_mkLine: "keyOpOf (mkLine n m) n' k = (if n = n' then mutOp m k else Keep)"
  by (simp add: keyOpOf_def mkLine_def mutOp_def)

lemma replay_mutations: "replay (map (mkLine n) ms) D n' = (if n = n' then after ms (D n) else D n')"
proof -
  have "fold (\<lambda>l. actOn (keyOpOf l n' k)) (map (mkLine n) ms) x = (if n = n' then fold (\<lambda>m. actOn (mutOp m k)) ms x else x)" for k x
    by (induction ms arbitrary: x) (simp_all add: keyOpOf_mkLine)
  then show ?thesis by (simp add: replay_def after_def fun_eq_iff)
qed

lemma datable_stamp:
  assumes "datable m"
  shows "0 \<le> aExp (mkLine n m)" "stamp (aExp (mkLine n m)) = mExpiresAt m" "aExp (mkLine n m) = 0 \<longleftrightarrow> mExpiresAt m = 0"
  using assms by (auto simp: datable_def mkLine_def UnixNano_def wrap64_def stamp_def timeUnix_def unixEpoch_def second_def)

lemma live_stamped: "datable m \<Longrightarrow> live t (Some (v, max 0 (aExp (mkLine n m)))) = unexpired t (Some (v, mExpiresAt m))"
  using datable_stamp [of m n] by (simp add: live_def max_def)

section \<open>Operations and their mutations\<close>

text \<open>
  Between the instants \<open>t\<close> and \<open>t'\<close> the operation reports mutations that turn a data set the store mirrors
  into one it mirrors afterwards, but for the keys \<open>L\<close> it takes out without a report.
\<close>

definition logs :: "gotime \<Rightarrow> gotime \<Rightarrow> (DB \<Rightarrow> DB \<Rightarrow> string set) \<Rightarrow> (DB \<Rightarrow> DB) \<Rightarrow> bool" where
  "logs t t' L op \<longleftrightarrow> (\<forall>d l. db_ok d \<and> sink d = Some l \<longrightarrow> db_ok (op d) \<and>
     (\<exists>ms. sink (op d) = Some (l @ ms) \<and>
        (\<forall>E f. (\<forall>m \<in> set ms. datable m) \<and> mirrors t E f d \<longrightarrow> mirrors t' (E \<union> L d (op d)) (after ms f) (op d))))"

definition nothing :: "DB \<Rightarrow> DB \<Rightarrow> string set" where
  "nothing d d' = {}"

definition anything :: "DB \<Rightarrow> DB \<Rightarrow> string set" where
  "anything d d' = UNIV"

text \<open>Keys other than the one written that a client could see before.\<close>

definition evictedBy :: "string \<Rightarrow> gotime \<Rightarrow> DB \<Rightarrow> DB \<Rightarrow> string set" where
  "evictedBy key t d d' = {k. k \<noteq> key \<and> visible t d k \<noteq> None \<and> visible t d' k = None}"

lemma logsD:
  assumes "logs t t' L op" "db_ok d" "sink d = Some l"
  obtains ms where "db_ok (op d)" "sink (op d) = Some (l @ ms)"
    "\<And>E f. \<forall>m \<in> set ms. datable m \<Longrightarrow> mirrors t E f d \<Longrightarrow> mirrors t' (E \<union> L d (op d)) (after ms f) (op d)"
  using assms unfolding logs_def by blast

lemma logs_earlier: "logs t t' L op \<Longrightarrow> s \<le> t \<Longrightarrow> logs s t' L op"
  unfolding logs_def using mirrors_later by meson

lemma logsI:
  assumes "\<And>d l. db_ok d \<Longrightarrow> sink d = Some l \<Longrightarrow> db_ok (op d) \<and>
     (\<exists>ms. sink (op d) = Some (l @ ms) \<and>
        (\<forall>E f. (\<forall>m \<in> set ms. datable m) \<and> mirrors now E f d \<longrightarrow> mirrors now (E \<union> L d (op d)) (after ms f) (op d)))"
    and "t \<le> now"
  shows "logs t now L op"
  using assms(1) by (intro logs_earlier [OF _ assms(2)]) (simp add: logs_def)

lemma logs_weaken: "logs t t' L op \<Longrightarrow> (\<And>d d'. L d d' \<subseteq> L' d d') \<Longrightarrow> logs t t' L' op"
proof -
  have m: "mirrors t E f d \<Longrightarrow> E \<subseteq> E' \<Longrightarrow> mirrors t E' f d" for t E E' f d by (auto simp: mirrors_def)
  assume "logs t t' L op" "\<And>d d'. L d d' \<subseteq> L' d d'"
  then show ?thesis unfolding logs_def using m by (meson Un_mono order_refl)
qed

lemma logs_any: "logs t t' L op \<Longrightarrow> logs t t' anything op"
  by (erule logs_weaken) (simp add: anything_def)

lemma logs_cong: "(\<And>d. \<exists>op'. logs t t' L op' \<and> op d = op' d) \<Longrightarrow> logs t t' L op"
  unfolding logs_def by metis

lemma logs_then:
  assumes "logs t t1 L a" "logs t1 t2 L b" "\<And>d d1 d2. L d d1 \<union> L d1 d2 \<subseteq> L d d2"
  shows "logs t t2 L (\<lambda>d. b (a d))"
  unfolding logs_def
proof (intro allI impI)
  fix d l
  assume "db_ok d \<and> sink d = Some l"
  then obtain ms where A: "db_ok (a d)" "sink (a d) = Some (l @ ms)"
    "\<And>E f. \<forall>m \<in> set ms. datable m \<Longrightarrow> mirrors t E f d \<Longrightarrow> mirrors t1 (E \<union> L d (a d)) (after ms f) (a d)"
    using logsD [OF assms(1)] by metis
  obtain ms' where B: "db_ok (b (a d))" "sink (b (a d)) = Some ((l @ ms) @ ms')"
    "\<And>E f. \<forall>m \<in> set ms'. datable m \<Longrightarrow> mirrors t1 E f (a d) \<Longrightarrow> mirrors t2 (E \<union> L (a d) (b (a d))) (after ms' f) (b (a d))"
    using logsD [OF assms(2) A(1,2)] by metis
  have "mirrors t2 (E \<union> L d (b (a d))) (after (ms @ ms') f) (b (a d))"
    if "\<forall>m \<in> set (ms @ ms'). datable m" "mirrors t E f d" for E f
  proof -
    have "mirrors t2 (E \<union> L d (a d) \<union> L (a d) (b (a d))) (after ms' (after ms f)) (b (a d))" using that A(3) B(3) by simp
    then show ?thesis using assms(3) [of d "a d" "b (a d)"] unfolding mirrors_def after_append by blast
  qed
  then show "db_ok (b (a d)) \<and> (\<exists>ms. sink (b (a d)) = Some (l @ ms) \<and>
      (\<forall>E f. (\<forall>m \<in> set ms. datable m) \<and> mirrors t E f d \<longrightarrow> mirrors t2 (E \<union> L d (b (a d))) (after ms f) (b (a d))))"
    using B(1,2) by (intro conjI exI [of _ "ms @ ms'"]) simp_all
qed

text \<open>Operations that change nothing a client can see report nothing.\<close>

lemma logs_quiet:
  assumes "\<And>d. db_ok d \<Longrightarrow> db_ok (op d) \<and> visible now (op d) = visible now d \<and> sink (op d) = sink d" "t \<le> now"
  shows "logs t now L op"
  by (rule logsI [OF _ assms(2)]) (use assms(1) mirrors_visible in fastforce)

subsection \<open>Reading\<close>

lemma sink_dropKey [simp]: "sink (dropKey k e d) = sink d"
  by (simp add: dropKey_def clearDB_def removeFromShard_def Let_def setShard_def subUsed_def split: option.splits)

lemma sink_read [simp]:
  "sink (snd (Get key now d)) = sink d" "sink (snd (existsOne key now d)) = sink d" "sink (snd (Exists keys now d)) = sink d"
  "sink (snd (Type key now d)) = sink d" "sink (snd (PTTL key now d)) = sink d" "sink (snd (TTL key now d)) = sink d"
proof -
  show "sink (snd (Get key now d)) = sink d"
    by (auto simp: Get_def Let_def setShard_def globalAccess_def split: option.splits)
  show e1: "sink (snd (existsOne key now d)) = sink d" for key d
    by (auto simp: existsOne_def split: option.splits)
  show e: "sink (snd (Exists keys now d)) = sink d" for keys
    using e1 by (induction keys arbitrary: d) (simp_all add: split_beta Let_def)
  show "sink (snd (Type key now d)) = sink d" unfolding Type_def using e by (simp only: split_beta Let_def if_distrib [of snd] snd_conv if_cancel)
  show p: "sink (snd (PTTL key now d)) = sink d"
    by (auto simp: PTTL_def Let_def split: option.splits)
  show "sink (snd (TTL key now d)) = sink d" using p by (simp add: TTL_def split_beta Let_def)
qed

lemma sink_expireDue [simp]: "sink (snd (expireDue now limit d)) = sink d"
proof -
  have del: "sink (snd (deleteIfExpired k now d)) = sink d" for k d
    by (auto simp: deleteIfExpired_def split: option.splits)
  have "sink (snd (expireLoop n r limit now d)) = sink d" for n r
  proof (induction n arbitrary: r d)
    case (Suc n)
    then show ?case using del by (auto simp: Let_def split: list.splits option.splits prod.splits bool.splits) (metis snd_conv)+
  qed simp
  then show ?thesis by (simp add: expireDue_def)
qed

lemma logs_reads:
  assumes "t \<le> now"
  shows "logs t now nothing (\<lambda>d. snd (Get key now d))" "logs t now nothing (\<lambda>d. snd (Exists keys now d))"
    "logs t now nothing (\<lambda>d. snd (Type key now d))" "logs t now nothing (\<lambda>d. snd (PTTL key now d))"
    "logs t now nothing (\<lambda>d. snd (TTL key now d))" "logs t now nothing (\<lambda>d. snd (expireDue now limit d))"
proof -
  have p: "db_ok (snd (PTTL key now d)) \<and> visible now (snd (PTTL key now d)) = visible now d" if "db_ok d" for d
    using PTTL_spec [OF that] by (metis prod.collapse)
  have e: "db_ok (snd (Exists keys now d)) \<and> visible now (snd (Exists keys now d)) = visible now d" if "db_ok d" for d keys
    using Exists_spec [OF that] by (metis prod.collapse)
  have y: "snd (Type key now d) = snd (Exists [key] now d)" for d by (simp only: Type_def split_beta Let_def if_distrib [of snd] snd_conv if_cancel)
  show "logs t now nothing (\<lambda>d. snd (Get key now d))"
    by (rule logs_quiet [OF _ assms]) (metis Get_spec(1,3) prod.collapse sink_read(1))
  show "logs t now nothing (\<lambda>d. snd (Exists keys now d))" by (rule logs_quiet [OF _ assms]) (use e in simp)
  show "logs t now nothing (\<lambda>d. snd (Type key now d))" unfolding y by (rule logs_quiet [OF _ assms]) (use e in \<open>simp del: Exists.simps\<close>)
  show "logs t now nothing (\<lambda>d. snd (PTTL key now d))" by (rule logs_quiet [OF _ assms]) (use p in simp)
  show "logs t now nothing (\<lambda>d. snd (TTL key now d))" by (rule logs_quiet [OF _ assms]) (use p in \<open>simp add: TTL_def split_beta Let_def\<close>)
  show "logs t now nothing (\<lambda>d. snd (expireDue now limit d))"
    by (rule logs_quiet [OF _ assms]) (metis expireDue_spec prod.collapse sink_expireDue)
qed

subsection \<open>Writing\<close>

lemma mutOp_simps:
  "mutOp (setMutation key v x) k = (if k = key then Put (Some (v, max 0 (aExp (mkLine [] (setMutation key v x))))) else Keep)"
  "mutOp \<lparr>mOp = ''DEL'', mKey = [], mValue = [], mKeys = [key], mExpiresAt = 0\<rparr> k = (if k = key then Put None else Keep)"
  "mutOp \<lparr>mOp = ''PERSIST'', mKey = key, mValue = [], mKeys = [], mExpiresAt = 0\<rparr> k = (if k = key then Stamp 0 else Keep)"
  "mutOp flushMutation k = Put None"
  by (auto simp: mutOp_def keyOpOf_def mkLine_def setMutation_def flushMutation_def)

lemma setMutation_exp [simp]: "mExpiresAt (setMutation key v x) = x"
  by (simp add: setMutation_def)

lemma mutOp_expire:
  assumes "datable \<lparr>mOp = ''EXPIRE'', mKey = key, mValue = [], mKeys = [], mExpiresAt = at\<rparr>" "at \<noteq> 0"
  shows "mutOp \<lparr>mOp = ''EXPIRE'', mKey = key, mValue = [], mKeys = [], mExpiresAt = at\<rparr> k =
    (if k = key then Stamp (aExp (mkLine [] \<lparr>mOp = ''EXPIRE'', mKey = key, mValue = [], mKeys = [], mExpiresAt = at\<rparr>)) else Keep)"
  using datable_stamp [OF assms(1), of "[]"] assms(2) by (auto simp: mutOp_def keyOpOf_def mkLine_def)

lemma mirrors_evict:
  assumes "k \<noteq> key" "visible now d' k = visible now d k \<or> visible now d' k = None" "mirrors now E f d"
  shows "visible now d' k = live now (f k) \<or> k \<in> E \<union> evictedBy key now d d' \<and> visible now d' k = None"
proof -
  have "visible now d k = live now (f k) \<or> k \<in> E \<and> visible now d k = None" using assms(3) by (simp add: mirrors_def)
  then show ?thesis using assms(1,2) by (cases "visible now d k = None") (auto simp: evictedBy_def)
qed

lemma logs_Set:
  assumes "t \<le> now"
  shows "logs t now (evictedBy key now) (\<lambda>d. snd (Set key val opt now clock d))"
proof (rule logsI [OF _ assms])
  fix d l
  assume ok: "db_ok d" and l: "sink d = Some l"
  obtain r d' where S: "Set key val opt now clock d = (r, d')" by fastforce
  note sp = Set_spec [OF ok S]
  let ?x = "finalExpiry key opt now d" let ?m = "setMutation key val ?x"
  have oth: "visible now d' k = visible now d k \<or> visible now d' k = None" if "k \<noteq> key" for k
    using sp(3) that by (auto simp: evicted_def visible_def)
  have "\<exists>ms. sink d' = Some (l @ ms) \<and> (\<forall>E f. (\<forall>m \<in> set ms. datable m) \<and> mirrors now E f d \<longrightarrow>
      mirrors now (E \<union> evictedBy key now d d') (after ms f) d')"
  proof (cases "r = Inr True")
    case True
    have "mirrors now (E \<union> evictedBy key now d d') (after [?m] f) d'" if m: "datable ?m" "mirrors now E f d" for E f
      unfolding mirrors_def
    proof
      fix k
      show "visible now d' k = live now (after [?m] f k) \<or> k \<in> E \<union> evictedBy key now d d' \<and> visible now d' k = None"
      proof (cases "k = key")
        case True
        have "visible now d' key = unexpired now (Some (val, ?x))"
          using sp(4) \<open>r = Inr True\<close> by (simp add: visible_unexpired newEntry_def)
        also have "\<dots> = live now (after [?m] f key)"
          using live_stamped [OF m(1), of now val "[]"] by (simp add: after_one mutOp_simps)
        finally show ?thesis using True by simp
      next
        case False
        then show ?thesis using mirrors_evict [OF False oth [OF False] m(2)] by (simp add: after_one mutOp_simps)
      qed
    qed
    then show ?thesis using sp(4) True l by (intro exI [of _ "[?m]"]) simp
  next
    case False
    have "mirrors now (E \<union> evictedBy key now d d') f d'" if "mirrors now E f d" for E f
      unfolding mirrors_def
    proof
      fix k
      show "visible now d' k = live now (f k) \<or> k \<in> E \<union> evictedBy key now d d' \<and> visible now d' k = None"
        using mirrors_evict [OF _ oth that] sp(5) [OF False] that by (cases "k = key") (auto simp: mirrors_def)
    qed
    then show ?thesis using sp(5) [OF False] l by (intro exI [of _ "[]"]) simp
  qed
  then show "db_ok (snd (Set key val opt now clock d)) \<and> (\<exists>ms. sink (snd (Set key val opt now clock d)) = Some (l @ ms) \<and>
      (\<forall>E f. (\<forall>m \<in> set ms. datable m) \<and> mirrors now E f d \<longrightarrow>
        mirrors now (E \<union> evictedBy key now d (snd (Set key val opt now clock d))) (after ms f) (snd (Set key val opt now clock d))))"
    using sp(1) S by simp
qed

text \<open>A report about one key that is visible.\<close>

lemma mirrors_report:
  assumes "mirrors now E f d" "visible now d key \<noteq> None"
    and "\<And>k. k \<noteq> key \<Longrightarrow> visible now d' k = visible now d k" "\<And>k. k \<noteq> key \<Longrightarrow> mutOp m k = Keep"
    and "\<And>v e. f key = Some (v, e) \<Longrightarrow> visible now d key = Some (v, stamp e) \<Longrightarrow> visible now d' key = live now (actOn (mutOp m key) (f key))"
  shows "mirrors now (E \<union> F) (after [m] f) d'"
  unfolding mirrors_def
proof
  fix k
  show "visible now d' k = live now (after [m] f k) \<or> k \<in> E \<union> F \<and> visible now d' k = None"
  proof (cases "k = key")
    case True
    have "visible now d key = live now (f key)" using assms(1,2) by (auto simp: mirrors_def)
    with assms(2) obtain v e where "f key = Some (v, e)" "visible now d key = Some (v, stamp e)"
      by (auto simp: live_def unexpired_def split: option.splits if_splits)
    then show ?thesis using assms(5) True by (simp add: after_one)
  next
    case False
    then show ?thesis using assms(1,3,4) by (auto simp: mirrors_def after_one)
  qed
qed

lemma logs_delOne:
  assumes "t \<le> now"
  shows "logs t now nothing (\<lambda>d. snd (delOne key now d))"
proof (rule logsI [OF _ assms])
  fix d l
  assume ok: "db_ok d" and l: "sink d = Some l"
  let ?d = "snd (delOne key now d)" and ?m = "\<lparr>mOp = ''DEL'', mKey = [], mValue = [], mKeys = [key], mExpiresAt = 0\<rparr>"
  note sp = delOne_spec [OF ok, of key now "fst (delOne key now d)" ?d, OF prod.collapse [symmetric]]
  have sk: "sink ?d = (if visible now d key \<noteq> None then Some (l @ [?m]) else sink d)"
    using l by (auto simp: delOne_def visible_def Let_def split: option.splits)
  have vis: "visible now ?d k = (if k = key then None else visible now d k)" for k
    using sp(2) by (simp add: visible_def)
  show "db_ok ?d \<and> (\<exists>ms. sink ?d = Some (l @ ms) \<and> (\<forall>E f. (\<forall>m \<in> set ms. datable m) \<and> mirrors now E f d \<longrightarrow>
      mirrors now (E \<union> nothing d ?d) (after ms f) ?d))"
  proof (cases "visible now d key = None")
    case True
    then have "visible now ?d = visible now d" using vis by auto
    then show ?thesis using sp(1) sk True l mirrors_visible by fastforce
  next
    case False
    have "mirrors now (E \<union> nothing d ?d) (after [?m] f) ?d" if "mirrors now E f d" for E f
      by (rule mirrors_report [OF that False]) (simp_all add: vis mutOp_simps)
    then show ?thesis using sp(1) sk False by auto
  qed
qed

lemma logs_Del: "t \<le> now \<Longrightarrow> logs t now nothing (\<lambda>d. snd (Del keys now d))"
proof (induction keys arbitrary: t)
  case Nil
  then show ?case by (simp add: logs_quiet)
next
  case (Cons k ks)
  show ?case using logs_then [OF logs_delOne [OF Cons.prems, of k] Cons.IH [of now]] by (simp add: split_beta Let_def nothing_def)
qed

lemma logs_setExpireAt:
  assumes "t \<le> now" "at \<noteq> 0"
  shows "logs t now nothing (\<lambda>d. snd (setExpireAt key at now d))"
proof (rule logsI [OF _ assms(1)])
  fix d l
  assume ok: "db_ok d" and l: "sink d = Some l"
  let ?d = "snd (setExpireAt key at now d)" and ?m = "\<lparr>mOp = ''EXPIRE'', mKey = key, mValue = [], mKeys = [], mExpiresAt = at\<rparr>"
  note sp = setExpireAt_spec [OF ok, of key at now "fst (setExpireAt key at now d)" ?d, OF prod.collapse [symmetric]]
  have sk: "sink ?d = (if visible now d key \<noteq> None then Some (l @ [?m]) else sink d)"
    using l by (auto simp: setExpireAt_def visible_def Let_def noteDB_def setShard_def split: option.splits)
  show "db_ok ?d \<and> (\<exists>ms. sink ?d = Some (l @ ms) \<and> (\<forall>E f. (\<forall>m \<in> set ms. datable m) \<and> mirrors now E f d \<longrightarrow>
      mirrors now (E \<union> nothing d ?d) (after ms f) ?d))"
  proof (cases "visible now d key")
    case None
    then show ?thesis using sp(1,4) sk l mirrors_visible by fastforce
  next
    case (Some p)
    obtain v x where p: "visible now d key = Some (v, x)" using Some by (cases p) auto
    have vis: "visible now ?d k = (if k = key then unexpired now (Some (v, at)) else visible now d k)" for k
      using sp(5) [OF p] by (simp add: visible_unexpired newEntry_def)
    have "mirrors now (E \<union> nothing d ?d) (after [?m] f) ?d" if m: "datable ?m" "mirrors now E f d" for E f
    proof (rule mirrors_report [OF m(2)])
      show "visible now ?d key = live now (actOn (mutOp ?m key) (f key))" if "f key = Some (w, e)" "visible now d key = Some (w, stamp e)" for w e
        using that p vis [of key] datable_stamp(2) [OF m(1), of "[]"] by (simp add: mutOp_expire [OF m(1) assms(2)] live_def)
    qed (use p vis mutOp_expire [OF m(1) assms(2)] in simp_all)
    then show ?thesis using sp(1) sk p by auto
  qed
qed

lemma logs_Persist:
  assumes "t \<le> now"
  shows "logs t now nothing (\<lambda>d. snd (Persist key now d))"
proof (rule logsI [OF _ assms])
  fix d l
  assume ok: "db_ok d" and l: "sink d = Some l"
  let ?d = "snd (Persist key now d)" and ?m = "\<lparr>mOp = ''PERSIST'', mKey = key, mValue = [], mKeys = [], mExpiresAt = 0\<rparr>"
  note sp = Persist_spec [OF ok, of key now "fst (Persist key now d)" ?d, OF prod.collapse [symmetric]]
  have sk: "sink ?d = (case visible now d key of Some (v, x) \<Rightarrow> if x = 0 then sink d else Some (l @ [?m]) | None \<Rightarrow> sink d)"
    using l by (auto simp: Persist_def visible_def Let_def clearDB_def setShard_def split: option.splits)
  show "db_ok ?d \<and> (\<exists>ms. sink ?d = Some (l @ ms) \<and> (\<forall>E f. (\<forall>m \<in> set ms. datable m) \<and> mirrors now E f d \<longrightarrow>
      mirrors now (E \<union> nothing d ?d) (after ms f) ?d))"
  proof (cases "\<exists>v x. visible now d key = Some (v, x) \<and> x \<noteq> 0")
    case False
    then have "visible now ?d = visible now d" "sink ?d = sink d" using sp sk by (auto split: option.splits)
    then show ?thesis using sp l mirrors_visible by fastforce
  next
    case True
    then obtain v x where p: "visible now d key = Some (v, x)" "x \<noteq> 0" by blast
    have vis: "visible now ?d k = (if k = key then Some (v, 0) else visible now d k)" for k
      using sp p by (auto simp: visible_unexpired newEntry_def unexpired_def)
    have "mirrors now (E \<union> nothing d ?d) (after [?m] f) ?d" if "mirrors now E f d" for E f
    proof (rule mirrors_report [OF that])
      show "visible now ?d key = live now (actOn (mutOp ?m key) (f key))" if "f key = Some (w, e)" "visible now d key = Some (w, stamp e)" for w e
        using that p vis [of key] by (simp add: mutOp_simps live_def stamp_def [of 0] unexpired_def)
    qed (use p vis in \<open>simp_all add: mutOp_simps\<close>)
    then show ?thesis using sp sk p by auto
  qed
qed

lemma logs_Expire:
  assumes "t \<le> now" "0 \<le> now0"
  shows "logs t now nothing (\<lambda>d. snd (Expire key dur now0 now d))"
proof (cases "dur \<le> 0")
  case True
  then show ?thesis using logs_Del [OF assms(1), of "[key]"] by (simp add: Expire_def split_beta Let_def)
next
  case False
  show ?thesis
  proof (rule logs_cong)
    fix d :: DB
    let ?x = "if 0 < MaxTTL (cfg d) \<and> MaxTTL (cfg d) < dur then MaxTTL (cfg d) else dur"
    have "logs t now nothing (\<lambda>d. snd (setExpireAt key (now0 + ?x) now d))"
      using False assms by (intro logs_setExpireAt) auto
    then show "\<exists>op'. logs t now nothing op' \<and> snd (Expire key dur now0 now d) = op' d"
      using False by (intro exI [of _ "\<lambda>d. snd (setExpireAt key (now0 + ?x) now d)"]) (simp add: Expire_def Let_def)
  qed
qed

lemma logs_FlushDB:
  assumes "is_perm perm"
  shows "logs t t nothing (\<lambda>d. snd (FlushDB perm d))"
proof (rule logsI [OF _ order_refl])
  fix d l
  assume ok: "db_ok d" and l: "sink d = Some l"
  obtain n d' where F: "FlushDB perm d = (n, d')" by fastforce
  note sp = FlushDB_spec [OF ok assms F]
  have vis: "visible t d' k = None" for k using sp by (simp add: visible_def)
  have "\<exists>ms. sink d' = Some (l @ ms) \<and> (\<forall>E f. (\<forall>m \<in> set ms. datable m) \<and> mirrors t E f d \<longrightarrow> mirrors t (E \<union> nothing d d') (after ms f) d')"
  proof (cases "n = 0")
    case True
    then have "keysOf d = {}" using sp finite_keysOf [OF ok] by simp
    then have "visible t d' = visible t d" using vis by (auto simp: keysOf_def visible_def fun_eq_iff)
    then show ?thesis using sp True l mirrors_visible by (intro exI [of _ "[]"]) simp
  next
    case False
    then show ?thesis using sp l vis by (intro exI [of _ "[flushMutation]"]) (simp add: mirrors_def after_one mutOp_simps)
  qed
  then show "db_ok (snd (FlushDB perm d)) \<and> (\<exists>ms. sink (snd (FlushDB perm d)) = Some (l @ ms) \<and>
      (\<forall>E f. (\<forall>m \<in> set ms. datable m) \<and> mirrors t E f d \<longrightarrow> mirrors t (E \<union> nothing d (snd (FlushDB perm d))) (after ms f) (snd (FlushDB perm d))))"
    using sp F by simp
qed

text \<open>Counting reads the key at \<open>now\<close> and writes at \<open>now1\<close>.\<close>

lemma logs_IncrBy:
  assumes "t \<le> now" "now \<le> now1"
  shows "logs t now1 (evictedBy key now1) (\<lambda>d. snd (IncrBy key delta now now1 clock d))"
  unfolding logs_def
proof (intro allI impI)
  fix d l
  assume a: "db_ok d \<and> sink d = Some l"
  let ?d = "snd (IncrBy key delta now now1 clock d)"
  obtain d1 where d1: "db_ok d1" "visible now d1 = visible now d" "sink d1 = Some l"
    and I: "IncrBy key delta now now1 clock d =
      (case counterOf (visible now d key) of
         Inl _ \<Rightarrow> (Inl ErrNotInteger, d1)
       | Inr cur \<Rightarrow> (case Set key (FormatInt (wrap64 (cur + delta))) (incrOptions (visible now d key)) now1 clock d1 of
           (Inl err, d2) \<Rightarrow> (Inl err, d2) | (Inr _, d2) \<Rightarrow> (Inr (wrap64 (cur + delta)), d2)))"
    by (rule IncrBy_stages [OF conjunct1 [OF a], of now key delta now1 clock], rule that) (use a in simp_all)
  have v1: "visible now1 d1 = visible now1 d" using d1(2) visible_later [OF assms(2)] by (simp add: fun_eq_iff)
  have m1: "mirrors now1 E f d1" if "mirrors t E f d" for E f
    using mirrors_later [OF that, of now1] assms v1 by (auto simp: mirrors_def)
  have ev: "evictedBy key now1 d1 x = evictedBy key now1 d x" for x using v1 by (simp add: evictedBy_def)
  show "db_ok ?d \<and> (\<exists>ms. sink ?d = Some (l @ ms) \<and> (\<forall>E f. (\<forall>m \<in> set ms. datable m) \<and> mirrors t E f d \<longrightarrow>
      mirrors now1 (E \<union> evictedBy key now1 d ?d) (after ms f) ?d))"
  proof (cases "counterOf (visible now d key)")
    case (Inl x)
    then have "?d = d1" using I by simp
    moreover have "mirrors now1 (E \<union> evictedBy key now1 d d1) f d1" if "mirrors t E f d" for E f
      using m1 [OF that] by (auto simp: mirrors_def)
    ultimately show ?thesis using d1 by (intro conjI exI [of _ "[]"]) simp_all
  next
    case (Inr cur)
    let ?S = "Set key (FormatInt (wrap64 (cur + delta))) (incrOptions (visible now d key)) now1 clock d1"
    have D: "?d = snd ?S" using I Inr by (auto split: prod.splits sum.splits)
    obtain ms where "db_ok (snd ?S)" "sink (snd ?S) = Some (l @ ms)"
      "\<And>E f. \<forall>m \<in> set ms. datable m \<Longrightarrow> mirrors now1 E f d1 \<Longrightarrow> mirrors now1 (E \<union> evictedBy key now1 d1 (snd ?S)) (after ms f) (snd ?S)"
      using logsD [OF logs_Set [OF order_refl] d1(1,3)] by metis
    then show ?thesis unfolding D ev using m1 by blast
  qed
qed

section \<open>A store and its log\<close>

text \<open>
  Operations of clients and the sweep, with readings of a clock that does not go back; \<open>E\<close>
  collects the keys that writes have evicted.
\<close>

inductive log_run :: "Config \<Rightarrow> rng \<Rightarrow> gotime \<Rightarrow> string set \<Rightarrow> DB \<Rightarrow> bool" for c g where
  begun: "log_run c g t {} (SetMutationSink (Some []) (New c g))"
| waited: "log_run c g t E d \<Longrightarrow> t \<le> t' \<Longrightarrow> log_run c g t' E d"
| ran_Get: "log_run c g t E d \<Longrightarrow> log_run c g t E (snd (Get key t d))"
| ran_Exists: "log_run c g t E d \<Longrightarrow> log_run c g t E (snd (Exists keys t d))"
| ran_Type: "log_run c g t E d \<Longrightarrow> log_run c g t E (snd (Type key t d))"
| ran_TTL: "log_run c g t E d \<Longrightarrow> log_run c g t E (snd (TTL key t d))"
| ran_PTTL: "log_run c g t E d \<Longrightarrow> log_run c g t E (snd (PTTL key t d))"
| ran_expireDue: "log_run c g t E d \<Longrightarrow> log_run c g t E (snd (expireDue t limit d))"
| ran_Del: "log_run c g t E d \<Longrightarrow> log_run c g t E (snd (Del keys t d))"
| ran_Expire: "log_run c g t E d \<Longrightarrow> 0 \<le> now0 \<Longrightarrow> log_run c g t E (snd (Expire key dur now0 t d))"
| ran_Persist: "log_run c g t E d \<Longrightarrow> log_run c g t E (snd (Persist key t d))"
| ran_FlushDB: "log_run c g t E d \<Longrightarrow> is_perm perm \<Longrightarrow> log_run c g t E (snd (FlushDB perm d))"
| ran_Set: "log_run c g t E d \<Longrightarrow> snd (Set key val opt t clock d) = d' \<Longrightarrow> log_run c g t (E \<union> evictedBy key t d d') d'"
| ran_IncrBy: "log_run c g t E d \<Longrightarrow> t \<le> t' \<Longrightarrow> snd (IncrBy key delta t t' clock d) = d' \<Longrightarrow>
    log_run c g t' (E \<union> evictedBy key t' d d') d'"

text \<open>The invariant of a run: the log so far describes the store.\<close>

definition tracked :: "gotime \<Rightarrow> string set \<Rightarrow> DB \<Rightarrow> bool" where
  "tracked t E d \<longleftrightarrow> db_ok d \<and> (\<exists>ms. sink d = Some ms \<and> ((\<forall>m \<in> set ms. datable m) \<longrightarrow> mirrors t E (after ms (\<lambda>_. None)) d))"

lemma tracked_step:
  assumes "tracked t E d" "logs t t' L op"
  shows "tracked t' (E \<union> L d (op d)) (op d)"
proof -
  obtain ms where d: "db_ok d" "sink d = Some ms" "\<forall>m \<in> set ms. datable m \<Longrightarrow> mirrors t E (after ms (\<lambda>_. None)) d"
    using assms(1) by (auto simp: tracked_def)
  obtain ms' where "db_ok (op d)" "sink (op d) = Some (ms @ ms')"
    "\<And>E f. \<forall>m \<in> set ms'. datable m \<Longrightarrow> mirrors t E f d \<Longrightarrow> mirrors t' (E \<union> L d (op d)) (after ms' f) (op d)"
    using logsD [OF assms(2) d(1,2)] by metis
  then show ?thesis using d(3) unfolding tracked_def by (intro conjI exI [of _ "ms @ ms'"]) auto
qed

lemma tracked_quiet: "tracked t E d \<Longrightarrow> logs t t nothing op \<Longrightarrow> tracked t E (op d)"
  using tracked_step [of t E d t nothing op] by (simp add: nothing_def)

lemmas quiet_steps =
  logs_reads [OF order_refl, THEN tracked_quiet [rotated]] logs_Del [OF order_refl, THEN tracked_quiet [rotated]]
  logs_Expire [OF order_refl, THEN tracked_quiet [rotated]] logs_Persist [OF order_refl, THEN tracked_quiet [rotated]]
  logs_FlushDB [THEN tracked_quiet [rotated]]

lemma log_run_tracked:
  assumes "log_run c g t E d" "sane c"
  shows "tracked t E d"
  using assms
proof (induction rule: log_run.induct)
  case (begun t)
  have "db_ok (SetMutationSink (Some []) (New c g))"
    using kept_SetMutationSink [OF New_db_ok [OF begun], of g "Some []"] by (simp add: kept_def)
  moreover have "visible t (New c g) k = None" for k
    using New_ok [of c g] begun unfolding sane_def by (auto simp: visible_def keysOf_def)
  ultimately show ?case by (simp add: tracked_def mirrors_def) (simp add: SetMutationSink_def)
next
  case (waited t E d t')
  then show ?case using mirrors_later by (auto simp: tracked_def)
next
  case (ran_Set t E d key val opt clock d')
  then show ?case using tracked_step [OF _ logs_Set [OF order_refl]] by blast
next
  case (ran_IncrBy t E d t' key delta clock d')
  then show ?case using tracked_step [OF _ logs_IncrBy [OF order_refl]] by blast
qed (blast intro: quiet_steps)+


text \<open>C7: the log describes the store. Take any sequence of client operations and sweeps on a new store, with a
  clock that does not go back, in which every deadline lies between 1970 and 2262. Replaying the
  reported mutations gives a data set whose live part is, at every later instant, exactly what
  clients see, except that keys which a write has evicted may still be in it: no write is missing from the log, nothing that was
  deleted, flushed or has expired comes back, deadlines that were moved or removed agree.\<close>

theorem log_describes_store:
  assumes "log_run c g t E d" "sane c" "sink d = Some ms" "\<forall>m \<in> set ms. datable m" "t \<le> now"
  shows "visible now d k = live now (replay (map (mkLine n) ms) noData n k) \<or> k \<in> E \<and> visible now d k = None"
proof -
  have "mirrors t E (after ms (\<lambda>_. None)) d" using log_run_tracked [OF assms(1,2)] assms(3,4) by (auto simp: tracked_def)
  from mirrors_later [OF this assms(5)] have "mirrors now E (replay (map (mkLine n) ms) noData n) d"
    by (simp add: mirrors_def replay_mutations after_def noData_def)
  then show ?thesis by (simp add: mirrors_def)
qed

text \<open>A key is written with a deadline, which is then removed.\<close>

theorem log_describes_store_witness:
  "\<exists>d. log_run (sampleConfig PolicyAllKeysLRU) sampleRng (unixEpoch + 20) {} d \<and>
     sink d = Some [setMutation ''a'' ''1'' (unixEpoch + 110), \<lparr>mOp = ''PERSIST'', mKey = ''a'', mValue = [], mKeys = [], mExpiresAt = 0\<rparr>] \<and>
     visible (unixEpoch + 500) d ''a'' = Some (''1'', 0)"
proof -
  let ?c = "sampleConfig PolicyAllKeysLRU" and ?o = "noOptions\<lparr>optPX := 100\<rparr>"
  let ?d0 = "SetMutationSink (Some []) (New ?c sampleRng)"
  have n: "db_ok (New ?c sampleRng)" "lookup (New ?c sampleRng) = Map.empty" using New_ok [of ?c sampleRng] by (simp_all add: keysOf_def)
  have l0: "lookup ?d0 = Map.empty" using n(2) by (simp add: SetMutationSink_def lookup_def theShard_def shardIndex_def fun_eq_iff)
  have ok: "db_ok ?d0" using kept_SetMutationSink [OF n(1), of "Some []"] by (simp add: kept_def)
  have c: "cfg ?d0 = ?c\<lparr>ExpiryInterval := second\<rparr>" "used ?d0 = 0" "sink ?d0 = Some []"
    by (simp_all add: New_def normConfig_def Let_def strategy_defs SetMutationSink_def policy_names ParseEvictionPolicy_def)
  obtain d1 where S: "Set ''a'' ''1'' ?o (unixEpoch + 10) sampleClock ?d0 = (Inr True, d1)"
    using Set_fresh [OF ok, of "''a''" ?o "''1''" "unixEpoch + 10" sampleClock]
    by (auto simp: l0 c memSize_def EntryOverhead_def strategy_defs noOptions_def)
  note sp = Set_spec [OF ok S]
  have x: "finalExpiry ''a'' ?o (unixEpoch + 10) ?d0 = unixEpoch + 110"
    using n(2) by (simp add: finalExpiry_def visible_def l0 setExpiry_def noOptions_def c unixEpoch_def second_def)
  have "evictedBy ''a'' (unixEpoch + 10) ?d0 d1 = {}" using n(2) by (simp add: evictedBy_def visible_def l0)
  then have "log_run ?c sampleRng (unixEpoch + 10) {} d1"
    using ran_Set [OF begun, where key = "''a''" and val = "''1''" and opt = ?o and clock = sampleClock and d' = d1 and t = "unixEpoch + 10"] S by (metis Un_empty_left snd_conv)
  then have r1: "log_run ?c sampleRng (unixEpoch + 20) {} d1" by (rule waited) simp
  let ?d = "snd (Persist ''a'' (unixEpoch + 20) d1)"
  have r: "log_run ?c sampleRng (unixEpoch + 20) {} ?d" using ran_Persist [OF r1] .
  have l1: "lookup d1 ''a'' = Some (newEntry ''a'' ''1'' (unixEpoch + 110))" "sink d1 = Some [setMutation ''a'' ''1'' (unixEpoch + 110)]"
    using sp(4) x c by simp_all
  have k: "sink ?d = Some [setMutation ''a'' ''1'' (unixEpoch + 110), \<lparr>mOp = ''PERSIST'', mKey = ''a'', mValue = [], mKeys = [], mExpiresAt = 0\<rparr>]"
    using l1 by (simp add: Persist_def Let_def newEntry_def expired_def unixEpoch_def second_def emit_def clearDB_def setShard_def)
  have "visible (unixEpoch + 500) ?d ''a'' = live (unixEpoch + 500) (replay (map (mkLine ''t'') [setMutation ''a'' ''1'' (unixEpoch + 110),
      \<lparr>mOp = ''PERSIST'', mKey = ''a'', mValue = [], mKeys = [], mExpiresAt = 0\<rparr>]) noData ''t'' ''a'')"
    using log_describes_store [OF r sane_sample k, of "unixEpoch + 500" "''a''" "''t''"] by (simp add: datable_def)
  also have "\<dots> = Some (''1'', 0)"
    unfolding replay_mutations by (simp add: after_def mutOp_simps noData_def live_def unexpired_def stamp_def)
  finally show ?thesis using r k by blast
qed

end
