(* ===== verification/Durability.thy ===== *)
theory Durability
  imports StoreLog ServerProps
begin

text \<open>
  The server with its engine: at every moment, while commands of all connections, sweeps and a save with its
  exports interleave, what a client can read is what a restart would recover. The commands are taken
  through \<^verbatim>\<open>Dispatch\<close>, the files as the engine leaves them.
\<close>

section \<open>Deadlines that the log can hold\<close>

definition dated :: "DB \<Rightarrow> bool" where
  "dated d \<longleftrightarrow> (\<forall>k e. lookup d k = Some e \<longrightarrow> expiresAt e = 0 \<or> unixEpoch < expiresAt e \<and> expiresAt e < unixEpoch + 2 ^ 63)"

text \<open>When the deadlines in the store afterwards can be logged, so can those of the reports.\<close>

definition told :: "(DB \<Rightarrow> DB) \<Rightarrow> bool" where
  "told op \<longleftrightarrow> (\<forall>d l ms. db_ok d \<and> sink d = Some l \<and> sink (op d) = Some (l @ ms) \<and> dated (op d) \<longrightarrow> (\<forall>m \<in> set ms. datable m))"

definition plainly :: "(DB \<Rightarrow> DB) \<Rightarrow> bool" where
  "plainly op \<longleftrightarrow> (\<forall>d l. db_ok d \<and> sink d = Some l \<longrightarrow> (\<exists>ms. sink (op d) = Some (l @ ms) \<and> (\<forall>m \<in> set ms. mExpiresAt m = 0)))"

lemma told_plain: "plainly op \<Longrightarrow> told op"
  unfolding told_def plainly_def datable_def by (metis option.inject same_append_eq)

lemma plain_quiet: "(\<And>d. sink (op d) = sink d) \<Longrightarrow> plainly op"
  by (auto simp: plainly_def)

lemma plain_then: "plainly a \<Longrightarrow> (\<And>d. db_ok d \<Longrightarrow> db_ok (a d)) \<Longrightarrow> plainly b \<Longrightarrow> plainly (\<lambda>d. b (a d))"
proof -
  assume a: "plainly a" and ok: "\<And>d. db_ok d \<Longrightarrow> db_ok (a d)" and b: "plainly b"
  show ?thesis unfolding plainly_def
  proof (intro allI impI)
    fix d l
    assume d: "db_ok d \<and> sink d = Some l"
    obtain ms where 1: "sink (a d) = Some (l @ ms)" "\<forall>m \<in> set ms. mExpiresAt m = 0" using a d unfolding plainly_def by blast
    moreover obtain ms' where "sink (b (a d)) = Some ((l @ ms) @ ms')" "\<forall>m \<in> set ms'. mExpiresAt m = 0"
      using b ok d 1(1) unfolding plainly_def by metis
    ultimately show "\<exists>ms. sink (b (a d)) = Some (l @ ms) \<and> (\<forall>m \<in> set ms. mExpiresAt m = 0)"
      by (intro exI [of _ "ms @ ms'"]) auto
  qed
qed

lemma plain_reads: "plainly (\<lambda>d. snd (Get key now d))" "plainly (\<lambda>d. snd (Exists keys now d))" "plainly (\<lambda>d. snd (Type key now d))"
  "plainly (\<lambda>d. snd (PTTL key now d))" "plainly (\<lambda>d. snd (TTL key now d))" "plainly (\<lambda>d. snd (expireDue now limit d))"
  by (rule plain_quiet, rule sink_read sink_expireDue)+

lemma plain_Del: "plainly (\<lambda>d. snd (Del keys now d))"
proof (induction keys)
  case Nil
  then show ?case by (simp add: plain_quiet)
next
  case (Cons k ks)
  have "plainly (\<lambda>d. snd (delOne k now d))"
    unfolding plainly_def by (auto simp: delOne_def Let_def split: option.splits)
  moreover have "db_ok (snd (delOne k now d))" if "db_ok d" for d using delOne_spec(1) [OF that] by (metis prod.collapse)
  ultimately show ?case using plain_then [OF _ _ Cons] by (simp add: split_beta Let_def)
qed

lemma plain_Persist: "plainly (\<lambda>d. snd (Persist key now d))"
  unfolding plainly_def by (auto simp: Persist_def Let_def clearDB_def setShard_def split: option.splits)

lemma plain_FlushDB: "is_perm perm \<Longrightarrow> plainly (\<lambda>d. snd (FlushDB perm d))"
  unfolding plainly_def
proof (intro allI impI)
  fix d l
  assume p: "is_perm perm" and d: "db_ok d \<and> sink d = Some l"
  then have "sink (snd (FlushDB perm d)) = (if fst (FlushDB perm d) = 0 then Some l else Some (l @ [flushMutation]))"
    using FlushDB_spec [OF _ p prod.collapse [symmetric], of d] by simp
  then show "\<exists>ms. sink (snd (FlushDB perm d)) = Some (l @ ms) \<and> (\<forall>m \<in> set ms. mExpiresAt m = 0)"
    by (auto simp: flushMutation_def)
qed

lemma dated_entry:
  assumes "dated d" "lookup d k = Some (newEntry k' v x)" "mExpiresAt m = x"
  shows "datable m"
proof -
  have "expiresAt (newEntry k' v x) = x" by (simp add: newEntry_def)
  then show ?thesis using assms unfolding dated_def datable_def by metis
qed

lemma Set_report:
  assumes "db_ok d" "sink d = Some l"
  shows "\<exists>ms. sink (snd (Set key val opt now clock d)) = Some (l @ ms) \<and>
    (\<forall>m \<in> set ms. lookup (snd (Set key val opt now clock d)) key = Some (newEntry key val (mExpiresAt m)) \<and>
       mExpiresAt m = finalExpiry key opt now d)"
proof -
  obtain r d' where S: "Set key val opt now clock d = (r, d')" by fastforce
  note sp = Set_spec [OF assms(1) S]
  show ?thesis using sp(4,5) S assms(2) by (cases "r = Inr True") auto
qed

lemma told_Set: "told (\<lambda>d. snd (Set key val opt now clock d))"
  unfolding told_def
proof (intro allI impI ballI)
  fix d l ms m
  let ?d = "snd (Set key val opt now clock d)"
  assume a: "db_ok d \<and> sink d = Some l \<and> sink ?d = Some (l @ ms) \<and> dated ?d" and m: "m \<in> set ms"
  then have "lookup ?d key = Some (newEntry key val (mExpiresAt m))"
    using Set_report [of d l key val opt now clock] by auto
  then show "datable m" using a dated_entry by blast
qed

lemma plain_Set: "plainly (\<lambda>d. snd (Set key val noOptions now clock d))"
proof -
  have "finalExpiry key noOptions now d = 0" for d
    by (auto simp: finalExpiry_def setExpiry_def noOptions_def keepsTTL_def split: option.splits)
  then show ?thesis unfolding plainly_def using Set_report by metis
qed

lemma told_IncrBy: "told (\<lambda>d. snd (IncrBy key delta now now1 clock d))"
  unfolding told_def
proof (intro allI impI)
  fix d l ms
  let ?d = "snd (IncrBy key delta now now1 clock d)"
  assume a: "db_ok d \<and> sink d = Some l \<and> sink ?d = Some (l @ ms) \<and> dated ?d"
  obtain d1 where d1: "db_ok d1" "sink d1 = Some l"
    and I: "IncrBy key delta now now1 clock d =
      (case counterOf (visible now d key) of
         Inl _ \<Rightarrow> (Inl ErrNotInteger, d1)
       | Inr cur \<Rightarrow> (case Set key (FormatInt (wrap64 (cur + delta))) (incrOptions (visible now d key)) now1 clock d1 of
           (Inl err, d2) \<Rightarrow> (Inl err, d2) | (Inr _, d2) \<Rightarrow> (Inr (wrap64 (cur + delta)), d2)))"
    by (rule IncrBy_stages [OF conjunct1 [OF a], of now key delta now1 clock], rule that) (use a in simp_all)
  show "\<forall>m \<in> set ms. datable m"
  proof (cases "counterOf (visible now d key)")
    case (Inl x)
    then show ?thesis using a I d1 by simp
  next
    case (Inr cur)
    let ?o = "incrOptions (visible now d key)"
    have "?d = snd (Set key (FormatInt (wrap64 (cur + delta))) ?o now1 clock d1)" using I Inr by (auto split: prod.splits sum.splits)
    then show ?thesis using told_Set a d1 unfolding told_def by metis
  qed
qed

lemma told_Expire: "told (\<lambda>d. snd (Expire key dur now0 now d))"
proof (cases "dur \<le> 0")
  case True
  then show ?thesis using told_plain [OF plain_Del, of "[key]"] by (simp add: Expire_def split_beta Let_def)
next
  case False
  have "told (\<lambda>d. snd (setExpireAt key at now d))" for at
    unfolding told_def
  proof (intro allI impI ballI)
    fix d l ms m
    let ?d = "snd (setExpireAt key at now d)"
    assume a: "db_ok d \<and> sink d = Some l \<and> sink ?d = Some (l @ ms) \<and> dated ?d" and m: "m \<in> set ms"
    show "datable m"
    proof (cases "visible now d key")
      case None
      then have "sink ?d = sink d" by (auto simp: setExpireAt_def visible_def Let_def split: option.splits)
      then show ?thesis using a m by simp
    next
      case (Some p)
      then have "sink ?d = Some (l @ [\<lparr>mOp = ''EXPIRE'', mKey = key, mValue = [], mKeys = [], mExpiresAt = at\<rparr>])"
        using conjunct1 [OF conjunct2 [OF a]] by (auto simp: setExpireAt_def visible_def Let_def noteDB_def setShard_def split: option.splits if_splits)
      moreover have "lookup ?d key = Some (newEntry key (fst p) at)"
        using setExpireAt_spec(5) [of d key at now "fst (setExpireAt key at now d)" ?d "fst p" "snd p"] a Some by simp
      ultimately show ?thesis using a m dated_entry [of ?d key] by auto
    qed
  qed
  then have "\<forall>at. told (\<lambda>d. snd (setExpireAt key at now d))" by blast
  then show ?thesis unfolding told_def Expire_def Let_def if_not_P [OF False] by blast
qed

section \<open>Operations of the commands\<close>

text \<open>Readings of the clock during a command, in order, between two instants.\<close>

definition clocked :: "gotime \<Rightarrow> gotime \<Rightarrow> Env \<Rightarrow> bool" where
  "clocked t t' ev \<longleftrightarrow> 0 \<le> t \<and> mono (evNow ev) \<and> (\<forall>i. t \<le> evNow ev i \<and> evNow ev i \<le> t') \<and> is_perm (evPerm ev)"

definition recorded :: "gotime \<Rightarrow> gotime \<Rightarrow> (DB \<Rightarrow> DB) \<Rightarrow> bool" where
  "recorded t t' op \<longleftrightarrow> logs t t' anything op \<and> told op"

lemma logs_later: "logs t t' anything op \<Longrightarrow> t' \<le> t'' \<Longrightarrow> logs t t'' anything op"
  unfolding logs_def anything_def using mirrors_later by (metis Un_UNIV_right)

lemma recordedI: "logs t now L op \<Longrightarrow> told op \<Longrightarrow> now \<le> t' \<Longrightarrow> recorded t t' op"
  unfolding recorded_def using logs_any logs_later by blast

lemma anything_then: "logs t t1 anything a \<Longrightarrow> logs t1 t2 anything b \<Longrightarrow> logs t t2 anything (\<lambda>d. b (a d))"
  by (erule (1) logs_then) (simp add: anything_def)

lemma logs_if: "logs t t' L a \<Longrightarrow> logs t t' L b \<Longrightarrow> logs t t' L (\<lambda>d. if P d then a d else b d)"
  unfolding logs_def by simp

lemma plain_if: "plainly a \<Longrightarrow> plainly b \<Longrightarrow> plainly (\<lambda>d. if P d then a d else b d)"
  unfolding plainly_def by simp

lemma logs_ok: "logs t t' L op \<Longrightarrow> db_ok d \<Longrightarrow> sink d = Some l \<Longrightarrow> db_ok (op d)"
  by (auto simp: logs_def)

lemma readings:
  assumes "clocked t t' ev"
  shows "t \<le> evNow ev i" "evNow ev i \<le> t'" "i \<le> j \<Longrightarrow> evNow ev i \<le> evNow ev j" "0 \<le> evNow ev i" "is_perm (evPerm ev)"
  using assms by (auto simp: clocked_def mono_def intro: order_trans)

lemma recorded_mget: "clocked t t' ev \<Longrightarrow> recorded t t' (\<lambda>d. snd (mgetLoop (evNow ev) 0 ks d))"
proof -
  assume c: "clocked t t' ev"
  have "logs s t' anything (\<lambda>d. snd (mgetLoop (evNow ev) i ks d)) \<and> plainly (\<lambda>d. snd (mgetLoop (evNow ev) i ks d))"
    if "s \<le> evNow ev i" for s i
    using that
  proof (induction ks arbitrary: s i)
    case Nil
    then show ?case using readings(2) [OF c, of i] logs_quiet [of "\<lambda>d. d" t' s anything] by (auto simp: plain_quiet intro: order_trans)
  next
    case (Cons k ks)
    let ?g = "\<lambda>d. snd (Get k (evNow ev i) d)" and ?r = "\<lambda>d. snd (mgetLoop (evNow ev) (Suc i) ks d)"
    have g: "logs s (evNow ev i) anything ?g" using logs_any [OF logs_reads(1) [OF Cons.prems]] .
    have r: "logs (evNow ev i) t' anything ?r" "plainly ?r" using Cons.IH [of "evNow ev i" "Suc i"] readings(3) [OF c] by auto
    have e: "snd (mgetLoop (evNow ev) i (k # ks) d) = ?r (?g d)" for d by (simp add: split_beta Let_def)
    have "plainly (\<lambda>d. ?r (?g d))"
      by (rule plain_then [OF plain_reads(1) _ r(2)]) (metis Get_spec(1) prod.collapse)
    then show ?case unfolding e using anything_then [OF g r(1)] by simp
  qed
  from this [OF readings(1) [OF c]] show ?thesis using told_plain unfolding recorded_def by blast
qed

lemma logs_noop: "s \<le> t' \<Longrightarrow> logs s t' anything (\<lambda>d. d)"
  by (rule logs_quiet) simp_all

lemma recorded_mset: "clocked t t' ev \<Longrightarrow> recorded t t' (\<lambda>d. snd (msetLoop ev 0 kvs d))"
proof -
  assume c: "clocked t t' ev"
  have "logs s t' anything (\<lambda>d. snd (msetLoop ev i kvs d)) \<and> plainly (\<lambda>d. snd (msetLoop ev i kvs d))"
    if "s \<le> evNow ev i" for s i
    using that
  proof (induction "length kvs" arbitrary: kvs s i rule: less_induct)
    case less
    show ?case
    proof -
      have st: "s \<le> t'" using less.prems readings(2) [OF c, of i] by (rule order_trans)
      consider k v rest where "kvs = k # v # rest" | "\<And>d. snd (msetLoop ev i kvs d) = d"
        by (metis msetLoop.simps(2,3) neq_Nil_conv snd_conv)
      then show ?thesis
      proof cases
        case 1
        let ?s = "\<lambda>d. snd (Set k v noOptions (evNow ev i) (evClock ev i) d)" and ?r = "\<lambda>d. snd (msetLoop ev (Suc i) rest d)"
        have s: "logs s (evNow ev i) anything ?s" using logs_any [OF logs_Set [OF less.prems]] .
        have r: "logs (evNow ev i) t' anything ?r" "plainly ?r"
          using less.hyps [of rest "evNow ev i" "Suc i"] 1 readings(3) [OF c] by auto
        have ok: "db_ok (?s d)" if "db_ok d" for d using Set_spec(1) [OF that] by (metis prod.collapse)
        note both = anything_then [OF s r(1)] plain_then [OF plain_Set ok r(2)]
        note one = logs_later [OF s readings(2) [OF c]] plain_Set
        have e: "snd (msetLoop ev i kvs d) = (if isl (fst (Set k v noOptions (evNow ev i) (evClock ev i) d)) then ?s d else ?r (?s d))" for d
          by (auto simp: 1 split: prod.splits sum.splits)
        have "logs s t' anything (\<lambda>d. snd (msetLoop ev i kvs d))"
          unfolding e by (rule logs_if [OF one(1) both(1)])
        moreover have "plainly (\<lambda>d. snd (msetLoop ev i kvs d))"
          unfolding e by (rule plain_if [OF one(2) both(2)])
        ultimately show ?thesis ..
      qed (use logs_noop [OF st] plain_quiet [of "\<lambda>d. d"] in simp)
    qed
  qed
  from this [OF readings(1) [OF c]] show ?thesis using told_plain unfolding recorded_def by blast
qed

lemma recorded_ops:
  assumes "clocked t t' ev"
  shows "recorded t t' (\<lambda>d. snd (Get key (evNow ev 0) d))"
    "recorded t t' (\<lambda>d. snd (Set key val opt (evNow ev 0) clock d))"
    "recorded t t' (\<lambda>d. snd (Del keys (evNow ev 0) d))"
    "recorded t t' (\<lambda>d. snd (Exists keys (evNow ev 0) d))"
    "recorded t t' (\<lambda>d. snd (IncrBy key delta (evNow ev 0) (evNow ev 1) clock d))"
    "recorded t t' (\<lambda>d. snd (Expire key dur (evNow ev 0) (evNow ev 1) d))"
    "recorded t t' (\<lambda>d. snd (TTL key (evNow ev 0) d))"
    "recorded t t' (\<lambda>d. snd (PTTL key (evNow ev 0) d))"
    "recorded t t' (\<lambda>d. snd (Persist key (evNow ev 0) d))"
    "recorded t t' (\<lambda>d. snd (Type key (evNow ev 0) d))"
    "recorded t t' (\<lambda>d. snd (FlushDB (evPerm ev) d))"
proof -
  note r = readings [OF assms]
  have tt: "t \<le> t'" using r(1,2) order_trans by blast
  show "recorded t t' (\<lambda>d. snd (Get key (evNow ev 0) d))" by (rule recordedI [OF logs_reads(1) told_plain r(2)]) (rule r plain_reads)+
  show "recorded t t' (\<lambda>d. snd (Set key val opt (evNow ev 0) clock d))" by (rule recordedI [OF logs_Set told_Set r(2)]) (rule r)
  show "recorded t t' (\<lambda>d. snd (Del keys (evNow ev 0) d))" by (rule recordedI [OF logs_Del told_plain r(2)]) (rule r plain_Del)+
  show "recorded t t' (\<lambda>d. snd (Exists keys (evNow ev 0) d))" by (rule recordedI [OF logs_reads(2) told_plain r(2)]) (rule r plain_reads)+
  show "recorded t t' (\<lambda>d. snd (IncrBy key delta (evNow ev 0) (evNow ev 1) clock d))"
    by (rule recordedI [OF logs_IncrBy told_IncrBy r(2)]) (rule r, rule r, simp)
  show "recorded t t' (\<lambda>d. snd (Expire key dur (evNow ev 0) (evNow ev 1) d))" by (rule recordedI [OF logs_Expire told_Expire r(2)]) (rule r)+
  show "recorded t t' (\<lambda>d. snd (TTL key (evNow ev 0) d))" by (rule recordedI [OF logs_reads(5) told_plain r(2)]) (rule r plain_reads)+
  show "recorded t t' (\<lambda>d. snd (PTTL key (evNow ev 0) d))" by (rule recordedI [OF logs_reads(4) told_plain r(2)]) (rule r plain_reads)+
  show "recorded t t' (\<lambda>d. snd (Persist key (evNow ev 0) d))" by (rule recordedI [OF logs_Persist told_plain r(2)]) (rule r plain_Persist)+
  show "recorded t t' (\<lambda>d. snd (Type key (evNow ev 0) d))" by (rule recordedI [OF logs_reads(3) told_plain r(2)]) (rule r plain_reads)+
  show "recorded t t' (\<lambda>d. snd (FlushDB (evPerm ev) d))"
    by (rule recordedI [OF logs_FlushDB [OF r(5)] told_plain [OF plain_FlushDB [OF r(5)]] tt])
qed

section \<open>The store and the files agree\<close>

text \<open>
  The data sets that a restart may find for tenant \<open>i\<close>: what the files hold now and, once a running save has exported the
  tenant, what they hold after the save: the export with the lines of the window, or, when only
  the snapshot could be replaced, the export with the whole log.
\<close>

definition views :: "snapTenant list \<Rightarrow> Engine \<Rightarrow> Disk \<Rightarrow> nat \<Rightarrow> dataset set" where
  "views pend e d i = insert (recovered e d)
     (if saving e \<and> i < length pend then {replay (catchup e) (payloadData pend), replay (diskLines d) (payloadData pend)} else {})"

definition safe :: "gotime \<Rightarrow> snapTenant list \<Rightarrow> Engine \<Rightarrow> Disk \<Rightarrow> nat \<Rightarrow> Tenant \<Rightarrow> bool" where
  "safe t pend e d i T \<longleftrightarrow> db_ok (tDB T) \<and> dated (tDB T) \<and> sink (tDB T) = Some [] \<and>
     (\<forall>V \<in> views pend e d i. mirrors t UNIV (V (tName T)) (tDB T))"

definition logOpen :: "Engine \<Rightarrow> Disk \<Rightarrow> bool" where
  "logOpen e d \<longleftrightarrow> hasAOF e \<and> aof e \<and> (\<exists>ls. dAof d = Some (map Line ls)) \<and> catchingUp e = saving e \<and> (saving e \<longrightarrow> (\<exists>old. diskLines d = old @ catchup e))"

definition durable :: "string \<Rightarrow> string list \<Rightarrow> gotime \<Rightarrow> snapTenant list \<Rightarrow> World \<Rightarrow> bool" where
  "durable M N t pend w \<longleftrightarrow> (\<exists>e. wEng w = Some e \<and> logOpen e (wDisk w) \<and> Mode e = M \<and> map tName (order (wTenants w)) = N \<and> distinct N \<and>
     (saving e \<longrightarrow> map stName pend = take (length pend) (map tName (order (wTenants w)))) \<and>
     (\<forall>i < tenantCount w. safe t pend e (wDisk w) i (theTenant i (wTenants w))))"

text \<open>Writing lines to the log.\<close>

definition fineIO :: "(nat \<Rightarrow> IO) \<Rightarrow> bool" where
  "fineIO ios \<longleftrightarrow> (\<forall>i. ioWrite (ios i) \<and> ioSync (ios i))"

definition logged :: "aofLine list \<Rightarrow> pstate \<Rightarrow> pstate" where
  "logged ls s = (let (e, d) = s in
     (if catchingUp e then e\<lparr>catchup := catchup e @ ls\<rparr> else e, d\<lparr>dAof := map_option (\<lambda>f. f @ map Line ls) (dAof d)\<rparr>))"

lemma deliverAll_fine:
  assumes "hasAOF e" "aof e" "fineIO ios"
  shows "deliverAll ios n ms (e, d) = logged (map (mkLine n) ms) (e, d)"
  using assms
proof (induction ms arbitrary: e d ios)
  case Nil
  have "map_option (\<lambda>f. f) x = x" for x :: "aofEntry list option" by (cases x) simp_all
  then show ?case by (simp add: logged_def)
next
  case (Cons m ms)
  let ?s = "logged [mkLine n m] (e, d)"
  have o: "OnMutation (ios 0) n m (e, d) = ?s"
    using Cons.prems hasAOF_Mode [OF Cons.prems(1)] by (simp add: OnMutation_def appendAOF_def Let_def addLine_def logged_def fineIO_def)
  have h: "hasAOF (fst ?s)" "aof (fst ?s)" using Cons.prems by (simp_all add: logged_def hasAOF_def Mode_def)
  have "deliverAll ios n (m # ms) (e, d) = logged (map (mkLine n) ms) ?s"
    using o Cons.IH [OF h, of "\<lambda>i. ios (Suc i)" "snd ?s"] Cons.prems(3) by (simp add: fineIO_def)
  then show ?case by (cases "dAof d") (simp_all add: logged_def Let_def)
qed

lemma logged_log:
  assumes "logOpen e d" "logged ls (e, d) = (e', d')"
  shows "logOpen e' d'" "views pend e' d' i = replay ls ` views pend e d i" "saving e' = saving e" "Mode e' = Mode e"
proof -
  obtain fl where fl: "dAof d = Some (map Line fl)" using assms(1) by (auto simp: logOpen_def)
  define f where "f = map Line fl"
  have f: "dAof d = Some f" by (simp add: fl f_def)
  have c: "catchingUp e = saving e" using assms(1) by (simp add: logOpen_def)
  have e': "e' = (if saving e then e\<lparr>catchup := catchup e @ ls\<rparr> else e)" and d': "d' = d\<lparr>dAof := Some (f @ map Line ls)\<rparr>"
    using assms(2) f c by (simp_all add: logged_def)
  have m: "Mode e' = Mode e" "saving e' = saving e" "hasAOF e' = hasAOF e" "aof e' = aof e" "catchingUp e' = catchingUp e"
    by (simp_all add: e' Mode_def hasAOF_def)
  have l: "diskLines d' = diskLines d @ ls" by (simp add: d' diskLines_def f)
  show "saving e' = saving e" "Mode e' = Mode e" by (rule m)+
  show "logOpen e' d'"
  proof -
    have "\<exists>ls. dAof d' = Some (map Line ls)" by (rule exI [of _ "fl @ ls"]) (simp add: d' f_def)
    moreover have "\<exists>old. diskLines d' = old @ catchup e'" if "saving e"
      using assms(1) that l by (auto simp: logOpen_def e')
    ultimately show ?thesis using assms(1) m by (simp add: logOpen_def)
  qed
  show "views pend e' d' i = replay ls ` views pend e d i"
    by (simp add: views_def recovered_def m l replay_append) (simp add: d' e' replay_append)
qed

section \<open>Commands\<close>

lemma safe_later: "safe t pend e d i T \<Longrightarrow> t \<le> t' \<Longrightarrow> safe t' pend e d i T"
  unfolding safe_def using mirrors_later by blast

lemma safe_other:
  assumes "safe t pend e d i T" "views pend e' d' i = replay (map (mkLine n) ms) ` views pend e d i" "n \<noteq> tName T"
  shows "safe t pend e' d' i T"
  using assms by (auto simp: safe_def replay_mutations)

lemma safe_op:
  assumes s: "safe t pend e d i T" and v: "views pend e' d' i = replay (map (mkLine (tName T)) ms) ` views pend e d i"
    and r: "recorded t t' op" and ms: "sink (op (tDB T)) = Some ms" and x: "dated (op (tDB T))"
  shows "safe t' pend e' d' i (T\<lparr>tDB := SetMutationSink (Some []) (op (tDB T))\<rparr>)"
proof -
  have ok: "db_ok (tDB T)" "sink (tDB T) = Some []" using s by (simp_all add: safe_def)
  obtain ms' where o: "db_ok (op (tDB T))" "sink (op (tDB T)) = Some ([] @ ms')"
    "\<And>E f. \<forall>m \<in> set ms'. datable m \<Longrightarrow> mirrors t E f (tDB T) \<Longrightarrow> mirrors t' (E \<union> anything (tDB T) (op (tDB T))) (after ms' f) (op (tDB T))"
    using logsD [OF _ ok] r unfolding recorded_def by metis
  have e: "ms' = ms" using o(2) ms by simp
  then have "\<forall>m \<in> set ms. datable m" using o(2) r ok x unfolding recorded_def told_def by blast
  with e have m: "mirrors t' UNIV (after ms f) (op (tDB T))" if "mirrors t UNIV f (tDB T)" for f
    using o(3) [of UNIV f] that by (simp add: anything_def)
  have "mirrors t' UNIV f (SetMutationSink (Some []) (op (tDB T))) = mirrors t' UNIV f (op (tDB T))" for f by (simp add: mirrors_def)
  moreover have "db_ok (SetMutationSink (Some []) (op (tDB T)))" using kept_SetMutationSink [OF o(1)] by (simp add: kept_def)
  moreover have "dated (SetMutationSink (Some []) (op (tDB T)))"
    using x by (simp add: dated_def SetMutationSink_def lookup_def theShard_def shardIndex_def)
  ultimately show ?thesis using s m by (auto simp: safe_def v replay_mutations) (simp add: SetMutationSink_def)
qed

lemma durable_onDB:
  assumes D: "durable M N t pend w" and i: "T < tenantCount w" and r: "recorded t t' (\<lambda>d. snd (f d))" and le: "t \<le> t'"
    and io: "fineIO (evIO ev)" and x: "dated (dbOf T (snd (onDB ev T f w)))"
  shows "durable M N t' pend (snd (onDB ev T f w))"
proof -
  let ?w = "snd (onDB ev T f w)" and ?X = "theTenant T (wTenants w)"
  obtain e where e: "wEng w = Some e" and lo: "logOpen e (wDisk w)" and dn: "distinct (map tName (order (wTenants w)))"
    and md: "Mode e = M" and nm: "map tName (order (wTenants w)) = N"
    and p: "saving e \<longrightarrow> map stName pend = take (length pend) (map tName (order (wTenants w)))"
    and s: "\<And>i. i < tenantCount w \<Longrightarrow> safe t pend e (wDisk w) i (theTenant i (wTenants w))"
    using D by (auto simp: durable_def)
  define db where "db = snd (f (tDB ?X))"
  have sX: "db_ok (tDB ?X)" "sink (tDB ?X) = Some []" using s [OF i] by (simp_all add: safe_def)
  obtain ms where ms: "sink db = Some ms"
    using logsD [OF conjunct1 [OF r [unfolded recorded_def]] sX] unfolding db_def by (metis append_Nil)
  obtain e' d' where L: "logged (map (mkLine (tName ?X)) ms) (e, wDisk w) = (e', d')" by fastforce
  have th: "theTenant T (setDB T db (wTenants w)) = ?X\<lparr>tDB := db\<rparr>" using i by (simp add: setDB_def)
  have "deliverAll (evIO ev) (tName ?X) ms (e, wDisk w) = (e', d')"
    using deliverAll_fine [OF _ _ io] lo L by (simp add: logOpen_def)
  then have W: "wTenants ?w = setDB T (SetMutationSink (Some []) db) (wTenants w)" "wEng ?w = Some e'" "wDisk ?w = d'"
    using e ms th by (simp_all add: onDB_def dbOf_def Let_def split_beta drainSink_def db_def setDB_def setTenant_setTenant)
  have t: "theTenant j (wTenants ?w) = (if j = T then ?X\<lparr>tDB := SetMutationSink (Some []) db\<rparr> else theTenant j (wTenants w))" for j
    using i by (simp add: W(1) setDB_def)
  have n: "map tName (order (wTenants ?w)) = map tName (order (wTenants w))"
    using i by (simp add: W(1) setDB_def setTenant_def map_update) (metis Tenant.simps list_update_id map_update theTenant_def)
  note lg = logged_log [OF lo L]
  have x': "dated db" using x by (simp add: dbOf_def t dated_def SetMutationSink_def lookup_def theShard_def shardIndex_def)
  have "safe t' pend e' d' j (theTenant j (wTenants ?w))" if j: "j < tenantCount w" for j
  proof (cases "j = T")
    case True
    then show ?thesis using safe_op [OF s [OF i] lg(2) r] ms x' t by (simp add: db_def)
  next
    case False
    then have "tName ?X \<noteq> tName (theTenant j (wTenants w))"
      using dn i j by (simp add: theTenant_def distinct_conv_nth)
    then show ?thesis using safe_other [OF safe_later [OF s [OF j] le] lg(2)] False t by simp
  qed
  then show ?thesis unfolding durable_def using W lg(1,3,4) dn md nm p n by (simp add: setDB_def)
qed

section \<open>Saves\<close>

lemma payload_append:
  "payloadData (pend @ [st]) n = (if stName st = n then replay (map (recordLine n) (stKeys st)) (payloadData pend) n else payloadData pend n)"
proof -
  have "replay (map (recordLine m) rs) D n = D n" if "m \<noteq> n" for m rs D
    using that by (induction rs arbitrary: D) (simp_all add: replay_def fun_eq_iff keyOpOf_def recordLine_def)
  then show ?thesis by (auto simp: payloadData_def payloadLines_def replay_append)
qed

lemma payload_other: "n \<notin> set (map stName pend) \<Longrightarrow> payloadData pend n k = None"
proof (induction pend rule: rev_induct)
  case Nil
  then show ?case by (simp add: payloadData_def payloadLines_def noData_def)
next
  case (snoc st pend)
  then show ?case by (auto simp: payload_append)
qed

lemma replay_records:
  assumes "distinct (map rKey rs)"
  shows "replay (map (recordLine n) rs) D n k =
    (case map_of (map (\<lambda>r. (rKey r, (rValue r, max 0 (aExp (recordLine n r))))) rs) k of Some p \<Rightarrow> Some p | None \<Rightarrow> D n k)"
  using assms
proof (induction rs arbitrary: D)
  case (Cons r rs)
  let ?D = "replay [recordLine n r] D"
  have one: "?D n k = (if rKey r = k then Some (rValue r, max 0 (aExp (recordLine n r))) else D n k)"
    by (simp add: replay_def keyOpOf_def recordLine_def)
  have "replay (map (recordLine n) (r # rs)) D = replay (map (recordLine n) rs) ?D"
    using replay_append [of "[recordLine n r]" "map (recordLine n) rs" D] by simp
  moreover have "map_of (map (\<lambda>r. (rKey r, (rValue r, max 0 (aExp (recordLine n r))))) rs) k = None" if "rKey r = k"
    using Cons.prems that by (auto simp: map_of_eq_None_iff comp_def)
  ultimately show ?case using Cons one by (auto split: option.splits)
qed simp

text \<open>What an export puts into the payload: the visible contents, with their deadlines.\<close>

definition nano :: "gotime \<Rightarrow> int" where
  "nano x = (if x = 0 then 0 else UnixNano x)"

lemma option_ext: "(\<And>p. a = Some p \<longleftrightarrow> b = Some p) \<Longrightarrow> a = b"
  by (cases a; cases b) auto

lemma export_data:
  assumes "db_ok (tDB T)" "is_perm perm" "tName T \<notin> set (map stName pend)"
  shows "payloadData (pend @ [exportTenant perm now T]) (tName T) k = map_option (\<lambda>(v, x). (v, max 0 (nano x))) (visible now (tDB T) k)"
proof -
  let ?n = "tName T" and ?rs = "ExportAll perm now (tDB T)"
  let ?m = "map (\<lambda>r. (rKey r, (rValue r, max 0 (aExp (recordLine ?n r))))) ?rs"
  note ex = ExportAll_spec [OF assms(1,2), of now]
  have dm: "distinct (map fst ?m)" using ex(2) by (simp add: comp_def)
  have "map_of ?m k = Some p \<longleftrightarrow> map_option (\<lambda>(v, x). (v, max 0 (nano x))) (visible now (tDB T) k) = Some p" for p
  proof -
    have "(k, p) \<in> set ?m \<longleftrightarrow> (\<exists>r \<in> set ?rs. rKey r = k \<and> p = (rValue r, max 0 (nano (rExpiresAt r))))"
      by (auto simp: recordLine_def nano_def)
    also have "\<dots> \<longleftrightarrow> (\<exists>v. visible now (tDB T) k = Some v \<and> p = (fst v, max 0 (nano (snd v))))"
    proof -
      have "rKey (recordOf (tDB T) j v) = j" "rValue (recordOf (tDB T) j v) = fst v" "rExpiresAt (recordOf (tDB T) j v) = snd v" for j v
        by (simp_all add: recordOf_def)
      then show ?thesis unfolding ex(1) by (auto simp del: split_paired_Ex) metis
    qed
    finally show ?thesis unfolding map_of_eq_Some_iff [OF dm] by (auto simp: split_beta)
  qed
  then have "map_of ?m k = map_option (\<lambda>(v, x). (v, max 0 (nano x))) (visible now (tDB T) k)"
    by (rule option_ext)
  then show ?thesis
    using payload_other [OF assms(3)] by (simp add: payload_append exportTenant_def replay_records [OF ex(2)] split: option.splits)
qed

lemma replay_nonneg:
  assumes "replay ls D n k = Some (v, e)" "\<And>v e. D n k = Some (v, e) \<Longrightarrow> 0 \<le> e"
  shows "0 \<le> e"
proof -
  have "(\<And>v e. y = Some (v, e) \<Longrightarrow> 0 \<le> e) \<Longrightarrow> fold (\<lambda>l. actOn (keyOpOf l n k)) ls y = Some (v, e) \<Longrightarrow> 0 \<le> e" for y
  proof (induction ls arbitrary: y)
    case (Cons l ls)
    have "0 \<le> e'" if "actOn (keyOpOf l n k) y = Some (v', e')" for v' e'
      using that Cons.prems(1) by (auto simp: keyOpOf_def split: if_splits)
    then show ?case using Cons.IH [of "actOn (keyOpOf l n k) y"] Cons.prems(2) by simp
  qed auto
  then show ?thesis using assms unfolding replay_def by blast
qed

lemma recovered_nonneg: "recovered e d n k = Some (v, x) \<Longrightarrow> 0 \<le> x"
proof -
  have p: "payloadData p n k = Some (v, x) \<Longrightarrow> 0 \<le> x" for p v x
    unfolding payloadData_def by (erule replay_nonneg) (simp add: noData_def)
  have "snapData d n k = Some (v, x) \<Longrightarrow> 0 \<le> x" for v x
    using p by (auto simp: snapData_def noData_def split: option.splits snapImage.splits snapBody.splits)
  then have "(if Mode e = ModeSnapshotAndAOF then snapData d else noData) n k = Some (v, x) \<Longrightarrow> 0 \<le> x" for v x
    by (auto simp: noData_def split: if_splits)
  then show "recovered e d n k = Some (v, x) \<Longrightarrow> 0 \<le> x" unfolding recovered_def using replay_nonneg by blast
qed

lemma nano_stamp: "0 \<le> e \<Longrightarrow> x = stamp e \<Longrightarrow> x = 0 \<or> unixEpoch < x \<and> x < unixEpoch + 2 ^ 63 \<Longrightarrow> max 0 (nano x) = e"
  by (auto simp: nano_def stamp_def timeUnix_def UnixNano_def wrap64_def unixEpoch_def second_def split: if_splits)

text \<open>
  Replaying the lines that led to the present state over the export gives the present state again.
\<close>

lemma mirrors_export:
  assumes m: "mirrors now UNIV (D n) d" and nn: "\<And>k v e. D n k = Some (v, e) \<Longrightarrow> 0 \<le> e" and x: "dated d"
    and D: "D = replay ls B" and P: "\<And>k. P n k = map_option (\<lambda>(v, x). (v, max 0 (nano x))) (visible now d k)"
  shows "mirrors now UNIV (replay ls P n) d"
  unfolding mirrors_def
proof
  fix k
  show "visible now d k = live now (replay ls P n k) \<or> k \<in> UNIV \<and> visible now d k = None"
  proof (cases "visible now d k")
    case (Some p)
    obtain v y where p: "visible now d k = Some (v, y)" using Some by (cases p) auto
    then have l: "live now (D n k) = Some (v, y)" using m unfolding mirrors_def by (metis option.distinct(1))
    then obtain e where e: "D n k = Some (v, e)" "y = stamp e"
      by (auto simp: live_def unexpired_def split: option.splits if_splits)
    have "y = 0 \<or> unixEpoch < y \<and> y < unixEpoch + 2 ^ 63"
      using x p unfolding dated_def visible_def by (auto split: option.splits if_splits)
    then have "P n k = D n k" using P p e nano_stamp [OF nn [OF e(1)] e(2)] by simp
    then have "replay ls P n k = D n k"
      using replay_again [of P n k "length ls" ls B] D by simp
    then show ?thesis using l p by simp
  qed simp
qed

lemma durableE:
  assumes "durable M N t pend w"
  obtains e where "wEng w = Some e" "logOpen e (wDisk w)" "distinct (map tName (order (wTenants w)))"
    "saving e \<Longrightarrow> map stName pend = take (length pend) (map tName (order (wTenants w)))"
    "\<And>i. i < tenantCount w \<Longrightarrow> safe t pend e (wDisk w) i (theTenant i (wTenants w))" "Mode e = M" "map tName (order (wTenants w)) = N"
  using assms unfolding durable_def by blast

lemma durable_begin:
  assumes D: "durable M N t pend w" and e: "wEng w = Some e" and b: "saveBegin e = (None, e')"
  shows "durable M N t [] (w\<lparr>wEng := Some e'\<rparr>)" "saving e'" "Mode e' = Mode e"
proof -
  have lo: "logOpen e (wDisk w)" "distinct (map tName (order (wTenants w)))" "Mode e = M" "map tName (order (wTenants w)) = N"
    and s: "\<And>i. i < tenantCount w \<Longrightarrow> safe t pend e (wDisk w) i (theTenant i (wTenants w))"
    using durableE [OF D] e by (metis option.inject)+
  have c: "hasAOF (e\<lparr>saving := True\<rparr>)" using lo by (simp add: logOpen_def hasAOF_def Mode_def)
  have e': "e' = (e\<lparr>saving := True, catchingUp := True, catchup := []\<rparr>)"
    using b c by (auto simp: saveBegin_def Let_def beginCatchup_def split: if_splits)
  have m: "Mode e' = Mode e" "hasAOF e' = hasAOF e" by (simp_all add: e' Mode_def hasAOF_def)
  show "Mode e' = Mode e" by (rule m)
  show "saving e'" by (simp add: e')
  have "recovered e' d = recovered e d" for d by (simp add: recovered_def m)
  then have "safe t [] e' (wDisk w) i (theTenant i (wTenants w))" if "i < tenantCount w" for i
    using s [OF that] by (simp add: safe_def views_def)
  moreover have "logOpen e' (wDisk w)" using lo m by (simp add: logOpen_def e')
  ultimately show "durable M N t [] (w\<lparr>wEng := Some e'\<rparr>)" using lo(2-4) m(1) by (simp add: durable_def)
qed

lemma durable_export:
  assumes D: "durable M N t pend w" and e: "wEng w = Some e" "saving e" and i: "length pend < tenantCount w"
    and now: "t \<le> now" "is_perm perm"
  shows "durable M N now (pend @ [exportTenant perm now (theTenant (length pend) (wTenants w))]) w"
proof -
  let ?T = "theTenant (length pend) (wTenants w)" let ?p = "pend @ [exportTenant perm now ?T]"
  have lo: "logOpen e (wDisk w)" "Mode e = M" "map tName (order (wTenants w)) = N" and dn: "distinct (map tName (order (wTenants w)))"
    and pn: "map stName pend = take (length pend) (map tName (order (wTenants w)))"
    and s: "\<And>j. j < tenantCount w \<Longrightarrow> safe t pend e (wDisk w) j (theTenant j (wTenants w))"
    using durableE [OF D] e by (metis option.inject)+
  have nm: "tName ?T = map tName (order (wTenants w)) ! length pend" using i by (simp add: theTenant_def)
  have pn': "map stName ?p = take (length ?p) (map tName (order (wTenants w)))"
    using pn i nm by (simp add: take_Suc_conv_app_nth exportTenant_def)
  have new: "tName ?T \<notin> set (map stName pend)"
    using dn i unfolding pn nm by (auto simp: in_set_conv_nth distinct_conv_nth)
  obtain old where old: "diskLines (wDisk w) = old @ catchup e" using lo(1) e(2) by (auto simp: logOpen_def)
  let ?B = "if Mode e = ModeSnapshotAndAOF then snapData (wDisk w) else noData"
  have R: "recovered e (wDisk w) = replay (diskLines (wDisk w)) ?B" "recovered e (wDisk w) = replay (catchup e) (replay old ?B)"
    by (simp_all add: recovered_def old replay_append)
  have "safe now ?p e (wDisk w) j (theTenant j (wTenants w))" if j: "j < tenantCount w" for j
  proof -
    note sj = safe_later [OF s [OF j] now(1)]
    let ?X = "theTenant j (wTenants w)"
    consider "j < length pend" | "j = length pend" | "length pend < j" by linarith
    then show ?thesis
    proof cases
      case 1
      then have "tName ?X \<in> set (map stName pend)" using pn j unfolding pn by (auto simp: in_set_conv_nth theTenant_def)
      then have "payloadData ?p (tName ?X) = payloadData pend (tName ?X)" using new by (auto simp: payload_append exportTenant_def)
      then have "replay ls (payloadData ?p) (tName ?X) = replay ls (payloadData pend) (tName ?X)" for ls by (simp add: replay_def fun_eq_iff)
      then show ?thesis using sj 1 e(2) by (simp add: safe_def views_def)
    next
      case 2
      have m: "mirrors now UNIV (recovered e (wDisk w) (tName ?X)) (tDB ?X)" and ok: "db_ok (tDB ?X)" "dated (tDB ?X)"
        using sj by (simp_all add: safe_def views_def)
      have P: "payloadData ?p (tName ?X) k = map_option (\<lambda>(v, x). (v, max 0 (nano x))) (visible now (tDB ?X) k)" for k
        using export_data [of ?X perm pend] ok(1) now(2) new 2 by simp
      have nn: "recovered e (wDisk w) (tName ?X) k = Some (v, x) \<Longrightarrow> 0 \<le> x" for k v x by (rule recovered_nonneg)
      have me: "recovered e (wDisk w) = replay ls B \<Longrightarrow> mirrors now UNIV (replay ls (payloadData ?p) (tName ?X)) (tDB ?X)" for ls B
        using mirrors_export [where D = "recovered e (wDisk w)" and P = "payloadData ?p", OF m nn ok(2) _ P] .
      show ?thesis using sj me [OF R(1)] me [OF R(2)] by (auto simp: safe_def views_def split: if_splits)
    next
      case 3
      then show ?thesis using sj by (auto simp: safe_def views_def)
    qed
  qed
  then show ?thesis unfolding durable_def using e lo dn pn' by auto
qed

lemma durable_finish:
  assumes D: "durable M N t pend w" and e: "wEng w = Some e" "saving e" and l: "length pend = tenantCount w"
    and F: "saveFinish io pend (e, wDisk w) = (err, e', d')" and a: "aof e'"
  shows "durable M N t p (w\<lparr>wEng := Some e', wDisk := d'\<rparr>)"
proof -
  have lo: "logOpen e (wDisk w)" and mn: "Mode e = M" "map tName (order (wTenants w)) = N" and dn: "distinct (map tName (order (wTenants w)))"
    and s: "\<And>j. j < tenantCount w \<Longrightarrow> safe t pend e (wDisk w) j (theTenant j (wTenants w))"
    using durableE [OF D] e by (metis option.inject)+
  have h: "Mode e = ModeAOF \<or> Mode e = ModeSnapshotAndAOF" "Mode e = ModeAOF \<Longrightarrow> Mode e \<noteq> ModeSnapshotAndAOF"
    using lo by (auto simp: logOpen_def hasAOF_def mode_defs)
  obtain fl where f: "dAof (wDisk w) = Some (map Line fl)" using lo by (auto simp: logOpen_def)
  have k: "Mode e' = Mode e \<and> \<not> saving e' \<and> \<not> catchingUp e' \<and>
      (dAof d' = Some (map Line fl) \<or> dAof d' = Some (map Line (payloadLines pend @ catchup e)) \<or> dAof d' = Some (map Line (catchup e)))"
    using F h f by (auto simp: saveFinish_def rewriteAOF_def writeSnapshot_def installCatchupAsAOF_def Let_def Mode_def abortCatchup_def split: if_splits)
  have v: "recovered e' d' \<in> views pend e (wDisk w) j" if "j < tenantCount w" for j
  proof (cases "Mode e = ModeAOF")
    case True
    then have "diskLines d' = diskLines (wDisk w) \<or> diskLines d' = payloadLines pend @ catchup e"
      using F by (auto simp: saveFinish_def rewriteAOF_def Let_def abortCatchup_def split: if_splits)
    then show ?thesis using k True h(2) that l e(2) by (auto simp: views_def recovered_def replay_append payloadData_def)
  next
    case False
    then have m: "Mode e = ModeSnapshotAndAOF" using h by simp
    have "diskLines d' = diskLines (wDisk w) \<and> snapData d' = snapData (wDisk w) \<or>
        snapData d' = payloadData pend \<and> (diskLines d' = diskLines (wDisk w) \<or> diskLines d' = catchup e)"
      using F False m by (auto simp: saveFinish_def writeSnapshot_def installCatchupAsAOF_def Let_def abortCatchup_def
          snapData_def diskLines_def split: if_splits)
    then show ?thesis using k m that l e(2) by (auto simp: views_def recovered_def)
  qed
  have "safe t p e' d' j (theTenant j (wTenants w))" if "j < tenantCount w" for j
    using s [OF that] v [OF that] k by (auto simp: safe_def views_def [of p])
  moreover have "logOpen e' d'" using k a h unfolding logOpen_def hasAOF_def by metis
  ultimately show ?thesis using dn mn k by (simp add: durable_def)
qed

text \<open>The export of all tenants, one after the other, then the files: \<^verbatim>\<open>SaveSnapshot\<close> as one step.\<close>

lemma durable_exports:
  assumes D: "durable M N t [] w" and e: "wEng w = Some e" "saving e" and n: "n \<le> tenantCount w"
    and now: "mono nows" "\<And>i. t \<le> nows i \<and> nows i \<le> t'" "t \<le> t'" "is_perm perm"
  shows "durable M N t' (map (\<lambda>i. exportTenant perm (nows i) (theTenant i (wTenants w))) [0..<n]) w"
proof -
  let ?p = "\<lambda>n. map (\<lambda>i. exportTenant perm (nows i) (theTenant i (wTenants w))) [0..<n]"
  have later: "durable M N s p w \<Longrightarrow> s \<le> s' \<Longrightarrow> durable M N s' p w" for s s' p
    unfolding durable_def using safe_later by blast
  have "n \<le> tenantCount w \<Longrightarrow> durable M N (case n of 0 \<Rightarrow> t | Suc j \<Rightarrow> nows j) (?p n) w" for n
  proof (induction n)
    case (Suc n)
    then have "durable M N (case n of 0 \<Rightarrow> t | Suc j \<Rightarrow> nows j) (?p n) w" by simp
    moreover have "(case n of 0 \<Rightarrow> t | Suc j \<Rightarrow> nows j) \<le> nows n" using now(1,2) by (auto simp: mono_def split: nat.splits)
    ultimately show ?case using durable_export [OF _ e, where pend = "?p n" and now = "nows n" and perm = perm] Suc.prems now(4) by simp
  qed (use D in simp)
  from this [OF n] show ?thesis by (rule later) (use now in \<open>auto split: nat.splits\<close>)
qed

lemma durable_frame:
  assumes "durable M N t pend w" "wEng w' = wEng w" "wDisk w' = wDisk w" "map tName (order (wTenants w')) = map tName (order (wTenants w))"
    "map tDB (order (wTenants w')) = map tDB (order (wTenants w))" "t \<le> t'"
  shows "durable M N t' pend w'"
proof -
  have n: "tenantCount w' = tenantCount w" using assms(4) by (metis length_map)
  have "tName (theTenant i (wTenants w')) = tName (theTenant i (wTenants w)) \<and> tDB (theTenant i (wTenants w')) = tDB (theTenant i (wTenants w))"
    if "i < tenantCount w" for i
    using assms(4,5) that n unfolding theTenant_def by (metis nth_map)
  then have "safe t pend e d i (theTenant i (wTenants w')) = safe t pend e d i (theTenant i (wTenants w))" if "i < tenantCount w" for i e d
    using that by (simp add: safe_def)
  then have "durable M N t pend w'" using assms(1,4) unfolding durable_def assms(2,3) n by auto
  then show ?thesis using assms(6) safe_later unfolding durable_def by blast
qed

lemma durable_save:
  assumes D: "durable M N t pend w" and e: "wEng w = Some e"
    and S: "SaveSnapshot io perm nows (wTenants w) (e, wDisk w) = (err, e', d')" and a: "aof e'"
    and now: "mono nows" "\<And>i. t \<le> nows i \<and> nows i \<le> t'" "is_perm perm"
  shows "durable M N t' pend (w\<lparr>wEng := Some e', wDisk := d'\<rparr>)"
proof -
  have le: "t \<le> t'" using now(2) [of 0] by simp
  have h: "hasAOF e" using durableE [OF D] e unfolding logOpen_def by (metis option.inject)
  obtain err0 e1 where b: "saveBegin e = (err0, e1)" by fastforce
  show ?thesis
  proof (cases err0)
    case (Some x)
    then have "e' = e \<and> d' = wDisk w"
      using S b by (auto simp: SaveSnapshot_def saveBegin_def Let_def split: if_splits)
    then show ?thesis using durable_frame [OF D, of _ t'] e le by simp
  next
    case None
    note bg = durable_begin [OF D e b [unfolded None]]
    let ?w = "w\<lparr>wEng := Some e1\<rparr>"
    have p: "durable M N t' (exportPayload perm nows (wTenants w)) ?w"
      using durable_exports [OF bg(1) _ bg(2) order_refl now(1,2) le now(3)] by (simp add: exportPayload_def All_def)
    have "saveFinish io (exportPayload perm nows (wTenants w)) (e1, wDisk ?w) = (err, e', d')"
      using S b None hasAOF_Mode [OF h] by (simp add: SaveSnapshot_def)
    from durable_finish [OF p _ bg(2) _ this a, of pend] show ?thesis by (simp add: exportPayload_def All_def)
  qed
qed

section \<open>Every handler\<close>

text \<open>Handlers that touch neither the stores nor the engine.\<close>

definition sameData :: "World \<Rightarrow> World \<Rightarrow> bool" where
  "sameData w w' \<longleftrightarrow> wEng w' = wEng w \<and> wDisk w' = wDisk w \<and> map tName (order (wTenants w')) = map tName (order (wTenants w)) \<and>
     map tDB (order (wTenants w')) = map tDB (order (wTenants w))"

lemma sameData_refl [simp, intro]: "sameData w w"
  by (simp add: sameData_def)

lemma sameData_trans: "sameData w w1 \<Longrightarrow> sameData w1 w2 \<Longrightarrow> sameData w w2"
  by (simp add: sameData_def)

lemma durable_same: "durable M N t pend w \<Longrightarrow> sameData w w' \<Longrightarrow> t \<le> t' \<Longrightarrow> durable M N t' pend w'"
  using durable_frame unfolding sameData_def by blast

lemma same_tenant:
  assumes "\<And>x. tName (f x) = tName x" "\<And>x. tDB (f x) = tDB x"
  shows "map tName (order (setTenant t f r)) = map tName (order r)" "map tDB (order (setTenant t f r)) = map tDB (order r)"
proof -
  have u: "map g ((order r)[t := f (order r ! t)]) = map g (order r)" if "\<And>x. g (f x) = g x" for g
    using that by (cases "t < length (order r)") (simp_all add: map_update list_update_beyond not_less, metis list_update_id map_update)
  show "map tName (order (setTenant t f r)) = map tName (order r)" "map tDB (order (setTenant t f r)) = map tDB (order r)"
    using u [of tName] u [of tDB] assms by (simp_all add: setTenant_def)
qed

lemma same_onHub [simp, intro]: "sameData w (snd (onHub t f w))"
  by (simp add: sameData_def onHub_def split_beta same_tenant)

lemma same_ReleaseConn [simp]: "map tName (order (ReleaseConn p r)) = map tName (order r)" "map tDB (order (ReleaseConn p r)) = map tDB (order r)"
  by (auto simp: ReleaseConn_def releaseSlot_def same_tenant split: option.splits)

lemma same_AcquireConn: "AcquireConn p r = (b, r') \<Longrightarrow> map tName (order r') = map tName (order r) \<and> map tDB (order r') = map tDB (order r)"
  by (auto simp: AcquireConn_def acquireSlot_def same_tenant split: option.splits if_splits)

lemma same_closePubSub [simp, intro]: "sameData w (closePubSub ctx w)"
  by (auto simp: closePubSub_def split: option.splits)

lemma same_onHubD: "onHub t f w = (x, w1) \<Longrightarrow> sameData w w1"
  by (metis same_onHub snd_conv)

lemma same_ensure: "ensurePubSubClient ctx t w = (p, ctx1, w1) \<Longrightarrow> sameData w w1"
  by (auto simp: ensurePubSubClient_def dest: same_onHubD split: option.splits prod.splits)

lemma same_subscribe: "sameData w (snd (snd (subscribeWith sub cmd ctx args w)))"
proof (cases "requireTenant ctx w")
  case (Inr t)
  obtain p ctx1 w1 where e: "ensurePubSubClient ctx t w = (p, ctx1, w1)" by (metis prod.collapse)
  note w1 = same_ensure [OF e]
  show ?thesis
  proof (cases p)
    case (Inr q)
    have "sameData w (snd (onHub (fst q) (sub (snd q) (tl args)) w1))" by (rule sameData_trans [OF w1 same_onHub])
    then show ?thesis using \<open>requireTenant ctx w = Inr t\<close> e Inr by (simp add: subscribeWith_def Let_def split_beta)
  qed (use Inr e w1 in \<open>simp add: subscribeWith_def\<close>)
qed (simp add: subscribeWith_def)

lemma same_unsubscribe: "sameData w (snd (snd (unsubscribeWith unsub kind ctx args w)))"
  by (auto simp: unsubscribeWith_def Let_def split_beta split: sum.splits option.splits)

lemma same_auth: "sameData w (snd (snd (cmdAuth ctx args w)))"
proof -
  have acq: "sameData w (w\<lparr>wTenants := r\<rparr>)" "sameData w (w\<lparr>wTenants := ReleaseConn q r\<rparr>)"
    if "AcquireConn p (wTenants w) = (b, r)" for p b r q
    using same_AcquireConn [OF that] by (simp_all add: sameData_def)
  note cl = sameData_trans [OF _ same_closePubSub]
  show ?thesis
    by (auto simp: cmdAuth_def Let_def split: sum.splits prod.splits bool.splits intro: acq cl [OF acq(1)] cl [OF acq(2)])
qed

text \<open>Data commands run one operation of the store, or none.\<close>

definition dataLogged :: "gotime \<Rightarrow> gotime \<Rightarrow> Env \<Rightarrow> Context \<Rightarrow> World \<Rightarrow> World \<Rightarrow> bool" where
  "dataLogged t t' ev ctx w w' \<longleftrightarrow> w' = w \<or>
     (\<exists>T op. ctxTenant ctx = Some T \<and> recorded t t' op \<and> w' = snd (onDB ev T (\<lambda>d. ((), op d)) w))"

lemma dataLogged_refl [intro, simp]: "dataLogged t t' ev ctx w w"
  by (simp add: dataLogged_def)

lemma onDB_logged:
  assumes "ctxTenant ctx = Some T" "recorded t t' (\<lambda>d. snd (f d))"
  shows "dataLogged t t' ev ctx w (snd (onDB ev T f w))"
proof -
  have "snd (onDB ev T f w) = snd (onDB ev T (\<lambda>d. ((), snd (f d))) w)" by (simp add: onDB_def Let_def split_beta split: option.splits)
  then show ?thesis using assms unfolding dataLogged_def by blast
qed

lemma withDB_logged:
  "(\<And>T. ctxTenant ctx = Some T \<Longrightarrow> dataLogged t t' ev ctx w (snd (f T))) \<Longrightarrow> dataLogged t t' ev ctx w (snd (withDB ctx w f))"
  by (auto simp: withDB_def dest!: requireDB_tenant split: sum.splits)

lemma logged_handlers:
  assumes "clocked t t' ev"
  shows "dataLogged t t' ev ctx w (snd (cmdGet ev ctx args w))" "dataLogged t t' ev ctx w (snd (cmdSet ev ctx args w))"
    "dataLogged t t' ev ctx w (snd (cmdDel ev ctx args w))" "dataLogged t t' ev ctx w (snd (cmdExists ev ctx args w))"
    "dataLogged t t' ev ctx w (snd (cmdMGet ev ctx args w))" "dataLogged t t' ev ctx w (snd (cmdMSet ev ctx args w))"
    "dataLogged t t' ev ctx w (snd (cmdIncr ev ctx args w))" "dataLogged t t' ev ctx w (snd (cmdDecr ev ctx args w))"
    "dataLogged t t' ev ctx w (snd (cmdIncrBy ev ctx args w))" "dataLogged t t' ev ctx w (snd (cmdDecrBy ev ctx args w))"
    "dataLogged t t' ev ctx w (snd (cmdExpire ev ctx args w))" "dataLogged t t' ev ctx w (snd (cmdPExpire ev ctx args w))"
    "dataLogged t t' ev ctx w (snd (cmdTTL ev ctx args w))" "dataLogged t t' ev ctx w (snd (cmdPTTL ev ctx args w))"
    "dataLogged t t' ev ctx w (snd (cmdPersist ev ctx args w))" "dataLogged t t' ev ctx w (snd (cmdType ev ctx args w))"
    "dataLogged t t' ev ctx w (snd (cmdDBSize ev ctx args w))" "dataLogged t t' ev ctx w (snd (cmdFlushDB ev ctx args w))"
  by (auto simp: cmdGet_def cmdSet_def cmdDel_def cmdExists_def cmdMGet_def cmdMSet_def cmdIncr_def cmdDecr_def cmdIncrBy_def cmdDecrBy_def cmdExpire_def cmdPExpire_def cmdTTL_def cmdPTTL_def cmdPersist_def cmdType_def cmdDBSize_def cmdFlushDB_def incrOn_def expireOn_def
      split_beta Let_def simp del: One_nat_def split: sum.splits
      intro!: withDB_logged onDB_logged recorded_ops [OF assms] recorded_mget [OF assms] recorded_mset [OF assms])

text \<open>After the step every deadline in a store can be logged, and the log is open.\<close>

definition settled :: "World \<Rightarrow> bool" where
  "settled w \<longleftrightarrow> (\<forall>i < tenantCount w. dated (dbOf i w)) \<and> (\<forall>e. wEng w = Some e \<longrightarrow> aof e)"

lemma durable_data:
  assumes "durable M N t pend w" "dataLogged t t' ev ctx w w'" "fineIO (evIO ev)" "settled w'" "t \<le> t'"
    and "\<And>T. ctxTenant ctx = Some T \<Longrightarrow> T < tenantCount w"
  shows "durable M N t' pend w'"
proof (cases "w' = w")
  case True
  then show ?thesis using durable_same [OF assms(1) sameData_refl assms(5)] by simp
next
  case False
  then obtain T op where T: "ctxTenant ctx = Some T" "recorded t t' op" "w' = snd (onDB ev T (\<lambda>d. ((), op d)) w)"
    using assms(2) by (auto simp: dataLogged_def)
  have lt: "T < tenantCount w" by (rule assms(6) [OF T(1)])
  moreover have "tenantCount w' = tenantCount w"
    by (simp add: T(3) onDB_def split_beta Let_def drainSink_def setDB_def split: option.splits)
  ultimately have "dated (dbOf T w')" using assms(4) by (simp add: settled_def)
  then show ?thesis using durable_onDB [OF assms(1) lt, where f = "\<lambda>d. ((), op d)"] T assms(3,5) by simp
qed

lemma runHandler_logged:
  assumes "clocked t t' ev" "runHandler r ev h ctx args w = (v, ctx', w')"
    and "h \<notin> {HAuth, HSubscribe, HPSubscribe, HUnsubscribe, HPUnsubscribe, HPublish, HSave, HBGSave, HLastSave}"
  shows "dataLogged t t' ev ctx w w'"
  using assms(2,3) logged_handlers [OF assms(1), of ctx w args] by (cases h) (auto simp: runHandler_def keepCtx_def split_beta)

lemma durable_runHandler:
  assumes D: "durable M N t pend w" and c: "clocked t t' ev" and io: "fineIO (evIO ev)" and st: "settled w'"
    and b: "\<And>T. ctxTenant ctx = Some T \<Longrightarrow> T < tenantCount w" and R: "runHandler r ev h ctx args w = (v, ctx', w')"
  shows "durable M N t' pend w'"
proof -
  note rd = readings [OF c]
  have le: "t \<le> t'" using rd(1,2) order_trans by blast
  have data: "dataLogged t t' ev ctx w w' \<Longrightarrow> durable M N t' pend w'" using durable_data [OF D _ io st le] b by blast
  note same = durable_same [OF D _ le]
  show ?thesis
  proof (cases h)
    case HAuth
    then show ?thesis using R same_auth [of w ctx args] by (intro same) (simp add: runHandler_def)
  next
    case HSubscribe
    then show ?thesis using R by (intro same) (simp add: runHandler_def cmdSubscribe_def, metis same_subscribe snd_conv)
  next
    case HPSubscribe
    then show ?thesis using R by (intro same) (simp add: runHandler_def cmdPSubscribe_def, metis same_subscribe snd_conv)
  next
    case HUnsubscribe
    then show ?thesis using R by (intro same) (simp add: runHandler_def cmdUnsubscribe_def, metis same_unsubscribe snd_conv)
  next
    case HPUnsubscribe
    then show ?thesis using R by (intro same) (simp add: runHandler_def cmdPUnsubscribe_def, metis same_unsubscribe snd_conv)
  next
    case HPublish
    have "sameData w (snd (cmdPublish ev ctx args w))"
      by (auto simp: cmdPublish_def sameData_def split_beta Let_def split: sum.splits)
    then show ?thesis using R HPublish same by (auto simp: runHandler_def keepCtx_def)
  next
    case HBGSave
    have "sameData w (snd (cmdBGSave ctx args w))"
      by (auto simp: cmdBGSave_def withDB_def sameData_def split: sum.splits option.splits)
    then show ?thesis using R HBGSave same by (auto simp: runHandler_def keepCtx_def)
  next
    case HLastSave
    then show ?thesis using R same [OF sameData_refl] save_handlers(3) by (auto simp: runHandler_def keepCtx_def)
  next
    case HSave
    have w': "w' = snd (cmdSave ev ctx args w)" using R HSave by (auto simp: runHandler_def keepCtx_def)
    obtain e where e: "wEng w = Some e" using durableE [OF D] by blast
    obtain err e1 d1 where S: "SaveSnapshot (evIO ev 0) (evPerm ev) (evNow ev) (wTenants w) (e, wDisk w) = (err, e1, d1)"
      by (metis prod.collapse)
    have "w' = w \<or> w' = w\<lparr>wEng := Some e1, wDisk := d1\<rparr>"
      using e S by (auto simp: w' cmdSave_def withDB_def split: sum.splits)
    then show ?thesis
    proof
      assume x: "w' = w\<lparr>wEng := Some e1, wDisk := d1\<rparr>"
      have "aof e1" using st by (simp add: x settled_def)
      then show ?thesis unfolding x using durable_save [OF D e S] c rd by (simp add: clocked_def)
    qed (use same [OF sameData_refl] in simp)
  qed (auto intro!: data runHandler_logged [OF c R])
qed

section \<open>Requests and connections\<close>

lemma same_WriteValue [simp, intro]: "sameData w (snd (WriteValue up k v w))"
  by (simp add: sameData_def WriteValue_def)

lemma same_writeAll: "sameData w (snd (writeAll up k vs w))"
proof (induction vs arbitrary: w)
  case (Cons v vs)
  show ?case using sameData_trans [OF same_WriteValue [of w up k v] Cons] by (auto simp: split_beta Let_def split: bool.splits)
qed simp

lemma same_withMetrics [simp, intro]: "sameData w (withMetrics f w)"
  by (simp add: sameData_def withMetrics_def)

lemma same_teardown: "sameData w (snd (teardown k ctx s w))"
proof -
  have "sameData x (snd (ReleaseTenantConn ctx x))" for x by (simp add: ReleaseTenantConn_def sameData_def)
  moreover have "sameData x (releaseClient x)" for x by (simp add: releaseClient_def sameData_def)
  ultimately show ?thesis
    unfolding teardown_def Let_def split_beta snd_conv using sameData_trans same_closePubSub same_withMetrics by meson
qed

lemma same_accept: "acceptConn up k s w = (c, s', w') \<Longrightarrow> sameData w w'"
  by (auto simp: acceptConn_def tryAddClient_def Let_def sameData_def WriteValue_def withMetrics_def split: if_splits)

lemma sameData_tenants:
  assumes "sameData w w'"
  shows "tenantCount w' = tenantCount w" "i < tenantCount w \<Longrightarrow> dbOf i w' = dbOf i w"
proof -
  show n: "tenantCount w' = tenantCount w" using assms unfolding sameData_def by (metis length_map)
  show "i < tenantCount w \<Longrightarrow> dbOf i w' = dbOf i w"
    using assms n unfolding sameData_def dbOf_def theTenant_def by (metis nth_map)
qed

lemma settled_same: "sameData w w' \<Longrightarrow> settled w' \<longleftrightarrow> settled w"
proof -
  assume s: "sameData w w'"
  show ?thesis using sameData_tenants [OF s] s by (simp add: settled_def sameData_def)
qed

lemma durable_Dispatch:
  assumes D: "durable M N t pend w" and c: "clocked t t' ev" and io: "fineIO (evIO ev)" and st: "settled w'"
    and b: "\<And>T. ctxTenant ctx = Some T \<Longrightarrow> T < tenantCount w" "\<And>p T. regPolicy r = Some p \<Longrightarrow> DefaultTenant p = Some T \<Longrightarrow> T < tenantCount w"
    and R: "Dispatch r ev ctx args w = (v, ctx', w')"
  shows "durable M N t' pend w'"
proof -
  have le: "t \<le> t'" using readings(1,2) [OF c] order_trans by blast
  show ?thesis
  proof (cases "w' = w")
    case True
    then show ?thesis using durable_same [OF D sameData_refl le] by simp
  next
    case False
    obtain h c1 e where h: "runHandler r ev h c1 args w = (v, ctx', w')" "checkPolicy (regPolicy r) ctx (ToUpper (hd args)) = (e, c1)"
      using R False by (auto simp: Dispatch_def Let_def split: if_splits option.splits prod.splits)
    have "T < tenantCount w" if "ctxTenant c1 = Some T" for T
      using checkPolicy_ctx [OF h(2)] that b by (auto simp: autoBind_def split: option.splits if_splits)
    from durable_runHandler [OF D c io st this h(1)] show ?thesis .
  qed
qed

lemma durable_serve:
  assumes D: "durable M N t pend w" and c: "clocked t t' ev" and io: "fineIO (evIO ev)" and st: "settled w'"
    and b: "\<And>T. ctxTenant ctx = Some T \<Longrightarrow> T < tenantCount w" "\<And>p T. regPolicy (sRegistry s) = Some p \<Longrightarrow> DefaultTenant p = Some T \<Longrightarrow> T < tenantCount w"
    and R: "handleStep pr en s ev dur k ctx input w = (x, ctx', rest, w')"
  shows "durable M N t' pend w'"
proof -
  have le: "t \<le> t'" using readings(1,2) [OF c] order_trans by blast
  obtain q rest' where q: "ReadCommand input = (q, rest')" by fastforce
  show ?thesis
  proof (cases q)
    case (Inl e)
    then have "sameData w w'" using R q by (auto simp: handleStep_def split: if_splits)
    then show ?thesis by (rule durable_same [OF D _ le])
  next
    case (Inr args)
    obtain v c1 w1 where P: "Dispatch (sRegistry s) ev (ctx\<lparr>Multi := []\<rparr>) args w = (v, c1, w1)" by (metis prod.collapse)
    have "\<exists>f vs. w' = snd (writeAll (evUp ev) k vs (withMetrics f w1))"
      using R q Inr P by (auto simp: handleStep_def serveCommand_def Let_def split_beta simp del: writeAll.simps split: if_splits)
    then have s: "sameData w1 w'" using same_writeAll same_withMetrics sameData_trans by blast
    have "durable M N t' pend w1"
      using durable_Dispatch [OF D c io _ _ b(2) P] b(1) st settled_same [OF s] by simp
    then show ?thesis by (rule durable_same [OF _ s order_refl])
  qed
qed

section \<open>The server with its log\<close>

text \<open>
  A step of the server at a time not before \<open>t\<close>, with the exports \<open>pend\<close> of the save that runs, if one does: connections come and go,
  commands are served, stores are swept; a save begins, exports the next tenant, ends. Writes to the log succeed, and the log
  is open after the step: a save that fails after closing it ends the run.
\<close>

inductive dur_step :: "gotime \<Rightarrow> snapTenant list \<Rightarrow> Sys \<Rightarrow> gotime \<Rightarrow> snapTenant list \<Rightarrow> Sys \<Rightarrow> bool" where
  dur_accepted: "yLive y k = None \<Longrightarrow> acceptConn up k (yServer y) (yWorld y) = (Some ctx, s', w') \<Longrightarrow>
    dur_step t p y t p \<lparr>yServer = s', yWorld = w', yLive = (yLive y)(k \<mapsto> ctx)\<rparr>"
| dur_refused: "yLive y k = None \<Longrightarrow> acceptConn up k (yServer y) (yWorld y) = (None, s', w') \<Longrightarrow>
    dur_step t p y t p (y\<lparr>yServer := s', yWorld := w'\<rparr>)"
| dur_served: "yLive y k = Some ctx \<Longrightarrow> clocked t t' ev \<Longrightarrow> fineIO (evIO ev) \<Longrightarrow>
    handleStep pr en (yServer y) ev dur k ctx input (yWorld y) = (Running, ctx', rest, w') \<Longrightarrow> settled w' \<Longrightarrow>
    dur_step t p y t' p (y\<lparr>yWorld := w', yLive := (yLive y)(k \<mapsto> ctx')\<rparr>)"
| dur_ended: "yLive y k = Some ctx \<Longrightarrow> clocked t t' ev \<Longrightarrow> fineIO (evIO ev) \<Longrightarrow>
    handleStep pr en (yServer y) ev dur k ctx input (yWorld y) = (Done, ctx', rest, w1) \<Longrightarrow> settled w1 \<Longrightarrow>
    teardown k ctx' (yServer y) w1 = (s', w') \<Longrightarrow>
    dur_step t p y t' p \<lparr>yServer = s', yWorld = w', yLive = (yLive y)(k := None)\<rparr>"
| dur_swept: "i < tenantCount (yWorld y) \<Longrightarrow> t \<le> now \<Longrightarrow> fineIO (evIO ev) \<Longrightarrow>
    w' = snd (onDB ev i (expireDue now limit) (yWorld y)) \<Longrightarrow> settled w' \<Longrightarrow>
    dur_step t p y now p (y\<lparr>yWorld := w'\<rparr>)"
| dur_begun: "wEng (yWorld y) = Some e \<Longrightarrow> saveBegin e = (None, e') \<Longrightarrow>
    dur_step t p y t [] (y\<lparr>yWorld := (yWorld y)\<lparr>wEng := Some e'\<rparr>\<rparr>)"
| dur_exported: "wEng (yWorld y) = Some e \<Longrightarrow> saving e \<Longrightarrow> length p < tenantCount (yWorld y) \<Longrightarrow> t \<le> now \<Longrightarrow> is_perm perm \<Longrightarrow>
    dur_step t p y now (p @ [exportTenant perm now (theTenant (length p) (wTenants (yWorld y)))]) y"
| dur_finished: "wEng (yWorld y) = Some e \<Longrightarrow> saving e \<Longrightarrow> length p = tenantCount (yWorld y) \<Longrightarrow>
    saveFinish io p (e, wDisk (yWorld y)) = (err, e', d') \<Longrightarrow> aof e' \<Longrightarrow>
    dur_step t p y t p (y\<lparr>yWorld := (yWorld y)\<lparr>wEng := Some e', wDisk := d'\<rparr>\<rparr>)"
| dur_closed: "dur_step t p y t p (y\<lparr>yServer := snd (CloseServer (yServer y))\<rparr>)"
| dur_stopped: "dur_step t p y t p (y\<lparr>yServer := snd (acceptFailed err (yServer y))\<rparr>)"

inductive dur_run :: "gotime \<Rightarrow> Sys \<Rightarrow> gotime \<Rightarrow> snapTenant list \<Rightarrow> Sys \<Rightarrow> bool" for t0 y0 where
  dur_start: "dur_run t0 y0 t0 [] y0"
| dur_next: "dur_run t0 y0 t p y \<Longrightarrow> dur_step t p y t' p' y' \<Longrightarrow> dur_run t0 y0 t' p' y'"

text \<open>The steps are steps of the server.\<close>

lemma dur_step_sys: "dur_step t p y t' p' y' \<Longrightarrow> sys_step\<^sup>*\<^sup>* y y'"
proof (induction rule: dur_step.induct)
  case (dur_accepted y k up ctx s' w' t p)
  then show ?case using accepted by blast
next
  case (dur_refused y k up s' w' t p)
  then show ?case using refused by blast
next
  case (dur_served y k ctx t t' ev pr en dur input ctx' rest w' p)
  then show ?case using served by blast
next
  case (dur_ended y k ctx t t' ev pr en dur input ctx' rest w1 s' w' p)
  then show ?case using ended by blast
next
  case (dur_swept i y t now ev w' limit p)
  then show ?case using swept by blast
next
  case (dur_begun y e e' t p)
  then show ?case using save_begun by blast
next
  case (dur_exported y e p t now perm)
  show ?case by simp
next
  case (dur_finished y e p io err e' d' t)
  then show ?case using save_finished by blast
next
  case (dur_closed t p y)
  then show ?case using closed by blast
next
  case (dur_stopped t p y err)
  then show ?case using stopped by blast
qed

lemma dur_step_durable:
  assumes "dur_step t p y t' p' y'" "sys_ok y" "durable M N t p (yWorld y)"
  shows "durable M N t' p' (yWorld y')"
  using assms
proof (induction rule: dur_step.induct)
  case (dur_accepted y k up ctx s' w' t p)
  then show ?case using durable_same [OF _ same_accept order_refl] by simp
next
  case (dur_refused y k up s' w' t p)
  then show ?case using durable_same [OF _ same_accept order_refl] by simp
next
  case (dur_served y k ctx t t' ev pr en dur input ctx' rest w' p)
  have x: "ctx_ok (yWorld y) k ctx" using dur_served(1,6) hubs_okD(1) unfolding sys_ok_def world_ok_def by blast
  have "durable M N t' p w'"
    by (rule durable_serve [OF dur_served(7,2,3,5) _ _ dur_served(4)]) (use x dur_served(6) in \<open>auto simp: ctx_ok_def sys_ok_def\<close>)
  then show ?case by simp
next
  case (dur_ended y k ctx t t' ev pr en dur input ctx' rest w1 s' w' p)
  have x: "ctx_ok (yWorld y) k ctx" using dur_ended(1,7) hubs_okD(1) unfolding sys_ok_def world_ok_def by blast
  have "durable M N t' p w1"
    by (rule durable_serve [OF dur_ended(8,2,3,5) _ _ dur_ended(4)]) (use x dur_ended(7) in \<open>auto simp: ctx_ok_def sys_ok_def\<close>)
  moreover have "sameData w1 w'" using same_teardown [of w1 k ctx' "yServer y"] dur_ended(6) by simp
  ultimately show ?case using durable_same by simp
next
  case (dur_swept i y t now ev w' limit p)
  have r: "recorded t now (\<lambda>d. snd (expireDue now limit d))"
    by (rule recordedI [OF logs_reads(6) told_plain [OF plain_reads(6)] order_refl]) (rule dur_swept(2))
  have "tenantCount w' = tenantCount (yWorld y)"
    by (simp add: dur_swept(4) onDB_def split_beta Let_def drainSink_def setDB_def split: option.splits)
  then have "dated (dbOf i w')" using dur_swept(1,5) by (simp add: settled_def)
  then show ?case using durable_onDB [OF dur_swept(7,1) r dur_swept(2,3)] dur_swept(4) by simp
next
  case (dur_begun y e e' t p)
  then show ?case using durable_begin(1) by simp
next
  case (dur_exported y e p t now perm)
  then show ?case using durable_export by blast
next
  case (dur_finished y e p io err e' d' t)
  then show ?case using durable_finish by simp
qed simp_all

lemma dur_run_ok:
  assumes "dur_run t0 y0 t p y" "sys_ok y0" "durable M N t0 [] (yWorld y0)"
  shows "sys_ok y \<and> durable M N t p (yWorld y)"
  using assms
proof (induction rule: dur_run.induct)
  case (dur_next t p y t' p' y')
  have steps: "sys_step\<^sup>*\<^sup>* a b \<Longrightarrow> sys_ok a \<Longrightarrow> sys_ok b" for a b
    by (induction rule: rtranclp_induct) (auto intro: sys_step_ok)
  show ?case using dur_next steps dur_step_sys dur_step_durable by blast
qed simp

end
