(* ===== verification/LegacyHeap.thy ===== *)
theory LegacyHeap
  imports ExpHeap
begin

text \<open>
  The deadline heap of the caches that the store replaced, \<^verbatim>\<open>cmd/cache-custom/ttlheap.go\<close> (build tag
  \<^verbatim>\<open>legacy\<close>). A \<^verbatim>\<open>uint64\<close> key that \<^verbatim>\<open>KeyIdx\<close> does not hold reads as position 0, as in Go; an access to
  \<^verbatim>\<open>TTLs\<close> out of range is a panic, the value \<open>None\<close>. The mutex makes every operation one transition.

  Order and contents: each operation keeps the heap ordered and does to its contents what its name says, as long as the
  index of the key it is given is right. Insertion and update keep the index right; deletion does not.
\<close>

record TTLItem =
  ttlClientKey :: string
  ttlKey :: u64
  ttlTimestamp :: gotime

record TTLHeap =
  TTLs :: "TTLItem list"
  KeyIdx :: "u64 \<Rightarrow> nat option"

definition parent :: "nat \<Rightarrow> nat" where
  "parent i = (i - 1) div 2"

definition leftChild :: "nat \<Rightarrow> nat" where
  "leftChild i = 2 * i + 1"

definition rightChild :: "nat \<Rightarrow> nat" where
  "rightChild i = 2 * i + 2"

definition swapTTL :: "nat \<Rightarrow> nat \<Rightarrow> TTLHeap \<Rightarrow> TTLHeap" where
  "swapTTL i j h =
     (let ys = (TTLs h)[i := TTLs h ! j, j := TTLs h ! i]
      in h\<lparr>TTLs := ys, KeyIdx := (KeyIdx h)(ttlKey (ys ! i) \<mapsto> i, ttlKey (ys ! j) \<mapsto> j)\<rparr>)"

definition before :: "TTLItem list \<Rightarrow> nat \<Rightarrow> nat \<Rightarrow> bool" where
  "before ts i j \<longleftrightarrow> ttlTimestamp (ts ! i) < ttlTimestamp (ts ! j)"

definition smallestTTL :: "nat \<Rightarrow> TTLItem list \<Rightarrow> nat" where
  "smallestTTL i ts =
     (let n = length ts; left = leftChild i; right = rightChild i;
          s1 = (if left < n \<and> before ts left i then left else i)
      in if right < n \<and> before ts right s1 then right else s1)"

lemma smallestTTL_cases: "smallestTTL i ts = i \<or> i < smallestTTL i ts \<and> smallestTTL i ts < length ts"
  by (auto simp: smallestTTL_def Let_def leftChild_def rightChild_def)

function heapify :: "nat \<Rightarrow> TTLHeap \<Rightarrow> TTLHeap" where
  "heapify i h =
     (if length (TTLs h) = 1 then h
      else let s = smallestTTL i (TTLs h) in
           if s \<noteq> i then heapify s (swapTTL i s h) else h)"
  by pat_completeness auto
termination
proof (relation "measure (\<lambda>(i, h). length (TTLs h) - i)")
  fix i s and h :: TTLHeap
  assume "s = smallestTTL i (TTLs h)" "s \<noteq> i"
  then show "((s, swapTTL i s h), i, h) \<in> measure (\<lambda>(i, h). length (TTLs h) - i)"
    using smallestTTL_cases [of i "TTLs h"] by (auto simp: swapTTL_def Let_def)
qed simp

text \<open>The loop of \<^verbatim>\<open>insertHeap\<close>.\<close>

function bubbleUp :: "nat \<Rightarrow> TTLHeap \<Rightarrow> TTLHeap" where
  "bubbleUp i h =
     (if 0 < i \<and> before (TTLs h) i (parent i) then bubbleUp (parent i) (swapTTL i (parent i) h) else h)"
  by pat_completeness auto
termination
  by (relation "measure fst") (auto simp: parent_def)

definition insertHeap :: "TTLItem \<Rightarrow> TTLHeap \<Rightarrow> TTLHeap" where
  "insertHeap k h =
     (let h1 = h\<lparr>TTLs := TTLs h @ [k]\<rparr>;
          h2 = h1\<lparr>KeyIdx := (KeyIdx h1)(ttlKey k \<mapsto> length (TTLs h1) - 1)\<rparr>
      in bubbleUp (length (TTLs h2) - 1) h2)"

definition keyPos :: "u64 \<Rightarrow> TTLHeap \<Rightarrow> nat" where
  "keyPos k h = (case KeyIdx h k of Some i \<Rightarrow> i | None \<Rightarrow> 0)"

definition increaseKeyHeap :: "TTLItem \<Rightarrow> TTLHeap \<Rightarrow> TTLHeap option" where
  "increaseKeyHeap k h =
     (let updatePos = keyPos (ttlKey k) h in
      if updatePos < length (TTLs h)
      then Some (heapify updatePos (h\<lparr>TTLs := (TTLs h)[updatePos := (TTLs h ! updatePos)\<lparr>ttlTimestamp := ttlTimestamp k\<rparr>]\<rparr>))
      else None)"

text \<open>The loop of \<^verbatim>\<open>deleteKeyHeap\<close> moves elements without telling the index map.\<close>

function moveUp :: "nat \<Rightarrow> TTLItem list \<Rightarrow> TTLItem list" where
  "moveUp i ts =
     (if 0 < i \<and> before ts i (parent i) then moveUp (parent i) (ts[i := ts ! parent i, parent i := ts ! i]) else ts)"
  by pat_completeness auto
termination
  by (relation "measure fst") (auto simp: parent_def)

declare heapify.simps [simp del] bubbleUp.simps [simp del] moveUp.simps [simp del]

definition popRoot :: "TTLHeap \<Rightarrow> TTLHeap" where
  "popRoot h =
     (if TTLs h = [] then h
      else let ts = (TTLs h)[0 := last (TTLs h)];
               h1 = h\<lparr>TTLs := ts, KeyIdx := (KeyIdx h)(ttlKey (ts ! 0) \<mapsto> 0)\<rparr>;
               h2 = h1\<lparr>TTLs := take (length ts - 1) ts\<rparr>
           in heapify 0 h2)"

definition deleteKeyHeap :: "TTLItem \<Rightarrow> TTLHeap \<Rightarrow> TTLHeap option" where
  "deleteKeyHeap k h =
     (let deletePos = keyPos (ttlKey k) h in
      if deletePos < length (TTLs h)
      then Some (popRoot (h\<lparr>TTLs := moveUp deletePos ((TTLs h)[deletePos := TTLs h ! 0])\<rparr>))
      else None)"

definition zeroTTL :: TTLItem where
  "zeroTTL = \<lparr>ttlClientKey = [], ttlKey = 0, ttlTimestamp = 0\<rparr>"

definition getMinTTL :: "TTLHeap \<Rightarrow> TTLItem \<times> nat" where
  "getMinTTL h = (if TTLs h = [] then (zeroTTL, 0) else (TTLs h ! 0, length (TTLs h)))"

section \<open>Order, by the heap of the store\<close>

text \<open>
  The moves depend on the timestamps alone, and are those of the heap of \<^verbatim>\<open>internal/store/expiry.go\<close>; what is proved of that heap's
  order holds here.
\<close>

definition itm :: "TTLItem \<Rightarrow> expItem" where
  "itm t = \<lparr>ikey = [], iat = ttlTimestamp t\<rparr>"

definition shape :: "TTLItem list \<Rightarrow> expItem list" where
  "shape = map itm"

lemma shape_simps [simp]: "length (shape ts) = length ts" "i < length ts \<Longrightarrow> iat (shape ts ! i) = ttlTimestamp (ts ! i)"
  "shape (ts[i := x]) = (shape ts)[i := itm x]" "shape (ts @ us) = shape ts @ shape us" "shape [x] = [itm x]" "shape [] = []"
  "shape (take n ts) = take n (shape ts)"
  by (simp_all add: shape_def itm_def map_update take_map)

lemma parent_par: "parent i = par i"
  by (simp add: parent_def par_def)

lemma shape_swap:
  "shape (TTLs h) = hitems e \<Longrightarrow> i < length (TTLs h) \<Longrightarrow> j < length (TTLs h) \<Longrightarrow> shape (TTLs (swapTTL i j h)) = hitems (swapExp i j e)"
  by (auto simp: swapTTL_def swapExp_def Let_def shape_def map_update dest!: sym [of "map itm (TTLs h)"])

lemma smallest_shape: "smallestTTL i ts = smallest i (shape ts)"
proof -
  have "i < length ts" if "2 * i + 1 < length ts \<or> 2 * i + 2 < length ts" using that by auto
  then show ?thesis by (auto simp: smallestTTL_def smallest_def before_def leftChild_def rightChild_def Let_def)
qed

lemma length_swapTTL [simp]: "length (TTLs (swapTTL i j h)) = length (TTLs h)"
  by (simp add: swapTTL_def Let_def)

lemma heapify_shape: "shape (TTLs h) = hitems e \<Longrightarrow> shape (TTLs (heapify i h)) = hitems (siftDown i e)"
proof (induction i h arbitrary: e rule: heapify.induct)
  case (1 i h)
  let ?s = "smallest i (hitems e)"
  have s: "smallestTTL i (TTLs h) = ?s" using 1(2) by (simp add: smallest_shape)
  have l: "length (hitems e) = length (TTLs h)" using 1(2) by (metis shape_simps(1))
  show ?case
  proof (cases "length (TTLs h) = 1 \<or> ?s = i")
    case True
    moreover have "?s = i" if "length (TTLs h) = 1" using that l by (simp add: smallest_def Let_def)
    ultimately have "?s = i" "heapify i h = h" by (auto simp: heapify.simps [of i h] s)
    then show ?thesis using 1(2) by (simp add: siftDown.simps [of i e])
  next
    case False
    then have "i < ?s" "?s < length (TTLs h)" using smallestTTL_cases [of i "TTLs h"] s by auto
    then have "shape (TTLs (swapTTL i ?s h)) = hitems (swapExp i ?s e)" using shape_swap [OF 1(2)] by simp
    then have "shape (TTLs (heapify ?s (swapTTL i ?s h))) = hitems (siftDown ?s (swapExp i ?s e))"
      using 1(1) False s by auto
    then show ?thesis using False s by (simp add: heapify.simps [of i h] siftDown.simps [of i e] Let_def)
  qed
qed

lemma bubbleUp_shape:
  "i < length (TTLs h) \<Longrightarrow> shape (TTLs h) = hitems e \<Longrightarrow> shape (TTLs (bubbleUp i h)) = hitems (siftUp i e)"
proof (induction i h arbitrary: e rule: bubbleUp.induct)
  case (1 i h)
  let ?p = "par i"
  have p: "0 < i \<Longrightarrow> ?p < length (TTLs h)" using 1(2) by (auto intro: par_less_length)
  have c: "before (TTLs h) i ?p = (iat (hitems e ! i) < iat (hitems e ! ?p))" if "0 < i"
    using p [OF that] 1(2,3) by (simp add: before_def flip: 1(3))
  show ?case
  proof (cases "0 < i \<and> before (TTLs h) i ?p")
    case True
    then have "shape (TTLs (bubbleUp ?p (swapTTL i ?p h))) = hitems (siftUp ?p (swapExp i ?p e))"
      using 1(1) [of "swapExp i ?p e"] shape_swap [OF 1(3,2)] p by (simp add: parent_par)
    then show ?thesis using True c by (simp add: bubbleUp.simps [of i h] siftUp.simps [of i e] Let_def parent_par)
  next
    case False
    then show ?thesis using 1(3) c by (auto simp: bubbleUp.simps [of i h] siftUp.simps [of i e] Let_def parent_par)
  qed
qed

lemma moveUp_bubble: "moveUp i (TTLs h) = TTLs (bubbleUp i h)"
proof (induction i h rule: bubbleUp.induct)
  case (1 i h)
  then show ?case
    by (simp add: bubbleUp.simps [of i h] moveUp.simps [of i "TTLs h"]) (simp add: swapTTL_def Let_def)
qed

section \<open>Contents\<close>

lemma mset_swapTTL: "i < length (TTLs h) \<Longrightarrow> j < length (TTLs h) \<Longrightarrow> mset (TTLs (swapTTL i j h)) = mset (TTLs h)"
  by (simp add: swapTTL_def Let_def mset_swap)

lemma heapify_mset: "mset (TTLs (heapify i h)) = mset (TTLs h)"
proof (induction i h rule: heapify.induct)
  case (1 i h)
  let ?s = "smallestTTL i (TTLs h)"
  show ?case
  proof (cases "length (TTLs h) = 1 \<or> ?s = i")
    case False
    then have "i < ?s" "?s < length (TTLs h)" using smallestTTL_cases [of i "TTLs h"] by auto
    then show ?thesis using False 1 by (simp add: heapify.simps [of i h] mset_swapTTL Let_def)
  qed (auto simp: heapify.simps [of i h])
qed

lemma bubbleUp_mset: "i < length (TTLs h) \<Longrightarrow> mset (TTLs (bubbleUp i h)) = mset (TTLs h)"
proof (induction i h rule: bubbleUp.induct)
  case (1 i h)
  then show ?case
    using par_less_length [of i "length (TTLs h)"] by (auto simp: bubbleUp.simps [of i h] mset_swapTTL parent_par)
qed

section \<open>The index\<close>

definition exact :: "TTLHeap \<Rightarrow> bool" where
  "exact h \<longleftrightarrow> distinct (map ttlKey (TTLs h)) \<and> (\<forall>i < length (TTLs h). KeyIdx h (ttlKey (TTLs h ! i)) = Some i)"

lemma exactD: "exact h \<Longrightarrow> i < length (TTLs h) \<Longrightarrow> keyPos (ttlKey (TTLs h ! i)) h = i"
  by (simp add: exact_def keyPos_def)

lemma exact_swap:
  assumes ok: "exact h" and i: "i < length (TTLs h)" and j: "j < length (TTLs h)"
  shows "exact (swapTTL i j h)"
proof -
  let ?x = "TTLs h" and ?h = "swapTTL i j h"
  have inj: "ttlKey (?x ! a) = ttlKey (?x ! b) \<longleftrightarrow> a = b" if "a < length ?x" "b < length ?x" for a b
    using ok that by (metis exact_def option.inject)
  have "mset (map ttlKey (TTLs ?h)) = mset (map ttlKey ?x)" using mset_swapTTL [OF i j] by (metis mset_map)
  then have "distinct (map ttlKey (TTLs ?h))" using ok mset_eq_imp_distinct_iff unfolding exact_def by blast
  moreover have "KeyIdx ?h (ttlKey (TTLs ?h ! m)) = Some m" if "m < length ?x" for m
    using ok i j that inj by (auto simp: swapTTL_def Let_def exact_def nth_list_update)
  ultimately show ?thesis by (simp add: exact_def)
qed

lemma exact_heapify: "exact h \<Longrightarrow> exact (heapify i h)"
proof (induction i h rule: heapify.induct)
  case (1 i h)
  let ?s = "smallestTTL i (TTLs h)"
  show ?case
  proof (cases "length (TTLs h) = 1 \<or> ?s = i")
    case False
    then have "i < ?s" "?s < length (TTLs h)" using smallestTTL_cases [of i "TTLs h"] by auto
    then show ?thesis using False 1 by (simp add: heapify.simps [of i h] exact_swap Let_def)
  qed (use 1(2) in \<open>auto simp: heapify.simps [of i h]\<close>)
qed

lemma exact_bubbleUp: "exact h \<Longrightarrow> i < length (TTLs h) \<Longrightarrow> exact (bubbleUp i h)"
proof (induction i h rule: bubbleUp.induct)
  case (1 i h)
  then show ?case
    using par_less_length [of i "length (TTLs h)"] by (auto simp: bubbleUp.simps [of i h] exact_swap parent_par)
qed

section \<open>The operations\<close>

definition orderly :: "TTLHeap \<Rightarrow> bool" where
  "orderly h \<longleftrightarrow> heap_order (shape (TTLs h))"

abbreviation plainHeap :: "TTLItem list \<Rightarrow> expheap" where
  "plainHeap ts \<equiv> \<lparr>hitems = shape ts, hidx = (\<lambda>_. None)\<rparr>"

lemma root_first: "orderly h \<Longrightarrow> i < length (TTLs h) \<Longrightarrow> ttlTimestamp (TTLs h ! 0) \<le> ttlTimestamp (TTLs h ! i)"
  using heap_root_least [of "shape (TTLs h)" i] shape_simps(2) [of 0 "TTLs h"] shape_simps(2) [of i "TTLs h"]
  by (cases "TTLs h") (simp_all add: orderly_def)

lemma insertHeap_spec:
  assumes "orderly h"
  shows "orderly (insertHeap k h)" "mset (TTLs (insertHeap k h)) = add_mset k (mset (TTLs h))"
    "exact h \<Longrightarrow> ttlKey k \<notin> ttlKey ` set (TTLs h) \<Longrightarrow> exact (insertHeap k h)"
proof -
  let ?n = "length (TTLs h)" let ?h = "\<lparr>TTLs = TTLs h @ [k], KeyIdx = (KeyIdx h)(ttlKey k \<mapsto> ?n)\<rparr>"
  have I: "insertHeap k h = bubbleUp ?n ?h" by (cases h) (simp add: insertHeap_def)
  have "rel_ok (shape (TTLs h) @ [itm k]) i" if "0 < i" "i < ?n" for i
    using that assms par_less_length [OF that] by (auto simp: orderly_def heap_order_def rel_ok_def nth_append)
  moreover have "\<not> (0 < i \<and> i < Suc ?n \<and> par i = ?n)" for i using par_less [of i] by auto
  ultimately have "up_ok (shape (TTLs ?h)) ?n" unfolding up_ok_def grand_ok_def by (auto simp: less_Suc_eq dest: par_less)
  then show "orderly (insertHeap k h)"
    using siftUp_heap [of ?n "plainHeap (TTLs ?h)"] bubbleUp_shape [of ?n ?h "plainHeap (TTLs ?h)"]
    by (simp add: orderly_def I)
  show "mset (TTLs (insertHeap k h)) = add_mset k (mset (TTLs h))" using bubbleUp_mset [of ?n ?h] by (simp add: I)
  assume "exact h" "ttlKey k \<notin> ttlKey ` set (TTLs h)"
  then have "exact ?h" by (auto simp: exact_def nth_append less_Suc_eq) (metis image_eqI nth_mem)
  then show "exact (insertHeap k h)" using exact_bubbleUp [of ?h ?n] by (simp add: I)
qed

lemma increaseKeyHeap_spec:
  assumes "orderly h" "exact h" "p < length (TTLs h)" "ttlKey (TTLs h ! p) = ttlKey k" "ttlTimestamp (TTLs h ! p) \<le> ttlTimestamp k"
  shows "\<exists>h'. increaseKeyHeap k h = Some h' \<and> orderly h' \<and> exact h' \<and>
    mset (TTLs h') = mset ((TTLs h)[p := (TTLs h ! p)\<lparr>ttlTimestamp := ttlTimestamp k\<rparr>])"
proof -
  let ?x = "TTLs h" let ?ts = "?x[p := (?x ! p)\<lparr>ttlTimestamp := ttlTimestamp k\<rparr>]"
  have p: "keyPos (ttlKey k) h = p" using exactD [OF assms(2,3)] assms(4) by simp
  have t: "iat (shape ?ts ! i) = (if i = p then ttlTimestamp k else ttlTimestamp (?x ! i))" if "i < length ?x" for i
    using that by (simp add: nth_list_update itm_def)
  have o: "ttlTimestamp (?x ! par i) \<le> ttlTimestamp (?x ! i)" if "0 < i" "i < length ?x" for i
    using assms(1) that par_less_length [OF that] by (auto simp: orderly_def heap_order_def rel_ok_def)
  have "rel_ok (shape ?ts) i" if "0 < i" "i < length ?x" "par i \<noteq> p" for i
    using o [OF that(1,2)] par_less_length [OF that(1,2)] that assms(5) unfolding rel_ok_def by (auto simp: t simp del: shape_simps)
  moreover have "iat (shape ?ts ! par p) \<le> iat (shape ?ts ! i)" if "0 < i" "i < length ?x" "par i = p" "0 < p" for i
    using o [of i] o [of p] that assms(3) par_less [of p] par_less [of i] by (auto simp: t simp del: shape_simps)
  ultimately have "down_ok (shape ?ts) p" by (auto simp: down_ok_def grand_ok_def)
  then have "orderly (heapify p (h\<lparr>TTLs := ?ts\<rparr>))"
    using siftDown_heap [of p "plainHeap ?ts"] heapify_shape [of "h\<lparr>TTLs := ?ts\<rparr>" "plainHeap ?ts" p] assms(3) by (simp add: orderly_def)
  moreover have "exact (h\<lparr>TTLs := ?ts\<rparr>)"
  proof -
    have "map ttlKey ?ts = map ttlKey ?x" using assms(3) by (intro nth_equalityI) (auto simp: nth_list_update)
    moreover from this have "ttlKey (?ts ! i) = ttlKey (?x ! i)" if "i < length ?x" for i
      using that by (metis length_list_update nth_map)
    ultimately show ?thesis using assms(2) by (simp add: exact_def)
  qed
  ultimately show ?thesis using p assms(3) exact_heapify heapify_mset [of p "h\<lparr>TTLs := ?ts\<rparr>"]
    by (intro exI [of _ "heapify p (h\<lparr>TTLs := ?ts\<rparr>)"]) (simp add: increaseKeyHeap_def)
qed

text \<open>The element that is moved up stops below the root, whose timestamp it has.\<close>

lemma moveUp_root:
  "i < length ts \<Longrightarrow> ttlTimestamp (ts ! i) = ttlTimestamp (ts ! 0) \<Longrightarrow> moveUp i ts ! 0 = ts ! 0"
proof (induction i ts rule: moveUp.induct)
  case (1 i ts)
  show ?case
  proof (cases "0 < i \<and> before ts i (parent i)")
    case True
    then have p: "0 < parent i" "parent i < length ts" using 1(2,3) par_less_length [of i] by (auto simp: before_def parent_par intro: gr0I)
    then have "moveUp (parent i) (ts[i := ts ! parent i, parent i := ts ! i]) ! 0 = ts ! 0"
      using 1 True by (auto simp: nth_list_update)
    then show ?thesis using True by (simp add: moveUp.simps [of i ts])
  qed (auto simp: moveUp.simps [of i ts])
qed

lemma popRoot_spec:
  assumes "orderly h" "TTLs h \<noteq> []"
  shows "orderly (popRoot h)" "mset (TTLs (popRoot h)) = mset (TTLs h) - {#TTLs h ! 0#}"
proof -
  let ?x = "TTLs h" let ?n = "length ?x - 1" let ?ts = "take ?n (?x[0 := last ?x])"
  let ?h = "\<lparr>TTLs = ?ts, KeyIdx = (KeyIdx h)(ttlKey (last ?x) \<mapsto> 0)\<rparr>"
  have P: "popRoot h = heapify 0 ?h" using assms(2) by (cases h) (simp add: popRoot_def Let_def)
  have o: "ttlTimestamp (?x ! par i) \<le> ttlTimestamp (?x ! i)" if "0 < i" "i < length ?x" for i
    using assms(1) that par_less_length [OF that] by (auto simp: orderly_def heap_order_def rel_ok_def)
  have "rel_ok (shape ?ts) i" if "0 < i" "i < ?n" "par i \<noteq> 0" for i
  proof -
    have "par i < ?n" using that par_less_length by blast
    then show ?thesis using o [of i] that by (auto simp: rel_ok_def shape_def itm_def)
  qed
  then have "down_ok (shape ?ts) 0" by (auto simp: down_ok_def grand_ok_def)
  then have "heap_order (hitems (siftDown 0 (plainHeap ?ts)))" if "?ts \<noteq> []"
    using siftDown_heap [of 0 "plainHeap ?ts"] that by (simp add: shape_def)
  moreover have "orderly (popRoot h)" if "?ts = []"
  proof -
    have "mset (TTLs (popRoot h)) = mset ?ts" by (simp add: P heapify_mset)
    then have "TTLs (popRoot h) = []" unfolding that by simp
    then show ?thesis by (simp add: orderly_def heap_order_def)
  qed
  ultimately show "orderly (popRoot h)"
    using heapify_shape [of ?h "plainHeap ?ts" 0] by (cases "?ts = []") (simp_all add: P orderly_def)
  have "mset ?ts = mset ?x - {#?x ! 0#}"
  proof (cases ?x rule: rev_cases)
    case (snoc ys y)
    then show ?thesis by (cases ys) simp_all
  qed (use assms(2) in simp)
  then show "mset (TTLs (popRoot h)) = mset ?x - {#?x ! 0#}" by (simp add: P heapify_mset)
qed

lemma deleteKeyHeap_spec:
  assumes "orderly h" "p < length (TTLs h)" "keyPos (ttlKey k) h = p"
  shows "\<exists>h'. deleteKeyHeap k h = Some h' \<and> orderly h' \<and> mset (TTLs h') = mset (TTLs h) - {#TTLs h ! p#}"
proof -
  let ?x = "TTLs h" let ?ts = "?x[p := ?x ! 0]"
  let ?ys = "moveUp p ?ts" let ?h = "h\<lparr>TTLs := ?ts\<rparr>"
  have ys: "?ys = TTLs (bubbleUp p ?h)" using moveUp_bubble [of p ?h] by simp
  have o: "ttlTimestamp (?x ! par i) \<le> ttlTimestamp (?x ! i)" if "0 < i" "i < length ?x" for i
    using assms(1) that par_less_length [OF that] by (auto simp: orderly_def heap_order_def rel_ok_def)
  have r: "ttlTimestamp (?x ! 0) \<le> ttlTimestamp (?x ! i)" if "i < length ?x" for i
    using root_first [OF assms(1) that] .
  have t: "iat (shape ?ts ! i) = ttlTimestamp (?x ! (if i = p then 0 else i))" if "i < length ?x" for i
    using that by (simp add: nth_list_update itm_def)
  have "rel_ok (shape ?ts) i" if "0 < i" "i < length ?x" "i \<noteq> p" for i
    using o [OF that(1,2)] r [OF that(2)] par_less_length [OF that(1,2)] that unfolding rel_ok_def by (auto simp: t simp del: shape_simps)
  moreover have "iat (shape ?ts ! par p) \<le> iat (shape ?ts ! i)" if "0 < i" "i < length ?x" "par i = p" "0 < p" for i
    using o [of i] o [of p] that assms(2) par_less [of p] par_less [of i] by (auto simp: t simp del: shape_simps)
  ultimately have "up_ok (shape ?ts) p" by (auto simp: up_ok_def grand_ok_def)
  then have "orderly (h\<lparr>TTLs := ?ys\<rparr>)"
    using siftUp_heap [of p "plainHeap ?ts"] bubbleUp_shape [of p ?h "plainHeap ?ts"] assms(2) by (simp add: orderly_def ys)
  moreover have m: "mset ?ys = mset ?ts" using bubbleUp_mset [of p ?h] assms(2) by (simp add: ys)
  moreover have "?ts ! 0 = ?x ! 0" by (cases p) simp_all
  then have z: "?ys ! 0 = ?x ! 0" using moveUp_root [of p ?ts] assms(2) by (simp add: nth_list_update)
  have "mset ?ts - {#?x ! 0#} = mset ?x - {#?x ! p#}" using assms(2) by (simp add: mset_update)
  moreover have "length ?ys = length ?ts" using m by (rule mset_eq_length)
  then have ne: "?ys \<noteq> []" using assms(2) by auto
  ultimately have "orderly (popRoot (h\<lparr>TTLs := ?ys\<rparr>))" "mset (TTLs (popRoot (h\<lparr>TTLs := ?ys\<rparr>))) = mset ?x - {#?x ! p#}"
    using popRoot_spec [of "h\<lparr>TTLs := ?ys\<rparr>"] by (simp_all add: z)
  moreover have "deleteKeyHeap k h = Some (popRoot (h\<lparr>TTLs := ?ys\<rparr>))"
    using assms(2,3) by (simp add: deleteKeyHeap_def Let_def)
  ultimately show ?thesis by blast
qed

lemma getMinTTL_spec:
  assumes "orderly h" "TTLs h \<noteq> []"
  shows "getMinTTL h = (TTLs h ! 0, length (TTLs h))" "t \<in> set (TTLs h) \<Longrightarrow> ttlTimestamp (fst (getMinTTL h)) \<le> ttlTimestamp t"
proof -
  show g: "getMinTTL h = (TTLs h ! 0, length (TTLs h))" using assms(2) by (simp add: getMinTTL_def)
  assume "t \<in> set (TTLs h)"
  then obtain i where "i < length (TTLs h)" "t = TTLs h ! i" by (auto simp: in_set_conv_nth)
  then show "ttlTimestamp (fst (getMinTTL h)) \<le> ttlTimestamp t"
    using root_first [OF assms(1)] by (simp add: g)
qed

definition keysIn :: "TTLHeap \<Rightarrow> u64 set" where
  "keysIn h = ttlKey ` set (TTLs h)"

text \<open>The deadline heap of the replaced caches. On an ordered heap with a right index, inserting a new key adds it, moving a key's timestamp forward
  changes that timestamp alone, both leaving the heap ordered and the index right; deleting a key removes exactly its element and
  leaves the heap ordered; the minimum is the earliest timestamp.\<close>

theorem ttl_heap_operations:
  assumes "orderly h" "exact h"
  shows "(ttlKey k \<notin> keysIn h \<longrightarrow>
       orderly (insertHeap k h) \<and> exact (insertHeap k h) \<and> mset (TTLs (insertHeap k h)) = add_mset k (mset (TTLs h))) \<and>
    (p < length (TTLs h) \<and> ttlKey (TTLs h ! p) = ttlKey k \<longrightarrow>
       (ttlTimestamp (TTLs h ! p) \<le> ttlTimestamp k \<longrightarrow>
         (\<exists>h'. increaseKeyHeap k h = Some h' \<and> orderly h' \<and> exact h' \<and>
           mset (TTLs h') = mset ((TTLs h)[p := (TTLs h ! p)\<lparr>ttlTimestamp := ttlTimestamp k\<rparr>]))) \<and>
       (\<exists>h'. deleteKeyHeap k h = Some h' \<and> orderly h' \<and> mset (TTLs h') = mset (TTLs h) - {#TTLs h ! p#}) \<and>
       ttlTimestamp (fst (getMinTTL h)) \<le> ttlTimestamp (TTLs h ! p) \<and> snd (getMinTTL h) = length (TTLs h))"
proof (intro conjI impI)
  assume "ttlKey k \<notin> keysIn h"
  then show "orderly (insertHeap k h)" "exact (insertHeap k h)" "mset (TTLs (insertHeap k h)) = add_mset k (mset (TTLs h))"
    using insertHeap_spec [OF assms(1)] assms(2) by (simp_all add: keysIn_def)
next
  assume p: "p < length (TTLs h) \<and> ttlKey (TTLs h ! p) = ttlKey k"
  show "\<exists>h'. increaseKeyHeap k h = Some h' \<and> orderly h' \<and> exact h' \<and>
      mset (TTLs h') = mset ((TTLs h)[p := (TTLs h ! p)\<lparr>ttlTimestamp := ttlTimestamp k\<rparr>])"
    if "ttlTimestamp (TTLs h ! p) \<le> ttlTimestamp k"
    using increaseKeyHeap_spec [OF assms _ _ that] p by blast
  show "\<exists>h'. deleteKeyHeap k h = Some h' \<and> orderly h' \<and> mset (TTLs h') = mset (TTLs h) - {#TTLs h ! p#}"
    using deleteKeyHeap_spec [OF assms(1)] exactD [OF assms(2)] p by metis
  have ne: "TTLs h \<noteq> []" using p by auto
  then show "ttlTimestamp (fst (getMinTTL h)) \<le> ttlTimestamp (TTLs h ! p)" "snd (getMinTTL h) = length (TTLs h)"
    using getMinTTL_spec [OF assms(1) ne] p by simp_all
qed

text \<open>Of three keys the second is deleted; the heap is left with the other two.\<close>

definition threeDue :: TTLHeap where
  "threeDue = \<lparr>TTLs = [zeroTTL\<lparr>ttlKey := 7, ttlTimestamp := 10\<rparr>, zeroTTL\<lparr>ttlKey := 8, ttlTimestamp := 30\<rparr>, zeroTTL\<lparr>ttlKey := 9, ttlTimestamp := 20\<rparr>],
     KeyIdx = [7 \<mapsto> 0, 8 \<mapsto> 1, 9 \<mapsto> 2]\<rparr>"

theorem ttl_heap_operations_witness:
  "\<exists>h'. deleteKeyHeap (zeroTTL\<lparr>ttlKey := 8\<rparr>) threeDue = Some h' \<and> orderly h' \<and>
     mset (map ttlKey (TTLs h')) = {#7, 9#}"
proof -
  have "exact threeDue" by (auto simp: exact_def threeDue_def less_Suc_eq)
  moreover have "orderly threeDue" by (auto simp: orderly_def heap_order_def rel_ok_def threeDue_def shape_def itm_def zeroTTL_def par_def less_Suc_eq)
  ultimately obtain h' where h: "deleteKeyHeap (zeroTTL\<lparr>ttlKey := 8\<rparr>) threeDue = Some h'" "orderly h'"
    "mset (TTLs h') = mset (TTLs threeDue) - {#TTLs threeDue ! 1#}"
    using ttl_heap_operations [of threeDue "zeroTTL\<lparr>ttlKey := 8\<rparr>" 1] by (auto simp: threeDue_def)
  then have "image_mset ttlKey (mset (TTLs h')) = {#7, 9#}" by (simp add: threeDue_def zeroTTL_def)
  then show ?thesis using h by simp
qed

end
