(* ===== verification/LegacyLRU.thy ===== *)
theory LegacyLRU
  imports LegacyHeap Dll
begin

text \<open>
  The LRU cache that the store replaced, \<^verbatim>\<open>cmd/cache-custom/cacheLRU.go\<close> (build tag \<^verbatim>\<open>legacy\<close>). Nodes live in
  a memory \<open>lruMem\<close>, the node of a key at the address that is its key: \<^verbatim>\<open>Put\<close> allocates a node only for a key that
  \<^verbatim>\<open>Store\<close> does not hold, and a node that leaves the list is not referred to again. What the functions share with their callers is the
  record \<open>Shared\<close>: the deadline heap, the map from client keys to keys, and the list \<^verbatim>\<open>freedKeys\<close>, which the file only
  appends to. \<^verbatim>\<open>entrySize\<close> is defined nowhere in the repository; it is the argument \<open>es\<close>. The result \<open>None\<close> is a
  panic of the heap.

  The operations implement a list of entries in the order of their last use, and memory in use is exact and within the
  limit.
\<close>

record LRUKV =
  nClientKey :: string
  nKey :: u64
  nValue :: string
  nNext :: "u64 option"
  nPrev :: "u64 option"
  nTimestamp :: gotime

record LRUCache =
  lruMax :: u64
  lruMem :: "u64 \<Rightarrow> LRUKV"
  lruStore :: "u64 \<Rightarrow> u64 option"
  KeyHead :: "u64 option"
  KeyTail :: "u64 option"
  lruUsed :: u64
  lruEvictions :: u64

record Shared =
  ttlHeap :: TTLHeap
  keyMap :: "string \<Rightarrow> u64 option"
  freedKeys :: "u64 list"

definition newLRUKV :: "u64 \<Rightarrow> LRUKV" where
  "newLRUKV key = \<lparr>nClientKey = [], nKey = key, nValue = [], nNext = None, nPrev = None, nTimestamp = 0\<rparr>"

definition ConstructorLRU :: "u64 \<Rightarrow> LRUCache" where
  "ConstructorLRU capacity =
     \<lparr>lruMax = capacity, lruMem = newLRUKV, lruStore = (\<lambda>_. None), KeyHead = None, KeyTail = None, lruUsed = 0, lruEvictions = 0\<rparr>"

definition lruRemoveNode :: "u64 \<Rightarrow> LRUCache \<Rightarrow> LRUCache" where
  "lruRemoveNode n c =
     (let node = lruMem c n;
          c1 = (case nPrev node of
                  Some p \<Rightarrow> c\<lparr>lruMem := (lruMem c)(p := (lruMem c p)\<lparr>nNext := nNext node\<rparr>)\<rparr>
                | None \<Rightarrow> c\<lparr>KeyHead := nNext node\<rparr>);
          node1 = lruMem c1 n
      in case nNext node1 of
           Some q \<Rightarrow> c1\<lparr>lruMem := (lruMem c1)(q := (lruMem c1 q)\<lparr>nPrev := nPrev node1\<rparr>)\<rparr>
         | None \<Rightarrow> c1\<lparr>KeyTail := nPrev node1\<rparr>)"

definition lruAddToTail :: "u64 \<Rightarrow> LRUCache \<Rightarrow> LRUCache" where
  "lruAddToTail n c =
     (let c1 = c\<lparr>lruMem := (lruMem c)(n := (lruMem c n)\<lparr>nPrev := KeyTail c, nNext := None\<rparr>)\<rparr>;
          c2 = (case KeyTail c1 of
                  Some t \<Rightarrow> c1\<lparr>lruMem := (lruMem c1)(t := (lruMem c1 t)\<lparr>nNext := Some n\<rparr>)\<rparr>
                | None \<Rightarrow> c1\<lparr>KeyHead := Some n\<rparr>)
      in c2\<lparr>KeyTail := Some n\<rparr>)"

definition lruShiftKV :: "u64 \<Rightarrow> LRUCache \<Rightarrow> LRUCache" where
  "lruShiftKV mru c = lruAddToTail mru (lruRemoveNode mru c)"

definition lruGet :: "u64 \<Rightarrow> LRUCache \<Rightarrow> string \<times> LRUCache" where
  "lruGet key c =
     (case lruStore c key of
        Some mru \<Rightarrow> let c1 = lruShiftKV mru c in (nValue (lruMem c1 mru), c1)
      | None \<Rightarrow> (''key not found'', c))"

lemma length_moveUp [simp]: "length (moveUp i ts) = length ts"
  by (induction i ts rule: moveUp.induct) (simp add: moveUp.simps)

lemma length_heapify [simp]: "length (TTLs (heapify i h)) = length (TTLs h)"
  by (rule mset_eq_length) (rule heapify_mset)

lemma length_deleteKeyHeap: "deleteKeyHeap k h = Some h' \<Longrightarrow> Suc (length (TTLs h')) = length (TTLs h)"
  by (auto simp: deleteKeyHeap_def popRoot_def Let_def split: if_splits dest: arg_cong [of _ _ length])

text \<open>The eviction loop of \<^verbatim>\<open>Put\<close>: every round takes an element from the heap.\<close>

function lruEvict :: "(string \<Rightarrow> string \<Rightarrow> u64) \<Rightarrow> u64 \<Rightarrow> LRUCache \<times> Shared \<Rightarrow> (LRUCache \<times> Shared) option" where
  "lruEvict es need (c, sh) =
     (if lruMax c < add64 (lruUsed c) need
      then case KeyHead c of
             None \<Rightarrow> Some (c, sh)
           | Some lru \<Rightarrow>
               let node = lruMem c lru;
                   sh1 = sh\<lparr>keyMap := (keyMap sh)(nClientKey node := None), freedKeys := freedKeys sh @ [nKey node]\<rparr>;
                   c1 = c\<lparr>lruStore := (lruStore c)(nKey node := None), lruUsed := sub64 (lruUsed c) (es (nClientKey node) (nValue node))\<rparr>
               in (case deleteKeyHeap (zeroTTL\<lparr>ttlKey := nKey node\<rparr>) (ttlHeap sh1) of
                     None \<Rightarrow> None
                   | Some h \<Rightarrow>
                       let c2 = lruRemoveNode lru c1
                       in lruEvict es need (c2\<lparr>lruEvictions := add64 (lruEvictions c2) 1\<rparr>, sh1\<lparr>ttlHeap := h\<rparr>))
      else Some (c, sh))"
  by pat_completeness auto
termination
  by (relation "measure (\<lambda>(es, need, c, sh). length (TTLs (ttlHeap sh)))") (auto dest: length_deleteKeyHeap)

declare lruEvict.simps [simp del]

definition lruPut :: "(string \<Rightarrow> string \<Rightarrow> u64) \<Rightarrow> gotime \<Rightarrow> u64 \<Rightarrow> string \<Rightarrow> string \<Rightarrow> LRUCache \<times> Shared \<Rightarrow> (string \<times> LRUCache \<times> Shared) option" where
  "lruPut es now key value clientKey s =
     (let (c, sh) = s in
      if lruMax c < es clientKey value then Some (''Not enough memory to insert key-value pair.'', c, sh)
      else case lruStore c key of
        Some mru \<Rightarrow>
          let old = es [] (nValue (lruMem c mru)); new = es [] value in
          if lruMax c < add64 (sub64 (lruUsed c) old) new
          then Some (''Not enough memory to update value. Consider deleting the key and reinserting.'', c, sh)
          else
            let c1 = c\<lparr>lruUsed := add64 (sub64 (lruUsed c) old) new\<rparr>;
                c2 = c1\<lparr>lruMem := (lruMem c1)(mru := (lruMem c1 mru)\<lparr>nValue := value, nTimestamp := now\<rparr>)\<rparr>
            in (case increaseKeyHeap (zeroTTL\<lparr>ttlKey := key, ttlTimestamp := now\<rparr>) (ttlHeap sh) of
                  None \<Rightarrow> None
                | Some h \<Rightarrow> Some (''OK'', lruShiftKV mru c2, sh\<lparr>ttlHeap := h\<rparr>))
      | None \<Rightarrow>
          (case lruEvict es (es clientKey value) (c, sh) of
             None \<Rightarrow> None
           | Some (c1, sh1) \<Rightarrow>
               let c2 = c1\<lparr>lruUsed := add64 (lruUsed c1) (es clientKey value)\<rparr>;
                   h = insertHeap \<lparr>ttlClientKey = clientKey, ttlKey = key, ttlTimestamp = now\<rparr> (ttlHeap sh1);
                   node = (newLRUKV key)\<lparr>nTimestamp := now, nValue := value, nClientKey := clientKey\<rparr>;
                   c3 = c2\<lparr>lruMem := (lruMem c2)(key := node), lruStore := (lruStore c2)(key \<mapsto> key)\<rparr>
               in Some (''OK'', lruAddToTail key c3, sh1\<lparr>ttlHeap := h\<rparr>)))"

definition lruDelete :: "(string \<Rightarrow> string \<Rightarrow> u64) \<Rightarrow> u64 \<Rightarrow> LRUCache \<times> Shared \<Rightarrow> (LRUCache \<times> Shared) option" where
  "lruDelete es key s =
     (let (c, sh) = s in
      case lruStore c key of
        None \<Rightarrow> Some (c, sh)
      | Some n \<Rightarrow>
          let node = lruMem c n;
              c1 = lruRemoveNode n (c\<lparr>lruUsed := sub64 (lruUsed c) (es (nClientKey node) (nValue node))\<rparr>)
          in (case deleteKeyHeap (zeroTTL\<lparr>ttlKey := key\<rparr>) (ttlHeap sh) of
                None \<Rightarrow> None
              | Some h \<Rightarrow> Some (c1\<lparr>lruStore := (lruStore c1)(key := None)\<rparr>, sh\<lparr>ttlHeap := h\<rparr>)))"

definition lruStats :: "LRUCache \<Rightarrow> u64 \<times> u64 \<times> u64" where
  "lruStats c = (lruUsed c, lruMax c, lruEvictions c)"

section \<open>Links\<close>

text \<open>A list with head and tail, for both caches; links of nodes outside it do not matter.\<close>

definition chained :: "('a \<Rightarrow> 'a option) \<Rightarrow> ('a \<Rightarrow> 'a option) \<Rightarrow> 'a option \<Rightarrow> 'a option \<Rightarrow> 'a list \<Rightarrow> bool" where
  "chained p n h t xs \<longleftrightarrow> distinct xs \<and> seg p n None xs None \<and> h = hd_or xs None \<and> t = last_or xs None"

lemma chained_nil: "chained p n None None []"
  by (simp add: chained_def)

lemma chained_links: "chained p n h t (xs @ x # ys) \<Longrightarrow> p x = last_or xs None \<and> n x = hd_or ys None"
  by (auto simp: chained_def dest: seg_nextD)

lemma chained_remove:
  assumes "chained p n h t (xs @ x # ys)"
  shows "chained (case n x of Some q \<Rightarrow> p(q := p x) | None \<Rightarrow> p) (case p x of Some q \<Rightarrow> n(q := n x) | None \<Rightarrow> n)
    (case p x of Some _ \<Rightarrow> h | None \<Rightarrow> n x) (case n x of Some _ \<Rightarrow> t | None \<Rightarrow> p x) (xs @ ys)"
proof -
  have l: "p x = last_or xs None" "n x = hd_or ys None" using chained_links [OF assms] by simp_all
  have s: "seg p n None (xs @ x # ys) None" "distinct (xs @ x # ys)" using assms by (simp_all add: chained_def)
  have "(case n x of Some q \<Rightarrow> p(q := p x) | None \<Rightarrow> p) = (if ys = [] then p else p(hd ys := last_or xs None))"
    using l by (cases ys) simp_all
  moreover have "(case p x of Some q \<Rightarrow> n(q := n x) | None \<Rightarrow> n) = (if xs = [] then n else n(last xs := hd_or ys None))"
    using l by (simp add: last_or_def)
  moreover have "(case p x of Some _ \<Rightarrow> h | None \<Rightarrow> n x) = hd_or (xs @ ys) None"
    using l assms by (cases xs) (auto simp: last_or_def chained_def)
  moreover have "(case n x of Some _ \<Rightarrow> t | None \<Rightarrow> p x) = last_or (xs @ ys) None"
    using l assms by (cases ys) (auto simp: last_or_def chained_def)
  ultimately show ?thesis using seg_remove [OF s] s(2) by (simp add: chained_def)
qed

lemma chained_append:
  assumes "chained p n h t xs" "x \<notin> set xs"
  shows "chained (p(x := t)) ((case t of Some y \<Rightarrow> n(y := Some x) | None \<Rightarrow> n)(x := None))
    (case t of Some _ \<Rightarrow> h | None \<Rightarrow> Some x) (Some x) (xs @ [x])"
proof -
  have t: "t = last_or xs None" "h = hd_or xs None" using assms by (simp_all add: chained_def)
  have "(case t of Some y \<Rightarrow> n(y := Some x) | None \<Rightarrow> n) = (if xs = [] then n else n(last xs := Some x))"
    using t by (simp add: last_or_def)
  moreover have "(case t of Some _ \<Rightarrow> h | None \<Rightarrow> Some x) = hd_or (xs @ [x]) None" using t by (cases xs) (simp_all add: last_or_def)
  moreover have "seg p n None (xs @ []) None" "distinct (xs @ x # [])" using assms by (simp_all add: chained_def)
  from seg_insert [OF this] have "seg (p(x := t)) ((if xs = [] then n else n(last xs := Some x))(x := None)) None (xs @ [x]) None"
    using t by simp
  ultimately show ?thesis using assms by (simp add: chained_def)
qed

lemma chained_cong:
  "(\<And>x. x \<in> set xs \<Longrightarrow> p x = p' x \<and> n x = n' x) \<Longrightarrow> chained p n h t xs = chained p' n' h t xs"
  unfolding chained_def using seg_cong [of xs p p' n n'] by blast

section \<open>Entries in the order of their use\<close>

abbreviation prevs :: "LRUCache \<Rightarrow> u64 \<Rightarrow> u64 option" where
  "prevs c \<equiv> \<lambda>x. nPrev (lruMem c x)"

abbreviation nexts :: "LRUCache \<Rightarrow> u64 \<Rightarrow> u64 option" where
  "nexts c \<equiv> \<lambda>x. nNext (lruMem c x)"

definition linkedBy :: "LRUCache \<Rightarrow> u64 list \<Rightarrow> bool" where
  "linkedBy c xs \<longleftrightarrow> chained (prevs c) (nexts c) (KeyHead c) (KeyTail c) xs"

type_synonym kv = "u64 \<times> string \<times> string"

definition entryOf :: "LRUCache \<Rightarrow> u64 \<Rightarrow> kv" where
  "entryOf c k = (nKey (lruMem c k), nClientKey (lruMem c k), nValue (lruMem c k))"

lemma entryOf_removeNode: "entryOf (lruRemoveNode n c) = entryOf c"
  by (auto simp: lruRemoveNode_def entryOf_def Let_def fun_eq_iff split: option.splits)

lemma entryOf_addToTail: "entryOf (lruAddToTail n c) = entryOf c"
  by (auto simp: lruAddToTail_def entryOf_def Let_def fun_eq_iff split: option.splits)

lemma lru_frame [simp]:
  "lruMax (lruRemoveNode n c) = lruMax c" "lruStore (lruRemoveNode n c) = lruStore c" "lruUsed (lruRemoveNode n c) = lruUsed c"
  "lruMax (lruAddToTail n c) = lruMax c" "lruStore (lruAddToTail n c) = lruStore c" "lruUsed (lruAddToTail n c) = lruUsed c"
  "lruEvictions (lruRemoveNode n c) = lruEvictions c" "lruEvictions (lruAddToTail n c) = lruEvictions c"
  by (auto simp: lruRemoveNode_def lruAddToTail_def Let_def split: option.splits)

lemma linkedBy_remove:
  assumes "linkedBy c (xs @ x # ys)"
  shows "linkedBy (lruRemoveNode x c) (xs @ ys)"
proof -
  let ?c = "lruRemoveNode x c"
  have l: "prevs c x = last_or xs None" "nexts c x = hd_or ys None" "x \<notin> set xs" "x \<notin> set ys"
    using chained_links [OF assms [unfolded linkedBy_def]] assms by (simp_all add: linkedBy_def chained_def)
  then have ne: "prevs c x \<noteq> Some x" by (auto simp: last_or_def)
  have "prevs ?c = (case nexts c x of Some q \<Rightarrow> (prevs c)(q := prevs c x) | None \<Rightarrow> prevs c)"
    using ne by (auto simp: lruRemoveNode_def Let_def fun_eq_iff split: option.splits)
  moreover have "nexts ?c = (case prevs c x of Some q \<Rightarrow> (nexts c)(q := nexts c x) | None \<Rightarrow> nexts c)"
    using ne by (auto simp: lruRemoveNode_def Let_def fun_eq_iff split: option.splits)
  moreover have "KeyHead ?c = (case prevs c x of Some _ \<Rightarrow> KeyHead c | None \<Rightarrow> nexts c x)"
    using ne by (auto simp: lruRemoveNode_def Let_def split: option.splits)
  moreover have "KeyTail ?c = (case nexts c x of Some _ \<Rightarrow> KeyTail c | None \<Rightarrow> prevs c x)"
    using ne by (auto simp: lruRemoveNode_def Let_def split: option.splits)
  ultimately show ?thesis using chained_remove assms unfolding linkedBy_def by metis
qed

lemma linkedBy_append:
  assumes "linkedBy c xs" "x \<notin> set xs"
  shows "linkedBy (lruAddToTail x c) (xs @ [x])"
proof -
  let ?c = "lruAddToTail x c"
  have ne: "KeyTail c \<noteq> Some x" using assms by (auto simp: linkedBy_def chained_def last_or_def)
  have "prevs ?c = (prevs c)(x := KeyTail c)"
    using ne by (auto simp: lruAddToTail_def Let_def fun_eq_iff split: option.splits)
  moreover have "nexts ?c = (case KeyTail c of Some y \<Rightarrow> (nexts c)(y := Some x) | None \<Rightarrow> nexts c)(x := None)"
    using ne by (auto simp: lruAddToTail_def Let_def fun_eq_iff split: option.splits)
  moreover have "KeyHead ?c = (case KeyTail c of Some _ \<Rightarrow> KeyHead c | None \<Rightarrow> Some x)" "KeyTail ?c = Some x"
    by (auto simp: lruAddToTail_def Let_def split: option.splits)
  ultimately show ?thesis using chained_append [OF assms(1) [unfolded linkedBy_def] assms(2)] unfolding linkedBy_def by simp
qed

section \<open>The list the cache implements\<close>

definition sizes :: "(string \<Rightarrow> string \<Rightarrow> u64) \<Rightarrow> kv list \<Rightarrow> nat" where
  "sizes es l = sum_list (map (\<lambda>(k, ck, v). es ck v) l)"

fun makeRoom :: "(string \<Rightarrow> string \<Rightarrow> u64) \<Rightarrow> nat \<Rightarrow> nat \<Rightarrow> kv list \<Rightarrow> kv list \<times> kv list" where
  "makeRoom es mx need [] = ([], [])"
| "makeRoom es mx need (x # l) =
     (if mx < sizes es (x # l) + need then (let (out, kept) = makeRoom es mx need l in (x # out, kept)) else ([], x # l))"

definition without :: "u64 \<Rightarrow> kv list \<Rightarrow> kv list" where
  "without key l = filter (\<lambda>e. fst e \<noteq> key) l"

definition specGet :: "u64 \<Rightarrow> kv list \<Rightarrow> string \<times> kv list" where
  "specGet key l = (case map_of l key of Some (ck, v) \<Rightarrow> (v, without key l @ [(key, ck, v)]) | None \<Rightarrow> (''key not found'', l))"

definition specPut :: "(string \<Rightarrow> string \<Rightarrow> u64) \<Rightarrow> nat \<Rightarrow> u64 \<Rightarrow> string \<Rightarrow> string \<Rightarrow> kv list \<Rightarrow> string \<times> kv list" where
  "specPut es mx key value clientKey l =
     (if mx < es clientKey value then (''Not enough memory to insert key-value pair.'', l)
      else case map_of l key of
        Some (ck, v) \<Rightarrow>
          if mx < sizes es (without key l @ [(key, ck, value)])
          then (''Not enough memory to update value. Consider deleting the key and reinserting.'', l)
          else (''OK'', without key l @ [(key, ck, value)])
      | None \<Rightarrow> (''OK'', snd (makeRoom es mx (es clientKey value) l) @ [(key, clientKey, value)]))"

text \<open>The cache holds the entries of the list, and no more memory than it may.\<close>

definition lru_ok :: "(string \<Rightarrow> string \<Rightarrow> u64) \<Rightarrow> u64 list \<Rightarrow> LRUCache \<Rightarrow> bool" where
  "lru_ok es xs c \<longleftrightarrow> linkedBy c xs \<and> lruStore c = (\<lambda>k. if k \<in> set xs then Some k else None) \<and>
     (\<forall>k \<in> set xs. nKey (lruMem c k) = k) \<and> lruUsed c = sizes es (map (entryOf c) xs) \<and> lruUsed c \<le> lruMax c"

definition holdsLRU :: "(string \<Rightarrow> string \<Rightarrow> u64) \<Rightarrow> kv list \<Rightarrow> LRUCache \<Rightarrow> bool" where
  "holdsLRU es l c \<longleftrightarrow> lru_ok es (map fst l) c \<and> l = map (entryOf c) (map fst l)"

lemma sizes_simps [simp]: "sizes es [] = 0" "sizes es (x # l) = es (fst (snd x)) (snd (snd x)) + sizes es l"
  "sizes es (l @ l') = sizes es l + sizes es l'"
  by (auto simp: sizes_def split: prod.splits)

lemma holdsLRU_D:
  assumes "holdsLRU es l c"
  shows "linkedBy c (map fst l)" "lruStore c k = (if k \<in> fst ` set l then Some k else None)" "lruUsed c = sizes es l" "lruUsed c \<le> lruMax c"
    "distinct (map fst l)" "e \<in> set l \<Longrightarrow> entryOf c (fst e) = e"
proof -
  have l: "lru_ok es (map fst l) c" "l = map (entryOf c) (map fst l)" using assms unfolding holdsLRU_def by blast+
  then show "linkedBy c (map fst l)" "lruStore c k = (if k \<in> fst ` set l then Some k else None)" "lruUsed c = sizes es l" "lruUsed c \<le> lruMax c"
    by (simp_all add: lru_ok_def)
  then show "distinct (map fst l)" by (simp add: linkedBy_def chained_def)
  have "map (\<lambda>e. entryOf c (fst e)) l = map id l" using l(2) by (simp add: comp_def)
  then show "e \<in> set l \<Longrightarrow> entryOf c (fst e) = e" unfolding map_eq_conv by simp
qed

lemma holdsLRU_I:
  assumes "linkedBy c (map fst l)" "lruStore c = (\<lambda>k. if k \<in> fst ` set l then Some k else None)" "lruUsed c = sizes es l" "lruUsed c \<le> lruMax c"
    and "\<And>e. e \<in> set l \<Longrightarrow> entryOf c (fst e) = e"
  shows "holdsLRU es l c"
proof -
  have l: "map (entryOf c) (map fst l) = l" using assms(5) by (simp add: map_idI)
  moreover have "nKey (lruMem c (fst e)) = fst e" if "e \<in> set l" for e using assms(5) [OF that] by (simp add: entryOf_def prod_eq_iff)
  ultimately show ?thesis using assms(1-4) by (simp add: holdsLRU_def lru_ok_def)
qed

lemma lru_updates [simp]:
  "lruRemoveNode n (c\<lparr>lruUsed := u\<rparr>) = (lruRemoveNode n c)\<lparr>lruUsed := u\<rparr>"
  "lruRemoveNode n (c\<lparr>lruStore := st\<rparr>) = (lruRemoveNode n c)\<lparr>lruStore := st\<rparr>"
  by (auto simp: lruRemoveNode_def Let_def split: option.splits)

lemma linkedBy_updates [simp]:
  "linkedBy (c\<lparr>lruUsed := u\<rparr>) = linkedBy c" "linkedBy (c\<lparr>lruStore := st\<rparr>) = linkedBy c" "linkedBy (c\<lparr>lruEvictions := n\<rparr>) = linkedBy c"
  "entryOf (c\<lparr>lruUsed := u\<rparr>) = entryOf c" "entryOf (c\<lparr>lruStore := st\<rparr>) = entryOf c" "entryOf (c\<lparr>lruEvictions := n\<rparr>) = entryOf c"
  by (simp_all add: linkedBy_def entryOf_def fun_eq_iff)

lemma holds_evictions: "holdsLRU es l (c\<lparr>lruEvictions := n\<rparr>) = holdsLRU es l c"
  by (simp add: holdsLRU_def lru_ok_def)

lemma holds_entry:
  assumes "holdsLRU es l c" "lruStore c key = Some m"
  obtains a b ck v where "m = key" "l = a @ (key, ck, v) # b" "without key l = a @ b" "map_of l key = Some (ck, v)"
    "nClientKey (lruMem c key) = ck" "nValue (lruMem c key) = v"
proof -
  have k: "m = key" "key \<in> fst ` set l" using assms holdsLRU_D(2) [OF assms(1), of key] by (simp_all split: if_splits)
  then obtain e where e: "e \<in> set l" "fst e = key" by auto
  obtain ck v where v: "e = (key, ck, v)" using e(2) by (metis prod.collapse)
  obtain a b where l: "l = a @ e # b" using e(1) by (metis split_list)
  have d: "distinct (map fst l)" by (rule holdsLRU_D(5) [OF assms(1)])
  then have "\<forall>e \<in> set (a @ b). fst e \<noteq> key" unfolding l using e(2) by (auto simp: image_iff)
  then have "without key l = a @ b" unfolding l without_def using e(2) by (simp add: filter_id_conv)
  moreover have "map_of l key = Some (ck, v)" using d e(1) by (simp add: v)
  moreover have "entryOf c key = e" using holdsLRU_D(6) [OF assms(1) e(1)] e(2) by simp
  ultimately show ?thesis using that k(1) l by (auto simp: v entryOf_def)
qed

lemma holds_absent: "holdsLRU es l c \<Longrightarrow> lruStore c key = None \<Longrightarrow> key \<notin> fst ` set l \<and> map_of l key = None"
  using holdsLRU_D(2) [of es l c key] by (auto simp: map_of_eq_None_iff split: if_splits)

lemma holds_unlink:
  assumes "holdsLRU es (a @ (k, ck, v) # b) c"
  shows "holdsLRU es (a @ b) ((lruRemoveNode k c)\<lparr>lruStore := (lruStore c)(k := None), lruUsed := sub64 (lruUsed c) (es ck v)\<rparr>)"
proof (rule holdsLRU_I)
  note h = holdsLRU_D [OF assms]
  show "linkedBy ((lruRemoveNode k c)\<lparr>lruStore := (lruStore c)(k := None), lruUsed := sub64 (lruUsed c) (es ck v)\<rparr>) (map fst (a @ b))"
    using linkedBy_remove [of c "map fst a" k "map fst b"] h(1) by simp
  show "lruStore ((lruRemoveNode k c)\<lparr>lruStore := (lruStore c)(k := None), lruUsed := sub64 (lruUsed c) (es ck v)\<rparr>) =
      (\<lambda>x. if x \<in> fst ` set (a @ b) then Some x else None)"
    using h(2,5) by (auto simp: fun_eq_iff)
qed (use holdsLRU_D(3,4,6) [OF assms] in \<open>auto simp: entryOf_removeNode\<close>)

lemma holds_shift:
  assumes "holdsLRU es (a @ (k, ck, v) # b) c"
  shows "holdsLRU es (a @ b @ [(k, ck, v)]) (lruShiftKV k c)"
proof (rule holdsLRU_I)
  note h = holdsLRU_D [OF assms]
  have "linkedBy (lruRemoveNode k c) (map fst a @ map fst b)" using linkedBy_remove [of c "map fst a" k "map fst b"] h(1) by simp
  from linkedBy_append [OF this, of k] show "linkedBy (lruShiftKV k c) (map fst (a @ b @ [(k, ck, v)]))"
    using h(5) by (simp add: lruShiftKV_def)
  show "lruStore (lruShiftKV k c) = (\<lambda>x. if x \<in> fst ` set (a @ b @ [(k, ck, v)]) then Some x else None)"
    using h(2) by (auto simp: fun_eq_iff lruShiftKV_def)
qed (use holdsLRU_D(3,4,6) [OF assms] in \<open>auto simp: lruShiftKV_def entryOf_removeNode entryOf_addToTail\<close>)

lemma linkedBy_payload:
  assumes "nPrev (lruMem c k) = nPrev node \<and> nNext (lruMem c k) = nNext node \<or> k \<notin> set xs"
  shows "linkedBy (c\<lparr>lruMem := (lruMem c)(k := node)\<rparr>) xs = linkedBy c xs"
proof -
  let ?c = "c\<lparr>lruMem := (lruMem c)(k := node)\<rparr>"
  have "prevs ?c x = prevs c x \<and> nexts ?c x = nexts c x" if "x \<in> set xs" for x using assms that by auto
  then show ?thesis unfolding linkedBy_def using chained_cong [of xs "prevs ?c" "prevs c" "nexts ?c" "nexts c"] by simp
qed

lemma holds_update:
  assumes "holdsLRU es (a @ (k, ck, v) # b) c" "used = sizes es (a @ (k, ck, w) # b)" "used \<le> lruMax c"
  shows "holdsLRU es (a @ (k, ck, w) # b) (c\<lparr>lruUsed := used, lruMem := (lruMem c)(k := (lruMem c k)\<lparr>nValue := w, nTimestamp := t\<rparr>)\<rparr>)"
proof (rule holdsLRU_I)
  note h = holdsLRU_D [OF assms(1)]
  let ?c = "c\<lparr>lruUsed := used, lruMem := (lruMem c)(k := (lruMem c k)\<lparr>nValue := w, nTimestamp := t\<rparr>)\<rparr>"
  show "linkedBy ?c (map fst (a @ (k, ck, w) # b))" using h(1) linkedBy_payload [of c k] by (simp add: linkedBy_def)
  show "lruStore ?c = (\<lambda>x. if x \<in> fst ` set (a @ (k, ck, w) # b) then Some x else None)" using h(2) by (auto simp: fun_eq_iff)
  fix e
  assume e: "e \<in> set (a @ (k, ck, w) # b)"
  show "entryOf ?c (fst e) = e"
  proof (cases "fst e = k")
    case True
    then have "e = (k, ck, w)" using e h(5) by (auto simp: image_iff)
    then show ?thesis using h(6) [of "(k, ck, v)"] by (simp add: entryOf_def)
  next
    case False
    then show ?thesis using e h(6) [of e] by (auto simp: entryOf_def)
  qed
qed (use assms in simp_all)

lemma holds_link:
  assumes "holdsLRU es l c" "k \<notin> fst ` set l" "used = sizes es l + es ck v" "used \<le> lruMax c"
    and "nKey node = k" "nClientKey node = ck" "nValue node = v"
  shows "holdsLRU es (l @ [(k, ck, v)]) (lruAddToTail k (c\<lparr>lruUsed := used, lruMem := (lruMem c)(k := node), lruStore := (lruStore c)(k \<mapsto> k)\<rparr>))"
    (is "holdsLRU es _ (lruAddToTail k ?c)")
proof (rule holdsLRU_I)
  note h = holdsLRU_D [OF assms(1)]
  have "linkedBy ?c (map fst l)" using h(1) linkedBy_payload [of c k node "map fst l"] assms(2) by (simp add: linkedBy_def)
  then show "linkedBy (lruAddToTail k ?c) (map fst (l @ [(k, ck, v)]))" using linkedBy_append [of ?c "map fst l" k] assms(2) by simp
  show "lruStore (lruAddToTail k ?c) = (\<lambda>x. if x \<in> fst ` set (l @ [(k, ck, v)]) then Some x else None)"
    using h(2) by (auto simp: fun_eq_iff)
  fix e
  assume "e \<in> set (l @ [(k, ck, v)])"
  then show "entryOf (lruAddToTail k ?c) (fst e) = e"
  proof (cases "e \<in> set l")
    case True
    then have "fst e \<noteq> k" using assms(2) by auto
    then show ?thesis unfolding entryOf_addToTail using h(6) [OF True] by (simp add: entryOf_def)
  next
    case False
    then show ?thesis unfolding entryOf_addToTail using \<open>e \<in> set (l @ [(k, ck, v)])\<close> assms(5-7) by (simp add: entryOf_def)
  qed
qed (use assms in simp_all)

section \<open>The operations\<close>

text \<open>What the accounting relies on: the size of an entry is the size of its value and a part that depends on the client key.\<close>

definition fairSize :: "(string \<Rightarrow> string \<Rightarrow> u64) \<Rightarrow> bool" where
  "fairSize es \<longleftrightarrow> (\<forall>ck v w. es ck v + es [] w = es ck w + es [] v) \<and> (\<forall>ck v. es [] v \<le> es ck v)"

lemma lruGet_spec:
  assumes "holdsLRU es l c"
  shows "fst (lruGet key c) = fst (specGet key l)" "holdsLRU es (snd (specGet key l)) (snd (lruGet key c))"
proof -
  have v: "nValue (lruMem (lruShiftKV k c) k) = nValue (lruMem c k)" for k
    using fun_cong [OF entryOf_addToTail, of k "lruRemoveNode k c" k] fun_cong [OF entryOf_removeNode, of k c k]
    by (simp add: lruShiftKV_def entryOf_def)
  show "fst (lruGet key c) = fst (specGet key l)" "holdsLRU es (snd (specGet key l)) (snd (lruGet key c))"
  proof (atomize (full), cases "lruStore c key")
    case None
    then show "fst (lruGet key c) = fst (specGet key l) \<and> holdsLRU es (snd (specGet key l)) (snd (lruGet key c))"
      using holds_absent [OF assms] assms by (simp add: lruGet_def specGet_def)
  next
    case (Some m)
    from holds_entry [OF assms Some] obtain a b ck w where e: "m = key" "l = a @ (key, ck, w) # b" "without key l = a @ b"
      "map_of l key = Some (ck, w)" "nValue (lruMem c key) = w" by metis
    then show "fst (lruGet key c) = fst (specGet key l) \<and> holdsLRU es (snd (specGet key l)) (snd (lruGet key c))"
      using holds_shift [of es a key ck w b c] assms Some v by (simp add: lruGet_def specGet_def Let_def)
  qed
qed

lemma lruEvict_spec:
  assumes "holdsLRU es l c" "lruEvict es need (c, sh) = Some (c', sh')" "need \<le> lruMax c" "lruMax c < 2 ^ 63"
    and "makeRoom es (lruMax c) need l = (out, kept)"
  shows "holdsLRU es kept c' \<and> lruMax c' = lruMax c \<and> lruUsed c' + need \<le> lruMax c \<and> freedKeys sh' = freedKeys sh @ map fst out"
  using assms
proof (induction l arbitrary: c sh out)
  case Nil
  then show ?case using holdsLRU_D(1,3) [OF Nil(1)] by (auto simp: lruEvict.simps [of es need c sh] linkedBy_def chained_def split: if_splits)
next
  case (Cons x l)
  obtain k ck v where x: "x = (k, ck, v)" by (metis prod.collapse)
  note h = holdsLRU_D [OF Cons(2)]
  have u: "add64 (lruUsed c) need = lruUsed c + need" using h(4) Cons(4,5) by simp
  show ?case
  proof (cases "lruMax c < lruUsed c + need")
    case False
    then show ?thesis using Cons(2,3,6) h(3) u by (auto simp: lruEvict.simps [of es need c sh] split: if_splits)
  next
    case True
    have K: "KeyHead c = Some k" using h(1) by (simp add: linkedBy_def chained_def x)
    have e: "nKey (lruMem c k) = k" "nClientKey (lruMem c k) = ck" "nValue (lruMem c k) = v"
      using h(6) [of x] by (auto simp: entryOf_def x)
    obtain out' where o: "makeRoom es (lruMax c) need l = (out', kept)" "out = x # out'"
      using Cons(6) True h(3) by (auto split: if_splits prod.splits)
    let ?c = "((lruRemoveNode k c)\<lparr>lruStore := (lruStore c)(k := None), lruUsed := sub64 (lruUsed c) (es ck v)\<rparr>)\<lparr>lruEvictions := add64 (lruEvictions c) 1\<rparr>"
    obtain hp where "deleteKeyHeap (zeroTTL\<lparr>ttlKey := k\<rparr>) (ttlHeap sh) = Some hp"
      and E: "lruEvict es need (?c, sh\<lparr>keyMap := (keyMap sh)(ck := None), freedKeys := freedKeys sh @ [k], ttlHeap := hp\<rparr>) = Some (c', sh')"
      using Cons(3) True K e u by (simp add: lruEvict.simps [of es need c sh] Let_def split: option.splits)
    have "holdsLRU es l ?c" using holds_unlink [of es "[]" k ck v l c] Cons(2) by (simp add: x holds_evictions)
    from Cons.IH [OF this E] show ?thesis using Cons(4,5) o by (simp add: x)
  qed
qed

lemma lruPut_spec:
  assumes "holdsLRU es l c" "fairSize es" "lruMax c < 2 ^ 63" "lruPut es now key value clientKey (c, sh) = Some (reply, c', sh')"
  shows "reply = fst (specPut es (lruMax c) key value clientKey l) \<and> holdsLRU es (snd (specPut es (lruMax c) key value clientKey l)) c' \<and>
    lruMax c' = lruMax c"
proof (cases "lruMax c < es clientKey value")
  case True
  then show ?thesis using assms(1,4) by (auto simp: lruPut_def specPut_def)
next
  case fits: False
  show ?thesis
  proof (cases "lruStore c key")
    case None
    obtain out kept where M: "makeRoom es (lruMax c) (es clientKey value) l = (out, kept)" by fastforce
    obtain c1 sh1 where E: "lruEvict es (es clientKey value) (c, sh) = Some (c1, sh1)"
      using assms(4) None fits by (auto simp: lruPut_def split: option.splits)
    have e: "holdsLRU es kept c1" "lruMax c1 = lruMax c" "lruUsed c1 + es clientKey value \<le> lruMax c"
      using lruEvict_spec [OF assms(1) E _ assms(3) M] fits by auto
    have "set kept \<subseteq> set l" using M by (induction l arbitrary: out) (auto split: if_splits prod.splits)
    then have "key \<notin> fst ` set kept" using holds_absent [OF assms(1) None] by auto
    then show ?thesis
      using holds_link [OF e(1), of key _ clientKey "value" "(newLRUKV key)\<lparr>nTimestamp := now, nValue := value, nClientKey := clientKey\<rparr>"]
        e(2,3) holdsLRU_D(3) [OF e(1)] holds_absent [OF assms(1) None] None fits E M assms(3,4)
      by (auto simp: lruPut_def specPut_def newLRUKV_def Let_def)
  next
    case (Some m)
    from holds_entry [OF assms(1) Some] obtain a b ck w where e: "m = key" "l = a @ (key, ck, w) # b" "without key l = a @ b"
      "map_of l key = Some (ck, w)" "nValue (lruMem c key) = w" by metis
    note h = holdsLRU_D [OF assms(1)]
    let ?l = "a @ (key, ck, value) # b"
    have f: "es ck w + es [] value = es ck value + es [] w" "es [] w \<le> es ck w" "es [] value \<le> es clientKey value"
      using assms(2) unfolding fairSize_def by blast+
    have u: "lruUsed c = sizes es a + es ck w + sizes es b" using h(3) by (simp add: e(2))
    then have s: "add64 (sub64 (lruUsed c) (es [] w)) (es [] value) = sizes es ?l"
    proof -
      have "sub64 (lruUsed c) (es [] w) = lruUsed c - es [] w" using u f(2) by simp
      moreover have "lruUsed c - es [] w + es [] value < 2 ^ 64" using f(3) fits h(4) assms(3) by simp
      ultimately show ?thesis using u f(1,2) by simp
    qed
    have o: "sizes es (a @ b @ [(key, ck, value)]) = sizes es ?l" by simp
    show ?thesis
    proof (cases "lruMax c < sizes es ?l")
      case True
      then show ?thesis using assms(1,4) Some fits s o e by (auto simp: lruPut_def specPut_def Let_def)
    next
      case False
      let ?c = "c\<lparr>lruUsed := sizes es ?l, lruMem := (lruMem c)(key := (lruMem c key)\<lparr>nValue := value, nTimestamp := now\<rparr>)\<rparr>"
      have "holdsLRU es (a @ b @ [(key, ck, value)]) (lruShiftKV key ?c)"
        using holds_shift [OF holds_update] assms(1) False unfolding e(2) by (metis linorder_not_less)
      moreover have "lruPut es now key value clientKey (c, sh) = map_option (\<lambda>h. (''OK'', lruShiftKV key ?c, sh\<lparr>ttlHeap := h\<rparr>))
          (increaseKeyHeap (zeroTTL\<lparr>ttlKey := key, ttlTimestamp := now\<rparr>) (ttlHeap sh))"
        using Some fits s e(1,5) False by (simp add: lruPut_def Let_def split: option.splits)
      then have "reply = ''OK''" "c' = lruShiftKV key ?c" using assms(4) by (auto simp: map_option_case split: option.splits)
      moreover have "specPut es (lruMax c) key value clientKey l = (''OK'', a @ b @ [(key, ck, value)])"
        using fits e(3,4) False o by (simp add: specPut_def)
      ultimately show ?thesis by (simp add: lruShiftKV_def)
    qed
  qed
qed

lemma lruDelete_spec:
  assumes "holdsLRU es l c" "lruDelete es key (c, sh) = Some (c', sh')"
  shows "holdsLRU es (without key l) c' \<and> lruMax c' = lruMax c"
proof (cases "lruStore c key")
  case None
  then have "without key l = l" using holds_absent [OF assms(1) None] by (auto simp: without_def filter_id_conv)
  then show ?thesis using None assms by (simp add: lruDelete_def)
next
  case (Some m)
  from holds_entry [OF assms(1) Some] obtain a b ck w where e: "m = key" "l = a @ (key, ck, w) # b" "without key l = a @ b"
    "nClientKey (lruMem c key) = ck" "nValue (lruMem c key) = w" by metis
  have "c' = (lruRemoveNode key c)\<lparr>lruStore := (lruStore c)(key := None), lruUsed := sub64 (lruUsed c) (es ck w)\<rparr>"
    using assms(2) Some e by (auto simp: lruDelete_def Let_def split: option.splits)
  then show ?thesis using holds_unlink [of es a key ck w b c] assms(1) e by simp
qed

section \<open>Runs\<close>

text \<open>A use of the cache: the operations one after the other, each with its clock reading, and the texts they return.\<close>

datatype cacheOp = DoGet u64 | DoPut gotime u64 string string | DoDelete u64

fun lruDo :: "(string \<Rightarrow> string \<Rightarrow> u64) \<Rightarrow> cacheOp \<Rightarrow> LRUCache \<times> Shared \<Rightarrow> (string \<times> LRUCache \<times> Shared) option" where
  "lruDo es (DoGet key) (c, sh) = (let (v, c') = lruGet key c in Some (v, c', sh))"
| "lruDo es (DoPut now key val ck) s = lruPut es now key val ck s"
| "lruDo es (DoDelete key) s = map_option (\<lambda>s'. ([], s')) (lruDelete es key s)"

fun specDo :: "(string \<Rightarrow> string \<Rightarrow> u64) \<Rightarrow> nat \<Rightarrow> cacheOp \<Rightarrow> kv list \<Rightarrow> string \<times> kv list" where
  "specDo es mx (DoGet key) l = specGet key l"
| "specDo es mx (DoPut now key val ck) l = specPut es mx key val ck l"
| "specDo es mx (DoDelete key) l = ([], without key l)"

fun runOps :: "('p \<Rightarrow> 's \<Rightarrow> (string \<times> 's) option) \<Rightarrow> 'p list \<Rightarrow> 's \<Rightarrow> (string list \<times> 's) option" where
  "runOps step [] s = Some ([], s)"
| "runOps step (p # ps) s =
     (case step p s of None \<Rightarrow> None | Some (v, s1) \<Rightarrow> map_option (\<lambda>(vs, s2). (v # vs, s2)) (runOps step ps s1))"

fun runSpec :: "('p \<Rightarrow> 'l \<Rightarrow> string \<times> 'l) \<Rightarrow> 'p list \<Rightarrow> 'l \<Rightarrow> string list \<times> 'l" where
  "runSpec spec [] l = ([], l)"
| "runSpec spec (p # ps) l = (let (v, l1) = spec p l; (vs, l2) = runSpec spec ps l1 in (v # vs, l2))"

text \<open>The contract of a cache towards an abstract list: every operation that returns gives the reply of the list and keeps the two related.\<close>

locale list_cache =
  fixes step :: "'p \<Rightarrow> 's \<Rightarrow> (string \<times> 's) option"
    and spec :: "'p \<Rightarrow> 'l \<Rightarrow> string \<times> 'l"
    and rel :: "'l \<Rightarrow> 's \<Rightarrow> bool"
  assumes step_ok: "rel l s \<Longrightarrow> step p s = Some (v, s') \<Longrightarrow> v = fst (spec p l) \<and> rel (snd (spec p l)) s'"
begin

lemma run_ok: "rel l s \<Longrightarrow> runOps step ps s = Some (vs, s') \<Longrightarrow> runSpec spec ps l = (vs, snd (runSpec spec ps l)) \<and> rel (snd (runSpec spec ps l)) s'"
proof (induction ps arbitrary: l s vs)
  case (Cons p ps)
  obtain v s1 where D: "step p s = Some (v, s1)" using Cons(3) by (auto split: option.splits)
  then obtain vs' where R: "runOps step ps s1 = Some (vs', s')" "vs = v # vs'" using Cons(3) by auto
  obtain l1 where l: "spec p l = (v, l1)" "rel l1 s1" using step_ok [OF Cons(2) D] by (metis prod.collapse)
  show ?case using Cons.IH [OF l(2) R(1)] l(1) R(2) by (auto simp: Let_def split: prod.splits)
qed simp

end

lemma lruDo_spec:
  assumes "holdsLRU es l c" "fairSize es" "lruMax c < 2 ^ 63" "lruDo es p (c, sh) = Some (v, c', sh')"
  shows "v = fst (specDo es (lruMax c) p l) \<and> holdsLRU es (snd (specDo es (lruMax c) p l)) c' \<and> lruMax c' = lruMax c"
proof (cases p)
  case (DoGet key)
  then have "v = fst (lruGet key c)" "c' = snd (lruGet key c)" using assms(4) by (auto split: prod.splits)
  moreover have "lruMax (snd (lruGet key c)) = lruMax c" by (auto simp: lruGet_def lruShiftKV_def Let_def split: option.splits)
  ultimately show ?thesis using lruGet_spec [OF assms(1)] DoGet by simp
next
  case (DoPut now key val ck)
  then show ?thesis using lruPut_spec [OF assms(1-3)] assms(4) by simp
next
  case (DoDelete key)
  then show ?thesis using lruDelete_spec [OF assms(1)] assms(4) by auto
qed

definition lruRel :: "(string \<Rightarrow> string \<Rightarrow> u64) \<Rightarrow> nat \<Rightarrow> kv list \<Rightarrow> LRUCache \<times> Shared \<Rightarrow> bool" where
  "lruRel es mx l s \<longleftrightarrow> holdsLRU es l (fst s) \<and> lruMax (fst s) = mx \<and> mx < 2 ^ 63 \<and> fairSize es"

interpretation recency: list_cache "lruDo es" "specDo es mx" "lruRel es mx" for es mx
  by unfold_locales (auto simp: lruRel_def dest: lruDo_spec)

lemma holds_new: "holdsLRU es [] (ConstructorLRU mx)"
  by (rule holdsLRU_I) (auto simp: ConstructorLRU_def linkedBy_def chained_nil)

definition noShared :: Shared where
  "noShared = \<lparr>ttlHeap = \<lparr>TTLs = [], KeyIdx = (\<lambda>_. None)\<rparr>, keyMap = (\<lambda>_. None), freedKeys = []\<rparr>"

definition byLength :: "string \<Rightarrow> string \<Rightarrow> u64" where
  "byLength ck v = length ck + length v"

lemma fair_byLength: "fairSize byLength"
  by (simp add: fairSize_def byLength_def)


text \<open>Room for two entries: the one that was read stays, the other makes room for a third.\<close>

definition twoOfThree :: "cacheOp list" where
  "twoOfThree = [DoPut 1 1 ''x'' ''a'', DoPut 2 2 ''y'' ''b'', DoGet 1, DoPut 3 3 ''z'' ''c'', DoGet 2, DoGet 1]"

lemmas lru_eval = lruPut_def lruGet_def lruDelete_def lruShiftKV_def lruAddToTail_def lruRemoveNode_def lruEvict.simps ConstructorLRU_def newLRUKV_def
  noShared_def byLength_def insertHeap_def increaseKeyHeap_def deleteKeyHeap_def popRoot_def heapify.simps bubbleUp.simps moveUp.simps swapTTL_def
  smallestTTL_def before_def leftChild_def rightChild_def parent_def keyPos_def zeroTTL_def Let_def add64_def sub64_def

lemma twoOfThree_run:
  "\<exists>c sh. runOps (lruDo byLength) twoOfThree (ConstructorLRU 4, noShared) = Some ([''OK'', ''OK'', ''x'', ''OK'', ''key not found'', ''x''], c, sh)"
  by (simp add: twoOfThree_def lru_eval)


text \<open>
  Deletion from the heap moves elements without updating their index. Six keys are written, three of them again, and all are
  deleted, with a clock that always advances.
\<close>

definition sixKeys :: "cacheOp list" where
  "sixKeys = map (\<lambda>i. DoPut (int i) i ''v'' ''c'') [1, 2, 3, 4, 5, 6] @ [DoPut 7 1 ''v'' ''c'', DoPut 8 4 ''v'' ''c'', DoPut 9 5 ''v'' ''c''] @
     map DoDelete [5, 2, 1, 3, 4]"

text \<open>Deleting a key from the cache can panic. After the operations above the key 6 is still in the cache, but the index of its deadline lies outside
  the heap, and deleting it panics; for the list of entries that the cache stands for nothing is wrong.\<close>

theorem stale_index_panics:
  "\<exists>vs c sh. runOps (lruDo byLength) sixKeys (ConstructorLRU 100, noShared) = Some (vs, c, sh) \<and> lruStore c 6 = Some 6 \<and>
     lruDelete byLength 6 (c, sh) = None"
  by (simp add: sixKeys_def lru_eval)

end
