(* ===== verification/LegacyLFU.thy ===== *)
theory LegacyLFU
  imports LegacyLRU
begin

text \<open>
  The LFU cache that the store replaced, \<^verbatim>\<open>cmd/cache-custom/cacheLFU.go\<close> (build tag \<^verbatim>\<open>legacy\<close>): nodes linked into one list
  per frequency, with the least frequency kept in \<^verbatim>\<open>MinFreq\<close>. Memory, shared state, panics and \<^verbatim>\<open>entrySize\<close> are as in the LRU cache; the
  dereference of a nil bucket or node is a panic, the value \<open>None\<close>. Frequencies count accesses and are natural numbers.

  The operations implement a list of entries with their frequencies in the order of their last use, from which the first entry
  of least frequency is evicted.
\<close>

record LFUKV =
  fClientKey :: string
  fKey :: u64
  fFrequency :: nat
  fValue :: string
  fNext :: "u64 option"
  fPrev :: "u64 option"
  fTimestamp :: gotime

record LFUKVList =
  flHead :: "u64 option"
  flTail :: "u64 option"

record LFUCache =
  lfuMax :: u64
  lfuMem :: "u64 \<Rightarrow> LFUKV"
  lfuStore :: "u64 \<Rightarrow> u64 option"
  FrequencyStore :: "nat \<Rightarrow> LFUKVList option"
  lfuUsed :: u64
  MinFreq :: nat
  MaxFreq :: nat
  lfuEvictions :: u64

definition newLFUKV :: "u64 \<Rightarrow> LFUKV" where
  "newLFUKV key = \<lparr>fClientKey = [], fKey = key, fFrequency = 0, fValue = [], fNext = None, fPrev = None, fTimestamp = 0\<rparr>"

definition ConstructorLFU :: "u64 \<Rightarrow> LFUCache" where
  "ConstructorLFU capacity =
     \<lparr>lfuMax = capacity, lfuMem = newLFUKV, lfuStore = (\<lambda>_. None), FrequencyStore = (\<lambda>_. None), lfuUsed = 0, MinFreq = 0, MaxFreq = 1,
      lfuEvictions = 0\<rparr>"

definition findNextMinFreq :: "nat \<Rightarrow> nat \<Rightarrow> LFUCache \<Rightarrow> nat" where
  "findNextMinFreq currMinFreq maxFreq c =
     (case find (\<lambda>i. case FrequencyStore c i of Some v \<Rightarrow> flHead v \<noteq> None | None \<Rightarrow> False) [currMinFreq..<Suc maxFreq] of
        Some i \<Rightarrow> i | None \<Rightarrow> 1)"

definition setBucket :: "nat \<Rightarrow> (LFUKVList \<Rightarrow> LFUKVList) \<Rightarrow> LFUCache \<Rightarrow> LFUCache" where
  "setBucket freq g c = c\<lparr>FrequencyStore := (FrequencyStore c)(freq := map_option g (FrequencyStore c freq))\<rparr>"

definition dropEmptyBucket :: "nat \<Rightarrow> LFUCache \<Rightarrow> LFUCache" where
  "dropEmptyBucket freq c =
     (if FrequencyStore c freq = Some \<lparr>flHead = None, flTail = None\<rparr>
      then let c1 = c\<lparr>FrequencyStore := (FrequencyStore c)(freq := None)\<rparr>
           in if MinFreq c1 = freq then c1\<lparr>MinFreq := findNextMinFreq freq (MaxFreq c1) c1\<rparr> else c1
      else c)"

definition lfuRemoveNode :: "nat \<Rightarrow> u64 \<Rightarrow> LFUCache \<Rightarrow> LFUCache" where
  "lfuRemoveNode freq n c =
     (if FrequencyStore c freq = None then c
      else
        let node = lfuMem c n;
            c1 = (case fPrev node of
                    Some p \<Rightarrow> c\<lparr>lfuMem := (lfuMem c)(p := (lfuMem c p)\<lparr>fNext := fNext node\<rparr>)\<rparr>
                  | None \<Rightarrow> setBucket freq (\<lambda>b. b\<lparr>flHead := fNext node\<rparr>) c);
            node1 = lfuMem c1 n;
            c2 = (case fNext node1 of
                    Some q \<Rightarrow> c1\<lparr>lfuMem := (lfuMem c1)(q := (lfuMem c1 q)\<lparr>fPrev := fPrev node1\<rparr>)\<rparr>
                  | None \<Rightarrow> setBucket freq (\<lambda>b. b\<lparr>flTail := fPrev node1\<rparr>) c1)
        in dropEmptyBucket freq c2)"

definition lfuAddToTail :: "nat \<Rightarrow> u64 \<Rightarrow> LFUCache \<Rightarrow> LFUCache" where
  "lfuAddToTail freq n c =
     (case FrequencyStore c freq of
        None \<Rightarrow> c\<lparr>lfuMem := (lfuMem c)(n := (lfuMem c n)\<lparr>fNext := None, fPrev := None\<rparr>),
                  FrequencyStore := (FrequencyStore c)(freq \<mapsto> \<lparr>flHead = Some n, flTail = Some n\<rparr>)\<rparr>
      | Some b \<Rightarrow>
          let c1 = c\<lparr>lfuMem := (lfuMem c)(n := (lfuMem c n)\<lparr>fPrev := flTail b, fNext := None\<rparr>)\<rparr>;
              c2 = (case flTail b of
                      Some t \<Rightarrow> c1\<lparr>lfuMem := (lfuMem c1)(t := (lfuMem c1 t)\<lparr>fNext := Some n\<rparr>)\<rparr>
                    | None \<Rightarrow> setBucket freq (\<lambda>b. b\<lparr>flHead := Some n\<rparr>) c1)
          in setBucket freq (\<lambda>b. b\<lparr>flTail := Some n\<rparr>) c2)"

definition lfuShiftKV :: "nat \<Rightarrow> u64 \<Rightarrow> LFUCache \<Rightarrow> LFUCache" where
  "lfuShiftKV freq n c = lfuAddToTail (freq + 1) n (lfuRemoveNode freq n c)"

text \<open>Incrementing the frequency of a node, with the updates of the extreme frequencies that follow it in \<^verbatim>\<open>Get\<close> and \<^verbatim>\<open>Put\<close>.\<close>

definition lfuCount :: "u64 \<Rightarrow> LFUCache \<Rightarrow> LFUCache" where
  "lfuCount n c =
     (let f = fFrequency (lfuMem c n) + 1;
          c1 = c\<lparr>lfuMem := (lfuMem c)(n := (lfuMem c n)\<lparr>fFrequency := f\<rparr>)\<rparr>;
          c2 = (if MaxFreq c1 < f then c1\<lparr>MaxFreq := f\<rparr> else c1)
      in if f < MinFreq c2 then c2\<lparr>MinFreq := f\<rparr> else c2)"

definition lfuGet :: "u64 \<Rightarrow> LFUCache \<Rightarrow> string \<times> LFUCache" where
  "lfuGet key c =
     (case lfuStore c key of
        Some mru \<Rightarrow>
          let c1 = lfuShiftKV (fFrequency (lfuMem c mru)) mru c;
              c2 = lfuCount mru c1
          in (fValue (lfuMem c2 mru), c2)
      | None \<Rightarrow> (''key not found'', c))"

function lfuEvict :: "(string \<Rightarrow> string \<Rightarrow> u64) \<Rightarrow> u64 \<Rightarrow> LFUCache \<times> Shared \<Rightarrow> (LFUCache \<times> Shared) option" where
  "lfuEvict es need (c, sh) =
     (if lfuMax c < add64 (lfuUsed c) need
      then
        let c0 = (case FrequencyStore c (MinFreq c) of
                    Some b \<Rightarrow> if flHead b = None then c\<lparr>MinFreq := findNextMinFreq (MinFreq c) (MaxFreq c) c\<rparr> else c
                  | None \<Rightarrow> c)
        in (case FrequencyStore c0 (MinFreq c0) of
              None \<Rightarrow> None
            | Some b \<Rightarrow>
                (case flHead b of
                   None \<Rightarrow> None
                 | Some lfu \<Rightarrow>
                     let node = lfuMem c0 lfu;
                         sh1 = sh\<lparr>keyMap := (keyMap sh)(fClientKey node := None), freedKeys := freedKeys sh @ [fKey node]\<rparr>;
                         c1 = c0\<lparr>lfuStore := (lfuStore c0)(fKey node := None), lfuUsed := sub64 (lfuUsed c0) (es (fClientKey node) (fValue node))\<rparr>
                     in (case deleteKeyHeap (zeroTTL\<lparr>ttlKey := fKey node\<rparr>) (ttlHeap sh1) of
                           None \<Rightarrow> None
                         | Some h \<Rightarrow>
                             let c2 = lfuRemoveNode (fFrequency node) lfu c1
                             in lfuEvict es need (c2\<lparr>lfuEvictions := add64 (lfuEvictions c2) 1\<rparr>, sh1\<lparr>ttlHeap := h\<rparr>))))
      else Some (c, sh))"
  by pat_completeness auto
termination
  by (relation "measure (\<lambda>(es, need, c, sh). length (TTLs (ttlHeap sh)))") (auto dest: length_deleteKeyHeap)

declare lfuEvict.simps [simp del]

definition lfuPut :: "(string \<Rightarrow> string \<Rightarrow> u64) \<Rightarrow> gotime \<Rightarrow> u64 \<Rightarrow> string \<Rightarrow> string \<Rightarrow> LFUCache \<times> Shared \<Rightarrow> (string \<times> LFUCache \<times> Shared) option" where
  "lfuPut es now key value clientKey s =
     (let (c, sh) = s in
      if lfuMax c < es clientKey value then Some (''Not enough memory to insert key-value pair.'', c, sh)
      else case lfuStore c key of
        Some mru \<Rightarrow>
          let old = es [] (fValue (lfuMem c mru)); new = es [] value in
          if lfuMax c < add64 (sub64 (lfuUsed c) old) new
          then Some (''Not enough memory to update value. Consider deleting the key and reinserting.'', c, sh)
          else
            let c1 = c\<lparr>lfuUsed := add64 (sub64 (lfuUsed c) old) new\<rparr>;
                c2 = c1\<lparr>lfuMem := (lfuMem c1)(mru := (lfuMem c1 mru)\<lparr>fValue := value\<rparr>)\<rparr>;
                c3 = lfuCount mru (lfuShiftKV (fFrequency (lfuMem c2 mru)) mru c2);
                c4 = c3\<lparr>lfuMem := (lfuMem c3)(mru := (lfuMem c3 mru)\<lparr>fTimestamp := now\<rparr>)\<rparr>
            in (case increaseKeyHeap (zeroTTL\<lparr>ttlKey := key, ttlTimestamp := now\<rparr>) (ttlHeap sh) of
                  None \<Rightarrow> None
                | Some h \<Rightarrow> Some (''OK'', c4, sh\<lparr>ttlHeap := h\<rparr>))
      | None \<Rightarrow>
          (case lfuEvict es (es clientKey value) (c, sh) of
             None \<Rightarrow> None
           | Some (c1, sh1) \<Rightarrow>
               let c2 = c1\<lparr>lfuUsed := add64 (lfuUsed c1) (es clientKey value), MinFreq := 1\<rparr>;
                   h = insertHeap \<lparr>ttlClientKey = clientKey, ttlKey = key, ttlTimestamp = now\<rparr> (ttlHeap sh1);
                   node = (newLFUKV key)\<lparr>fFrequency := 1, fTimestamp := now, fValue := value, fClientKey := clientKey\<rparr>;
                   c3 = c2\<lparr>lfuMem := (lfuMem c2)(key := node), lfuStore := (lfuStore c2)(key \<mapsto> key)\<rparr>
               in Some (''OK'', lfuAddToTail (fFrequency node) key c3, sh1\<lparr>ttlHeap := h\<rparr>)))"

definition lfuDelete :: "(string \<Rightarrow> string \<Rightarrow> u64) \<Rightarrow> u64 \<Rightarrow> LFUCache \<times> Shared \<Rightarrow> (LFUCache \<times> Shared) option" where
  "lfuDelete es key s =
     (let (c, sh) = s in
      case lfuStore c key of
        None \<Rightarrow> Some (c, sh)
      | Some n \<Rightarrow>
          let node = lfuMem c n;
              c1 = lfuRemoveNode (fFrequency node) n (c\<lparr>lfuUsed := sub64 (lfuUsed c) (es (fClientKey node) (fValue node))\<rparr>)
          in (case deleteKeyHeap (zeroTTL\<lparr>ttlKey := key\<rparr>) (ttlHeap sh) of
                None \<Rightarrow> None
              | Some h \<Rightarrow> Some (c1\<lparr>lfuStore := (lfuStore c1)(key := None)\<rparr>, sh\<lparr>ttlHeap := h\<rparr>)))"

definition lfuStats :: "LFUCache \<Rightarrow> u64 \<times> u64 \<times> u64" where
  "lfuStats c = (lfuUsed c, lfuMax c, lfuEvictions c)"

fun lfuDo :: "(string \<Rightarrow> string \<Rightarrow> u64) \<Rightarrow> cacheOp \<Rightarrow> LFUCache \<times> Shared \<Rightarrow> (string \<times> LFUCache \<times> Shared) option" where
  "lfuDo es (DoGet key) (c, sh) = (let (v, c') = lfuGet key c in Some (v, c', sh))"
| "lfuDo es (DoPut now key val ck) s = lfuPut es now key val ck s"
| "lfuDo es (DoDelete key) s = map_option (\<lambda>s'. ([], s')) (lfuDelete es key s)"

lemmas lfu_eval = lfuPut_def lfuGet_def lfuDelete_def lfuCount_def lfuShiftKV_def lfuAddToTail_def lfuRemoveNode_def dropEmptyBucket_def setBucket_def
  findNextMinFreq_def lfuEvict.simps ConstructorLFU_def newLFUKV_def

section \<open>Buckets\<close>

text \<open>The abstract cache: entries with their frequencies, in the order of their last use.\<close>

type_synonym fkv = "nat \<times> kv"

abbreviation keyOf :: "fkv \<Rightarrow> u64" where
  "keyOf e \<equiv> fst (snd e)"

definition bucketOf :: "nat \<Rightarrow> fkv list \<Rightarrow> u64 list" where
  "bucketOf f l = map keyOf (filter (\<lambda>e. fst e = f) l)"

lemma bucketOf_simps [simp]: "bucketOf f [] = []" "bucketOf f (e # l) = (if fst e = f then keyOf e # bucketOf f l else bucketOf f l)"
  "bucketOf f (l @ l') = bucketOf f l @ bucketOf f l'"
  by (simp_all add: bucketOf_def)

lemma bucketOf_subset: "set (bucketOf f l) \<subseteq> keyOf ` set l"
  by (auto simp: bucketOf_def)

lemma bucketOf_Nil: "bucketOf f l = [] \<longleftrightarrow> f \<notin> fst ` set l"
  by (auto simp: bucketOf_def filter_empty_conv)

lemma bucketOf_disjoint: "distinct (map keyOf l) \<Longrightarrow> x \<in> set (bucketOf f l) \<Longrightarrow> x \<in> set (bucketOf g l) \<Longrightarrow> f = g"
  by (induction l) (use bucketOf_subset in \<open>fastforce split: if_splits\<close>)+

abbreviation fprevs :: "LFUCache \<Rightarrow> u64 \<Rightarrow> u64 option" where
  "fprevs c \<equiv> \<lambda>x. fPrev (lfuMem c x)"

abbreviation fnexts :: "LFUCache \<Rightarrow> u64 \<Rightarrow> u64 option" where
  "fnexts c \<equiv> \<lambda>x. fNext (lfuMem c x)"

definition spells :: "LFUCache \<Rightarrow> LFUKVList option \<Rightarrow> u64 list \<Rightarrow> bool" where
  "spells c bo xs \<longleftrightarrow> (case bo of None \<Rightarrow> xs = [] | Some b \<Rightarrow> xs \<noteq> [] \<and> chained (fprevs c) (fnexts c) (flHead b) (flTail b) xs)"

definition bucketed :: "LFUCache \<Rightarrow> fkv list \<Rightarrow> bool" where
  "bucketed c l \<longleftrightarrow> distinct (map keyOf l) \<and> (\<forall>f. spells c (FrequencyStore c f) (bucketOf f l))"

definition fentryOf :: "LFUCache \<Rightarrow> u64 \<Rightarrow> fkv" where
  "fentryOf c k = (fFrequency (lfuMem c k), fKey (lfuMem c k), fClientKey (lfuMem c k), fValue (lfuMem c k))"

lemma fentryOf_removeNode: "fentryOf (lfuRemoveNode f n c) = fentryOf c"
  by (auto simp: lfuRemoveNode_def dropEmptyBucket_def setBucket_def fentryOf_def Let_def fun_eq_iff split: option.splits)

lemma fentryOf_addToTail: "fentryOf (lfuAddToTail f n c) = fentryOf c"
  by (auto simp: lfuAddToTail_def setBucket_def fentryOf_def Let_def fun_eq_iff split: option.splits)

lemma bucket_frame [simp]:
  "lfuMax (lfuRemoveNode f n c) = lfuMax c" "lfuStore (lfuRemoveNode f n c) = lfuStore c" "lfuUsed (lfuRemoveNode f n c) = lfuUsed c"
  "MaxFreq (lfuRemoveNode f n c) = MaxFreq c" "lfuEvictions (lfuRemoveNode f n c) = lfuEvictions c"
  "lfuMax (lfuAddToTail f n c) = lfuMax c" "lfuStore (lfuAddToTail f n c) = lfuStore c" "lfuUsed (lfuAddToTail f n c) = lfuUsed c"
  "MaxFreq (lfuAddToTail f n c) = MaxFreq c" "MinFreq (lfuAddToTail f n c) = MinFreq c" "lfuEvictions (lfuAddToTail f n c) = lfuEvictions c"
  by (auto simp: lfuRemoveNode_def dropEmptyBucket_def lfuAddToTail_def setBucket_def Let_def split: option.splits)

lemma spells_cong:
  "(\<And>x. x \<in> set xs \<Longrightarrow> fprevs c x = fprevs c' x \<and> fnexts c x = fnexts c' x) \<Longrightarrow> spells c bo xs = spells c' bo xs"
  unfolding spells_def by (cases bo) (simp_all add: chained_cong [of xs "fprevs c" "fprevs c'" "fnexts c" "fnexts c'"])

text \<open>What unlinking does to the pointers, and to the bucket.\<close>

lemma lfuRemoveNode_links:
  assumes "FrequencyStore c f = Some b" "fprevs c x \<noteq> Some x"
  defines "b' \<equiv> \<lparr>flHead = (case fprevs c x of Some _ \<Rightarrow> flHead b | None \<Rightarrow> fnexts c x),
      flTail = (case fnexts c x of Some _ \<Rightarrow> flTail b | None \<Rightarrow> fprevs c x)\<rparr>"
  shows "fprevs (lfuRemoveNode f x c) = (case fnexts c x of Some q \<Rightarrow> (fprevs c)(q := fprevs c x) | None \<Rightarrow> fprevs c)"
    "fnexts (lfuRemoveNode f x c) = (case fprevs c x of Some q \<Rightarrow> (fnexts c)(q := fnexts c x) | None \<Rightarrow> fnexts c)"
    "FrequencyStore (lfuRemoveNode f x c) = (FrequencyStore c)(f := if b' = \<lparr>flHead = None, flTail = None\<rparr> then None else Some b')"
  using assms(1,2) unfolding b'_def
  by (cases b, auto simp: lfuRemoveNode_def dropEmptyBucket_def setBucket_def Let_def fun_eq_iff split: option.splits)+

lemma lfuAddToTail_links:
  assumes "\<forall>b. FrequencyStore c f = Some b \<longrightarrow> flTail b \<noteq> Some x"
  shows "fprevs (lfuAddToTail f x c) = (fprevs c)(x := (case FrequencyStore c f of Some b \<Rightarrow> flTail b | None \<Rightarrow> None))"
    "fnexts (lfuAddToTail f x c) = (case FrequencyStore c f of
        Some b \<Rightarrow> (case flTail b of Some y \<Rightarrow> (fnexts c)(y := Some x) | None \<Rightarrow> fnexts c)(x := None)
      | None \<Rightarrow> (fnexts c)(x := None))"
    "FrequencyStore (lfuAddToTail f x c) = (FrequencyStore c)(f \<mapsto> (case FrequencyStore c f of
        Some b \<Rightarrow> \<lparr>flHead = (case flTail b of Some _ \<Rightarrow> flHead b | None \<Rightarrow> Some x), flTail = Some x\<rparr>
      | None \<Rightarrow> \<lparr>flHead = Some x, flTail = Some x\<rparr>))"
  using assms by (auto simp: lfuAddToTail_def setBucket_def Let_def fun_eq_iff split: option.splits)

lemma last_or_in: "last_or xs None = Some y \<Longrightarrow> y \<in> set xs"
  by (auto simp: last_or_def split: if_splits)

lemma hd_or_in: "hd_or xs None = Some y \<Longrightarrow> y \<in> set xs"
  by (cases xs) auto

lemma bucket_split:
  assumes "distinct (map keyOf (a @ e # b))"
  shows "keyOf e \<notin> set (bucketOf f (a @ b))" "fst e \<noteq> f \<Longrightarrow> bucketOf f (a @ e # b) = bucketOf f (a @ b)"
proof -
  have "keyOf e \<notin> keyOf ` set (a @ b)" using assms by auto
  then show "keyOf e \<notin> set (bucketOf f (a @ b))" using bucketOf_subset by blast
qed simp

lemma bucketed_remove:
  assumes "bucketed c (a @ e # b)"
  shows "bucketed (lfuRemoveNode (fst e) (keyOf e) c) (a @ b)"
proof -
  let ?f = "fst e" and ?x = "keyOf e" and ?l = "a @ e # b"
  let ?c = "lfuRemoveNode ?f ?x c"
  have d: "distinct (map keyOf ?l)" and S: "\<And>f. spells c (FrequencyStore c f) (bucketOf f ?l)" using assms by (simp_all add: bucketed_def)
  define xs ys where "xs = bucketOf ?f a" and "ys = bucketOf ?f b"
  have B: "bucketOf ?f ?l = xs @ ?x # ys" "bucketOf ?f (a @ b) = xs @ ys" by (simp_all add: xs_def ys_def)
  obtain bk where F: "FrequencyStore c ?f = Some bk" and ch: "chained (fprevs c) (fnexts c) (flHead bk) (flTail bk) (xs @ ?x # ys)"
    using S [of ?f] unfolding B spells_def by (auto split: option.splits)
  have lk: "fprevs c ?x = last_or xs None" "fnexts c ?x = hd_or ys None" using chained_links [OF ch] by simp_all
  have nx: "?x \<notin> set xs" "?x \<notin> set ys" using ch by (simp_all add: chained_def)
  then have ne: "fprevs c ?x \<noteq> Some ?x" using lk last_or_in by metis
  note L = lfuRemoveNode_links [OF F ne] and P = fun_cong [OF lfuRemoveNode_links(1) [OF F ne]] fun_cong [OF lfuRemoveNode_links(2) [OF F ne]]
  have "spells ?c (FrequencyStore ?c ?f) (xs @ ys)"
  proof (cases "xs @ ys = []")
    case True
    then show ?thesis using lk by (simp add: spells_def L)
  next
    case False
    then have "fprevs c ?x \<noteq> None \<or> fnexts c ?x \<noteq> None" using lk by auto
    then show ?thesis using chained_remove [OF ch] False lk ch by (auto simp: spells_def L chained_def split: option.splits)
  qed
  moreover have "spells ?c (FrequencyStore ?c g) (bucketOf g (a @ b))" if "g \<noteq> ?f" for g
  proof -
    have "fprevs ?c y = fprevs c y \<and> fnexts ?c y = fnexts c y" if y: "y \<in> set (bucketOf g ?l)" for y
    proof -
      have "y \<notin> set (bucketOf ?f ?l)" using bucketOf_disjoint [OF d y] \<open>g \<noteq> ?f\<close> by blast
      then have "fprevs c ?x \<noteq> Some y" "fnexts c ?x \<noteq> Some y" unfolding B lk using last_or_in hd_or_in by fastforce+
      then show ?thesis unfolding P by (auto split: option.splits)
    qed
    then have "spells ?c (FrequencyStore c g) (bucketOf g ?l)" using S [of g] spells_cong [of "bucketOf g ?l" ?c c] by blast
    then show ?thesis using that bucket_split(2) [OF d, of g] by (simp add: L(3) del: bucketOf_simps)
  qed
  ultimately have "spells ?c (FrequencyStore ?c g) (bucketOf g (a @ b))" for g using B(2) by (cases "g = ?f") simp_all
  then show ?thesis using d by (simp add: bucketed_def del: bucketOf_simps)
qed

lemma bucketed_append:
  assumes "bucketed c l" "keyOf e \<notin> keyOf ` set l"
  shows "bucketed (lfuAddToTail (fst e) (keyOf e) c) (l @ [e])"
proof -
  let ?f = "fst e" and ?x = "keyOf e"
  let ?c = "lfuAddToTail ?f ?x c"
  have d: "distinct (map keyOf (l @ [e]))" and S: "\<And>f. spells c (FrequencyStore c f) (bucketOf f l)" using assms by (auto simp: bucketed_def)
  have nx: "?x \<notin> set (bucketOf f l)" for f using assms(2) bucketOf_subset by blast
  have T: "flTail b = last_or (bucketOf ?f l) None" if "FrequencyStore c ?f = Some b" for b
    using S [of ?f] that by (simp add: spells_def chained_def)
  have ne: "\<forall>b. FrequencyStore c ?f = Some b \<longrightarrow> flTail b \<noteq> Some ?x" using T nx last_or_in by metis
  note L = lfuAddToTail_links [OF ne] and P = fun_cong [OF lfuAddToTail_links(1) [OF ne]] fun_cong [OF lfuAddToTail_links(2) [OF ne]]
  have "spells ?c (FrequencyStore ?c ?f) (bucketOf ?f l @ [?x])"
  proof (cases "FrequencyStore c ?f")
    case None
    then have "bucketOf ?f l = []" using S [of ?f] by (simp add: spells_def)
    then show ?thesis using None by (simp add: L spells_def chained_def P last_or_def)
  next
    case (Some b)
    then have "chained (fprevs c) (fnexts c) (flHead b) (flTail b) (bucketOf ?f l)" using S [of ?f] by (simp add: spells_def)
    from chained_append [OF this nx] show ?thesis by (simp add: L spells_def Some)
  qed
  moreover have "spells ?c (FrequencyStore ?c g) (bucketOf g l)" if "g \<noteq> ?f" for g
  proof -
    have "fprevs ?c y = fprevs c y \<and> fnexts ?c y = fnexts c y" if y: "y \<in> set (bucketOf g l)" for y
    proof -
      have "y \<notin> set (bucketOf ?f l)" using bucketOf_disjoint [OF _ y] d \<open>g \<noteq> ?f\<close> by auto
      then have "flTail b \<noteq> Some y" if "FrequencyStore c ?f = Some b" for b using T [OF that] last_or_in by metis
      then show ?thesis unfolding P using y nx [of g] by (auto split: option.splits)
    qed
    then show ?thesis using S [of g] spells_cong [of "bucketOf g l" ?c c] that by (simp add: L(3))
  qed
  ultimately have "spells ?c (FrequencyStore ?c g) (bucketOf g (l @ [e]))" for g by (cases "g = ?f") auto
  then show ?thesis using d by (simp add: bucketed_def del: bucketOf_simps)
qed

lemma bucketed_cong:
  assumes "bucketed c l" "FrequencyStore c' = FrequencyStore c"
    and "\<And>x. x \<in> keyOf ` set l \<Longrightarrow> fprevs c' x = fprevs c x \<and> fnexts c' x = fnexts c x"
  shows "bucketed c' l"
proof -
  have "spells c' (FrequencyStore c f) (bucketOf f l)" for f
    using assms(1) spells_cong [of "bucketOf f l" c' c] assms(3) bucketOf_subset [of f l] unfolding bucketed_def by blast
  then show ?thesis using assms(1,2) by (simp add: bucketed_def)
qed

section \<open>The least frequency\<close>

definition leastIn :: "fkv list \<Rightarrow> nat \<Rightarrow> bool" where
  "leastIn l m \<longleftrightarrow> m \<in> fst ` set l \<and> (\<forall>e \<in> set l. m \<le> fst e)"

lemma bucket_there: "bucketed c l \<Longrightarrow> (\<exists>b. FrequencyStore c f = Some b \<and> flHead b \<noteq> None) \<longleftrightarrow> f \<in> fst ` set l"
proof -
  assume "bucketed c l"
  then have "spells c (FrequencyStore c f) (bucketOf f l)" unfolding bucketed_def by blast
  then have "(\<exists>b. FrequencyStore c f = Some b \<and> flHead b \<noteq> None) \<longleftrightarrow> bucketOf f l \<noteq> []"
    by (cases "FrequencyStore c f"; cases "bucketOf f l") (auto simp: spells_def chained_def)
  then show ?thesis using bucketOf_Nil [of f l] by simp
qed

lemma findNextMinFreq_least:
  assumes "bucketed c l" "l \<noteq> []" "\<forall>e \<in> set l. m \<le> fst e \<and> fst e \<le> mx"
  shows "leastIn l (findNextMinFreq m mx c)"
proof -
  let ?P = "\<lambda>i. case FrequencyStore c i of Some v \<Rightarrow> flHead v \<noteq> None | None \<Rightarrow> False"
  have P: "?P i \<longleftrightarrow> i \<in> fst ` set l" for i
    unfolding bucket_there [OF assms(1), of i, symmetric] by (simp split: option.splits)
  obtain e where e: "e \<in> set l" using assms(2) by (cases l) auto
  then have "fst e \<in> set [m..<Suc mx]" "?P (fst e)" using assms(3) P by (auto simp: less_Suc_eq_le)
  then obtain i where i: "find ?P [m..<Suc mx] = Some i" using find_exists [of "fst e" "[m..<Suc mx]" ?P] by blast
  have "i \<in> fst ` set l" using i P find_Some_D by metis
  moreover have "i \<le> fst x" if x: "x \<in> set l" for x
  proof (rule find_sorted_min [where f = "\<lambda>i. i", OF _ i])
    show "fst x \<in> set [m..<Suc mx]" using assms(3) x by auto
    show "sorted (map (\<lambda>i. i) [m..<Suc mx])" by (simp only: list.map_ident sorted_upt)
  qed (use P x in auto)
  ultimately show ?thesis using i by (simp add: leastIn_def findNextMinFreq_def)
qed

lemma MinFreq_remove:
  assumes "bucketed c (a @ e # b)"
  shows "MinFreq (lfuRemoveNode (fst e) (keyOf e) c) =
    (if fst e \<notin> fst ` set (a @ b) \<and> MinFreq c = fst e then findNextMinFreq (fst e) (MaxFreq c) (lfuRemoveNode (fst e) (keyOf e) c) else MinFreq c)"
proof -
  let ?f = "fst e" and ?n = "keyOf e"
  let ?c = "lfuRemoveNode ?f ?n c"
  have b: "bucketed ?c (a @ b)" by (rule bucketed_remove [OF assms])
  have F: "FrequencyStore c ?f \<noteq> None" using bucket_there [OF assms, of ?f] by auto
  obtain c2 where c2: "?c = dropEmptyBucket ?f c2" "MinFreq c2 = MinFreq c" "MaxFreq c2 = MaxFreq c" "FrequencyStore c2 ?f \<noteq> None"
    using F by (auto simp: lfuRemoveNode_def setBucket_def Let_def split: option.splits)
  show ?thesis
  proof (cases "FrequencyStore c2 ?f = Some \<lparr>flHead = None, flTail = None\<rparr>")
    case True
    then have "FrequencyStore ?c ?f = None" by (simp add: c2(1) dropEmptyBucket_def Let_def)
    then have "?f \<notin> fst ` set (a @ b)" using bucket_there [OF b, of ?f] by auto
    moreover have "findNextMinFreq ?f mx (c2\<lparr>FrequencyStore := st, MinFreq := m\<rparr>) = findNextMinFreq ?f mx (c2\<lparr>FrequencyStore := st\<rparr>)" for mx st m
      by (simp add: findNextMinFreq_def)
    ultimately show ?thesis using True c2 by (simp add: dropEmptyBucket_def Let_def)
  next
    case False
    then have "?c = c2" by (simp add: c2(1) dropEmptyBucket_def)
    then have "FrequencyStore ?c ?f \<noteq> None" using c2(4) by simp
    moreover have "spells ?c (FrequencyStore ?c ?f) (bucketOf ?f (a @ b))" using b unfolding bucketed_def by blast
    ultimately have "?f \<in> fst ` set (a @ b)" using bucketOf_Nil [of ?f "a @ b"] by (auto simp: spells_def)
    then show ?thesis using \<open>?c = c2\<close> c2(2) by simp
  qed
qed

lemma leastIn_remove:
  assumes "bucketed c (a @ e # b)" "leastIn (a @ e # b) (MinFreq c)" "\<forall>x \<in> set (a @ e # b). fst x \<le> MaxFreq c" "a @ b \<noteq> []"
  shows "leastIn (a @ b) (MinFreq (lfuRemoveNode (fst e) (keyOf e) c))"
proof (cases "fst e \<notin> fst ` set (a @ b) \<and> MinFreq c = fst e")
  case True
  then have "\<forall>x \<in> set (a @ b). fst e \<le> fst x \<and> fst x \<le> MaxFreq c" using assms(2,3) by (auto simp: leastIn_def)
  then have "leastIn (a @ b) (findNextMinFreq (fst e) (MaxFreq c) (lfuRemoveNode (fst e) (keyOf e) c))"
    using findNextMinFreq_least [OF bucketed_remove [OF assms(1)] assms(4)] by blast
  then show ?thesis unfolding MinFreq_remove [OF assms(1)] using True by simp
next
  case False
  then have "MinFreq c \<in> fst ` set (a @ b)" using assms(2) unfolding leastIn_def by (cases "MinFreq c = fst e") (auto simp: image_Un)
  then show ?thesis unfolding MinFreq_remove [OF assms(1)] using False assms(2) by (auto simp: leastIn_def)
qed

section \<open>The list the cache implements\<close>

definition fsizes :: "(string \<Rightarrow> string \<Rightarrow> u64) \<Rightarrow> fkv list \<Rightarrow> nat" where
  "fsizes es l = sizes es (map snd l)"

lemma fsizes_simps [simp]: "fsizes es [] = 0" "fsizes es (e # l) = es (fst (snd (snd e))) (snd (snd (snd e))) + fsizes es l"
  "fsizes es (l @ l') = fsizes es l + fsizes es l'"
  by (simp_all add: fsizes_def)

definition fwithout :: "u64 \<Rightarrow> fkv list \<Rightarrow> fkv list" where
  "fwithout key l = filter (\<lambda>e. keyOf e \<noteq> key) l"

text \<open>The victim is the entry of least frequency that was used longest ago.\<close>

definition victim :: "fkv list \<Rightarrow> fkv" where
  "victim l = hd (filter (\<lambda>e. fst e = Min (fst ` set l)) l)"

lemma victim_in: "l \<noteq> [] \<Longrightarrow> victim l \<in> set l"
proof -
  assume l: "l \<noteq> []"
  then have "Min (fst ` set l) \<in> fst ` set l" by (intro Min_in) auto
  then have "filter (\<lambda>e. fst e = Min (fst ` set l)) l \<noteq> []" by (metis (mono_tags, lifting) filter_empty_conv imageE)
  then have "victim l \<in> set (filter (\<lambda>e. fst e = Min (fst ` set l)) l)" unfolding victim_def by (rule hd_in_set)
  then show ?thesis by simp
qed

function roomLFU :: "(string \<Rightarrow> string \<Rightarrow> u64) \<Rightarrow> nat \<Rightarrow> nat \<Rightarrow> fkv list \<Rightarrow> fkv list" where
  "roomLFU es mx need l = (if l \<noteq> [] \<and> mx < fsizes es l + need then roomLFU es mx need (remove1 (victim l) l) else l)"
  by pat_completeness auto
termination
  by (relation "measure (\<lambda>(es, mx, need, l). length l)") (auto simp: length_remove1 victim_in)

declare roomLFU.simps [simp del]

lemma roomLFU_Nil [simp]: "roomLFU es mx need [] = []"
  by (simp add: roomLFU.simps)

lemma roomLFU_subset: "set (roomLFU es mx need l) \<subseteq> set l"
proof (induction es mx need l rule: roomLFU.induct)
  case (1 es mx need l)
  then show ?case using set_remove1_subset [of "victim l" l] by (subst roomLFU.simps) auto
qed

definition fspecGet :: "u64 \<Rightarrow> fkv list \<Rightarrow> string \<times> fkv list" where
  "fspecGet key l = (case find (\<lambda>e. keyOf e = key) l of
     Some (f, k, ck, v) \<Rightarrow> (v, fwithout key l @ [(f + 1, key, ck, v)]) | None \<Rightarrow> (''key not found'', l))"

definition fspecPut :: "(string \<Rightarrow> string \<Rightarrow> u64) \<Rightarrow> nat \<Rightarrow> u64 \<Rightarrow> string \<Rightarrow> string \<Rightarrow> fkv list \<Rightarrow> string \<times> fkv list" where
  "fspecPut es mx key value clientKey l =
     (if mx < es clientKey value then (''Not enough memory to insert key-value pair.'', l)
      else case find (\<lambda>e. keyOf e = key) l of
        Some (f, k, ck, v) \<Rightarrow>
          if mx < fsizes es (fwithout key l @ [(f + 1, key, ck, value)])
          then (''Not enough memory to update value. Consider deleting the key and reinserting.'', l)
          else (''OK'', fwithout key l @ [(f + 1, key, ck, value)])
      | None \<Rightarrow> (''OK'', roomLFU es mx (es clientKey value) l @ [(1, key, clientKey, value)]))"

definition holdsLFU :: "(string \<Rightarrow> string \<Rightarrow> u64) \<Rightarrow> fkv list \<Rightarrow> LFUCache \<Rightarrow> bool" where
  "holdsLFU es l c \<longleftrightarrow> bucketed c l \<and> lfuStore c = (\<lambda>k. if k \<in> keyOf ` set l then Some k else None) \<and>
     (\<forall>e \<in> set l. fentryOf c (keyOf e) = e \<and> 1 \<le> fst e \<and> fst e \<le> MaxFreq c) \<and> 1 \<le> MaxFreq c \<and>
     lfuUsed c = fsizes es l \<and> lfuUsed c \<le> lfuMax c \<and> (2 \<le> length l \<longrightarrow> leastIn l (MinFreq c))"

lemma spells_updates:
  "spells (c\<lparr>lfuUsed := u\<rparr>) = spells c" "spells (c\<lparr>lfuStore := st\<rparr>) = spells c" "spells (c\<lparr>lfuEvictions := n\<rparr>) = spells c"
  "spells (c\<lparr>MinFreq := m\<rparr>) = spells c" "spells (c\<lparr>MaxFreq := m\<rparr>) = spells c"
  by (simp_all add: spells_def fun_eq_iff split: option.splits)

lemma bucketed_updates [simp]:
  "bucketed (c\<lparr>lfuUsed := u\<rparr>) = bucketed c" "bucketed (c\<lparr>lfuStore := st\<rparr>) = bucketed c" "bucketed (c\<lparr>lfuEvictions := n\<rparr>) = bucketed c"
  "bucketed (c\<lparr>MinFreq := m\<rparr>) = bucketed c" "bucketed (c\<lparr>MaxFreq := m\<rparr>) = bucketed c"
  "fentryOf (c\<lparr>lfuUsed := u\<rparr>) = fentryOf c" "fentryOf (c\<lparr>lfuStore := st\<rparr>) = fentryOf c" "fentryOf (c\<lparr>lfuEvictions := n\<rparr>) = fentryOf c"
  "fentryOf (c\<lparr>MinFreq := m\<rparr>) = fentryOf c" "fentryOf (c\<lparr>MaxFreq := m\<rparr>) = fentryOf c"
  by (simp_all add: bucketed_def spells_updates fentryOf_def fun_eq_iff)

lemma dropEmptyBucket_updates:
  "dropEmptyBucket f (c\<lparr>lfuUsed := u\<rparr>) = (dropEmptyBucket f c)\<lparr>lfuUsed := u\<rparr>"
  "dropEmptyBucket f (c\<lparr>lfuStore := st\<rparr>) = (dropEmptyBucket f c)\<lparr>lfuStore := st\<rparr>"
  by (simp_all add: dropEmptyBucket_def Let_def findNextMinFreq_def)

lemma setBucket_updates:
  "setBucket f g (c\<lparr>lfuUsed := u\<rparr>) = (setBucket f g c)\<lparr>lfuUsed := u\<rparr>"
  "setBucket f g (c\<lparr>lfuStore := st\<rparr>) = (setBucket f g c)\<lparr>lfuStore := st\<rparr>"
  by (simp_all add: setBucket_def)

text \<open>Unlinking up to the removal of an empty bucket.\<close>

lemma lfu_updates [simp]:
  "lfuRemoveNode f n (c\<lparr>lfuUsed := u\<rparr>) = (lfuRemoveNode f n c)\<lparr>lfuUsed := u\<rparr>"
  "lfuRemoveNode f n (c\<lparr>lfuStore := st\<rparr>) = (lfuRemoveNode f n c)\<lparr>lfuStore := st\<rparr>"
proof -
  have m: "c\<lparr>lfuUsed := u, lfuMem := mm\<rparr> = c\<lparr>lfuMem := mm, lfuUsed := u\<rparr>" "c\<lparr>lfuStore := st, lfuMem := mm\<rparr> = c\<lparr>lfuMem := mm, lfuStore := st\<rparr>"
    for c :: LFUCache and mm by simp_all
  show "lfuRemoveNode f n (c\<lparr>lfuUsed := u\<rparr>) = (lfuRemoveNode f n c)\<lparr>lfuUsed := u\<rparr>"
    by (cases "fPrev (lfuMem c n)") (simp_all add: lfuRemoveNode_def Let_def setBucket_updates dropEmptyBucket_updates m split: option.splits)
  show "lfuRemoveNode f n (c\<lparr>lfuStore := st\<rparr>) = (lfuRemoveNode f n c)\<lparr>lfuStore := st\<rparr>"
    by (cases "fPrev (lfuMem c n)") (simp_all add: lfuRemoveNode_def Let_def setBucket_updates dropEmptyBucket_updates m split: option.splits)
qed

lemma holdsLFU_unlink:
  assumes "holdsLFU es (a @ (f, k, ck, v) # b) c"
  defines "c' \<equiv> (lfuRemoveNode f k c)\<lparr>lfuStore := (lfuStore c)(k := None), lfuUsed := sub64 (lfuUsed c) (es ck v)\<rparr>"
  shows "holdsLFU es (a @ b) c'" "leastIn (a @ (f, k, ck, v) # b) (MinFreq c) \<Longrightarrow> a @ b \<noteq> [] \<Longrightarrow> leastIn (a @ b) (MinFreq c')"
proof -
  let ?l = "a @ (f, k, ck, v) # b"
  have B: "bucketed c ?l" and U: "lfuUsed c = fsizes es ?l" and M: "\<forall>x \<in> set ?l. fst x \<le> MaxFreq c"
    using assms(1) by (simp_all add: holdsLFU_def)
  have d: "distinct (map keyOf ?l)" using B by (simp add: bucketed_def)
  show least: "leastIn ?l (MinFreq c) \<Longrightarrow> a @ b \<noteq> [] \<Longrightarrow> leastIn (a @ b) (MinFreq c')"
    using leastIn_remove [OF B _ M] by (simp add: c'_def)
  have "lfuStore c' = (\<lambda>x. if x \<in> keyOf ` set (a @ b) then Some x else None)"
    using assms(1) d by (auto simp: c'_def holdsLFU_def fun_eq_iff)
  moreover have "bucketed c' (a @ b)" using bucketed_remove [OF B] by (simp add: c'_def)
  moreover have "2 \<le> length (a @ b) \<longrightarrow> leastIn (a @ b) (MinFreq c')" proof
    assume n: "2 \<le> length (a @ b)"
    then have "leastIn ?l (MinFreq c)" using assms(1) by (simp add: holdsLFU_def)
    moreover have "a @ b \<noteq> []" using n by auto
    ultimately show "leastIn (a @ b) (MinFreq c')" by (rule least)
  qed
  moreover have "lfuUsed c' = fsizes es (a @ b)" using U by (simp add: c'_def)
  ultimately show "holdsLFU es (a @ b) c'" using assms(1) U unfolding holdsLFU_def by (auto simp: c'_def fentryOf_removeNode)
qed

lemma lfuCount_fields:
  assumes "c' = lfuCount n c" "f = fFrequency (lfuMem c n) + 1"
  shows "fprevs c' = fprevs c" "fnexts c' = fnexts c" "FrequencyStore c' = FrequencyStore c" "lfuStore c' = lfuStore c" "lfuUsed c' = lfuUsed c"
    "lfuMax c' = lfuMax c" "MaxFreq c' = max f (MaxFreq c)" "MinFreq c' = min f (MinFreq c)"
    "fentryOf c' = (fentryOf c)(n := (f, snd (fentryOf c n)))"
  using assms by (auto simp: lfuCount_def Let_def fentryOf_def fun_eq_iff)

lemma lfuShiftKV_frame [simp]:
  "lfuMax (lfuShiftKV f n c) = lfuMax c" "lfuStore (lfuShiftKV f n c) = lfuStore c" "lfuUsed (lfuShiftKV f n c) = lfuUsed c"
  "MaxFreq (lfuShiftKV f n c) = MaxFreq c" "MinFreq (lfuShiftKV f n c) = MinFreq (lfuRemoveNode f n c)"
  by (simp_all add: lfuShiftKV_def)

lemma leastIn_add: "leastIn l m \<Longrightarrow> leastIn (l @ [e]) (min (fst e) m)"
proof -
  assume l: "leastIn l m"
  then have "\<forall>x \<in> set l. min (fst e) m \<le> fst x" by (auto simp: leastIn_def min.coboundedI2)
  moreover have "min (fst e) m \<in> insert (fst e) (fst ` set l)" using l by (simp add: leastIn_def min_def)
  ultimately show ?thesis by (simp add: leastIn_def)
qed

lemma holdsLFU_access:
  assumes "holdsLFU es (a @ (f, k, ck, v) # b) c"
  shows "holdsLFU es (a @ b @ [(f + 1, k, ck, v)]) (lfuCount k (lfuShiftKV f k c))"
proof -
  let ?e = "(f, k, ck, v)" and ?e' = "(f + 1, k, ck, v)"
  let ?l = "a @ ?e # b" and ?l' = "a @ b @ [?e']" and ?c1 = "lfuRemoveNode f k c" and ?c2 = "lfuShiftKV f k c"
  let ?c = "lfuCount k ?c2"
  have B: "bucketed c ?l" and E: "\<forall>x \<in> set ?l. fentryOf c (keyOf x) = x \<and> 1 \<le> fst x \<and> fst x \<le> MaxFreq c"
    and S: "lfuStore c = (\<lambda>x. if x \<in> keyOf ` set ?l then Some x else None)"
    using assms by (auto simp: holdsLFU_def)
  have d: "distinct (map keyOf ?l)" using B by (simp add: bucketed_def)
  have e2: "fentryOf ?c2 = fentryOf c" by (simp add: lfuShiftKV_def fentryOf_addToTail fentryOf_removeNode)
  have ek: "fentryOf c k = ?e" using E by force
  then have fr: "fFrequency (lfuMem ?c2 k) + 1 = f + 1" using fun_cong [OF e2, of k] by (simp add: fentryOf_def)
  note C = lfuCount_fields [OF refl fr [symmetric]]
  have b1: "bucketed ?c1 (a @ b)" using bucketed_remove [OF B] by simp
  have nk: "keyOf ?e' \<notin> keyOf ` set (a @ b)" using d by auto
  have b2: "bucketed ?c2 ?l'" using bucketed_append [OF b1 nk] by (simp add: lfuShiftKV_def)
  have "bucketed ?c ?l'" by (rule bucketed_cong [OF b2 C(3)]) (simp add: fun_cong [OF C(1)] fun_cong [OF C(2)])
  moreover have "fentryOf ?c (keyOf x) = x \<and> 1 \<le> fst x \<and> fst x \<le> MaxFreq ?c" if "x \<in> set ?l'" for x
  proof (cases "x = ?e'")
    case True
    then show ?thesis using ek by (simp add: C e2)
  next
    case False
    then have x: "x \<in> set (a @ b)" using that by auto
    then have "keyOf x \<noteq> k" using nk by auto
    then show ?thesis using E x by (auto simp: C e2 le_max_iff_disj)
  qed
  moreover have "leastIn ?l' (MinFreq ?c)" if "2 \<le> length ?l'"
  proof -
    have ne: "a @ b \<noteq> []" and L: "leastIn ?l (MinFreq c)" using that assms by (auto simp: holdsLFU_def)
    have M: "\<forall>x \<in> set ?l. fst x \<le> MaxFreq c" using E by blast
    have l1: "leastIn (a @ b) (MinFreq ?c1)" using leastIn_remove [OF B L M ne] by simp
    have "MinFreq ?c = min (f + 1) (MinFreq ?c1)" by (simp add: C)
    then show ?thesis using leastIn_add [OF l1, of ?e'] by simp
  qed
  moreover have "lfuUsed ?c = fsizes es ?l'" "lfuUsed ?c \<le> lfuMax ?c" using assms by (simp_all add: holdsLFU_def C)
  moreover have "lfuStore ?c = (\<lambda>x. if x \<in> keyOf ` set ?l' then Some x else None)" using S by (auto simp: C fun_eq_iff)
  ultimately show ?thesis using assms by (simp add: holdsLFU_def C)
qed

lemma holdsLFU_payload:
  assumes "holdsLFU es (a @ (f, k, ck, v) # b) c" "used = fsizes es (a @ (f, k, ck, w) # b)" "used \<le> lfuMax c"
  shows "holdsLFU es (a @ (f, k, ck, w) # b) (c\<lparr>lfuUsed := used, lfuMem := (lfuMem c)(k := (lfuMem c k)\<lparr>fValue := w\<rparr>)\<rparr>)"
proof -
  let ?old = "a @ (f, k, ck, v) # b" and ?l = "a @ (f, k, ck, w) # b"
  let ?c = "c\<lparr>lfuUsed := used, lfuMem := (lfuMem c)(k := (lfuMem c k)\<lparr>fValue := w\<rparr>)\<rparr>"
  have B: "bucketed c ?old" and E: "\<forall>x \<in> set ?old. fentryOf c (keyOf x) = x \<and> 1 \<le> fst x \<and> fst x \<le> MaxFreq c"
    and L: "2 \<le> length ?old \<longrightarrow> leastIn ?old (MinFreq c)" using assms(1) unfolding holdsLFU_def by blast+
  have d: "distinct (map keyOf ?old)" using B by (simp add: bucketed_def)
  have "bucketed ?c ?old" by (rule bucketed_cong [OF B]) auto
  moreover have "bucketOf g ?l = bucketOf g ?old" for g by simp
  ultimately have "bucketed ?c ?l" using d by (simp add: bucketed_def del: bucketOf_simps)
  moreover have "fentryOf ?c (keyOf x) = x \<and> 1 \<le> fst x \<and> fst x \<le> MaxFreq ?c" if "x \<in> set ?l" for x
  proof (cases "keyOf x = k")
    case True
    then have "x \<notin> set a" "x \<notin> set b" using d by auto
    then have "x = (f, k, ck, w)" using that by simp
    moreover have "fentryOf c k = (f, k, ck, v)" "1 \<le> f" "f \<le> MaxFreq c" using E by force+
    ultimately show ?thesis by (simp add: fentryOf_def)
  next
    case False
    then have "x \<in> set ?old" using that by auto
    then show ?thesis using E False by (auto simp: fentryOf_def)
  qed
  moreover have "2 \<le> length ?l \<longrightarrow> leastIn ?l (MinFreq ?c)" using L by (simp add: leastIn_def)
  ultimately show ?thesis using assms by (auto simp: holdsLFU_def)
qed

lemma holdsLFU_timestamp:
  assumes "holdsLFU es l c"
  shows "holdsLFU es l (c\<lparr>lfuMem := (lfuMem c)(k := (lfuMem c k)\<lparr>fTimestamp := t\<rparr>)\<rparr>)"
proof -
  let ?c = "c\<lparr>lfuMem := (lfuMem c)(k := (lfuMem c k)\<lparr>fTimestamp := t\<rparr>)\<rparr>"
  have "bucketed c l" using assms by (simp add: holdsLFU_def)
  then have "bucketed ?c l" by (rule bucketed_cong) auto
  moreover have "fentryOf ?c = fentryOf c" by (simp add: fentryOf_def fun_eq_iff)
  ultimately show ?thesis using assms by (simp add: holdsLFU_def)
qed

lemma holdsLFU_link:
  assumes "holdsLFU es l c" "k \<notin> keyOf ` set l" "used = fsizes es l + es ck v" "used \<le> lfuMax c"
    and "fKey node = k" "fClientKey node = ck" "fValue node = v" "fFrequency node = 1"
  shows "holdsLFU es (l @ [(1, k, ck, v)])
    (lfuAddToTail 1 k (c\<lparr>lfuUsed := used, MinFreq := 1, lfuMem := (lfuMem c)(k := node), lfuStore := (lfuStore c)(k \<mapsto> k)\<rparr>))"
    (is "holdsLFU es _ (lfuAddToTail 1 k ?c)")
proof -
  have E: "\<forall>x \<in> set l. fentryOf c (keyOf x) = x \<and> 1 \<le> fst x \<and> fst x \<le> MaxFreq c" and B: "bucketed c l"
    and S: "lfuStore c = (\<lambda>x. if x \<in> keyOf ` set l then Some x else None)" using assms(1) unfolding holdsLFU_def by blast+
  have "bucketed ?c l" by (rule bucketed_cong [OF B]) (use assms(2) in auto)
  then have "bucketed (lfuAddToTail 1 k ?c) (l @ [(1, k, ck, v)])" using bucketed_append [of ?c l "(1, k, ck, v)"] assms(2) by simp
  moreover have "fentryOf ?c (keyOf x) = x \<and> 1 \<le> fst x \<and> fst x \<le> MaxFreq c" if "x \<in> set l" for x
  proof -
    have "keyOf x \<noteq> k" using assms(2) that by auto
    then show ?thesis using E that by (auto simp: fentryOf_def)
  qed
  moreover have "fentryOf ?c k = (1, k, ck, v)" using assms(5-8) by (simp add: fentryOf_def)
  moreover have "leastIn (l @ [(1, k, ck, v)]) 1" using E by (simp add: leastIn_def)
  moreover have "lfuStore (lfuAddToTail 1 k ?c) = (\<lambda>x. if x \<in> keyOf ` set (l @ [(1, k, ck, v)]) then Some x else None)"
    using S by (auto simp: fun_eq_iff)
  moreover have "1 \<le> MaxFreq c" using assms(1) by (simp add: holdsLFU_def)
  ultimately show ?thesis unfolding holdsLFU_def fentryOf_addToTail using assms(3,4) by (auto simp del: bucketed_updates)
qed

lemma holdsLFU_entry:
  assumes "holdsLFU es l c" "lfuStore c key = Some m"
  obtains a b f ck v where "m = key" "l = a @ (f, key, ck, v) # b" "fwithout key l = a @ b" "find (\<lambda>e. keyOf e = key) l = Some (f, key, ck, v)"
    "fentryOf c key = (f, key, ck, v)"
proof -
  have k: "m = key" "key \<in> keyOf ` set l" using assms by (auto simp: holdsLFU_def split: if_splits)
  then obtain e where e: "e \<in> set l" "keyOf e = key" by auto
  obtain a b where l: "l = a @ e # b" using e(1) by (metis split_list)
  have "distinct (map keyOf l)" using assms(1) by (simp add: holdsLFU_def bucketed_def)
  then have o: "\<forall>e \<in> set (a @ b). keyOf e \<noteq> key" unfolding l using e(2) by (auto simp: image_iff)
  then have "fwithout key l = a @ b" unfolding l fwithout_def using e(2) by (simp add: filter_id_conv)
  moreover have "find (\<lambda>e. keyOf e = key) l = Some e" unfolding l using o e(2) by (induction a) auto
  moreover have "fentryOf c key = e" using assms(1) e by (auto simp: holdsLFU_def)
  ultimately show ?thesis using that k(1) l e(2) by (metis prod.collapse)
qed

lemma holdsLFU_absent: "holdsLFU es l c \<Longrightarrow> lfuStore c key = None \<Longrightarrow> key \<notin> keyOf ` set l \<and> find (\<lambda>e. keyOf e = key) l = None"
proof -
  assume "holdsLFU es l c" "lfuStore c key = None"
  then have k: "key \<notin> keyOf ` set l" by (auto simp: holdsLFU_def split: if_splits)
  then have "\<not> (\<exists>e. e \<in> set l \<and> keyOf e = key)" by blast
  then show ?thesis using k unfolding find_None_iff by blast
qed

section \<open>The operations\<close>

lemma lfuGet_spec:
  assumes "holdsLFU es l c"
  shows "fst (lfuGet key c) = fst (fspecGet key l) \<and> holdsLFU es (snd (fspecGet key l)) (snd (lfuGet key c)) \<and> lfuMax (snd (lfuGet key c)) = lfuMax c"
proof (cases "lfuStore c key")
  case None
  then show ?thesis using holdsLFU_absent [OF assms] assms by (simp add: lfuGet_def fspecGet_def)
next
  case (Some m)
  from holdsLFU_entry [OF assms Some] obtain a b f ck v where e: "m = key" "l = a @ (f, key, ck, v) # b" "fwithout key l = a @ b"
    "find (\<lambda>e. keyOf e = key) l = Some (f, key, ck, v)" "fentryOf c key = (f, key, ck, v)" by metis
  let ?c = "lfuCount key (lfuShiftKV f key c)"
  have h: "holdsLFU es (a @ b @ [(f + 1, key, ck, v)]) ?c" using holdsLFU_access assms unfolding e(2) by blast
  then have "fentryOf ?c key = (f + 1, key, ck, v)" by (simp add: holdsLFU_def)
  then have "lfuGet key c = (v, ?c)" using Some e(1,5) by (simp add: lfuGet_def fentryOf_def Let_def)
  then show ?thesis using h e(3,4) lfuCount_fields(6) [OF refl refl] by (simp add: fspecGet_def)
qed

text \<open>With a right \<^verbatim>\<open>MinFreq\<close> the head of its bucket is the victim; the loop stops or panics when there is none.\<close>

lemma victim_head:
  assumes "bucketed c l" "leastIn l (MinFreq c)"
  obtains b where "FrequencyStore c (MinFreq c) = Some b" "flHead b = Some (keyOf (victim l))"
proof -
  have "Min (fst ` set l) = MinFreq c" using assms(2) unfolding leastIn_def by (intro Min_eqI) auto
  then have v: "bucketOf (MinFreq c) l = keyOf (victim l) # tl (bucketOf (MinFreq c) l)"
    using assms(2) bucketOf_Nil [of "MinFreq c" l] unfolding leastIn_def victim_def bucketOf_def
    by (cases "filter (\<lambda>e. fst e = MinFreq c) l") simp_all
  moreover have "spells c (FrequencyStore c (MinFreq c)) (bucketOf (MinFreq c) l)" using assms(1) unfolding bucketed_def by blast
  ultimately obtain b where "FrequencyStore c (MinFreq c) = Some b" "flHead b = hd_or (bucketOf (MinFreq c) l) None"
    by (auto simp: spells_def chained_def split: option.splits)
  then show ?thesis using that v by (metis hd_or_simps(2))
qed

lemma victim_split:
  assumes "distinct (map keyOf l)" "l \<noteq> []"
  obtains a b where "l = a @ victim l # b" "remove1 (victim l) l = a @ b"
proof -
  obtain a b where l: "l = a @ victim l # b" "victim l \<notin> set a" using split_list_first [OF victim_in [OF assms(2)]] by blast
  then have "remove1 (victim l) l = a @ b" by (metis remove1.simps(2) remove1_append)
  then show ?thesis using that l by blast
qed

lemma lfuEvict_spec:
  assumes "holdsLFU es l c" "lfuEvict es need (c, sh) = Some (c', sh')" "need \<le> lfuMax c" "lfuMax c < 2 ^ 63"
  shows "holdsLFU es (roomLFU es (lfuMax c) need l) c' \<and> lfuMax c' = lfuMax c \<and> lfuUsed c' + need \<le> lfuMax c"
  using assms
proof (induction "length l" arbitrary: l c sh)
  case 0
  then have "lfuUsed c = 0" by (simp add: holdsLFU_def)
  then show ?case using 0 by (auto simp: lfuEvict.simps [of es need c sh] split: if_splits)
next
  case (Suc n)
  have B: "bucketed c l" "lfuUsed c = fsizes es l" "lfuUsed c \<le> lfuMax c" using Suc(3) by (simp_all add: holdsLFU_def)
  have u: "add64 (lfuUsed c) need = lfuUsed c + need" using B(3) Suc(5,6) by simp
  have ne: "l \<noteq> []" using Suc(2) by auto
  show ?case
  proof (cases "lfuMax c < lfuUsed c + need")
    case False
    then show ?thesis using Suc(3,4) B(2) u by (auto simp: lfuEvict.simps [of es need c sh] roomLFU.simps [of es _ need l])
  next
    case True
    have "FrequencyStore c (MinFreq c) \<noteq> None" using Suc(4) True u by (auto simp: lfuEvict.simps [of es need c sh] split: option.splits)
    moreover have "spells c (FrequencyStore c (MinFreq c)) (bucketOf (MinFreq c) l)" using B(1) unfolding bucketed_def by blast
    ultimately have "MinFreq c \<in> fst ` set l" using bucketOf_Nil by (auto simp: spells_def)
    then have L: "leastIn l (MinFreq c)"
    proof (cases "2 \<le> length l")
      case True
      then show ?thesis using Suc(3) by (simp add: holdsLFU_def)
    next
      case False
      then have "length l = 1" using Suc(2) by simp
      then obtain e where "l = [e]" by (metis One_nat_def length_0_conv length_Suc_conv)
      then show ?thesis using \<open>MinFreq c \<in> fst ` set l\<close> by (simp add: leastIn_def)
    qed
    obtain bk where F: "FrequencyStore c (MinFreq c) = Some bk" "flHead bk = Some (keyOf (victim l))" using victim_head [OF B(1) L] by blast
    obtain a b where l: "l = a @ victim l # b" "remove1 (victim l) l = a @ b" using victim_split ne B(1) unfolding bucketed_def by blast
    obtain f k ck v where v: "victim l = (f, k, ck, v)" by (metis prod.collapse)
    have "fentryOf c (keyOf (victim l)) = victim l" using Suc(3) victim_in [OF ne] by (simp add: holdsLFU_def)
    then have e: "fKey (lfuMem c k) = k" "fClientKey (lfuMem c k) = ck" "fValue (lfuMem c k) = v" "fFrequency (lfuMem c k) = f"
      by (simp_all add: v fentryOf_def)
    let ?c = "((lfuRemoveNode f k c)\<lparr>lfuStore := (lfuStore c)(k := None), lfuUsed := sub64 (lfuUsed c) (es ck v)\<rparr>)\<lparr>lfuEvictions := add64 (lfuEvictions c) 1\<rparr>"
    obtain hp where E: "lfuEvict es need (?c, sh\<lparr>keyMap := (keyMap sh)(ck := None), freedKeys := freedKeys sh @ [k], ttlHeap := hp\<rparr>) = Some (c', sh')"
      using Suc(4) True u F e by (auto simp: lfuEvict.simps [of es need c sh] v Let_def split: option.splits)
    have "holdsLFU es (a @ (f, k, ck, v) # b) c" using Suc(3) l(1) by (simp add: v)
    from holdsLFU_unlink(1) [OF this] have h: "holdsLFU es (a @ b) ?c" by (simp add: holdsLFU_def)
    have "n = length (a @ b)" using Suc(2) arg_cong [OF l(1), of length] by simp
    from Suc.hyps(1) [OF this h E] show ?thesis
      using Suc(5,6) True B(2) ne l(2) by (simp add: roomLFU.simps [of es "lfuMax c" need l])
  qed
qed

lemma lfuPut_spec:
  assumes "holdsLFU es l c" "fairSize es" "lfuMax c < 2 ^ 63" "lfuPut es now key value clientKey (c, sh) = Some (reply, c', sh')"
  shows "reply = fst (fspecPut es (lfuMax c) key value clientKey l) \<and> holdsLFU es (snd (fspecPut es (lfuMax c) key value clientKey l)) c' \<and>
    lfuMax c' = lfuMax c"
proof (cases "lfuMax c < es clientKey value")
  case True
  then show ?thesis using assms(1,4) by (auto simp: lfuPut_def fspecPut_def)
next
  case fits: False
  have U: "lfuUsed c = fsizes es l" "lfuUsed c \<le> lfuMax c" using assms(1) by (simp_all add: holdsLFU_def)
  show ?thesis
  proof (cases "lfuStore c key")
    case None
    let ?kept = "roomLFU es (lfuMax c) (es clientKey value) l"
    obtain c1 sh1 where E: "lfuEvict es (es clientKey value) (c, sh) = Some (c1, sh1)"
      using assms(4) None fits by (auto simp: lfuPut_def split: option.splits)
    have e: "holdsLFU es ?kept c1" "lfuMax c1 = lfuMax c" "lfuUsed c1 + es clientKey value \<le> lfuMax c"
      using lfuEvict_spec [OF assms(1) E _ assms(3)] fits by auto
    have nk: "key \<notin> keyOf ` set ?kept" using holdsLFU_absent [OF assms(1) None] roomLFU_subset by blast
    have "lfuUsed c1 = fsizes es ?kept" using e(1) by (simp add: holdsLFU_def)
    then show ?thesis
      using holdsLFU_link [OF e(1) nk, of _ clientKey "value" "(newLFUKV key)\<lparr>fFrequency := 1, fTimestamp := now, fValue := value, fClientKey := clientKey\<rparr>"]
        e(2,3) holdsLFU_absent [OF assms(1) None] None fits E assms(3,4)
      by (auto simp: lfuPut_def fspecPut_def newLFUKV_def Let_def)
  next
    case (Some m)
    from holdsLFU_entry [OF assms(1) Some] obtain a b f ck w where e: "m = key" "l = a @ (f, key, ck, w) # b" "fwithout key l = a @ b"
      "find (\<lambda>e. keyOf e = key) l = Some (f, key, ck, w)" "fentryOf c key = (f, key, ck, w)" by metis
    have n: "fValue (lfuMem c key) = w" "fFrequency (lfuMem c key) = f" using e(5) by (simp_all add: fentryOf_def)
    let ?l = "a @ (f, key, ck, value) # b"
    have fs: "es ck w + es [] value = es ck value + es [] w" "es [] w \<le> es ck w" "es [] value \<le> es clientKey value"
      using assms(2) unfolding fairSize_def by blast+
    have u: "lfuUsed c = fsizes es a + es ck w + fsizes es b" using U(1) by (simp add: e(2))
    then have s: "add64 (sub64 (lfuUsed c) (es [] w)) (es [] value) = fsizes es ?l"
    proof -
      have "sub64 (lfuUsed c) (es [] w) = lfuUsed c - es [] w" using u fs(2) by simp
      moreover have "lfuUsed c - es [] w + es [] value < 2 ^ 64" using fs(3) fits U(2) assms(3) by simp
      ultimately show ?thesis using u fs(1,2) by simp
    qed
    have o: "fsizes es (a @ b @ [(f + 1, key, ck, value)]) = fsizes es ?l" by simp
    show ?thesis
    proof (cases "lfuMax c < fsizes es ?l")
      case True
      then show ?thesis using assms(1,4) Some fits s o e n by (auto simp: lfuPut_def fspecPut_def Let_def)
    next
      case False
      let ?c2 = "c\<lparr>lfuUsed := fsizes es ?l, lfuMem := (lfuMem c)(key := (lfuMem c key)\<lparr>fValue := value\<rparr>)\<rparr>"
      let ?c3 = "lfuCount key (lfuShiftKV f key ?c2)"
      let ?c4 = "?c3\<lparr>lfuMem := (lfuMem ?c3)(key := (lfuMem ?c3 key)\<lparr>fTimestamp := now\<rparr>)\<rparr>"
      have "holdsLFU es ?l ?c2" using holdsLFU_payload [of es a f key ck w b c _ "value"] assms(1) False unfolding e(2) by simp
      then have h: "holdsLFU es (a @ b @ [(f + 1, key, ck, value)]) ?c4" by (intro holdsLFU_timestamp holdsLFU_access)
      have "lfuPut es now key value clientKey (c, sh) = map_option (\<lambda>h. (''OK'', ?c4, sh\<lparr>ttlHeap := h\<rparr>))
          (increaseKeyHeap (zeroTTL\<lparr>ttlKey := key, ttlTimestamp := now\<rparr>) (ttlHeap sh))"
        using Some fits s e(1) n False by (simp add: lfuPut_def Let_def split: option.splits)
      then have "reply = ''OK''" "c' = ?c4" using assms(4) by (auto simp: map_option_case split: option.splits)
      moreover have "fspecPut es (lfuMax c) key value clientKey l = (''OK'', a @ b @ [(f + 1, key, ck, value)])"
        using fits e(3,4) False o by (simp add: fspecPut_def)
      ultimately show ?thesis using h lfuCount_fields(6) [OF refl refl] by simp
    qed
  qed
qed

lemma lfuDelete_spec:
  assumes "holdsLFU es l c" "lfuDelete es key (c, sh) = Some (c', sh')"
  shows "holdsLFU es (fwithout key l) c' \<and> lfuMax c' = lfuMax c"
proof (cases "lfuStore c key")
  case None
  then have "\<forall>e \<in> set l. keyOf e \<noteq> key" using holdsLFU_absent [OF assms(1) None] by blast
  then have "fwithout key l = l" by (simp add: fwithout_def)
  then show ?thesis using None assms by (simp add: lfuDelete_def)
next
  case (Some m)
  from holdsLFU_entry [OF assms(1) Some] obtain a b f ck w where e: "m = key" "l = a @ (f, key, ck, w) # b" "fwithout key l = a @ b"
    "fentryOf c key = (f, key, ck, w)" by metis
  then have "c' = (lfuRemoveNode f key c)\<lparr>lfuStore := (lfuStore c)(key := None), lfuUsed := sub64 (lfuUsed c) (es ck w)\<rparr>"
    using assms(2) Some by (auto simp: lfuDelete_def fentryOf_def Let_def split: option.splits)
  then show ?thesis using holdsLFU_unlink(1) [of es a f key ck w b c] assms(1) e by simp
qed

section \<open>Runs\<close>

fun fspecDo :: "(string \<Rightarrow> string \<Rightarrow> u64) \<Rightarrow> nat \<Rightarrow> cacheOp \<Rightarrow> fkv list \<Rightarrow> string \<times> fkv list" where
  "fspecDo es mx (DoGet key) l = fspecGet key l"
| "fspecDo es mx (DoPut now key val ck) l = fspecPut es mx key val ck l"
| "fspecDo es mx (DoDelete key) l = ([], fwithout key l)"

lemma lfuDo_spec:
  assumes "holdsLFU es l c" "fairSize es" "lfuMax c < 2 ^ 63" "lfuDo es p (c, sh) = Some (v, c', sh')"
  shows "v = fst (fspecDo es (lfuMax c) p l) \<and> holdsLFU es (snd (fspecDo es (lfuMax c) p l)) c' \<and> lfuMax c' = lfuMax c"
proof (cases p)
  case (DoGet key)
  then show ?thesis using lfuGet_spec [OF assms(1), of key] assms(4) by (auto split: prod.splits)
next
  case (DoPut now key val ck)
  then show ?thesis using lfuPut_spec [OF assms(1-3)] assms(4) by simp
next
  case (DoDelete key)
  then show ?thesis using lfuDelete_spec [OF assms(1)] assms(4) by auto
qed

definition lfuRel :: "(string \<Rightarrow> string \<Rightarrow> u64) \<Rightarrow> nat \<Rightarrow> fkv list \<Rightarrow> LFUCache \<times> Shared \<Rightarrow> bool" where
  "lfuRel es mx l s \<longleftrightarrow> holdsLFU es l (fst s) \<and> lfuMax (fst s) = mx \<and> mx < 2 ^ 63 \<and> fairSize es"

interpretation counted: list_cache "lfuDo es" "fspecDo es mx" "lfuRel es mx" for es mx
  by unfold_locales (auto simp: lfuRel_def dest: lfuDo_spec)

lemma holdsLFU_new: "holdsLFU es [] (ConstructorLFU mx)"
  by (simp add: holdsLFU_def ConstructorLFU_def bucketed_def spells_def)


text \<open>Room for two entries: the one that was read stays, the other makes room for a third.\<close>

lemma lfu_twoOfThree:
  "\<exists>c sh. runOps (lfuDo byLength) twoOfThree (ConstructorLFU 4, noShared) = Some ([''OK'', ''OK'', ''x'', ''OK'', ''key not found'', ''x''], c, sh)"
  by (simp add: twoOfThree_def lfu_eval lru_eval)



end
