(* ===== verification/Spec2Isabelle.thy ===== *)
theory Spec2Isabelle
  imports MainProg Durability LegacyLFU
begin

text \<open>
  A verification development of the cache server: an in-memory key-value cache that speaks RESP2, keeps
  one store and one publish/subscribe hub per tenant, evicts under a memory limit and persists its data in
  an append-only file and in snapshots.

  \<^bold>\<open>The program and how its parts interact.\<close> \<^verbatim>\<open>cmd/cache-custom\<close> reads a configuration, builds the
  tenants, loads the files and starts the server. \<^verbatim>\<open>internal/server\<close> admits connections, reads commands with
  \<^verbatim>\<open>internal/protocol\<close> and hands them to \<^verbatim>\<open>internal/command\<close>, which checks the policy and works on the
  store (\<^verbatim>\<open>internal/store\<close>) and hub (\<^verbatim>\<open>internal/pubsub\<close>) of the tenant
  (\<^verbatim>\<open>internal/tenant\<close>) the connection authenticated for. A store reports its mutations to
  \<^verbatim>\<open>internal/persist\<close>; \<^verbatim>\<open>internal/metrics\<close> counts.

  \<^bold>\<open>Foundations.\<close>
  \<^item> \<open>Prelude\<close>: 64-bit integers as \<open>int\<close> and \<open>nat\<close> with the wrap-around written out, instants and durations
    of package \<^verbatim>\<open>time\<close>, entry references, the collections of simplification rules.
  \<^item> \<open>GoStrings\<close>, \<open>PathMatch\<close>, \<open>Json\<close>: what the sources use of \<^verbatim>\<open>strings\<close>, \<^verbatim>\<open>strconv\<close>,
    \<^verbatim>\<open>unicode/utf8\<close>, \<^verbatim>\<open>path\<close> and \<^verbatim>\<open>encoding/json\<close>. A Go string is the list of its bytes.
  \<^item> \<open>Interfaces\<close>: the contracts between a shard and its indexes, as locales. \<open>entry_index\<close> is a
    set of entries with insertion and removal, \<open>order_index\<close> extends it by an order, \<open>deadline_queue\<close> is
    a finite map of deadlines with a minimum.

  \<^bold>\<open>The store\<close> (\<^verbatim>\<open>internal/store\<close>).
  \<^item> \<open>Dll\<close> (\<^verbatim>\<open>lru.go\<close>): intrusive lists on explicit next and previous pointers; interprets
    \<open>order_index\<close>.
  \<^item> \<open>ExpHeap\<close> (\<^verbatim>\<open>expiry.go\<close>): the indexed binary heap; interprets \<open>deadline_queue\<close>, and refines a finite
    map from keys to deadlines (C27).
  \<^item> \<open>RandIdx\<close> (\<^verbatim>\<open>random.go\<close>) and \<open>Lfu\<close> (\<^verbatim>\<open>lfu.go\<close>): the dense key array and the frequency buckets; both
    interpret \<open>entry_index\<close>; the buckets refine a map from frequencies to lists (C28).
  \<^item> \<open>EvictionPolicy\<close> (\<^verbatim>\<open>policy.go\<close>), \<open>StoreState\<close> (\<^verbatim>\<open>store.go\<close>): configuration, entries, shards, the DB,
    hashing, sizes, and the invariant \<open>db_ok\<close>: each index of a shard holds exactly the shard's entries, deadlines
    are those of the entries, and the counters of keys and bytes are exact.
  \<^item> \<open>StoreCore\<close>, \<open>Evict\<close> (\<^verbatim>\<open>evict.go\<close>), \<open>StoreOps\<close> (\<^verbatim>\<open>ops.go\<close>, the sweep of \<^verbatim>\<open>expiry.go\<close>), \<open>Snapshot\<close>
    (\<^verbatim>\<open>snapshot.go\<close>): the operations with every guard and early return. The locale \<open>eviction_loop\<close> carries
    the argument that making room ends with enough room or without a victim; it is interpreted for the
    three sharding strategies.
  \<^item> \<open>StoreRun\<close>: one rule per exported operation, arbitrary arguments and clock readings; \<open>StoreProps\<close>: the
    invariant in every reachable state (C1), the memory bound (C2), that an evicting store never runs out of
    memory on an entry that fits (C3), which keys an eviction may take (C11, \<open>victim_complete\<close>, C25), reading, deleting,
    expiring and counting (C4, C12, C13 to C24), export and load (C26). Properties of the contents are stated over \<open>visible\<close>, the map from keys to values
    and deadlines a client can observe at an instant.

  \<^bold>\<open>Protocol, messages, tenants.\<close>
  \<^item> \<open>Resp\<close> (\<^verbatim>\<open>protocol/resp.go\<close>): reading and writing of values and commands; what is written is read
    back (C29, and commands by \<open>ReadCommand_roundtrip\<close>), reading consumes input and ends (C30), and the announced length of a bulk string is not
    checked (C31).
  \<^item> \<open>PubSub\<close> (\<^verbatim>\<open>pubsub/hub.go\<close>): clients and subscriptions; the locale \<open>subscriptions\<close> is the contract of
    the channel and pattern tables; C32 and C33 are the agreement of the two directions of a subscription and
    the exact receivers of a message.
  \<^item> \<open>TenantReg\<close> (\<^verbatim>\<open>tenant/registry.go\<close>): tenants, authentication (C34) and connection slots; the
    locale \<open>slots\<close> is the contract of a bounded counter, interpreted for the slots of a tenant here and for
    those of the server in \<open>ServerProps\<close>.

  \<^bold>\<open>Persistence\<close> (\<^verbatim>\<open>internal/persist\<close>). \<open>Persist\<close> models the engine with its files, the catch-up buffer of a
  running save, and the failure of every file operation as an argument. \<open>PersistProps\<close> gives the log a
  meaning (\<open>replay\<close>, \<open>recovered\<close>): a save during which mutations arrive loses nothing whichever file
  operation fails (C18), loading restores what the replay describes (C19), C20 is the case where the code
  differs from the replay, and C21 the one where a failed save leaves the log closed. \<open>StoreLog\<close> relates the mutations a store
  reports to its contents: for every sequence of operations the replay of the reports is what clients see, up to
  evicted keys (C7).

  \<^bold>\<open>Commands and server.\<close>
  \<^item> \<open>Metrics\<close> (\<^verbatim>\<open>metrics/metrics.go\<close>, C35), \<open>Info\<close> (\<^verbatim>\<open>command/info.go\<close>).
  \<^item> \<open>Commands\<close> (\<^verbatim>\<open>internal/command\<close>): the connection context, the registry, the policy and every handler over
    a \<open>World\<close> of tenants, engine, metrics and server counters. \<open>CommandProps\<close>: the relation \<open>effect\<close>
    lists what a handler may change; from it, by the locale \<open>isolation\<close>, follow tenant isolation (C8), the
    policy (C9), and the agreement of SET and GET through dispatch (C10).
  \<^item> \<open>Server\<close> (\<^verbatim>\<open>server/server.go\<close>): admission, the loop of a connection and its teardown.
    \<open>ServerProps\<close>: the server as a state machine whose steps (accept, serve a command, end, sweep, save)
    interleave freely; limits (C14), the invariant (C15), delivery within a tenant (C16), and that a pipelined
    byte stream is served as the sequence of its commands (C17).
  \<^item> \<open>ConfigFile\<close> (\<^verbatim>\<open>config.go\<close>), \<open>MainProg\<close> (\<^verbatim>\<open>main.go\<close>, \<^verbatim>\<open>server/httpops.go\<close>): validation (C37),
    start-up, which leads to an initial state of the server's state machine (C36), and the HTTP handlers.
  \<^item> \<open>Durability\<close> joins server, stores and engine: \<open>durable\<close> says that the files, with the buffer and the exports of the save that
    runs, describe all that clients of each tenant can read; every handler, sweep and phase of a save keeps it. The present theory joins it with
    start-up: from a first start, no acknowledged write is lost while the log is open (C5),
    and a second start on the files gives all of it back to the clients, when the stores have room and no deadline of the file has passed (C6).

  \<^bold>\<open>The replaced caches.\<close> The files \<^verbatim>\<open>ttlheap.go\<close>, \<^verbatim>\<open>cacheLRU.go\<close> and \<^verbatim>\<open>cacheLFU.go\<close> of \<^verbatim>\<open>cmd/cache-custom\<close> carry the
  build tag \<^verbatim>\<open>legacy\<close>; nothing calls them, and \<^verbatim>\<open>entrySize\<close>, which they use, is defined nowhere, so it is an argument of the model.
  \<open>LegacyHeap\<close> (order by simulation of \<open>ExpHeap\<close>), \<open>LegacyLRU\<close> and \<open>LegacyLFU\<close> model them; the locale \<open>list_cache\<close> is the contract of a cache
  towards an abstract list, interpreted for both (C39, C38). A stale heap index and a stale least frequency make them
  panic (\<open>stale_index_panics\<close>, C40).

  \<^bold>\<open>Conventions.\<close> Randomness is a function argument, the clock a function from the number of the reading to
  an instant, so theorems hold for every source and every clock; hypotheses on the clock (\<open>stillAt\<close>,
  readings that do not decrease) are named where they are needed. Errors are values; a panic is the error
  \<open>Panic\<close>. Map iteration, whose order Go leaves open, takes a permutation as an argument.

  \<^bold>\<open>Bounds and fuel.\<close> Eviction loops run with fuel \<open>Suc (totalKeys d)\<close>: each round removes a key or
  stops (\<open>eviction_loop\<close>). The sweep runs at most the number of heap items. The reader of values
  gets \<open>2 * length r + 1\<close>, twice the input since a value and its elements alternate, and C30 shows that it
  is never exhausted. The eviction loops of the replaced caches end because each round shrinks
  the deadline heap. All other loops are recursive functions with termination proofs.

  \<^bold>\<open>Not modelled.\<close> Sockets, TLS handshakes and certificate parsing, logging, signals and command-line
  flags, which decide nothing the model depends on; the two periodic goroutines (expiry sweep, interval
  snapshots), whose bodies are modelled and occur as steps; the interleaving inside one operation:
  an operation holds the lock of its shard and is one transition, also where it takes the locks of
  other shards or of the tenant-wide lists in turn.
\<close>

section \<open>From the first start to recovery\<close>

lemma cap_rest:
  assumes "capTenantMaxClients pr sc0 = (ws, sc)"
  shows "Persistence sc = Persistence sc0" "Security sc = Security sc0"
    "i < length (Tenants sc0) \<Longrightarrow> tcName (Tenants sc ! i) = tcName (Tenants sc0 ! i)"
  using assms by (auto simp: capTenantMaxClients_def Let_def split: if_splits)

lemma Load_empty: "hasAOF e \<Longrightarrow> Load env \<lparr>dAof = Some [], dSnap = None, dSnapTime = x\<rparr> e r = (None, e, r)"
  unfolding hasAOF_def by (elim disjE) (simp_all add: Load_def loadSnapshot_def loadAOF_def notExist_def mode_defs)

lemma capped_sane:
  assumes "capTenantMaxClients pr sc = (ws, sc1)" "\<forall>c \<in> set (Tenants sc). sane (storeConfig (toTenantConfig c))"
  shows "\<forall>x \<in> set (toTenantConfigs (Tenants sc1)). sane (storeConfig x)"
proof -
  have "sane (storeConfig (toTenantConfig (Tenants sc ! i)))" if "i < length (Tenants sc)" for i using assms(2) that by simp
  then show ?thesis using capped(1,3) [OF assms(1)] by (auto simp: toTenantConfigs_def in_set_conv_nth)
qed

lemma registry_names:
  assumes "capTenantMaxClients pr sc = (ws, sc1)" "NewRegistry gs (toTenantConfigs (Tenants sc1)) = Inr r"
    and "\<forall>x \<in> set (toTenantConfigs (Tenants sc1)). sane (storeConfig x)"
  shows "map tName (order r) = map tcName (Tenants sc)"
proof (rule nth_equalityI)
  note n = NewRegistry_tenants [OF assms(2,3)]
  have len: "length (order r) = length (Tenants sc)" using n(2) capped(1) [OF assms(1)] by (simp add: toTenantConfigs_def)
  then show "length (map tName (order r)) = length (map tcName (Tenants sc))" by simp
  fix i
  assume "i < length (map tName (order r))"
  then have i: "i < length (Tenants sc)" "i < length (toTenantConfigs (Tenants sc1))" using len n(2) by simp_all
  then have "tName (theTenant i r) = tcName (Tenants sc ! i)"
    using n(3) [OF i(2)] cap_rest(3) [OF assms(1) i(1)] by (simp add: newTenant_def Let_def toTenantConfigs_def toTenantConfig_def)
  then show "map tName (order r) ! i = map tcName (Tenants sc) ! i" using i(1) len by (simp add: theTenant_def)
qed

text \<open>A start in an empty directory, with an append-only file configured.\<close>

lemma first_start:
  assumes B: "boot env addr sc \<lparr>dAof = None, dSnap = None, dSnapTime = x\<rparr> = Inr (s, w)"
    and sane: "\<forall>c \<in> set (Tenants sc). sane (storeConfig (toTenantConfig c))"
    and aof: "hasAOF (NewEngine (persistConfigFrom (Persistence sc)))"
  shows "durable (Mode (NewEngine (persistConfigFrom (Persistence sc)))) (map tcName (Tenants sc)) t [] w"
proof -
  let ?e = "NewEngine (persistConfigFrom (Persistence sc))" and ?d = "\<lparr>dAof = Some [], dSnap = None, dSnapTime = x\<rparr>"
  let ?e1 = "?e\<lparr>aof := True\<rparr>"
  have m: "Mode ?e \<noteq> ModeNone" "Mode ?e1 = Mode ?e" using hasAOF_Mode [OF aof] by (simp_all add: Mode_def)
  obtain ws sc1 where cap: "capTenantMaxClients (bePrintable env) sc = (ws, sc1)" by fastforce
  obtain r0 e1 d1 e2 r1 where N: "NewRegistry (beRandom env) (toTenantConfigs (Tenants sc1)) = Inr r0"
    and O: "Open (beIO env) (?e, \<lparr>dAof = None, dSnap = None, dSnapTime = x\<rparr>) = (None, e1, d1)"
    and L: "Load (beLoad env) d1 e1 r0 = (None, e2, r1)" and A: "assemble env addr sc1 e2 d1 (AttachSinks e2 r1) = Inr (s, w)"
    using B cap cap_rest(1) [OF cap] by (auto simp: boot_def split: sum.splits prod.splits option.splits)
  have o: "e1 = ?e1" "d1 = ?d" using O m(1) aof by (auto simp: Open_def split: if_splits)
  have h: "hasAOF ?e1" using aof by (simp add: hasAOF_def m)
  have l: "e2 = ?e1" "r1 = r0"
    using L Load_empty [OF h] unfolding o by simp_all
  have w: "wTenants w = AttachSinks ?e1 r0" "wEng w = Some ?e1" "wDisk w = ?d"
    using A unfolding l o by (auto simp: assemble_def Let_def split: sum.splits)
  note sane1 = capped_sane [OF cap sane]
  note n = NewRegistry_tenants [OF N sane1]
  have ord: "order (wTenants w) = map (\<lambda>x. x\<lparr>tDB := SetMutationSink (Some []) (tDB x)\<rparr>) (order r0)" using h by (simp add: w AttachSinks_def)
  have "safe t [] ?e1 ?d i (theTenant i (wTenants w))" if i: "i < tenantCount w" for i
  proof -
    let ?c = "toTenantConfigs (Tenants sc1) ! i"
    have lt: "i < length (toTenantConfigs (Tenants sc1))" using i n(2) by (simp add: ord)
    have T: "tDB (theTenant i (wTenants w)) = SetMutationSink (Some []) (New (storeConfig ?c) (beRandom env i))"
      using n(3) [OF lt] i by (simp add: theTenant_def ord newTenant_def Let_def)
    have s: "sane (storeConfig ?c)" using sane1 lt by auto
    let ?db = "New (storeConfig ?c) (beRandom env i)"
    have k: "lookup ?db k = None" for k using New_ok [of "storeConfig ?c" "beRandom env i"] s by (auto simp: sane_def keysOf_def)
    then have k': "lookup (SetMutationSink (Some []) ?db) k = None" for k
      by (simp add: SetMutationSink_def lookup_def theShard_def shardIndex_def)
    have "db_ok (SetMutationSink (Some []) ?db)" using kept_SetMutationSink [OF New_db_ok [OF s]] by (simp add: kept_def)
    moreover have "visible t (SetMutationSink (Some []) ?db) j = None" for j using k' by (simp only: visible_def option.case)
    moreover have "?e1 \<in> {e. \<not> saving e}" by (simp add: NewEngine_def Let_def)
    ultimately show ?thesis using k' unfolding safe_def T
      by (auto simp: views_def dated_def mirrors_def) (simp add: SetMutationSink_def)
  qed
  moreover have "map tName (order (wTenants w)) = map tcName (Tenants sc)" using registry_names [OF cap N sane1] by (simp add: ord comp_def)
  moreover have "distinct (map tName (order (wTenants w)))" using reg_okD(1) [OF n(1)] by (simp add: ord comp_def)
  moreover have "logOpen ?e1 ?d" using h by (simp add: logOpen_def NewEngine_def Let_def exI [of _ "[]"])
  ultimately show ?thesis unfolding durable_def using m w by (intro exI [of _ ?e1]) (simp add: NewEngine_def Let_def)
qed

lemma writes_survive:
  assumes "boot env addr sc \<lparr>dAof = None, dSnap = None, dSnapTime = x\<rparr> = Inr (s, w)"
    and "\<forall>c \<in> set (Tenants sc). sane (storeConfig (toTenantConfig c))"
    and "hasAOF (NewEngine (persistConfigFrom (Persistence sc)))"
    and "dur_run t0 \<lparr>yServer = s, yWorld = w, yLive = Map.empty\<rparr> t p y" "t \<le> now"
  shows "\<exists>e ls. wEng (yWorld y) = Some e \<and> aof e \<and> Mode e = Mode (NewEngine (persistConfigFrom (Persistence sc))) \<and>
    dAof (wDisk (yWorld y)) = Some (map Line ls) \<and> map tName (order (wTenants (yWorld y))) = map tcName (Tenants sc) \<and>
    (\<forall>T < Len (wTenants (yWorld y)). visible now (dbOf T (yWorld y)) \<subseteq>\<^sub>m
      (\<lambda>k. live now (recovered e (wDisk (yWorld y)) (tName (theTenant T (wTenants (yWorld y)))) k)))"
proof -
  let ?y = "\<lparr>yServer = s, yWorld = w, yLive = Map.empty\<rparr>"
  have i: "sys_ok ?y" using boot_init [OF assms(1,2)] sys_init_ok by blast
  have "durable (Mode (NewEngine (persistConfigFrom (Persistence sc)))) (map tcName (Tenants sc)) t p (yWorld y)"
    using dur_run_ok [OF assms(4) i] first_start [OF assms(1-3)] by simp
  then obtain e where e: "wEng (yWorld y) = Some e" "logOpen e (wDisk (yWorld y))" "Mode e = Mode (NewEngine (persistConfigFrom (Persistence sc)))"
      "map tName (order (wTenants (yWorld y))) = map tcName (Tenants sc)"
    and s: "\<And>T. T < Len (wTenants (yWorld y)) \<Longrightarrow> safe t p e (wDisk (yWorld y)) T (theTenant T (wTenants (yWorld y)))"
    by (rule durableE) (simp add: Len_def)
  have "visible now (dbOf T (yWorld y)) \<subseteq>\<^sub>m (\<lambda>k. live now (recovered e (wDisk (yWorld y)) (tName (theTenant T (wTenants (yWorld y)))) k))"
    if "T < Len (wTenants (yWorld y))" for T
  proof -
    have "mirrors now UNIV (recovered e (wDisk (yWorld y)) (tName (theTenant T (wTenants (yWorld y))))) (dbOf T (yWorld y))"
      using safe_later [OF s [OF that] assms(5)] by (simp add: safe_def views_def dbOf_def)
    then show ?thesis unfolding mirrors_def map_le_def dom_def by (metis (mono_tags, lifting) mem_Collect_eq)
  qed
  moreover obtain ls where "dAof (wDisk (yWorld y)) = Some (map Line ls)" "aof e" using e(2) unfolding logOpen_def by blast
  ultimately show ?thesis using e by blast
qed


section \<open>The restart\<close>

text \<open>
  A second start with the same configuration, TLS files and character tables, whose file operations succeed and whose clock stands at \<open>now\<close>
  while it loads.
\<close>

definition restartEnv :: "BootEnv \<Rightarrow> BootEnv \<Rightarrow> gotime \<Rightarrow> bool" where
  "restartEnv env env2 now \<longleftrightarrow> bePrintable env2 = bePrintable env \<and> beTLS env2 = beTLS env \<and> ioMkdir (beIO env2) \<and> ioOpen (beIO env2) \<and>
     is_perm (lePerm (beLoad env2)) \<and> (\<forall>i. stillAt now (leLine (beLoad env2) i)) \<and> unixEpoch \<le> now"

text \<open>The lines of the file survive JSON, none of their deadlines has passed, and the stores have room for them.\<close>

definition loadable :: "BootEnv \<Rightarrow> ServerConfig \<Rightarrow> gotime \<Rightarrow> aofLine list \<Rightarrow> bool" where
  "loadable env sc now ls \<longleftrightarrow> (\<forall>l \<in> set ls. lineClean l) \<and>
     (\<forall>r. NewRegistry (beRandom env) (toTenantConfigs (Tenants (snd (capTenantMaxClients (bePrintable env) sc)))) = Inr r \<longrightarrow> logFits now ls r)"

lemma visible_sink [simp]: "visible now (SetMutationSink m d) = visible now d"
  by (simp add: visible_def SetMutationSink_def lookup_def theShard_def shardIndex_def fun_eq_iff)

lemma restart_loads:
  assumes B: "boot env addr sc d0 = Inr z" and sane: "\<forall>c \<in> set (Tenants sc). sane (storeConfig (toTenantConfig c))"
    and m: "Mode (NewEngine (persistConfigFrom (Persistence sc))) = ModeAOF" and R: "restartEnv env env2 now"
    and f: "dAof d = Some (map Line ls)" and L: "loadable env2 sc now ls"
  shows "\<exists>s2 w2. boot env2 addr2 sc d = Inr (s2, w2) \<and> map tName (order (wTenants w2)) = map tcName (Tenants sc) \<and>
    (\<forall>T < length (Tenants sc). \<forall>k. visible now (dbOf T w2) k = map_option (\<lambda>(v, x). (v, stamp x)) (replay ls noData (tcName (Tenants sc ! T)) k))"
proof -
  let ?e = "NewEngine (persistConfigFrom (Persistence sc))" let ?e1 = "?e\<lparr>aof := True\<rparr>"
  have R2: "bePrintable env2 = bePrintable env" "beTLS env2 = beTLS env" "ioMkdir (beIO env2)" "ioOpen (beIO env2)" "is_perm (lePerm (beLoad env2))"
    "\<forall>i. stillAt now (leLine (beLoad env2) i)" "unixEpoch \<le> now" using R by (simp_all add: restartEnv_def)
  obtain ws sc1 where cap: "capTenantMaxClients (bePrintable env) sc = (ws, sc1)" by fastforce
  note sane1 = capped_sane [OF cap sane]
  obtain lv r0 tls where P: "parseLogLevel (LogLevel (Observability sc)) = Inr lv"
    and N0: "NewRegistry (beRandom env) (toTenantConfigs (Tenants sc1)) = Inr r0" and T: "loadTLSConfig (beTLS env) (Security sc1) = Inr tls"
    using B cap by (auto simp: boot_def assemble_def Let_def split: sum.splits prod.splits option.splits)
  have acc: "acceptable (toTenantConfigs (Tenants sc1))" using NewRegistry_spec [OF sane1, of "beRandom env"] N0 by simp
  then obtain r where N: "NewRegistry (beRandom env2) (toTenantConfigs (Tenants sc1)) = Inr r"
    using NewRegistry_spec [OF sane1, of "beRandom env2"] by (cases "NewRegistry (beRandom env2) (toTenantConfigs (Tenants sc1))") auto
  have h: "hasAOF ?e" "Mode ?e \<noteq> ModeNone" "Mode ?e1 = ModeAOF" "hasAOF ?e1" using m by (simp_all add: hasAOF_def Mode_def mode_defs)
  have d: "d\<lparr>dAof := Some (map Line ls)\<rparr> = d" using f by (cases d) simp
  then have O: "Open (beIO env2) (?e, d) = (None, ?e1, d)" using h R2(3,4) f by (simp add: Open_def)
  have "logFits now ls r" "\<forall>l \<in> set ls. lineClean l" using L N cap R2(1) by (auto simp: loadable_def)
  then obtain r' where r': "loadLines (beLoad env2) 0 (map Line ls) r = (None, r')" "regHolds now r' (replay ls noData)"
    "map tName (order r') = map tName (order r)"
    using loadLines_data [OF NewRegistry_holds [OF N sane1] _ _ R2(6,7,5)] by blast
  have Ld: "Load (beLoad env2) d ?e1 r = (None, ?e1, r')"
    using h f r'(1) by (simp add: Load_def loadAOF_def notExist_def mode_defs)
  let ?r = "AttachSinks ?e1 r'"
  have "boot env2 addr2 sc d = assemble env2 addr2 sc1 ?e1 d ?r" using cap cap_rest(1) [OF cap] R2(1) by (simp add: boot_def P N O Ld)
  then obtain s2 w2 where b: "boot env2 addr2 sc d = Inr (s2, w2)" "wTenants w2 = ?r" using T R2(2) by (simp add: assemble_def Let_def)
  have ord: "order ?r = map (\<lambda>x. x\<lparr>tDB := SetMutationSink (Some []) (tDB x)\<rparr>) (order r')" using h(4) by (simp add: AttachSinks_def)
  have nm: "map tName (order r') = map tcName (Tenants sc)" using r'(3) registry_names [OF cap N sane1] by simp
  then have len: "length (order r') = length (Tenants sc)" by (metis length_map)
  have "visible now (dbOf T w2) k = map_option (\<lambda>(v, x). (v, stamp x)) (replay ls noData (tcName (Tenants sc ! T)) k)"
    if "T < length (Tenants sc)" for T k
  proof -
    have "tName (theTenant T r') = tcName (Tenants sc ! T)" using nm len that unfolding theTenant_def by (metis nth_map)
    moreover have "dbOf T w2 = SetMutationSink (Some []) (tDB (theTenant T r'))" using that len by (simp add: dbOf_def b(2) theTenant_def ord)
    moreover have "holds now (tDB (theTenant T r')) (replay ls noData (tName (theTenant T r')))"
      using r'(2) that len by (simp add: regHolds_def Len_def)
    ultimately show ?thesis using holdsD(5) by simp
  qed
  then show ?thesis using b nm by (auto simp: ord comp_def)
qed


section \<open>A first start and a first write\<close>

definition durConfig :: ServerConfig where
  "durConfig = demoConfig\<lparr>Security := (Security demoConfig)\<lparr>scRequireAuth := Some False\<rparr>,
     Persistence := (Persistence demoConfig)\<lparr>pcMode := ''aof''\<rparr>\<rparr>"

lemma durConfig_facts:
  "Tenants durConfig = [demoTenant ''a'', demoTenant ''b'']" "scMaxClients (Security durConfig) = 0"
  "resolveRequireAuth (Security durConfig) = False" "DenyCommands (Security durConfig) = []" "TLSCertFile (Security durConfig) = []"
  "LogLevel (Observability durConfig) = []" "loadTLSConfig f (Security durConfig) = Inr None"
  by (simp_all add: durConfig_def demoConfig_def bareConfig_def resolveRequireAuth_def loadTLSConfig_def)

lemma durConfig_mode: "Mode (NewEngine (persistConfigFrom (Persistence durConfig))) = ModeAOF"
proof -
  have "TrimSpace ''aof'' = ''aof''" "ToLower ''aof'' = ''aof''"
    by (rule TrimSpace_lowerName ToLower_lowerName, simp add: lowerName_def)+
  then have "ParseMode ''aof'' = (ModeAOF, True)" by (simp add: ParseMode_def mode_defs)
  then show ?thesis
    by (simp add: durConfig_def demoConfig_def bareConfig_def persistConfigFrom_def NewEngine_def Mode_def Let_def mode_defs)
qed

lemma durConfig_aof: "hasAOF (NewEngine (persistConfigFrom (Persistence durConfig)))"
  by (simp add: hasAOF_def durConfig_mode)

lemma durConfig_sane: "\<forall>c \<in> set (Tenants durConfig). sane (storeConfig (toTenantConfig c))"
  by (simp add: durConfig_facts sane_def storeConfig_def toTenantConfig_def demoTenant_def strategy_defs)

abbreviation demoStore :: DB where
  "demoStore \<equiv> SetMutationSink (Some []) (New (storeConfig (toTenantConfig (demoTenant ''a''))) plainRng)"

lemma demo_boot:
  "\<exists>s w rt. boot demoBoot '':9001'' durConfig \<lparr>dAof = None, dSnap = None, dSnapTime = 0\<rparr> = Inr (s, w) \<and>
     sRegistry s = allCommands (NewPolicy False (Some 0) []) rt \<and> oMaxClients (sOpts s) = 0 \<and> tenantCount w = 2 \<and>
     tDB (theTenant 0 (wTenants w)) = demoStore \<and> tStatus (theTenant 0 (wTenants w)) = StatusActive \<and> dAof (wDisk w) = Some []"
proof -
  let ?e = "NewEngine (persistConfigFrom (Persistence durConfig))" and ?d = "\<lparr>dAof = None, dSnap = None, dSnapTime = 0\<rparr>"
  let ?cs = "toTenantConfigs (Tenants durConfig)" and ?e1 = "?e\<lparr>aof := True\<rparr>"
  have acc: "acceptable ?cs" by (simp add: durConfig_facts acceptable_def toTenantConfigs_def toTenantConfig_def demoTenant_def)
  have sane: "\<forall>c \<in> set ?cs. sane (storeConfig c)" using durConfig_sane by (auto simp: toTenantConfigs_def)
  obtain r where r: "NewRegistry (beRandom demoBoot) ?cs = Inr r"
    using NewRegistry_spec [OF sane, of "beRandom demoBoot"] acc by (cases "NewRegistry (beRandom demoBoot) ?cs") auto
  note n = NewRegistry_tenants [OF r sane]
  have len: "length (order r) = 2" using n(2) by (simp add: durConfig_facts toTenantConfigs_def)
  have T: "order r ! 0 = newTenant (toTenantConfig (demoTenant ''a'')) plainRng"
    using n(3) [of 0] by (simp add: durConfig_facts toTenantConfigs_def theTenant_def demoBoot_def)
  have cap: "capTenantMaxClients (bePrintable demoBoot) durConfig = ([], durConfig)"
    by (simp add: capTenantMaxClients_def durConfig_facts)
  have h: "hasAOF ?e1" using durConfig_aof by (simp add: hasAOF_def Mode_def)
  have op: "Open (beIO demoBoot) (?e, ?d) = (None, ?e1, \<lparr>dAof = Some [], dSnap = None, dSnapTime = 0\<rparr>)"
    using durConfig_aof hasAOF_Mode [OF durConfig_aof] by (simp add: Open_def demoBoot_def ioFine_def)
  let ?r = "AttachSinks ?e1 r"
  have ord: "order ?r = map (\<lambda>x. x\<lparr>tDB := SetMutationSink (Some []) (tDB x)\<rparr>) (order r)" using h by (simp add: AttachSinks_def)
  have dt: "defaultTenantOf False ?r = Some 0" using len by (simp add: defaultTenantOf_def All_def ord)
  have "boot demoBoot '':9001'' durConfig ?d = assemble demoBoot '':9001'' durConfig ?e1 \<lparr>dAof = Some [], dSnap = None, dSnapTime = 0\<rparr> ?r"
    by (simp add: boot_def durConfig_facts(6) demo_parse(1) cap r op Load_empty [OF h])
  moreover have "tDB (theTenant 0 ?r) = demoStore"
    using len T by (simp add: theTenant_def ord newTenant_def Let_def)
  moreover have "tStatus (theTenant 0 ?r) = StatusActive"
    using len T by (simp add: theTenant_def ord newTenant_def Let_def toTenantConfig_def demoTenant_def)
  ultimately show ?thesis
    using len dt by (simp add: assemble_def durConfig_facts Let_def NewWithOptions_def NewServer_def serverOptions_def ord) blast
qed

lemma demo_Set:
  "\<exists>db. Set ''k'' ''v'' noOptions now (\<lambda>_ _. now) demoStore = (Inr True, db) \<and> lookup db = [''k'' \<mapsto> newEntry ''k'' ''v'' 0] \<and>
     sink db = Some [setMutation ''k'' ''v'' 0]"
proof -
  let ?c = "storeConfig (toTenantConfig (demoTenant ''a''))" let ?n = "New ?c plainRng"
  have s: "sane ?c" using durConfig_sane by (simp add: durConfig_facts)
  have l: "lookup demoStore = Map.empty"
    using New_ok [of ?c plainRng] s by (auto simp: sane_def keysOf_def SetMutationSink_def lookup_def theShard_def shardIndex_def fun_eq_iff)
  have ok: "db_ok demoStore" using kept_SetMutationSink [OF New_db_ok [OF s]] by (simp add: kept_def)
  have c: "cfg demoStore = normConfig ?c" "used demoStore = 0" by (simp_all add: New_def Let_def SetMutationSink_def)
  have cc: "MaxMemory (cfg demoStore) = 1000" "Strategy (cfg demoStore) = 1" "MaxTTL (cfg demoStore) = 0"
  proof -
    have "MaxMemory ?c = 1000" "Strategy ?c = 1" "MaxTTL ?c = 0"
      by (simp_all add: storeConfig_def toTenantConfig_def demoTenant_def strategy_defs)
    then show "MaxMemory (cfg demoStore) = 1000" "Strategy (cfg demoStore) = 1" "MaxTTL (cfg demoStore) = 0"
      unfolding c(1) by (simp_all add: normConfig_def Let_def strategy_defs)
  qed
  have "\<exists>d'. Set ''k'' ''v'' noOptions now (\<lambda>_ _. now) demoStore = (Inr True, d') \<and> db_ok d' \<and> cfg d' = cfg demoStore \<and>
      lookup d' = (lookup demoStore)(''k'' \<mapsto> newEntry ''k'' ''v'' (setExpiry noOptions now (MaxTTL (cfg demoStore)))) \<and>
      used d' = used demoStore + memSize ''k'' ''v'' \<and> (\<forall>k. k \<noteq> ''k'' \<longrightarrow> freqAt d' k = freqAt demoStore k) \<and>
      (sink demoStore = None \<longrightarrow> sink d' = None)"
    by (rule Set_fresh [OF ok]) (simp_all add: l c(2) cc memSize_def EntryOverhead_def strategy_defs noOptions_def)
  moreover have "setExpiry noOptions now 0 = 0" by (simp add: setExpiry_def noOptions_def)
  ultimately obtain d' where d': "Set ''k'' ''v'' noOptions now (\<lambda>_ _. now) demoStore = (Inr True, d')" "lookup d' = [''k'' \<mapsto> newEntry ''k'' ''v'' 0]"
    using l cc(3) by auto
  note sp = Set_spec(4) [OF ok d'(1) refl]
  have "finalExpiry ''k'' noOptions now demoStore = 0" using sp d'(2) by (simp add: newEntry_def)
  then show ?thesis using d' sp by (simp add: SetMutationSink_def)
qed

lemma deliverAll_aof: "aof (fst (deliverAll ios n ms s)) = aof (fst s)"
proof (induction ms arbitrary: ios s)
  case (Cons m ms)
  have "aof (fst (OnMutation io n m s)) = aof (fst s)" for io by (auto simp: OnMutation_def appendAOF_def Let_def split_beta)
  then show ?case using Cons by simp
qed simp

lemma onDB_aof: "map_option aof (wEng (snd (onDB ev t f w))) = map_option aof (wEng w)"
proof (cases "wEng w")
  case (Some e)
  have "aof (fst (snd (drainSink ios u r (e, d)))) = aof e" for ios u r d
    using deliverAll_aof [of ios _ _ "(e, d)"] by (simp add: drainSink_def split: option.split)
  then show ?thesis using Some by (simp add: onDB_def Let_def split_beta)
qed (simp add: onDB_def Let_def split_beta)

lemma onDB_lines:
  assumes "wEng w = Some e" "hasAOF e" "aof e" "fineIO (evIO ev)" "t < tenantCount w" "f (dbOf t w) = (x, db)" "sink db = Some ms" "dAof (wDisk w) = Some fl"
  shows "dAof (wDisk (snd (onDB ev t f w))) = Some (fl @ map Line (map (mkLine (tName (theTenant t (wTenants w)))) ms))"
proof -
  have "theTenant t (setDB t db (wTenants w)) = (theTenant t (wTenants w))\<lparr>tDB := db\<rparr>" using assms(5) by (simp add: setDB_def)
  then show ?thesis using assms deliverAll_fine [OF assms(2-4)] by (simp add: onDB_def drainSink_def logged_def Let_def)
qed

lemma demo_Dispatch:
  assumes w: "tenantCount w = 2" "tDB (theTenant 0 (wTenants w)) = demoStore" "tStatus (theTenant 0 (wTenants w)) = StatusActive"
  shows "\<exists>w'. Dispatch (allCommands (NewPolicy False (Some 0) []) rt) (sampleEnv now) (newContext 1 i) [''SET'', ''k'', ''v''] w =
      (OK, (newContext 1 i)\<lparr>ctxTenant := Some 0\<rparr>, w') \<and> lookup (dbOf 0 w') = [''k'' \<mapsto> newEntry ''k'' ''v'' 0] \<and>
      dbStep 0 w w' \<and> map_option aof (wEng w') = map_option aof (wEng w) \<and>
      (\<forall>e. wEng w = Some e \<and> hasAOF e \<and> aof e \<and> dAof (wDisk w) = Some [] \<and> tName (theTenant 0 (wTenants w)) = ''a'' \<longrightarrow>
        dAof (wDisk w') = Some [Line (setLine ''k'' ''v'')])"
proof -
  let ?f = "Set ''k'' ''v'' noOptions now (\<lambda>_ _. now)" and ?ev = "sampleEnv now" and ?c = "(newContext 1 i)\<lparr>ctxTenant := Some 0\<rparr>"
  obtain db where db: "?f (dbOf 0 w) = (Inr True, db)" "lookup db = [''k'' \<mapsto> newEntry ''k'' ''v'' 0]" "sink db = Some [setMutation ''k'' ''v'' 0]"
    using demo_Set w(2) by (auto simp: dbOf_def)
  have lt: "0 < length (order (wTenants w))" using w(1) by simp
  note r = onDB_result [where f = ?f, OF lt db(1), of ?ev]
  let ?w = "snd (onDB ?ev 0 ?f w)"
  have ev: "evNow ?ev 0 = now" "evClock ?ev 0 = (\<lambda>_ _. now)" by (simp_all add: sampleEnv_def)
  have cx: "ctxTenant ?c = Some 0" "ctxPubSub (newContext 1 i) = None" "ctxTenant (newContext 1 i) = None" by (simp_all add: newContext_def)
  have "cmdSet ?ev ?c [''SET'', ''k'', ''v''] w = (OK, ?w)"
    using r(1) w(3) ev cx by (simp add: cmdSet_def withDB_def requireDB_def split_beta noOptions_def)
  moreover have "checkPolicy (Some (NewPolicy False (Some 0) [])) (newContext 1 i) ''SET'' = (None, ?c)"
    using cx by (simp add: checkPolicy_def NewPolicy_def)
  ultimately have "Dispatch (allCommands (NewPolicy False (Some 0) []) rt) ?ev (newContext 1 i) [''SET'', ''k'', ''v''] w = (OK, ?c, ?w)"
    using cx by (simp add: Dispatch_def upper_eval allCommands_handlers runHandler_def keepCtx_def ctxInSubscribeMode_def del: ToUpper.simps)
  moreover have "lookup (dbOf 0 ?w) = lookup db"
    using r(2) by (elim disjE) (simp_all add: SetMutationSink_def lookup_def theShard_def shardIndex_def fun_eq_iff)
  moreover have "dbStep 0 w ?w" by (rule onDB_step) (rule kept_Set)
  moreover have "map_option aof (wEng ?w) = map_option aof (wEng w)"
    by (rule onDB_aof)
  moreover have "dAof (wDisk ?w) = Some [Line (setLine ''k'' ''v'')]"
    if "wEng w = Some e \<and> hasAOF e \<and> aof e \<and> dAof (wDisk w) = Some [] \<and> tName (theTenant 0 (wTenants w)) = ''a''" for e
  proof -
    have "fineIO (evIO ?ev)" by (simp add: fineIO_def sampleEnv_def ioFine_def)
    then show ?thesis using onDB_lines [where f = ?f, OF _ _ _ _ lt db(1,3), of e ?ev "[]"] that
      by (simp add: mkLine_def setMutation_def setLine_def)
  qed
  ultimately show ?thesis using db(2) by (intro exI [of _ ?w] conjI) (simp_all, blast)
qed

lemma demo_run:
  "\<exists>s w y. boot demoBoot '':9001'' durConfig \<lparr>dAof = None, dSnap = None, dSnapTime = 0\<rparr> = Inr (s, w) \<and>
     dur_run 5 \<lparr>yServer = s, yWorld = w, yLive = Map.empty\<rparr> 10 [] y \<and> 0 < Len (wTenants (yWorld y)) \<and>
     (\<forall>now. visible now (dbOf 0 (yWorld y)) ''k'' = Some (''v'', 0)) \<and> dAof (wDisk (yWorld y)) = Some [Line (setLine ''k'' ''v'')]"
proof -
  obtain s w rt where B: "boot demoBoot '':9001'' durConfig \<lparr>dAof = None, dSnap = None, dSnapTime = 0\<rparr> = Inr (s, w)"
    and s: "sRegistry s = allCommands (NewPolicy False (Some 0) []) rt" "oMaxClients (sOpts s) = 0"
    and w: "tenantCount w = 2" "tDB (theTenant 0 (wTenants w)) = demoStore" "tStatus (theTenant 0 (wTenants w)) = StatusActive"
      "dAof (wDisk w) = Some []"
    using demo_boot by blast
  let ?start = "\<lparr>yServer = s, yWorld = w, yLive = Map.empty\<rparr>" and ?ev = "sampleEnv 10"
  obtain s1 w1 i where A: "acceptConn (\<lambda>_. True) 1 s w = (Some (newContext 1 i), s1, w1)" "wTenants w1 = wTenants w" "wEng w1 = wEng w" "wDisk w1 = wDisk w"
      "sRegistry s1 = sRegistry s"
    using s(2) by (auto simp: acceptConn_def tryAddClient_def Let_def track_def withMetrics_def)
  let ?c = "newContext 1 i" let ?c' = "?c\<lparr>ctxTenant := Some 0\<rparr>"
  have w1: "tenantCount w1 = 2" "tDB (theTenant 0 (wTenants w1)) = demoStore" "tStatus (theTenant 0 (wTenants w1)) = StatusActive"
    using w A(2) by simp_all
  obtain w2 where D: "Dispatch (sRegistry s1) ?ev ?c [''SET'', ''k'', ''v''] w1 = (OK, ?c', w2)"
    and l: "lookup (dbOf 0 w2) = [''k'' \<mapsto> newEntry ''k'' ''v'' 0]" and st: "dbStep 0 w1 w2" "map_option aof (wEng w2) = map_option aof (wEng w1)"
    and lines: "\<forall>e. wEng w1 = Some e \<and> hasAOF e \<and> aof e \<and> dAof (wDisk w1) = Some [] \<and> tName (theTenant 0 (wTenants w1)) = ''a'' \<longrightarrow>
      dAof (wDisk w2) = Some [Line (setLine ''k'' ''v'')]"
    using demo_Dispatch [OF w1, of rt 10 i] unfolding A(5) s(1) by blast
  let ?w3 = "snd (writeAll (evUp ?ev) 1 [OK] (withMetrics (ObserveCommand (tenantNameOf ?c' w2) ''SET'' 0 (isError OK)) w2))"
  have up: "evUp ?ev = (\<lambda>_. True)" by (simp add: sampleEnv_def)
  have H: "handleStep (\<lambda>_. True) PeerEOF s1 ?ev 0 1 ?c (request [''SET'', ''k'', ''v''] @ []) w1 = (Running, ?c', [], ?w3)"
  proof -
    have "ReadCommand (request [''SET'', ''k'', ''v''] @ []) = (Inr [''SET'', ''k'', ''v''], [])"
      by (rule ReadCommand_request) (simp add: requestable_def maxAlloc_def sizeofValue_def)
    then show ?thesis using D up by (simp add: handleStep_def serveCommand_def WriteValue_def newContext_def Let_def)
  qed
  have same: "sameData w2 ?w3" using same_writeAll same_withMetrics sameData_trans by blast
  note dur = first_start [OF B durConfig_sane durConfig_aof, of 5]
  have t2: "tenantCount w2 = 2" using st(1) w1(1) by (auto simp: dbStep_def)
  have "settled w2"
  proof -
    have "dated (dbOf 0 w2)" using l by (auto simp: dated_def newEntry_def split: if_splits)
    moreover have "dbOf 1 w2 = dbOf 1 w" using dbStep_frame(1) [OF st(1), of 1] A(2) by (simp add: dbOf_def)
    moreover have "dated (dbOf 1 w)" "\<And>e. wEng w = Some e \<Longrightarrow> aof e"
      using durableE [OF dur] w(1) unfolding safe_def logOpen_def dbOf_def by (metis one_less_numeral_iff semiring_norm(76), metis option.inject)
    ultimately show ?thesis using st(2) A(3) t2 by (cases "wEng w") (auto simp: settled_def less_2_cases_iff)
  qed
  then have set: "settled ?w3" using settled_same [OF same] by simp
  have cl: "clocked 5 10 ?ev" "fineIO (evIO ?ev)" by (simp_all add: clocked_def mono_def sampleEnv_def is_perm_def fineIO_def ioFine_def)
  let ?y1 = "\<lparr>yServer = s1, yWorld = w1, yLive = [1 \<mapsto> ?c]\<rparr>" let ?y = "?y1\<lparr>yWorld := ?w3, yLive := (yLive ?y1)(1 \<mapsto> ?c')\<rparr>"
  have r1: "dur_run 5 ?start 5 [] ?y1" using dur_next [OF dur_start dur_accepted [of ?start 1 "\<lambda>_. True"]] A(1) by simp
  have r: "dur_run 5 ?start 10 [] ?y"
    by (rule dur_next [OF r1], rule dur_served [OF _ cl _ set]) (use H in simp_all)
  note sd = sameData_tenants [OF same]
  have n: "0 < Len (wTenants (yWorld ?y))" using sd(1) t2 by (simp add: Len_def del: writeAll.simps)
  have "dbOf 0 ?w3 = dbOf 0 w2" using sd(2) t2 by simp
  then have v: "visible now (dbOf 0 (yWorld ?y)) ''k'' = Some (''v'', 0)" for now using l by (simp add: visible_def newEntry_def expired_def del: writeAll.simps)
  obtain e where e: "wEng w = Some e" "hasAOF e" "aof e" using durableE [OF dur] unfolding logOpen_def by blast
  have "map tName (order (wTenants w)) = [''a'', ''b'']" using durableE [OF dur] by (simp add: durConfig_facts demoTenant_def)
  then have "tName (theTenant 0 (wTenants w)) = ''a''" using w(1) unfolding theTenant_def by (metis length_greater_0_conv nth_Cons_0 nth_map zero_less_numeral)
  then have "dAof (wDisk w2) = Some [Line (setLine ''k'' ''v'')]" using lines e A w(4) by simp
  moreover have "wDisk ?w3 = wDisk w2" using same unfolding sameData_def by blast
  ultimately show ?thesis using B r n v by (intro exI [of _ s] exI [of _ w] exI [of _ ?y]) (simp del: writeAll.simps)
qed


lemma demo_loadable: "loadable (demoBoot\<lparr>beLoad := loadNow unixEpoch\<rparr>) durConfig unixEpoch [setLine ''k'' ''v'']"
proof -
  let ?ls = "[setLine ''k'' ''v'']" and ?cs = "toTenantConfigs (Tenants durConfig)"
  have "logFits unixEpoch ?ls r" if N: "NewRegistry (beRandom demoBoot) ?cs = Inr r" for r
    unfolding logFits_def Let_def
  proof (intro allI impI conjI ballI)
    fix t si
    assume t: "t < Len r"
    have "\<forall>c \<in> set ?cs. sane (storeConfig c)" using durConfig_sane by (auto simp: toTenantConfigs_def)
    note n = NewRegistry_tenants [OF N this]
    have i: "t < length ?cs" using t n(2) by (simp add: Len_def)
    have cs: "?cs = [toTenantConfig (demoTenant ''a''), toTenantConfig (demoTenant ''b'')]" by (simp add: toTenantConfigs_def durConfig_facts)
    have "storeConfig (toTenantConfig (demoTenant ''b'')) = storeConfig (toTenantConfig (demoTenant ''a''))"
      by (simp add: storeConfig_def toTenantConfig_def demoTenant_def evictionFromConfig_def)
    moreover have "t = 0 \<or> t = 1" using i by (auto simp: cs)
    ultimately have c: "storeConfig (?cs ! t) = storeConfig (toTenantConfig (demoTenant ''a''))" unfolding cs by (elim disjE) simp_all
    have T: "tDB (theTenant t r) = New (storeConfig (toTenantConfig (demoTenant ''a''))) (beRandom demoBoot t)"
      using n(3) [OF i] c by (simp add: newTenant_def Let_def)
    have "MaxMemory (storeConfig (toTenantConfig (demoTenant ''a''))) = 1000" "Strategy (storeConfig (toTenantConfig (demoTenant ''a''))) = 1"
      by (simp_all add: storeConfig_def toTenantConfig_def demoTenant_def strategy_defs)
    then have "MaxMemory (cfg (tDB (theTenant t r))) = 1000" "Strategy (cfg (tDB (theTenant t r))) = 1" "used (tDB (theTenant t r)) = 0"
      unfolding T by (simp_all add: New_def Let_def normConfig_def strategy_defs)
    then have "limitOf si (tDB (theTenant t r)) = 1000" "used (tDB (theTenant t r)) = 0" by (simp_all add: limitOf_def strategy_defs)
    moreover have "logSize m ?ls \<le> 1000" for m by (simp add: logSize_def setLine_def lineSize_def memSize_def EntryOverhead_def)
    ultimately show "used (tDB (theTenant t r)) + logSize (tName (theTenant t r)) ?ls \<le> limitOf si (tDB (theTenant t r))" by simp
  qed (auto simp: lineFits_def setLine_def)
  moreover have "lineClean (setLine ''k'' ''v'')" using setLine_clean [of "''k''"] by (simp add: byte_def)
  moreover have "snd (capTenantMaxClients (bePrintable demoBoot) durConfig) = durConfig" by (simp add: capTenantMaxClients_def durConfig_facts)
  ultimately show ?thesis by (simp add: loadable_def demoBoot_def)
qed


end
